(* ===== verification/Prelude.thy ===== *)
theory Prelude
  imports Main "HOL-Library.Word"
begin

text \<open>
  What every component shares: the fixed-width integer types of the C++ code, the type of
  the ways a run can stop, results as a sum of a fault and a value with the sequencing
  operator \<open>rbind\<close>, and the collections of facts the component proofs draw on.

  A \<open>fault\<close> is one of the exits of the interpreter (\<open>error.cpp\<close>), an
  exception that nothing catches, or an operation the C++ standard leaves undefined. An
  undefined operation is a value of its own, so that a theorem can say that it does or does
  not occur.
\<close>

type_synonym u8 = "8 word"
type_synonym u32 = "32 word"
type_synonym u64 = "64 word"

datatype fault =
    Syntax_error string       \<comment> \<open>\<open>invoke_syntax_error\<close>\<close>
  | Runtime_error string      \<comment> \<open>\<open>invoke_runtime_error\<close>\<close>
  | Assertion_failed          \<comment> \<open>\<open>invoke_assertion_failed\<close>\<close>
  | Uncaught_exception string \<comment> \<open>an exception that leaves \<open>main\<close>\<close>
  | Undefined string          \<comment> \<open>behaviour the C++ standard does not define\<close>

type_synonym 'a result = "fault + 'a"

definition rbind :: "'e + 'a \<Rightarrow> ('a \<Rightarrow> 'e + 'b) \<Rightarrow> 'e + 'b" where
  "rbind r f = (case r of Inl e \<Rightarrow> Inl e | Inr x \<Rightarrow> f x)"

named_theorems result_iff "when a sequence of fallible steps succeeds or fails"
named_theorems inv_intros "operations keep the invariants of their component"

lemma rbind_simps [simp]:
  "rbind (Inl e) f = Inl e"
  "rbind (Inr x) f = f x"
  by (simp_all add: rbind_def)

lemma rbind_Inr_iff [result_iff]: "rbind r f = Inr y \<longleftrightarrow> (\<exists>x. r = Inr x \<and> f x = Inr y)"
  by (cases r) simp_all

lemma rbind_Inl_iff [result_iff]:
  "rbind r f = Inl e \<longleftrightarrow> r = Inl e \<or> (\<exists>x. r = Inr x \<and> f x = Inl e)"
  by (cases r) simp_all

lemma rbind_assoc: "rbind (rbind r f) g = rbind r (\<lambda>x. rbind (f x) g)"
  by (cases r) simp_all

lemma rbind_return [simp]: "rbind r Inr = r"
  by (cases r) simp_all

lemma rbind_cong [fundef_cong]:
  "\<lbrakk> r = r'; \<And>x. r' = Inr x \<Longrightarrow> f x = f' x \<rbrakk> \<Longrightarrow> rbind r f = rbind r' f'"
  by (cases r') simp_all

definition guard_result :: "bool \<Rightarrow> 'e \<Rightarrow> 'e + unit" where
  "guard_result b e = (if b then Inr () else Inl e)"

lemma guard_result_iff [result_iff]:
  "guard_result b e = Inr u \<longleftrightarrow> b"
  "guard_result b e = Inl e' \<longleftrightarrow> \<not> b \<and> e' = e"
  by (auto simp: guard_result_def)

definition is_undefined :: "fault \<Rightarrow> bool" where
  "is_undefined e = (case e of Undefined _ \<Rightarrow> True | _ \<Rightarrow> False)"

lemma is_undefined_simps [simp]:
  "is_undefined (Undefined s)"
  "\<not> is_undefined (Syntax_error s)"
  "\<not> is_undefined (Runtime_error s)"
  "\<not> is_undefined (Uncaught_exception s)"
  "\<not> is_undefined Assertion_failed"
  by (simp_all add: is_undefined_def)

subsection \<open>Words as numbers\<close>

lemma unat_add_no_wrap:
  fixes a b :: "'a::len word"
  assumes "unat a + unat b < 2 ^ LENGTH('a)"
  shows "unat (a + b) = unat a + unat b"
  using assms by (simp add: unat_word_ariths)

lemma unat_diff_le:
  fixes a b :: "'a::len word"
  assumes "b \<le> a"
  shows "unat (a - b) = unat a - unat b"
  using assms by (simp add: unat_sub)

lemma unat_eq_iff: "unat a = unat b \<longleftrightarrow> a = b"
  by (rule word_unat_eq_iff [symmetric])

lemma u64_less_bound [simp]: "unat (w :: u64) < 18446744073709551616"
  using unsigned_less [where 'a = nat, of w] by simp

end
