(* ===== verification/Isa.thy ===== *)
theory Isa
  imports Complex_Main Prelude
begin

text \<open>
  The instruction set as the interpreter stores it: access sizes and bit widths
  (\<open>size.h\<close>, \<open>size.cpp\<close>), register numbers (\<open>reg.h\<close>), the kinds of binary
  operation and the costs (\<open>opcode.h\<close>), operands (\<open>value.h\<close>) and statements
  (\<open>stmt.h\<close>).

  The enumerators of \<open>Reg\<close> are used as integers throughout the code (it casts
  \<open>(Reg)(num - 1)\<close>, compares \<open>A1 <= reg\<close> and counts \<open>r++\<close>), so a register is its
  number. Costs are \<open>double\<close> in the code; the model keeps the exact rational number, without
  the rounding of floating-point addition.
\<close>

subsection \<open>Sizes\<close>

datatype msize = MSize1 | MSize2 | MSize4 | MSize8

datatype bitsize = Size1 | Size8 | Size16 | Size32 | Size64

fun msize_of :: "msize \<Rightarrow> nat" where
  "msize_of MSize1 = 1"
| "msize_of MSize2 = 2"
| "msize_of MSize4 = 4"
| "msize_of MSize8 = 8"

fun bw_of :: "bitsize \<Rightarrow> nat" where
  "bw_of Size1 = 1"
| "bw_of Size8 = 8"
| "bw_of Size16 = 16"
| "bw_of Size32 = 32"
| "bw_of Size64 = 64"

text \<open>Access sizes are ordered by the number of bytes they touch.\<close>

instantiation msize :: linorder
begin

definition less_eq_msize :: "msize \<Rightarrow> msize \<Rightarrow> bool" where
  "less_eq_msize a b \<longleftrightarrow> msize_of a \<le> msize_of b"

definition less_msize :: "msize \<Rightarrow> msize \<Rightarrow> bool" where
  "less_msize a b \<longleftrightarrow> msize_of a < msize_of b"

instance
proof
  fix a b :: msize
  show "a \<le> b \<Longrightarrow> b \<le> a \<Longrightarrow> a = b"
    by (cases a; cases b) (simp_all add: less_eq_msize_def)
qed (auto simp: less_eq_msize_def less_msize_def)

end

lemma msize_le_8 [simp]: "sz \<le> MSize8"
  by (cases sz) (simp_all add: less_eq_msize_def)

lemma msize_of_bounds: "0 < msize_of sz" "msize_of sz \<le> 8" "msize_of sz dvd 8"
  by (cases sz; simp)+

lemma bw_of_bounds: "0 < bw_of sz" "bw_of sz \<le> 64"
  by (cases sz; simp)+

subsection \<open>Registers\<close>

type_synonym reg = nat

definition R1 :: reg where "R1 = 0"
definition R16 :: reg where "R16 = 15"
definition A1 :: reg where "A1 = 16"
definition A16 :: reg where "A16 = 31"
definition RegSp :: reg where "RegSp = 32"
definition RegNone :: reg where "RegNone = 33"

definition NREGS :: nat where "NREGS = 33"

lemmas reg_numbers = R1_def R16_def A1_def A16_def RegSp_def RegNone_def NREGS_def

subsection \<open>Binary operations and costs\<close>

datatype bop_kind =
    Udiv | Sdiv | Urem | Srem | Mul
  | Shl | Lshr | Ashr | And | Or | Xor | Add | Sub
  | Eq | Ne | Ugt | Uge | Ult | Ule | Sgt | Sge | Slt | Sle

definition COST_MALLOC :: rat where "COST_MALLOC = 1"
definition COST_FREE :: rat where "COST_FREE = 1"
definition COST_STACK :: rat where "COST_STACK = 2"
definition COST_HEAP :: rat where "COST_HEAP = 4"
definition COST_PER_BYTE :: rat where "COST_PER_BYTE = 4 / 10000"
definition COST_RESET :: rat where "COST_RESET = 2"
definition COST_TERMINATOR :: rat where "COST_TERMINATOR = 1"
definition COST_MULDIV :: rat where "COST_MULDIV = 6 / 10"
definition COST_LOGICAL :: rat where "COST_LOGICAL = 8 / 10"
definition COST_ADDSUB :: rat where "COST_ADDSUB = 12 / 10"
definition COST_COMP :: rat where "COST_COMP = 1"
definition COST_TERNARY :: rat where "COST_TERNARY = 12 / 10"
definition COST_CALL :: rat where "COST_CALL = 2"
definition COST_PER_ARG :: rat where "COST_PER_ARG = 1"
definition COST_ASSERT :: rat where "COST_ASSERT = 0"

lemmas cost_defs = COST_MALLOC_def COST_FREE_def COST_STACK_def COST_HEAP_def
  COST_PER_BYTE_def COST_RESET_def COST_TERMINATOR_def COST_MULDIV_def COST_LOGICAL_def
  COST_ADDSUB_def COST_COMP_def COST_TERNARY_def COST_CALL_def COST_PER_ARG_def COST_ASSERT_def

subsection \<open>Operands and statements\<close>

text \<open>\<open>Value\<close> is a tagged union of a register and a 64-bit literal.\<close>

datatype val = VReg reg | VLit u64

text \<open>
  A statement has a line number, a left-hand side (\<open>RegNone\<close> when it has none) and a body;
  the body's constructors are the subclasses of \<open>Stmt\<close>. The pointer to the next statement
  is the tail of the list that represents a basic block. The case table of a switch is the list
  of its insertions into \<open>map<uint64_t, string>\<close>, without duplicate keys.
\<close>

datatype stmt_body =
    SMalloc val
  | SFree val
  | SLoad msize val u64
  | SStore msize val val u64
  | SResetStack
  | SResetHeap
  | SRet val
  | SBrUncond string
  | SBrCond val string string
  | SSwitch val "(u64 \<times> string) list" string
  | SBop bop_kind val val bitsize
  | SSelect val val val
  | SCall string "val list"
  | SAssert val val
  | SRead
  | SWrite val

record stmt =
  get_line :: int
  get_lhs :: reg
  body :: stmt_body

fun is_terminator :: "stmt_body \<Rightarrow> bool" where
  "is_terminator (SRet _) = True"
| "is_terminator (SBrUncond _) = True"
| "is_terminator (SBrCond _ _ _) = True"
| "is_terminator (SSwitch _ _ _) = True"
| "is_terminator _ = False"

text \<open>\<open>StmtSwitch::set_bb\<close>, \<open>case_exists\<close>: the case table.\<close>

definition case_exists :: "(u64 \<times> string) list \<Rightarrow> u64 \<Rightarrow> bool" where
  "case_exists tbl v \<longleftrightarrow> map_of tbl v \<noteq> None"

definition switch_set_bb :: "(u64 \<times> string) list \<Rightarrow> u64 \<Rightarrow> string \<Rightarrow> (u64 \<times> string) list \<times> bool" where
  "switch_set_bb tbl v bb = (if case_exists tbl v then (tbl, False) else (tbl @ [(v, bb)], True))"

end
