(* ===== verification/Bytes.thy ===== *)
theory Bytes
  imports Isa
begin

unbundle bit_operations_syntax

text \<open>
  The two loops of \<open>memory.cpp\<close> that move a number between a 64-bit value and a run of
  bytes, \<open>load_little_endian\<close> and \<open>store_little_endian\<close>, over a byte buffer and an
  index that stands for the pointer. \<open>le_word\<close> and \<open>le_bytes\<close> are the reference
  encoding; the lemmas show that the loops implement it, that a load after a store of the same
  bytes returns the value truncated to the access size, and that a store leaves the other bytes
  alone.
\<close>

subsection \<open>The loops of the code\<close>

fun load_loop :: "nat \<Rightarrow> u8 list \<Rightarrow> nat \<Rightarrow> u64 \<Rightarrow> u64" where
  "load_loop 0 bs ptr acc = acc"
| "load_loop (Suc n) bs ptr acc = load_loop n bs (ptr - 1) (push_bit 8 acc + ucast (bs ! (ptr - 1)))"

definition load_little_endian :: "nat \<Rightarrow> u8 list \<Rightarrow> nat \<Rightarrow> u64" where
  "load_little_endian sz bs ptr = load_loop sz bs (ptr + sz) 0"

fun store_little_endian :: "nat \<Rightarrow> u8 list \<Rightarrow> nat \<Rightarrow> u64 \<Rightarrow> u8 list" where
  "store_little_endian 0 bs ptr v = bs"
| "store_little_endian (Suc n) bs ptr v =
     store_little_endian n (bs[ptr := ucast (v AND 0xFF)]) (ptr + 1) (drop_bit 8 v)"

subsection \<open>The reference encoding\<close>

fun le_word :: "u8 list \<Rightarrow> u64" where
  "le_word [] = 0"
| "le_word (b # bs) = ucast b + push_bit 8 (le_word bs)"

fun le_bytes :: "nat \<Rightarrow> u64 \<Rightarrow> u8 list" where
  "le_bytes 0 v = []"
| "le_bytes (Suc n) v = ucast v # le_bytes n (drop_bit 8 v)"

definition patch :: "u8 list \<Rightarrow> nat \<Rightarrow> u8 list \<Rightarrow> u8 list" where
  "patch bs p new = take p bs @ new @ drop (p + length new) bs"

lemma length_le_bytes [simp]: "length (le_bytes n v) = n"
  by (induction n arbitrary: v) auto

lemma length_patch [simp]: "p + length new \<le> length bs \<Longrightarrow> length (patch bs p new) = length bs"
  by (simp add: patch_def)

lemma length_store [simp]: "length (store_little_endian n bs p v) = length bs"
  by (induction n bs p v rule: store_little_endian.induct) auto

lemma ucast_mask_byte: "(ucast (v AND 0xFF) :: u8) = ucast (v :: u64)"
proof (rule bit_word_eqI)
  fix i assume i: "i < LENGTH(8)"
  have "bit (0xFF :: u64) i = (i < 8)"
    using i bit_mask_iff [of 8 i, where 'a = "64 word"] by (simp add: mask_eq_exp_minus_1)
  then show "bit (ucast (v AND 0xFF) :: u8) i = bit (ucast v :: u8) i"
    using i by (simp add: bit_ucast_iff bit_and_iff)
qed

lemma le_word_snoc: "le_word (bs @ [b]) = le_word bs + push_bit (8 * length bs) (ucast b)"
  by (induction bs) (simp_all add: push_bit_add ac_simps)

lemma load_loop_le_word:
  "p + n \<le> length bs \<Longrightarrow>
   load_loop n bs (p + n) s = push_bit (8 * n) s + le_word (take n (drop p bs))"
proof (induction n arbitrary: s)
  case (Suc n)
  then have "take (Suc n) (drop p bs) = take n (drop p bs) @ [bs ! (p + n)]"
    by (simp add: take_Suc_conv_app_nth)
  with Suc show ?case
    by (simp add: le_word_snoc push_bit_add ac_simps)
qed simp

lemma load_little_endian_le_word:
  "p + n \<le> length bs \<Longrightarrow> load_little_endian n bs p = le_word (take n (drop p bs))"
  by (simp add: load_little_endian_def load_loop_le_word)

lemma patch_Cons:
  assumes "p + Suc (length new) \<le> length bs"
  shows "patch (bs[p := b]) (p + 1) new = patch bs p (b # new)"
proof -
  have "take (p + 1) (bs[p := b]) = take p bs @ [b]"
    using assms by (simp add: take_Suc_conv_app_nth take_update_swap list_update_append)
  then show ?thesis
    using assms by (simp add: patch_def)
qed

lemma store_little_endian_patch:
  "p + n \<le> length bs \<Longrightarrow> store_little_endian n bs p v = patch bs p (le_bytes n v)"
proof (induction n arbitrary: bs p v)
  case (Suc n)
  then have "store_little_endian (Suc n) bs p v
      = patch (bs[p := ucast v]) (p + 1) (le_bytes n (drop_bit 8 v))"
    by (simp add: ucast_mask_byte)
  also have "\<dots> = patch bs p (le_bytes (Suc n) v)"
    using Suc.prems by (subst patch_Cons) simp_all
  finally show ?case .
qed (simp add: patch_def)

lemma take_bit_byte_split:
  "take_bit (8 + n) (v :: u64) = ucast (ucast v :: u8) + push_bit 8 (take_bit n (drop_bit 8 v))"
proof -
  have "ucast (ucast v :: u8) + push_bit 8 (take_bit n (drop_bit 8 v))
      = (ucast (ucast v :: u8) OR push_bit 8 (take_bit n (drop_bit 8 v)) :: u64)"
    by (rule disjunctive_add) (auto simp: bit_ucast_iff bit_push_bit_iff)
  also have "\<dots> = take_bit (8 + n) v"
    by (rule bit_word_eqI)
      (auto simp: bit_or_iff bit_ucast_iff bit_push_bit_iff bit_take_bit_iff bit_drop_bit_eq)
  finally show ?thesis by simp
qed

lemma le_word_le_bytes: "le_word (le_bytes n v) = take_bit (8 * n) v"
  by (induction n arbitrary: v) (simp_all add: take_bit_byte_split)

subsection \<open>Loads after stores\<close>

lemma load_store_same:
  assumes "p + n \<le> length bs"
  shows "load_little_endian n (store_little_endian n bs p v) p = take_bit (8 * n) v"
proof -
  have "take n (drop p (patch bs p (le_bytes n v))) = le_bytes n v"
    using assms by (simp add: patch_def)
  then show ?thesis
    using assms by (simp add: store_little_endian_patch load_little_endian_le_word le_word_le_bytes)
qed

lemma take_drop_patch_disjoint:
  assumes "q + m \<le> length bs" and "p + length new \<le> length bs"
    and "q + m \<le> p \<or> p + length new \<le> q"
  shows "take m (drop q (patch bs p new)) = take m (drop q bs)"
proof (rule nth_equalityI)
  show "length (take m (drop q (patch bs p new))) = length (take m (drop q bs))"
    using assms by simp
next
  fix i assume "i < length (take m (drop q (patch bs p new)))"
  then have i: "i < m" "q + i < length bs" using assms by simp_all
  then have "patch bs p new ! (q + i) = bs ! (q + i)"
    using assms by (auto simp: patch_def nth_append)
  then show "take m (drop q (patch bs p new)) ! i = take m (drop q bs) ! i"
    using i assms by simp
qed

lemma load_store_disjoint:
  assumes "q + m \<le> length bs" and "p + n \<le> length bs" and "q + m \<le> p \<or> p + n \<le> q"
  shows "load_little_endian m (store_little_endian n bs p v) q = load_little_endian m bs q"
  using assms
  by (simp add: store_little_endian_patch load_little_endian_le_word take_drop_patch_disjoint)

text \<open>An access reads or writes its own number of bits only.\<close>

lemma le_word_bound: "length bs \<le> 8 \<Longrightarrow> take_bit (8 * length bs) (le_word bs) = le_word bs"
proof (induction bs)
  case (Cons b bs)
  let ?w = "le_word bs" and ?n = "8 * length bs"
  have low: "drop_bit 8 (ucast b + push_bit 8 ?w) = take_bit 56 ?w"
    if "length bs \<le> 7"
  proof -
    have "ucast b + push_bit 8 ?w = (ucast b OR push_bit 8 ?w :: u64)"
      by (rule disjunctive_add) (auto simp: bit_ucast_iff bit_push_bit_iff dest: bit_imp_le_length)
    then show ?thesis
      by (intro bit_word_eqI)
        (auto simp: bit_drop_bit_eq bit_or_iff bit_ucast_iff bit_push_bit_iff bit_take_bit_iff
          dest: bit_imp_le_length)
  qed
  have u: "(ucast (ucast b + push_bit 8 ?w :: u64) :: u8) = b"
  proof -
    have "ucast b + push_bit 8 ?w = (ucast b OR push_bit 8 ?w :: u64)"
      by (rule disjunctive_add) (auto simp: bit_ucast_iff bit_push_bit_iff dest: bit_imp_le_length)
    then show ?thesis
      by (intro bit_word_eqI) (auto simp: bit_or_iff bit_ucast_iff bit_push_bit_iff)
  qed
  have n: "?n \<le> 56" using Cons.prems by simp
  have "take_bit (8 + ?n) (ucast b + push_bit 8 ?w)
      = ucast b + push_bit 8 (take_bit ?n (take_bit 56 ?w))"
    using low Cons.prems by (simp add: take_bit_byte_split u)
  also have "take_bit ?n (take_bit 56 ?w) = ?w"
    using Cons n by (simp add: min_def)
  finally show ?case by simp
qed simp

end
