(* ===== verification/Ordered_Set.thy ===== *)
theory Ordered_Set
  imports Main
begin

text \<open>
  \<open>std::set\<close> as the list of its elements in iteration order, compared by a key \<open>f\<close>.
  \<open>lower_bound\<close> returns the elements from the iterator of the C++ function on, and
  \<open>below\<close> the elements before it, so the element before the iterator is the last of
  \<open>below\<close>. The lemmas compute each operation on a list that is already split at the key.
\<close>

definition below :: "('a \<Rightarrow> 'k::linorder) \<Rightarrow> 'k \<Rightarrow> 'a list \<Rightarrow> 'a list" where
  "below f k xs = takeWhile (\<lambda>x. f x < k) xs"

definition lower_bound :: "('a \<Rightarrow> 'k::linorder) \<Rightarrow> 'k \<Rightarrow> 'a list \<Rightarrow> 'a list" where
  "lower_bound f k xs = dropWhile (\<lambda>x. f x < k) xs"

definition set_insert :: "('a \<Rightarrow> 'k::linorder) \<Rightarrow> 'a \<Rightarrow> 'a list \<Rightarrow> 'a list" where
  "set_insert f x xs =
     (case lower_bound f (f x) xs of
        [] \<Rightarrow> xs @ [x]
      | y # ys \<Rightarrow> if f y = f x then xs else below f (f x) xs @ x # y # ys)"

definition set_erase :: "('a \<Rightarrow> 'k) \<Rightarrow> 'k \<Rightarrow> 'a list \<Rightarrow> 'a list" where
  "set_erase f k xs = filter (\<lambda>x. f x \<noteq> k) xs"

lemma below_append_lower_bound [simp]: "below f k xs @ lower_bound f k xs = xs"
  by (simp add: below_def lower_bound_def)

lemma below_split:
  assumes "\<forall>a \<in> set as. f a < k" and "\<forall>b \<in> set bs. k \<le> f b"
  shows "below f k (as @ bs) = as" and "lower_bound f k (as @ bs) = bs"
proof -
  have "bs = [] \<or> \<not> f (hd bs) < k"
    using assms(2) by (cases bs) auto
  then show "below f k (as @ bs) = as" "lower_bound f k (as @ bs) = bs"
    using assms(1)
    by (cases bs; auto simp: below_def lower_bound_def takeWhile_append dropWhile_append)+
qed

lemma set_insert_split:
  assumes "\<forall>a \<in> set as. f a < f x" and "\<forall>b \<in> set bs. f x < f b"
  shows "set_insert f x (as @ bs) = as @ x # bs"
proof -
  have "\<forall>b \<in> set bs. f x \<le> f b" using assms(2) by auto
  note split = below_split [OF assms(1) this]
  show ?thesis
    unfolding set_insert_def split using assms(2) by (cases bs) auto
qed

lemma set_erase_split:
  assumes "\<forall>a \<in> set as. f a \<noteq> f x" and "\<forall>b \<in> set bs. f b \<noteq> f x"
  shows "set_erase f (f x) (as @ x # bs) = as @ bs"
  using assms by (simp add: set_erase_def filter_id_conv)

end
