(* ===== verification/Cxx_Strings.thy ===== *)
theory Cxx_Strings
  imports Prelude
begin

text \<open>
  The part of the C++ standard library the interpreter calls on text: the classification of
  white space, extraction of a word from a stream (\<open>stream >> token\<close>), \<open>std::stoull\<close>,
  \<open>std::stoi\<close> and \<open>std::to_string\<close>. A conversion that throws is \<open>None\<close>. The
  lemmas give the round trip between printing and reading a number and the words of a line
  that is put together from words and white space.
\<close>

subsection \<open>White space and words\<close>

definition is_space :: "char \<Rightarrow> bool" where
  "is_space c \<longleftrightarrow> c = CHR 0x20 \<or> c = CHR 0x09 \<or> c = CHR 0x0A \<or> c = CHR 0x0B \<or> c = CHR 0x0C \<or> c = CHR 0x0D"

definition newline :: char where
  "newline = CHR 0x0A"

text \<open>\<open>stream >> token\<close>: skip white space, then read up to the next white space.\<close>

definition extract_word :: "string \<Rightarrow> string \<times> string" where
  "extract_word s =
     (let t = dropWhile is_space s
      in (takeWhile (\<lambda>c. \<not> is_space c) t, dropWhile (\<lambda>c. \<not> is_space c) t))"

lemma extract_word_shorter:
  assumes "fst (extract_word s) \<noteq> []"
  shows "length (snd (extract_word s)) < length s"
proof -
  let ?t = "dropWhile is_space s"
  from assms have "takeWhile (\<lambda>c. \<not> is_space c) ?t \<noteq> []"
    by (simp add: extract_word_def Let_def)
  then have "length (dropWhile (\<lambda>c. \<not> is_space c) ?t) < length ?t"
    by (cases ?t) (auto simp: le_imp_less_Suc length_dropWhile_le)
  also have "\<dots> \<le> length s" by (rule length_dropWhile_le)
  finally show ?thesis by (simp add: extract_word_def Let_def)
qed

text \<open>All the words a loop \<open>while (stream >> token)\<close> reads.\<close>

function words_of :: "string \<Rightarrow> string list" where
  "words_of s = (if fst (extract_word s) = [] then []
                 else fst (extract_word s) # words_of (snd (extract_word s)))"
  by pat_completeness auto
termination
  by (relation "measure length") (auto intro: extract_word_shorter)

declare words_of.simps [simp del]

lemma words_of_Nil [simp]: "words_of [] = []"
  by (subst words_of.simps) (simp add: extract_word_def)

lemma words_of_space [simp]: "is_space c \<Longrightarrow> words_of (c # s) = words_of s"
  by (simp add: words_of.simps [of "c # s"] words_of.simps [of s] extract_word_def)

lemma words_of_spaces [simp]: "\<forall>c \<in> set ws. is_space c \<Longrightarrow> words_of (ws @ s) = words_of s"
  by (induction ws) auto

lemma words_of_only_spaces: "\<forall>c \<in> set ws. is_space c \<Longrightarrow> words_of ws = []"
  using words_of_spaces [of ws "[]"] by simp

definition solid :: "string \<Rightarrow> bool" where
  "solid w \<longleftrightarrow> w \<noteq> [] \<and> (\<forall>c \<in> set w. \<not> is_space c)"

lemma words_of_word:
  assumes "solid w" and "s = [] \<or> is_space (hd s)"
  shows "words_of (w @ s) = w # words_of s"
proof -
  have d: "dropWhile is_space (w @ s) = w @ s"
    using assms(1) by (cases w) (auto simp: solid_def)
  have t: "takeWhile (\<lambda>c. \<not> is_space c) (w @ s) = w"
    using assms by (cases s) (auto simp: solid_def takeWhile_append)
  have r: "dropWhile (\<lambda>c. \<not> is_space c) (w @ s) = s"
    using assms by (cases s) (auto simp: solid_def dropWhile_append)
  show ?thesis
    using assms(1)
    by (subst words_of.simps) (simp add: extract_word_def Let_def d t r solid_def)
qed

lemma words_of_word_end: "solid w \<Longrightarrow> words_of w = [w]"
  using words_of_word [of w "[]"] by simp

subsection \<open>Numbers\<close>

definition is_digit :: "char \<Rightarrow> bool" where
  "is_digit c \<longleftrightarrow> 48 \<le> (of_char c :: nat) \<and> (of_char c :: nat) \<le> 57"

definition digit_value :: "char \<Rightarrow> nat" where
  "digit_value c = of_char c - 48"

definition digit_char :: "nat \<Rightarrow> char" where
  "digit_char n = char_of (48 + n)"

definition nat_of_digits :: "string \<Rightarrow> nat" where
  "nat_of_digits s = foldl (\<lambda>n c. 10 * n + digit_value c) 0 s"

text \<open>\<open>strtoull\<close> reads leading white space, a sign and digits; \<open>std::stoull\<close> throws when
  there is no digit or the number is above the largest \<open>uint64_t\<close>. A minus sign negates
  in \<open>uint64_t\<close>.\<close>

definition split_sign :: "string \<Rightarrow> bool \<times> string" where
  "split_sign s = (case s of
      [] \<Rightarrow> (False, [])
    | c # t \<Rightarrow> if c = CHR ''-'' then (True, t) else if c = CHR ''+'' then (False, t) else (False, s))"

definition stoull :: "string \<Rightarrow> u64 option" where
  "stoull s =
     (let (neg, t) = split_sign (dropWhile is_space s);
          ds = takeWhile is_digit t;
          n = nat_of_digits ds
      in if ds = [] \<or> 2 ^ 64 \<le> n then None
         else Some (if neg then - of_nat n else of_nat n))"

definition stoi :: "string \<Rightarrow> int option" where
  "stoi s =
     (let (neg, t) = split_sign (dropWhile is_space s);
          ds = takeWhile is_digit t;
          i = (if neg then - int (nat_of_digits ds) else int (nat_of_digits ds))
      in if ds = [] \<or> i < - (2 ^ 31) \<or> 2 ^ 31 \<le> i then None else Some i)"

function nat_to_string :: "nat \<Rightarrow> string" where
  "nat_to_string n =
     (if n < 10 then [digit_char n] else nat_to_string (n div 10) @ [digit_char (n mod 10)])"
  by pat_completeness auto
termination by (relation "measure id") auto

declare nat_to_string.simps [simp del]

definition u64_to_string :: "u64 \<Rightarrow> string" where
  "u64_to_string w = nat_to_string (unat w)"

lemma digit_char_props:
  assumes "n < 10"
  shows "is_digit (digit_char n)" "digit_value (digit_char n) = n"
    "\<not> is_space (digit_char n)" "digit_char n \<noteq> CHR ''-''" "digit_char n \<noteq> CHR ''+''"
proof -
  have c: "(of_char (digit_char n) :: nat) = 48 + n"
    using assms by (simp add: digit_char_def)
  have neq: "digit_char n \<noteq> d" if "(of_char d :: nat) < 48" for d
    using that c by auto
  show "is_digit (digit_char n)" using assms by (simp add: is_digit_def c)
  show "digit_value (digit_char n) = n" by (simp add: digit_value_def c)
  show "\<not> is_space (digit_char n)" unfolding is_space_def using neq by auto
  show "digit_char n \<noteq> CHR ''-''" "digit_char n \<noteq> CHR ''+''" using neq by auto
qed

lemma nat_to_string_digits: "\<forall>c \<in> set (nat_to_string n). is_digit c \<and> \<not> is_space c"
proof (induction n rule: nat_to_string.induct)
  case (1 n)
  then show ?case
    by (subst nat_to_string.simps) (auto simp: digit_char_props)
qed

lemma nat_to_string_nonempty [simp]: "nat_to_string n \<noteq> []"
  by (subst nat_to_string.simps) simp

lemma nat_of_digits_snoc: "nat_of_digits (s @ [c]) = 10 * nat_of_digits s + digit_value c"
  by (simp add: nat_of_digits_def)

lemma nat_of_digits_to_string: "nat_of_digits (nat_to_string n) = n"
proof (induction n rule: nat_to_string.induct)
  case (1 n)
  show ?case
  proof (cases "n < 10")
    case True
    then show ?thesis
      by (subst nat_to_string.simps) (simp add: nat_of_digits_def digit_char_props)
  next
    case False
    then show ?thesis
      using 1 by (subst nat_to_string.simps) (simp add: nat_of_digits_snoc digit_char_props)
  qed
qed

lemma is_digit_not: "is_digit c \<Longrightarrow> c \<noteq> CHR ''-'' \<and> c \<noteq> CHR ''+'' \<and> \<not> is_space c"
  by (auto simp: is_digit_def is_space_def)

text \<open>A string of digits with anything but a digit after it.\<close>

lemma read_digits:
  assumes "ds \<noteq> []" and "\<forall>c \<in> set ds. is_digit c" and "t = [] \<or> \<not> is_digit (hd t)"
  shows "split_sign (dropWhile is_space (ds @ t)) = (False, ds @ t)"
    and "takeWhile is_digit (ds @ t) = ds"
proof -
  show "takeWhile is_digit (ds @ t) = ds"
    using assms by (cases t) (auto simp: takeWhile_append)
  have "dropWhile is_space (ds @ t) = ds @ t"
    using assms by (cases ds) (auto simp: is_digit_not)
  then show "split_sign (dropWhile is_space (ds @ t)) = (False, ds @ t)"
    using assms by (cases ds) (auto simp: split_sign_def is_digit_not)
qed

lemma stoull_digits:
  assumes "ds \<noteq> []" and "\<forall>c \<in> set ds. is_digit c" and "t = [] \<or> \<not> is_digit (hd t)"
  shows "stoull (ds @ t) =
    (if nat_of_digits ds < 2 ^ 64 then Some (of_nat (nat_of_digits ds)) else None)"
  using read_digits [OF assms] assms(1) by (simp add: stoull_def)

lemma stoi_digits:
  assumes "ds \<noteq> []" and "\<forall>c \<in> set ds. is_digit c" and "t = [] \<or> \<not> is_digit (hd t)"
  shows "stoi (ds @ t) =
    (if nat_of_digits ds < 2 ^ 31 then Some (int (nat_of_digits ds)) else None)"
  using read_digits [OF assms] assms(1) by (simp add: stoi_def)

lemma stoull_u64_to_string: "stoull (u64_to_string w) = Some w"
  using stoull_digits [of "nat_to_string (unat w)" "[]"] nat_to_string_digits [of "unat w"]
  by (simp add: u64_to_string_def nat_of_digits_to_string)

lemma solid_u64_to_string: "solid (u64_to_string w)"
  using nat_to_string_digits [of "unat w"] by (simp add: solid_def u64_to_string_def)

end
