(* ===== verification/Regfile.thy ===== *)
theory Regfile
  imports Isa Cxx_Strings
begin

text \<open>
  The register file (\<open>regfile.cpp\<close>, \<open>value.cpp\<close>): 33 registers, of which the argument
  registers are readable up to the number of arguments of the running function and never
  writable. The array is a list of length \<open>NREGS\<close>; an index outside it is undefined in C++.
  The lemmas give what a read returns after a write, and the locale \<open>register_bank\<close> is the
  interface the statements and calls rely on.
\<close>

definition STACK_MAX :: u64 where "STACK_MAX = 10240"

record regfile =
  regs :: "u64 list"
  nargs :: int

definition init_regfile :: regfile where
  "init_regfile = \<lparr>regs = (replicate NREGS 0)[RegSp := STACK_MAX], nargs = 0\<rparr>"

definition set_nargs :: "int \<Rightarrow> regfile \<Rightarrow> regfile" where
  "set_nargs n rf = rf\<lparr>nargs := n\<rparr>"

definition set_value :: "reg \<Rightarrow> u64 \<Rightarrow> regfile \<Rightarrow> regfile result" where
  "set_value r v rf =
     (if r = RegNone then Inr rf
      else if NREGS \<le> r then Inl (Undefined ''regfile index out of range'')
      else Inr (rf\<lparr>regs := (regs rf)[r := v]\<rparr>))"

definition read_reg :: "reg \<Rightarrow> regfile \<Rightarrow> u64 result" where
  "read_reg r rf =
     (if int A1 + nargs rf \<le> int r \<and> r \<le> A16
      then Inl (Runtime_error ''reading out-of-range argument'')
      else if r = RegNone then Inl (Runtime_error ''reading an unknown register'')
      else if NREGS \<le> r then Inl (Undefined ''regfile index out of range'')
      else Inr (regs rf ! r))"

definition write_reg :: "reg \<Rightarrow> u64 \<Rightarrow> regfile \<Rightarrow> regfile result" where
  "write_reg r v rf =
     (if r = RegNone then Inr rf
      else if A1 \<le> r \<and> r \<le> A16 then Inl (Runtime_error ''writing to a read-only register'')
      else if NREGS \<le> r then Inl (Undefined ''regfile index out of range'')
      else Inr (rf\<lparr>regs := (regs rf)[r := v]\<rparr>))"

text \<open>\<open>RegFile::to_string\<close>, the dump printed when an assertion fails.\<close>

definition regfile_to_string :: "regfile \<Rightarrow> string" where
  "regfile_to_string rf =
     concat (map (\<lambda>i. ''r'' @ nat_to_string (i + 1) @ ''['' @ u64_to_string (regs rf ! i) @ ''] '') [0..<16])
   @ concat (map (\<lambda>i. ''arg'' @ nat_to_string (i - 15) @ ''['' @ u64_to_string (regs rf ! i) @ ''] '') [16..<32])
   @ ''sp['' @ u64_to_string (regs rf ! 32) @ '']''"

definition regfile_ok :: "regfile \<Rightarrow> bool" where
  "regfile_ok rf \<longleftrightarrow> length (regs rf) = NREGS \<and> 0 \<le> nargs rf \<and> nargs rf \<le> 16"

fun get_value :: "val \<Rightarrow> regfile \<Rightarrow> u64 result" where
  "get_value (VReg r) rf = read_reg r rf"
| "get_value (VLit l) rf = Inr l"

text \<open>A register operand is one the parser can produce: anything up to \<open>sp\<close>.\<close>

definition writable :: "reg \<Rightarrow> bool" where
  "writable r \<longleftrightarrow> r \<le> R16 \<or> r = RegSp"

fun val_ok :: "val \<Rightarrow> bool" where
  "val_ok (VReg r) = (r \<le> RegSp)"
| "val_ok (VLit _) = True"

subsection \<open>The register bank as an interface\<close>

text \<open>
  What a client may rely on: a successful write is seen by a later read of the same register
  and by no other read, and keeps the invariant of the bank.
\<close>

locale register_bank =
  fixes rd :: "'r \<Rightarrow> 's \<Rightarrow> 'e + 'v"
    and wr :: "'r \<Rightarrow> 'v \<Rightarrow> 's \<Rightarrow> 'e + 's"
    and ok :: "'s \<Rightarrow> bool"
    and target :: "'r \<Rightarrow> bool"
  assumes wr_total: "\<lbrakk> ok s; target r \<rbrakk> \<Longrightarrow> \<exists>s'. wr r v s = Inr s'"
    and wr_ok: "\<lbrakk> ok s; wr r v s = Inr s' \<rbrakk> \<Longrightarrow> ok s'"
    and rd_wr_same: "\<lbrakk> ok s; target r; wr r v s = Inr s' \<rbrakk> \<Longrightarrow> rd r s' = Inr v"
    and rd_wr_other: "\<lbrakk> wr r v s = Inr s'; q \<noteq> r \<rbrakk> \<Longrightarrow> rd q s' = rd q s"
begin

fun wr_all :: "('r \<times> 'v) list \<Rightarrow> 's \<Rightarrow> 'e + 's" where
  "wr_all [] s = Inr s"
| "wr_all ((r, v) # ws) s = rbind (wr r v s) (wr_all ws)"

lemma wr_all_ok: "\<lbrakk> ok s; wr_all ws s = Inr s' \<rbrakk> \<Longrightarrow> ok s'"
  by (induction ws arbitrary: s) (auto simp: result_iff, metis wr_ok)

lemma wr_all_total: "\<lbrakk> ok s; \<forall>(r, v) \<in> set ws. target r \<rbrakk> \<Longrightarrow> \<exists>s'. wr_all ws s = Inr s'"
proof (induction ws arbitrary: s)
  case (Cons w ws)
  obtain r v where w: "w = (r, v)" by (cases w)
  with Cons.prems obtain s1 where "wr r v s = Inr s1" using wr_total by fastforce
  with Cons w show ?case using wr_ok by fastforce
qed simp

text \<open>The last write to a register wins.\<close>

lemma rd_wr_all_other:
  "\<lbrakk> wr_all ws s = Inr s'; q \<notin> fst ` set ws \<rbrakk> \<Longrightarrow> rd q s' = rd q s"
proof (induction ws arbitrary: s)
  case (Cons w ws)
  obtain r v where w: "w = (r, v)" by (cases w)
  with Cons.prems obtain s1 where s1: "wr r v s = Inr s1" and "wr_all ws s1 = Inr s'"
    by (auto simp: result_iff)
  then have "rd q s' = rd q s1" using Cons.IH Cons.prems(2) by simp
  with s1 w Cons.prems(2) show ?case using rd_wr_other by fastforce
qed simp

lemma rd_wr_all:
  "\<lbrakk> ok s; wr_all (ws @ (r, v) # ws') s = Inr s'; target r; r \<notin> fst ` set ws' \<rbrakk>
   \<Longrightarrow> rd r s' = Inr v"
proof (induction ws arbitrary: s)
  case Nil
  then obtain s1 where s1: "wr r v s = Inr s1" "wr_all ws' s1 = Inr s'"
    by (auto simp: result_iff)
  then have "rd r s' = rd r s1" using Nil.prems(4) by (intro rd_wr_all_other)
  with s1 Nil.prems show ?case using rd_wr_same by simp
next
  case (Cons w ws)
  then show ?case by (cases w) (auto simp: result_iff dest: wr_ok)
qed

end

lemmas regfile_defs = read_reg_def write_reg_def set_value_def regfile_ok_def

lemma write_reg_ok [inv_intros]: "\<lbrakk> regfile_ok rf; write_reg r v rf = Inr rf' \<rbrakk> \<Longrightarrow> regfile_ok rf'"
  by (auto simp: regfile_defs split: if_splits)

lemma set_value_ok [inv_intros]: "\<lbrakk> regfile_ok rf; set_value r v rf = Inr rf' \<rbrakk> \<Longrightarrow> regfile_ok rf'"
  by (auto simp: regfile_defs split: if_splits)

lemma init_regfile_ok: "regfile_ok init_regfile"
  by (simp add: regfile_ok_def init_regfile_def)

interpretation rbank: register_bank read_reg write_reg regfile_ok writable
proof
  fix s r v
  assume "regfile_ok s" "writable r"
  then show "\<exists>s'. write_reg r v s = Inr s'"
    by (auto simp: write_reg_def writable_def reg_numbers)
next
  fix s r v s'
  assume "regfile_ok s" "writable r" "write_reg r v s = Inr s'"
  then show "read_reg r s' = Inr v"
    by (auto simp: regfile_defs writable_def reg_numbers split: if_splits)
next
  fix r v s s' q
  assume "write_reg r v s = Inr s'" "q \<noteq> r"
  then show "read_reg q s' = read_reg q s"
    by (auto simp: regfile_defs split: if_splits)
qed (rule write_reg_ok)

lemma write_reg_nargs: "write_reg r v rf = Inr rf' \<Longrightarrow> nargs rf' = nargs rf"
  by (auto simp: write_reg_def split: if_splits)

subsection \<open>Reads and writes never leave the array\<close>

lemma read_reg_defined: "\<lbrakk> r \<le> RegNone; read_reg r rf = Inl e \<rbrakk> \<Longrightarrow> \<not> is_undefined e"
  by (auto simp: read_reg_def reg_numbers split: if_splits)

lemma write_reg_defined: "\<lbrakk> r \<le> RegNone; write_reg r v rf = Inl e \<rbrakk> \<Longrightarrow> \<not> is_undefined e"
  by (auto simp: write_reg_def reg_numbers split: if_splits)

lemma get_value_defined: "\<lbrakk> val_ok v; get_value v rf = Inl e \<rbrakk> \<Longrightarrow> \<not> is_undefined e"
  by (cases v) (auto simp: reg_numbers dest: read_reg_defined [rotated])

lemma write_reg_cases:
  assumes "write_reg r v rf = Inr rf'"
  shows "(r = RegNone \<and> rf' = rf) \<or> (writable r \<and> rf' = rf\<lparr>regs := (regs rf)[r := v]\<rparr>)"
proof (cases "r = RegNone")
  case True
  then show ?thesis using assms by (simp add: write_reg_def)
next
  case False
  with assms have "\<not> (A1 \<le> r \<and> r \<le> A16)" "r < NREGS" and rf': "rf' = rf\<lparr>regs := (regs rf)[r := v]\<rparr>"
    by (auto simp: write_reg_def split: if_splits)
  then have "writable r" by (auto simp: writable_def reg_numbers)
  with rf' show ?thesis by simp
qed

text \<open>
  A read succeeds exactly for r1 to r16, sp and the arguments the running function has.
\<close>

theorem read_reg_readable:
  assumes "regfile_ok rf"
  shows "(\<exists>v. read_reg r rf = Inr v) \<longleftrightarrow>
    r \<le> R16 \<or> r = RegSp \<or> (A1 \<le> r \<and> r \<le> A16 \<and> int r < int A1 + nargs rf)"
  using assms by (auto simp: regfile_defs reg_numbers)

theorem read_reg_readable_witness:
  "(\<exists>v. read_reg 17 (set_nargs 2 init_regfile) = Inr v) \<and> \<not> (\<exists>v. read_reg 18 (set_nargs 2 init_regfile) = Inr v)"
proof -
  have ok: "regfile_ok (set_nargs 2 init_regfile)"
    by (simp add: regfile_ok_def init_regfile_def set_nargs_def)
  show ?thesis
    unfolding read_reg_readable [OF ok]
    by (simp add: reg_numbers set_nargs_def)
qed

end
