(* ===== verification/Memory_Model.thy ===== *)
theory Memory_Model
  imports Bytes Ordered_Set Regfile "HOL-Library.Product_Lexorder"
begin

text \<open>
  The memory of the interpreter (\<open>memory.h\<close>, \<open>memory.cpp\<close>): a byte array for the
  stack, the sets of allocated and free heap blocks, the position of the head that access costs
  are measured from, and the heap usage counters.

  \<open>std::set\<close> is a list in iteration order (theory \<open>Ordered_Set\<close>). An allocated block
  carries the bytes of its own \<open>calloc\<close> buffer, which no other block shares, in place of the
  pointer; \<open>lower_bound\<close> is only ever called with keys that no element equals up to the
  pointer, so the order on pointers does not matter. Addresses and block bounds are 64-bit words
  and every sum and difference wraps around as in the code. Reads and writes outside a buffer
  are the fault \<open>Undefined\<close>. Whether \<open>calloc\<close> finds memory is a parameter.
\<close>

type_synonym block = "u64 \<times> u64"

definition STACK_MIN :: u64 where "STACK_MIN = 0"
definition HEAP_MIN :: u64 where "HEAP_MIN = 20480"
definition HEAP_MAX :: u64 where "HEAP_MAX = 18446744073709551608"

record memory =
  head :: u64
  stack :: "u8 list"
  alloced :: "(block \<times> u8 list) list"
  freed :: "block list"
  alloced_size :: u64
  max_alloced_size :: u64

definition init_memory :: memory where
  "init_memory =
     \<lparr>head = - 1, stack = replicate (unat STACK_MAX) 0, alloced = [],
      freed = [(HEAP_MIN, HEAP_MAX)], alloced_size = 0, max_alloced_size = 0\<rparr>"

definition find_block :: "u64 \<Rightarrow> memory \<Rightarrow> (block \<times> u8 list) result" where
  "find_block addr m =
     (let before = below fst (addr, - 1) (alloced m)
      in if before = [] then Inl (Runtime_error ''accessing non-allocated memory'')
         else let lb = last before
              in if snd (fst lb) \<le> addr then Inl (Runtime_error ''accessing non-allocated memory'')
                 else Inr lb)"

definition load_buffer :: "msize \<Rightarrow> u8 list \<Rightarrow> u64 \<Rightarrow> u64 result" where
  "load_buffer sz bs ofs =
     (if unat ofs + msize_of sz \<le> length bs
      then Inr (load_little_endian (msize_of sz) bs (unat ofs))
      else Inl (Undefined ''load outside the buffer''))"

definition store_buffer :: "msize \<Rightarrow> u8 list \<Rightarrow> u64 \<Rightarrow> u64 \<Rightarrow> u8 list result" where
  "store_buffer sz bs ofs v =
     (if unat ofs + msize_of sz \<le> length bs
      then Inr (store_little_endian (msize_of sz) bs (unat ofs) v)
      else Inl (Undefined ''store outside the buffer''))"

definition load_stack :: "msize \<Rightarrow> u64 \<Rightarrow> memory \<Rightarrow> u64 result" where
  "load_stack sz addr m = load_buffer sz (stack m) addr"

definition load_heap :: "msize \<Rightarrow> u64 \<Rightarrow> memory \<Rightarrow> u64 result" where
  "load_heap sz addr m =
     rbind (find_block addr m) (\<lambda>(blk, bs). load_buffer sz bs (addr - fst blk))"

definition store_stack :: "msize \<Rightarrow> u64 \<Rightarrow> u64 \<Rightarrow> memory \<Rightarrow> memory result" where
  "store_stack sz addr v m =
     rbind (store_buffer sz (stack m) addr v) (\<lambda>bs. Inr (m\<lparr>stack := bs\<rparr>))"

text \<open>The buffer of a block is written in place: the entry of the block is the one replaced.\<close>

definition set_bytes :: "block \<Rightarrow> u8 list \<Rightarrow> (block \<times> u8 list) list \<Rightarrow> (block \<times> u8 list) list" where
  "set_bytes blk bs = map (\<lambda>e. if fst e = blk then (blk, bs) else e)"

definition store_heap :: "msize \<Rightarrow> u64 \<Rightarrow> u64 \<Rightarrow> memory \<Rightarrow> memory result" where
  "store_heap sz addr v m =
     rbind (find_block addr m) (\<lambda>(blk, bs).
     rbind (store_buffer sz bs (addr - fst blk) v) (\<lambda>bs'.
       Inr (m\<lparr>alloced := set_bytes blk bs' (alloced m)\<rparr>)))"

definition is_stack :: "msize \<Rightarrow> u64 \<Rightarrow> bool" where
  "is_stack sz addr \<longleftrightarrow> addr + of_nat (msize_of sz) \<le> STACK_MAX"

definition is_heap :: "msize \<Rightarrow> u64 \<Rightarrow> bool" where
  "is_heap sz addr \<longleftrightarrow> HEAP_MIN \<le> addr \<and> addr + of_nat (msize_of sz) \<le> HEAP_MAX"

definition is_alligned :: "msize \<Rightarrow> u64 \<Rightarrow> bool" where
  "is_alligned sz addr \<longleftrightarrow> addr mod of_nat (msize_of sz) = 0"

text \<open>Moving the head to an address costs its distance, except for the first access.\<close>

definition head_distance :: "u64 \<Rightarrow> u64 \<Rightarrow> u64" where
  "head_distance addr h = (if h < addr then addr - h else h - addr)"

definition access_cost :: "rat \<Rightarrow> u64 \<Rightarrow> memory \<Rightarrow> rat" where
  "access_cost base addr m =
     (if head m = - 1 then 0
      else base + COST_PER_BYTE * of_nat (unat (head_distance addr (head m))))"

definition exec_load :: "msize \<Rightarrow> u64 \<Rightarrow> memory \<Rightarrow> (u64 \<times> rat \<times> memory) result" where
  "exec_load sz addr m =
     (if \<not> is_alligned sz addr then Inl (Runtime_error ''address not aligned'')
      else if is_stack sz addr then
        rbind (load_stack sz addr m) (\<lambda>v.
          Inr (v, access_cost COST_STACK addr m, m\<lparr>head := addr\<rparr>))
      else if is_heap sz addr then
        rbind (load_heap sz addr m) (\<lambda>v.
          Inr (v, access_cost COST_HEAP addr m, m\<lparr>head := addr\<rparr>))
      else Inl (Runtime_error ''accessing address between 10248 and 20480''))"

definition exec_store :: "msize \<Rightarrow> u64 \<Rightarrow> u64 \<Rightarrow> memory \<Rightarrow> (rat \<times> memory) result" where
  "exec_store sz addr v m =
     (if \<not> is_alligned sz addr then Inl (Runtime_error ''address not aligned'')
      else if is_stack sz addr then
        rbind (store_stack sz addr v m) (\<lambda>m'.
          Inr (access_cost COST_STACK addr m, m'\<lparr>head := addr\<rparr>))
      else if is_heap sz addr then
        rbind (store_heap sz addr v m) (\<lambda>m'.
          Inr (access_cost COST_HEAP addr m, m'\<lparr>head := addr\<rparr>))
      else Inl (Runtime_error ''acessing address between 10240 and 20480''))"

text \<open>First fit: the loop stops at the first free block that is large enough.\<close>

definition exec_malloc :: "(memory \<Rightarrow> u64 \<Rightarrow> bool) \<Rightarrow> u64 \<Rightarrow> memory \<Rightarrow> (u64 \<times> rat \<times> memory) result" where
  "exec_malloc calloc_ok sz m =
     (if sz = 0 then Inl (Runtime_error ''allocation size should not be 0'')
      else if sz mod 8 \<noteq> 0 then Inl (Runtime_error ''allocation size should be multiple of 8'')
      else case find (\<lambda>b. \<not> snd b - fst b < sz) (freed m) of
        None \<Rightarrow> Inl (Runtime_error ''out-of-memory'')
      | Some b \<Rightarrow>
          if \<not> calloc_ok m sz then Inl (Runtime_error ''out-of-memory'')
          else let total = alloced_size m + sz
               in Inr (fst b, COST_MALLOC,
                    m\<lparr>freed := set_insert id (fst b + sz, snd b) (set_erase id b (freed m)),
                      alloced := set_insert fst ((fst b, fst b + sz), replicate (unat sz) 0) (alloced m),
                      alloced_size := total,
                      max_alloced_size := (if max_alloced_size m < total then total else max_alloced_size m)\<rparr>))"

text \<open>Freeing merges the block with the free block that ends where it starts, then with the
  free block that starts where it ends.\<close>

definition merge_prev :: "block \<Rightarrow> block list \<Rightarrow> block list \<Rightarrow> block \<times> block list" where
  "merge_prev blk before fr =
     (if before = [] then (blk, fr)
      else let prev = last before
           in if snd prev = fst blk then ((fst prev, snd blk), set_erase id prev fr) else (blk, fr))"

definition merge_next :: "block \<Rightarrow> block list \<Rightarrow> block list \<Rightarrow> block \<times> block list" where
  "merge_next blk after fr =
     (case after of
        [] \<Rightarrow> (blk, fr)
      | nxt # _ \<Rightarrow> if fst nxt = snd blk then ((fst blk, snd nxt), set_erase id nxt fr) else (blk, fr))"

definition exec_free :: "u64 \<Rightarrow> memory \<Rightarrow> (rat \<times> memory) result" where
  "exec_free addr m =
     (case lower_bound fst (addr, 0) (alloced m) of
        [] \<Rightarrow> Inl (Runtime_error ''freeing non-allocated address'')
      | (blk, bs) # _ \<Rightarrow>
          if fst blk \<noteq> addr then Inl (Runtime_error ''freeing non-allocated address'')
          else let (blk1, fr1) = merge_prev blk (below id blk (freed m)) (freed m);
                   (blk2, fr2) = merge_next blk1 (lower_bound id blk (freed m)) fr1
               in Inr (COST_FREE,
                    m\<lparr>alloced := set_erase fst blk (alloced m),
                      freed := set_insert id blk2 fr2,
                      alloced_size := alloced_size m - (snd blk - fst blk)\<rparr>))"

definition exec_reset_stack :: "memory \<Rightarrow> rat \<times> memory" where
  "exec_reset_stack m = (COST_RESET, m\<lparr>head := STACK_MAX\<rparr>)"

definition exec_reset_heap :: "memory \<Rightarrow> rat \<times> memory" where
  "exec_reset_heap m = (COST_RESET, m\<lparr>head := HEAP_MIN\<rparr>)"

lemmas heap_limits = HEAP_MIN_def HEAP_MAX_def STACK_MAX_def STACK_MIN_def

end
