(* ===== verification/Heap_Arena.thy ===== *)
theory Heap_Arena
  imports Memory_Model
begin

text \<open>
  The specification of the heap: an arena, a sequence of segments that tile the range from
  \<open>HEAP_MIN\<close> to \<open>HEAP_MAX\<close> without gap or overlap, each used or free, no two free ones
  next to each other. Allocation splits the first free segment that is large enough;
  releasing a segment marks it free and joins neighbouring free segments. \<open>represents m segs\<close>
  relates the two sets of the code to an arena. This theory proves the laws of arenas; the
  next one shows that the operations of the code implement them.
\<close>

datatype seg = Used u64 u64 "u8 list" | Free u64 u64

fun seg_lo :: "seg \<Rightarrow> u64" where
  "seg_lo (Used a b bs) = a"
| "seg_lo (Free a b) = a"

fun seg_hi :: "seg \<Rightarrow> u64" where
  "seg_hi (Used a b bs) = b"
| "seg_hi (Free a b) = b"

fun is_free :: "seg \<Rightarrow> bool" where
  "is_free (Used a b bs) = False"
| "is_free (Free a b) = True"

text \<open>A used segment is not empty and owns as many bytes as its bounds say; a free one may be
  empty, because the code keeps the empty rest of a block that was allocated whole.\<close>

fun seg_ok :: "seg \<Rightarrow> bool" where
  "seg_ok (Used a b bs) =
     (a < b \<and> 8 dvd unat a \<and> 8 dvd unat b \<and> length bs = unat b - unat a)"
| "seg_ok (Free a b) = (a \<le> b \<and> 8 dvd unat a \<and> 8 dvd unat b)"

fun used_of :: "seg list \<Rightarrow> (block \<times> u8 list) list" where
  "used_of [] = []"
| "used_of (Used a b bs # ss) = ((a, b), bs) # used_of ss"
| "used_of (Free a b # ss) = used_of ss"

fun free_of :: "seg list \<Rightarrow> block list" where
  "free_of [] = []"
| "free_of (Used a b bs # ss) = free_of ss"
| "free_of (Free a b # ss) = (a, b) # free_of ss"

fun chain :: "u64 \<Rightarrow> seg list \<Rightarrow> u64 \<Rightarrow> bool" where
  "chain lo [] hi = (lo = hi)"
| "chain lo (s # ss) hi = (seg_lo s = lo \<and> seg_ok s \<and> chain (seg_hi s) ss hi)"

fun separated :: "seg list \<Rightarrow> bool" where
  "separated (s # t # ss) = (\<not> (is_free s \<and> is_free t) \<and> separated (t # ss))"
| "separated _ = True"

definition arena_ok :: "seg list \<Rightarrow> bool" where
  "arena_ok segs \<longleftrightarrow> chain HEAP_MIN segs HEAP_MAX \<and> separated segs"

definition represents :: "memory \<Rightarrow> seg list \<Rightarrow> bool" where
  "represents m segs \<longleftrightarrow> arena_ok segs \<and> alloced m = used_of segs \<and> freed m = free_of segs"

subsection \<open>The operations of the specification\<close>

fun arena_malloc :: "u64 \<Rightarrow> seg list \<Rightarrow> (u64 \<times> seg list) option" where
  "arena_malloc n [] = None"
| "arena_malloc n (Used a b bs # ss) = map_option (apsnd (Cons (Used a b bs))) (arena_malloc n ss)"
| "arena_malloc n (Free a b # ss) =
     (if b - a < n then map_option (apsnd (Cons (Free a b))) (arena_malloc n ss)
      else Some (a, Used a (a + n) (replicate (unat n) 0) # Free (a + n) b # ss))"

fun join_free :: "seg list \<Rightarrow> seg list" where
  "join_free (Free a b # Free c d # ss) = join_free (Free a d # ss)"
| "join_free (s # ss) = s # join_free ss"
| "join_free [] = []"

fun release :: "u64 \<Rightarrow> seg \<Rightarrow> seg" where
  "release x (Used a b bs) = (if a = x then Free a b else Used a b bs)"
| "release x (Free a b) = Free a b"

definition arena_free :: "u64 \<Rightarrow> seg list \<Rightarrow> seg list" where
  "arena_free x segs = join_free (map (release x) segs)"

subsection \<open>Laws of arenas\<close>

lemma used_of_append [simp]: "used_of (xs @ ys) = used_of xs @ used_of ys"
  by (induction xs rule: used_of.induct) auto

lemma free_of_append [simp]: "free_of (xs @ ys) = free_of xs @ free_of ys"
  by (induction xs rule: free_of.induct) auto

lemma in_used_of: "e \<in> set (used_of ss) \<longleftrightarrow> Used (fst (fst e)) (snd (fst e)) (snd e) \<in> set ss"
  by (induction ss rule: used_of.induct) auto

lemma in_free_of: "b \<in> set (free_of ss) \<longleftrightarrow> Free (fst b) (snd b) \<in> set ss"
  by (induction ss rule: free_of.induct) auto

lemma seg_ok_le: "seg_ok s \<Longrightarrow> seg_lo s \<le> seg_hi s"
  by (cases s) auto

lemma chain_append: "chain lo (xs @ ys) hi \<longleftrightarrow> (\<exists>mid. chain lo xs mid \<and> chain mid ys hi)"
  by (induction xs arbitrary: lo) auto

lemma chain_le: "chain lo ss hi \<Longrightarrow> lo \<le> hi"
  by (induction ss arbitrary: lo) (auto dest: seg_ok_le order_trans)

lemma chain_seg: "\<lbrakk> chain lo ss hi; s \<in> set ss \<rbrakk> \<Longrightarrow> seg_ok s \<and> lo \<le> seg_lo s \<and> seg_hi s \<le> hi"
proof (induction ss arbitrary: lo)
  case (Cons t ss)
  then have t: "seg_lo t = lo" "seg_ok t" "chain (seg_hi t) ss hi" by simp_all
  show ?case
  proof (cases "s = t")
    case True
    with t show ?thesis using chain_le by auto
  next
    case False
    with Cons.prems(2) have "s \<in> set ss" by simp
    with Cons.IH t(3) have "seg_ok s" "seg_hi t \<le> seg_lo s" "seg_hi s \<le> hi" by auto
    with t seg_ok_le [OF t(2)] show ?thesis by auto
  qed
qed simp

lemma chain_split:
  assumes "chain lo (xs @ s # ys) hi"
  shows "chain lo xs (seg_lo s)" "seg_ok s" "chain (seg_hi s) ys hi"
  using assms by (auto simp: chain_append)

lemma separated_Cons:
  "separated (s # ss) \<longleftrightarrow> (ss = [] \<or> \<not> (is_free s \<and> is_free (hd ss))) \<and> separated ss"
  by (cases ss) auto

lemma separated_append:
  "separated (xs @ ys) \<longleftrightarrow>
     separated xs \<and> separated ys \<and> (xs = [] \<or> ys = [] \<or> \<not> (is_free (last xs) \<and> is_free (hd ys)))"
  by (induction xs) (auto simp: separated_Cons)

text \<open>Where a segment stands, everything before it ends at or before its start, and free
  segments stay clear of it when it is free itself.\<close>

lemma before_used:
  "\<lbrakk> chain lo xs mid; e \<in> set (used_of xs) \<rbrakk>
   \<Longrightarrow> fst (fst e) < snd (fst e) \<and> snd (fst e) \<le> mid \<and> lo \<le> fst (fst e)"
  using chain_seg [of lo xs mid] by (force simp: in_used_of)

lemma before_free:
  "\<lbrakk> chain lo xs mid; b \<in> set (free_of xs) \<rbrakk> \<Longrightarrow> fst b \<le> snd b \<and> snd b \<le> mid \<and> lo \<le> fst b"
  using chain_seg [of lo xs mid] by (force simp: in_free_of)

lemma before_free_strict:
  assumes "chain lo xs mid" and "xs = [] \<or> \<not> is_free (last xs)" and "b \<in> set (free_of xs)"
  shows "snd b < mid"
proof -
  obtain zs z where xs: "xs = zs @ [z]" using assms(3) by (cases xs rule: rev_cases) auto
  with assms(2) obtain a c bs where z: "z = Used a c bs" by (cases z) auto
  from assms(1) xs z have "chain lo zs a" "a < mid" by (auto simp: chain_append)
  moreover have "b \<in> set (free_of zs)" using assms(3) xs z by simp
  ultimately show ?thesis using before_free by fastforce
qed

lemma after_free_strict:
  assumes "chain mid ys hi" and "ys = [] \<or> \<not> is_free (hd ys)" and "b \<in> set (free_of ys)"
  shows "mid < fst b"
proof -
  obtain z zs where ys: "ys = z # zs" using assms(3) by (cases ys) auto
  with assms(2) obtain a c bs where z: "z = Used a c bs" by (cases z) auto
  from assms(1) ys z have "chain c zs hi" "mid < c" by auto
  moreover have "b \<in> set (free_of zs)" using assms(3) ys z by simp
  ultimately show ?thesis using before_free by fastforce
qed

subsection \<open>What allocation does to an arena\<close>

lemma arena_malloc_None:
  "arena_malloc n ss = None \<longleftrightarrow> (\<forall>b \<in> set (free_of ss). snd b - fst b < n)"
  by (induction n ss rule: arena_malloc.induct) auto

lemma arena_malloc_Some:
  "arena_malloc n ss = Some (x, ss') \<Longrightarrow>
   \<exists>xs hi ys. ss = xs @ Free x hi # ys \<and> \<not> hi - x < n \<and>
     (\<forall>b \<in> set (free_of xs). snd b - fst b < n) \<and>
     ss' = xs @ Used x (x + n) (replicate (unat n) 0) # Free (x + n) hi # ys"
proof (induction n ss arbitrary: ss' rule: arena_malloc.induct)
  case (2 n a b bs ss)
  from "2.prems" obtain t where "arena_malloc n ss = Some (x, t)" and t: "ss' = Used a b bs # t"
    by auto
  from "2.IH" [OF this(1)] obtain xs hi ys where
    "ss = xs @ Free x hi # ys" "\<not> hi - x < n" "\<forall>b \<in> set (free_of xs). snd b - fst b < n"
    "t = xs @ Used x (x + n) (replicate (unat n) 0) # Free (x + n) hi # ys" by blast
  with t show ?case
    by (intro exI [of _ "Used a b bs # xs"] exI [of _ hi] exI [of _ ys]) simp
next
  case (3 n a b ss)
  show ?case
  proof (cases "b - a < n")
    case True
    with "3.prems" obtain t where "arena_malloc n ss = Some (x, t)" and t: "ss' = Free a b # t"
      by auto
    from "3.IH" [OF True this(1)] obtain xs hi ys where
      "ss = xs @ Free x hi # ys" "\<not> hi - x < n" "\<forall>b \<in> set (free_of xs). snd b - fst b < n"
      "t = xs @ Used x (x + n) (replicate (unat n) 0) # Free (x + n) hi # ys" by blast
    with t True show ?thesis
      by (intro exI [of _ "Free a b # xs"] exI [of _ hi] exI [of _ ys]) simp
  next
    case False
    with "3.prems" show ?thesis by (intro exI [of _ "[]"] exI [of _ b] exI [of _ ss]) auto
  qed
qed simp

lemma carve_bounds:
  fixes a b n :: u64
  assumes "a \<le> b" and "\<not> b - a < n" and "0 < n"
  shows "unat (a + n) = unat a + unat n" "a < a + n" "a + n \<le> b"
proof -
  have n: "unat n \<le> unat b - unat a"
    using assms(1,2) by (simp add: word_less_nat_alt unat_sub)
  then have "unat a + unat n \<le> unat b"
    using assms(1) by (simp add: word_le_nat_alt)
  then have "unat a + unat n < 2 ^ 64"
    by (rule order.strict_trans1) (use u64_less_bound [of b] in simp)
  then show u: "unat (a + n) = unat a + unat n" by (simp add: unat_add_no_wrap)
  show "a < a + n" using assms(3) by (simp add: word_less_nat_alt u)
  show "a + n \<le> b" using \<open>unat a + unat n \<le> unat b\<close> by (simp add: word_le_nat_alt u)
qed

lemma word_mod_8_dvd: "(n :: u64) mod 8 = 0 \<longleftrightarrow> 8 dvd unat n"
proof -
  have "n mod 8 = 0 \<longleftrightarrow> unat (n mod 8) = 0" by (simp add: unat_eq_0)
  then show ?thesis by (simp add: unat_mod dvd_eq_mod_eq_0)
qed

lemma arena_malloc_ok:
  assumes ok: "arena_ok ss" and m: "arena_malloc n ss = Some (x, ss')"
    and n: "0 < n" "8 dvd unat n"
  shows "arena_ok ss'"
proof -
  from arena_malloc_Some [OF m] obtain xs hi ys where
    ss: "ss = xs @ Free x hi # ys" "\<not> hi - x < n"
    and ss': "ss' = xs @ Used x (x + n) (replicate (unat n) 0) # Free (x + n) hi # ys" by blast
  from ok ss have "chain HEAP_MIN (xs @ Free x hi # ys) HEAP_MAX" by (simp add: arena_ok_def)
  from chain_split [OF this] have c: "chain HEAP_MIN xs x" "x \<le> hi" "8 dvd unat x" "8 dvd unat hi"
    "chain hi ys HEAP_MAX" by auto
  note b = carve_bounds [OF c(2) ss(2) n(1)]
  have "chain HEAP_MIN ss' HEAP_MAX"
    using c b n by (auto simp: ss' chain_append)
  moreover have "separated ss'"
    using ok ss by (auto simp: arena_ok_def ss' separated_append separated_Cons)
  ultimately show ?thesis by (simp add: arena_ok_def)
qed

subsection \<open>What releasing a segment does to an arena\<close>

lemma join_free_barrier:
  "join_free (xs @ Used a b bs # ys) = join_free xs @ Used a b bs # join_free ys"
  by (induction xs rule: join_free.induct) auto

lemma join_free_separated: "separated ss \<Longrightarrow> join_free ss = ss"
  by (induction ss rule: join_free.induct) (auto simp: separated_Cons)

lemma join_free_from_free:
  assumes "separated ys" and "chain b ys hi"
  obtains ys' b' where "join_free (Free a b # ys) = Free a b' # ys'"
    and "ys' = [] \<or> \<not> is_free (hd ys')"
    and "ys = ys' \<and> b' = b \<or> ys = Free b b' # ys'"
proof (cases ys)
  case Nil
  then show ?thesis using that [of b "[]"] by simp
next
  case (Cons t ts)
  show ?thesis
  proof (cases t)
    case (Used c d bs)
    then show ?thesis using that [of b ys] assms(1) Cons
      by (simp add: join_free_separated separated_Cons)
  next
    case (Free c d)
    with assms Cons have "c = b" and sep: "separated (Free a d # ts)" "ts = [] \<or> \<not> is_free (hd ts)"
      by (auto simp: separated_Cons)
    with Free Cons show ?thesis using that [of d ts] join_free_separated [OF sep(1)] by simp
  qed
qed

lemma last_free_split:
  assumes "separated xs"
  obtains zs a b where "xs = zs @ [Free a b]" and "zs = [] \<or> \<not> is_free (last zs)"
  | "xs = [] \<or> \<not> is_free (last xs)"
proof (cases xs rule: rev_cases)
  case Nil
  then show ?thesis using that(2) by simp
next
  case (snoc zs z)
  show ?thesis
  proof (cases z)
    case (Free a b)
    with assms snoc have "zs = [] \<or> \<not> is_free (last zs)" by (auto simp: separated_append)
    with snoc Free show ?thesis using that(1) by blast
  next
    case (Used a b bs)
    with snoc show ?thesis using that(2) by simp
  qed
qed

lemma join_free_after_used_end:
  assumes "separated zs" and "zs = [] \<or> \<not> is_free (last zs)"
  shows "join_free (zs @ ys) = zs @ join_free ys"
proof (cases zs rule: rev_cases)
  case (snoc ws w)
  with assms obtain a b bs where "w = Used a b bs" by (cases w) auto
  with snoc assms(1) show ?thesis
    by (simp add: join_free_barrier join_free_separated separated_append)
qed simp

lemma release_other_before: "chain lo xs x \<Longrightarrow> map (release x) xs = xs"
proof (induction xs arbitrary: lo)
  case (Cons s ss)
  then have "seg_ok s" "seg_hi s \<le> x" using chain_le by auto
  then have "release x s = s" by (cases s) auto
  moreover have "map (release x) ss = ss" using Cons.IH [of "seg_hi s"] Cons.prems by simp
  ultimately show ?case by simp
qed simp

lemma release_other_after: "\<lbrakk> chain b ys hi; x < b \<rbrakk> \<Longrightarrow> map (release x) ys = ys"
proof (induction ys arbitrary: b)
  case (Cons s ss)
  then have s: "seg_ok s" "seg_lo s = b" by simp_all
  from seg_ok_le [OF this(1)] s(2) Cons.prems(2) have "x < seg_hi s" by simp
  moreover from s Cons.prems(2) have "release x s = s" by (cases s) auto
  ultimately show ?case using Cons.IH [of "seg_hi s"] Cons.prems by simp
qed simp

text \<open>The shape of the arena after a release: the released segment has swallowed its free
  neighbours, and what stands next to it is used.\<close>

lemma arena_free_split:
  assumes ok: "arena_ok (xs @ Used x b bs # ys)"
  obtains zs a c ws where
    "arena_free x (xs @ Used x b bs # ys) = zs @ Free a c # ws"
    "xs = zs \<and> a = x \<or> xs = zs @ [Free a x]"
    "ys = ws \<and> c = b \<or> ys = Free b c # ws"
    "zs = [] \<or> \<not> is_free (last zs)" "ws = [] \<or> \<not> is_free (hd ws)"
proof -
  from ok have "chain HEAP_MIN (xs @ Used x b bs # ys) HEAP_MAX"
    and sep: "separated xs" "separated ys"
    by (auto simp: arena_ok_def separated_append separated_Cons)
  from chain_split [OF this(1)] have c: "chain HEAP_MIN xs x" "x < b" "chain b ys HEAP_MAX"
    by auto
  have rel: "arena_free x (xs @ Used x b bs # ys) = join_free (xs @ Free x b # ys)"
    using release_other_before [OF c(1)] release_other_after [OF c(3,2)]
    by (simp add: arena_free_def)
  from sep(1) show ?thesis
  proof (cases rule: last_free_split)
    case (1 zs a x')
    with c(1) have x': "x' = x" by (auto simp: chain_append)
    obtain ws c' where
      j: "join_free (Free a b # ys) = Free a c' # ws" "ws = [] \<or> \<not> is_free (hd ws)"
        "ys = ws \<and> c' = b \<or> ys = Free b c' # ws" 
      by (rule join_free_from_free [OF sep(2) c(3), of a]) blast
    have "separated zs" using sep(1) 1 by (simp add: separated_append)
    then have "join_free (xs @ Free x b # ys) = zs @ join_free (Free a b # ys)"
      using 1 x' join_free_after_used_end [of zs "Free a x # Free x b # ys"] by simp
    with j(1) rel have "arena_free x (xs @ Used x b bs # ys) = zs @ Free a c' # ws" by simp
    moreover have "xs = zs @ [Free a x]" using 1(1) x' by simp
    ultimately show ?thesis using that j(2,3) 1(2) by blast
  next
    case 2
    obtain ws c' where
      j: "join_free (Free x b # ys) = Free x c' # ws" "ws = [] \<or> \<not> is_free (hd ws)"
        "ys = ws \<and> c' = b \<or> ys = Free b c' # ws" 
      by (rule join_free_from_free [OF sep(2) c(3), of x]) blast
    have "arena_free x (xs @ Used x b bs # ys) = xs @ Free x c' # ws"
      using rel j(1) join_free_after_used_end [OF sep(1) 2] by simp
    then show ?thesis using that 2 j(2,3) by blast
  qed
qed

lemma arena_free_ok:
  assumes ok: "arena_ok ss" and x: "Used x b bs \<in> set ss"
  shows "arena_ok (arena_free x ss)"
proof -
  from x obtain xs ys where ss: "ss = xs @ Used x b bs # ys" by (meson split_list)
  with ok have ok': "arena_ok (xs @ Used x b bs # ys)" by simp
  from arena_free_split [OF ok'] obtain zs a c ws where
    f: "arena_free x ss = zs @ Free a c # ws"
      "xs = zs \<and> a = x \<or> xs = zs @ [Free a x]" "ys = ws \<and> c = b \<or> ys = Free b c # ws"
      "zs = [] \<or> \<not> is_free (last zs)" "ws = [] \<or> \<not> is_free (hd ws)"
    unfolding ss by blast
  from ok' have c: "chain HEAP_MIN xs x" "x < b" "8 dvd unat x" "8 dvd unat b" "chain b ys HEAP_MAX"
    using chain_split [of HEAP_MIN xs "Used x b bs" ys HEAP_MAX] by (auto simp: arena_ok_def)
  have zs: "chain HEAP_MIN zs a" "a \<le> x" "8 dvd unat a"
    using f(2) c by (auto simp: chain_append)
  have ws: "chain c ws HEAP_MAX" "b \<le> c" "8 dvd unat c"
    using f(3) c by auto
  have "chain HEAP_MIN (zs @ Free a c # ws) HEAP_MAX"
    using zs ws c(2) by (auto simp: chain_append)
  moreover have "separated (zs @ Free a c # ws)"
    using ok' f(2-5) by (auto simp: arena_ok_def separated_append separated_Cons)
  ultimately show ?thesis by (simp add: arena_ok_def f(1))
qed

end
