(* ===== verification/Heap_Alloc.thy ===== *)
theory Heap_Alloc
  imports Heap_Arena
begin

text \<open>
  \<open>exec_malloc\<close> and \<open>exec_free\<close> implement the arena of theory \<open>Heap_Arena\<close>: the
  allocation splits the first free segment that is large enough, the release joins the block
  with its free neighbours, and both keep the two sets of the code the used and the free
  segments of one arena. The usage counter is the number of bytes in used blocks.
\<close>

lemma less_pair: "(a, b) < (c, d) \<longleftrightarrow> a < c \<or> a = c \<and> b < (d :: 'b::linorder)"
  for a c :: "'a::linorder"
  by (auto simp: less_prod_def')

lemma less_pair_fst: "fst p < fst q \<Longrightarrow> p < q"
  for p q :: "'a::linorder \<times> 'b::linorder"
  by (cases p; cases q) (simp add: less_pair)

text \<open>The sets of the code seen from one segment of the arena: what comes before it and what
  comes after it in iteration order.\<close>

lemma used_before_after:
  assumes "chain lo (xs @ s # ys) hi"
  shows "\<forall>e \<in> set (used_of xs). fst (fst e) < seg_lo s"
    and "\<forall>e \<in> set (used_of ys). seg_hi s \<le> fst (fst e)"
proof -
  note c = chain_split [OF assms]
  show "\<forall>e \<in> set (used_of xs). fst (fst e) < seg_lo s"
    using before_used [OF c(1)] by force
  show "\<forall>e \<in> set (used_of ys). seg_hi s \<le> fst (fst e)"
    using before_used [OF c(3)] by force
qed

lemma separated_split:
  assumes "separated (xs @ s # ys)"
  shows "separated xs" "separated ys"
    "is_free s \<Longrightarrow> (xs = [] \<or> \<not> is_free (last xs)) \<and> (ys = [] \<or> \<not> is_free (hd ys))"
  using assms by (auto simp: separated_append separated_Cons)

lemma free_before_after:
  assumes "arena_ok (xs @ Free a c # ys)"
  shows "\<forall>b \<in> set (free_of xs). fst b < a \<and> snd b < a"
    and "\<forall>b \<in> set (free_of ys). c < fst b"
proof -
  from assms have ch: "chain HEAP_MIN (xs @ Free a c # ys) HEAP_MAX"
    and sep: "separated (xs @ Free a c # ys)" by (simp_all add: arena_ok_def)
  from chain_split [OF ch] have c: "chain HEAP_MIN xs a" "chain c ys HEAP_MAX" by simp_all
  from separated_split(3) [OF sep] have s: "xs = [] \<or> \<not> is_free (last xs)" "ys = [] \<or> \<not> is_free (hd ys)"
    by simp_all
  show "\<forall>b \<in> set (free_of xs). fst b < a \<and> snd b < a"
    using before_free_strict [OF c(1) s(1)] before_free [OF c(1)] by force
  show "\<forall>b \<in> set (free_of ys). c < fst b"
    using after_free_strict [OF c(2) s(2)] by blast
qed

subsection \<open>Allocation\<close>

lemma find_first_fit:
  assumes "ss = xs @ Free x hi # ys" and "\<not> hi - x < n"
    and "\<forall>b \<in> set (free_of xs). snd b - fst b < n"
  shows "find (\<lambda>b. \<not> snd b - fst b < n) (free_of ss) = Some (x, hi)"
proof -
  have "find (\<lambda>b. \<not> snd b - fst b < n) (zs @ (x, hi) # free_of ys) = Some (x, hi)"
    if "\<forall>b \<in> set zs. snd b - fst b < n" for zs
    using that assms(2) by (induction zs) auto
  then show ?thesis using assms(1,3) by simp
qed

lemma malloc_sets:
  assumes ok: "arena_ok (xs @ Free x hi # ys)" and fits: "\<not> hi - x < n" and n: "0 < n"
  shows "set_insert id (x + n, hi) (set_erase id (x, hi) (free_of (xs @ Free x hi # ys)))
           = free_of (xs @ Used x (x + n) bs # Free (x + n) hi # ys)"
    and "set_insert fst ((x, x + n), bs) (used_of (xs @ Free x hi # ys))
           = used_of (xs @ Used x (x + n) bs # Free (x + n) hi # ys)"
proof -
  note fr = free_before_after [OF ok]
  from ok have ch: "chain HEAP_MIN (xs @ Free x hi # ys) HEAP_MAX" by (simp add: arena_ok_def)
  from chain_split [OF ch] have le: "x \<le> hi" by simp
  note cb = carve_bounds [OF le fits n]
  have "set_erase id (id (x, hi)) (free_of xs @ (x, hi) # free_of ys) = free_of xs @ free_of ys"
    using fr le by (intro set_erase_split) force+
  moreover have "set_insert id (x + n, hi) (free_of xs @ free_of ys)
      = free_of xs @ (x + n, hi) # free_of ys"
    using fr cb by (intro set_insert_split) (force intro: less_pair_fst)+
  ultimately show "set_insert id (x + n, hi) (set_erase id (x, hi) (free_of (xs @ Free x hi # ys)))
      = free_of (xs @ Used x (x + n) bs # Free (x + n) hi # ys)" by simp
  note us = used_before_after [OF ch]
  from chain_split [OF ch] have "chain hi ys HEAP_MAX" by simp
  then have after: "\<forall>e \<in> set (used_of ys). x < fst (fst e)"
    using us(2) cb by force
  have "set_insert fst ((x, x + n), bs) (used_of xs @ used_of ys)
      = used_of xs @ ((x, x + n), bs) # used_of ys"
    using us(1) after by (intro set_insert_split) (force intro: less_pair_fst)+
  then show "set_insert fst ((x, x + n), bs) (used_of (xs @ Free x hi # ys))
      = used_of (xs @ Used x (x + n) bs # Free (x + n) hi # ys)" by simp
qed

lemma exec_malloc_arena:
  assumes rep: "represents m ss" and n: "n \<noteq> 0" "n mod 8 = 0" and calloc: "calloc_ok m n"
    and am: "arena_malloc n ss = Some (x, ss')"
  obtains m' where "exec_malloc calloc_ok n m = Inr (x, COST_MALLOC, m')" and "represents m' ss'"
    and "alloced_size m' = alloced_size m + n"
    and "max_alloced_size m' = max (max_alloced_size m) (alloced_size m + n)"
    and "head m' = head m" and "stack m' = stack m"
proof -
  have pos: "0 < n" using n(1) by (simp add: word_gt_0)
  from rep have ok: "arena_ok ss" and al: "alloced m = used_of ss" and fr: "freed m = free_of ss"
    by (simp_all add: represents_def)
  from arena_malloc_Some [OF am] obtain xs hi ys where
    ss: "ss = xs @ Free x hi # ys" and fits: "\<not> hi - x < n"
    and first: "\<forall>b \<in> set (free_of xs). snd b - fst b < n"
    and ss': "ss' = xs @ Used x (x + n) (replicate (unat n) 0) # Free (x + n) hi # ys" by blast
  have ok_xs: "arena_ok (xs @ Free x hi # ys)" using ok ss by simp
  let ?t = "alloced_size m + n"
  let ?m' = "m\<lparr>freed := free_of ss', alloced := used_of ss', alloced_size := ?t,
     max_alloced_size := (if max_alloced_size m < ?t then ?t else max_alloced_size m)\<rparr>"
  have find: "find (\<lambda>b. \<not> snd b - fst b < n) (freed m) = Some (x, hi)"
    unfolding fr by (rule find_first_fit [OF ss fits first])
  have fr': "set_insert id (x + n, hi) (set_erase id (x, hi) (freed m)) = free_of ss'"
    unfolding fr ss ss' by (rule malloc_sets(1) [OF ok_xs fits pos])
  have al': "set_insert fst ((x, x + n), replicate (unat n) 0) (alloced m) = used_of ss'"
    unfolding al ss ss' by (rule malloc_sets(2) [OF ok_xs fits pos])
  have "exec_malloc calloc_ok n m = Inr (x, COST_MALLOC, ?m')"
    using n calloc by (simp add: exec_malloc_def find Let_def fr' al')
  moreover have "arena_ok ss'"
    using arena_malloc_ok [OF ok am pos] n(2) by (simp add: word_mod_8_dvd)
  ultimately show ?thesis by (intro that [of ?m']) (auto simp: represents_def max_def)
qed

lemma exec_malloc_arena_None:
  assumes rep: "represents m ss" and n: "n \<noteq> 0" "n mod 8 = 0"
    and am: "arena_malloc n ss = None"
  shows "exec_malloc calloc_ok n m = Inl (Runtime_error ''out-of-memory'')"
proof -
  have "find (\<lambda>b. \<not> snd b - fst b < n) (freed m) = None"
    using rep am by (auto simp: represents_def find_None_iff arena_malloc_None)
  with n show ?thesis by (simp add: exec_malloc_def)
qed

subsection \<open>Release\<close>

lemma merge_prev_arena:
  assumes ok: "arena_ok (xs @ Used x b bs # ys)"
    and xs: "xs = zs \<and> a = x \<or> xs = zs @ [Free a x]" and zs: "zs = [] \<or> \<not> is_free (last zs)"
  shows "merge_prev (x, b) (free_of xs) (free_of xs @ free_of ys) = ((a, b), free_of zs @ free_of ys)"
proof -
  from ok have "chain HEAP_MIN (xs @ Used x b bs # ys) HEAP_MAX" by (simp add: arena_ok_def)
  from chain_split [OF this] have c: "chain HEAP_MIN xs x" "x < b" "chain b ys HEAP_MAX" by simp_all
  from xs show ?thesis
  proof
    assume xs: "xs = zs \<and> a = x"
    have "snd (last (free_of xs)) \<noteq> x" if "free_of xs \<noteq> []"
      using before_free_strict [OF c(1), of "last (free_of xs)"] xs zs that by force
    with xs show ?thesis by (auto simp: merge_prev_def Let_def)
  next
    assume xs: "xs = zs @ [Free a x]"
    with c(1) have cz: "chain HEAP_MIN zs a" "a \<le> x" by (auto simp: chain_append)
    have "set_erase id (id (a, x)) (free_of zs @ (a, x) # free_of ys) = free_of zs @ free_of ys"
      using before_free_strict [OF cz(1) zs] before_free [OF cz(1)] before_free [OF c(3)] cz c(2)
      by (intro set_erase_split) force+
    with xs show ?thesis by (simp add: merge_prev_def)
  qed
qed

lemma merge_next_arena:
  assumes ok: "arena_ok (xs @ Used x b bs # ys)"
    and before: "\<forall>p \<in> set ps. fst p < b"
    and ys: "ys = ws \<and> c = b \<or> ys = Free b c # ws" and ws: "ws = [] \<or> \<not> is_free (hd ws)"
  shows "merge_next (a, b) (free_of ys) (ps @ free_of ys) = ((a, c), ps @ free_of ws)"
proof -
  from ok have "chain HEAP_MIN (xs @ Used x b bs # ys) HEAP_MAX" by (simp add: arena_ok_def)
  from chain_split [OF this] have ch: "chain b ys HEAP_MAX" by simp
  from ys show ?thesis
  proof
    assume ys: "ys = ws \<and> c = b"
    have "fst p \<noteq> b" if "p \<in> set (free_of ys)" for p
      using after_free_strict [OF ch, of p] ys ws that by force
    with ys show ?thesis by (cases "free_of ys") (auto simp: merge_next_def)
  next
    assume ys: "ys = Free b c # ws"
    with ch have cw: "chain c ws HEAP_MAX" "b \<le> c" by auto
    have "set_erase id (id (b, c)) (ps @ (b, c) # free_of ws) = ps @ free_of ws"
      using after_free_strict [OF cw(1) ws] before cw by (intro set_erase_split) force+
    with ys show ?thesis by (simp add: merge_next_def)
  qed
qed

lemma free_sets_around_used:
  assumes ok: "arena_ok (xs @ Used x b bs # ys)"
  shows "below id (x, b) (free_of (xs @ Used x b bs # ys)) = free_of xs"
    and "lower_bound id (x, b) (free_of (xs @ Used x b bs # ys)) = free_of ys"
proof -
  from ok have "chain HEAP_MIN (xs @ Used x b bs # ys) HEAP_MAX" by (simp add: arena_ok_def)
  from chain_split [OF this] have c: "chain HEAP_MIN xs x" "x < b" "chain b ys HEAP_MAX" by simp_all
  have "id p < (x, b)" if "p \<in> set (free_of xs)" for p
    using before_free [OF c(1) that] c(2) by (cases p) (auto simp: less_pair)
  moreover have "(x, b) \<le> id p" if "p \<in> set (free_of ys)" for p
    using before_free [OF c(3) that] c(2) by (intro less_imp_le less_pair_fst) auto
  ultimately show "below id (x, b) (free_of (xs @ Used x b bs # ys)) = free_of xs"
    and "lower_bound id (x, b) (free_of (xs @ Used x b bs # ys)) = free_of ys"
    using below_split [of "free_of xs" id "(x, b)" "free_of ys"] by auto
qed

lemma used_sets_around_used:
  assumes ok: "arena_ok (xs @ Used x b bs # ys)"
  shows "lower_bound fst (x, 0) (used_of (xs @ Used x b bs # ys)) = ((x, b), bs) # used_of ys"
    and "set_erase fst (x, b) (used_of (xs @ Used x b bs # ys)) = used_of xs @ used_of ys"
proof -
  from ok have ch: "chain HEAP_MIN (xs @ Used x b bs # ys) HEAP_MAX" by (simp add: arena_ok_def)
  from chain_split [OF ch] have "x < b" "chain b ys HEAP_MAX" by simp_all
  note us = used_before_after [OF ch]
  have "fst e < (x, 0)" if "e \<in> set (used_of xs)" for e
    using us(1) that by (intro less_pair_fst) auto
  moreover have "(x, 0) \<le> fst e" if "e \<in> set (((x, b), bs) # used_of ys)" for e
    using us(2) that \<open>x < b\<close> by (cases e) (force simp: less_eq_prod_def)
  ultimately show "lower_bound fst (x, 0) (used_of (xs @ Used x b bs # ys)) = ((x, b), bs) # used_of ys"
    using below_split [of "used_of xs" fst "(x, 0)" "((x, b), bs) # used_of ys"] by auto
  have ne: "fst e \<noteq> (x, b)" if "e \<in> set (used_of xs) \<union> set (used_of ys)" for e
    using us that \<open>x < b\<close> by force
  have "set_erase fst (fst ((x, b), bs)) (used_of xs @ ((x, b), bs) # used_of ys) = used_of xs @ used_of ys"
    using ne by (intro set_erase_split) auto
  then show "set_erase fst (x, b) (used_of (xs @ Used x b bs # ys)) = used_of xs @ used_of ys"
    by simp
qed

lemma exec_free_arena:
  assumes rep: "represents m ss" and used: "Used x b bs \<in> set ss"
  obtains m' where "exec_free x m = Inr (COST_FREE, m')" and "represents m' (arena_free x ss)"
    and "alloced_size m' = alloced_size m - (b - x)"
    and "max_alloced_size m' = max_alloced_size m" and "head m' = head m" and "stack m' = stack m"
    and "alloced m' = set_erase fst (x, b) (alloced m)"
proof -
  from used obtain xs ys where ss: "ss = xs @ Used x b bs # ys" by (meson split_list)
  from rep have ok: "arena_ok (xs @ Used x b bs # ys)"
    and al: "alloced m = used_of (xs @ Used x b bs # ys)"
    and fr: "freed m = free_of (xs @ Used x b bs # ys)" by (simp_all add: represents_def ss)
  from arena_free_split [OF ok] obtain zs a c ws where
    f: "arena_free x ss = zs @ Free a c # ws"
      "xs = zs \<and> a = x \<or> xs = zs @ [Free a x]" "ys = ws \<and> c = b \<or> ys = Free b c # ws"
      "zs = [] \<or> \<not> is_free (last zs)" "ws = [] \<or> \<not> is_free (hd ws)"
    unfolding ss by blast
  have ok': "arena_ok (zs @ Free a c # ws)"
    using arena_free_ok [of ss x b bs] rep used by (simp add: represents_def f(1))
  note fs = free_sets_around_used [OF ok] and us = used_sets_around_used [OF ok]
  note fb = free_before_after [OF ok']
  from ok have "chain HEAP_MIN (xs @ Used x b bs # ys) HEAP_MAX" by (simp add: arena_ok_def)
  from chain_split [OF this] have ch: "chain HEAP_MIN xs x" "x < b" by simp_all
  have prev: "merge_prev (x, b) (below id (x, b) (freed m)) (freed m) = ((a, b), free_of zs @ free_of ys)"
    unfolding fr fs using merge_prev_arena [OF ok f(2,4)] by simp
  have "\<forall>p \<in> set (free_of zs). fst p < b"
  proof
    fix p assume "p \<in> set (free_of zs)"
    then have "p \<in> set (free_of xs)" using f(2) by auto
    then have "fst p \<le> x" using before_free [OF ch(1)] order_trans by blast
    with ch(2) show "fst p < b" by simp
  qed
  from merge_next_arena [OF ok this f(3,5)]
  have nxt: "merge_next (a, b) (lower_bound id (x, b) (freed m)) (free_of zs @ free_of ys)
      = ((a, c), free_of zs @ free_of ws)" unfolding fr fs .
  have ins: "set_insert id (a, c) (free_of zs @ free_of ws) = free_of (arena_free x ss)"
  proof -
    have "set_insert id (a, c) (free_of zs @ free_of ws) = free_of zs @ (a, c) # free_of ws"
    proof (rule set_insert_split)
      show "\<forall>p \<in> set (free_of zs). id p < id (a, c)"
        using fb(1) by (auto intro: less_pair_fst)
      from ok' have "chain HEAP_MIN (zs @ Free a c # ws) HEAP_MAX" by (simp add: arena_ok_def)
      from chain_split(2) [OF this] have "a \<le> c" by simp
      then show "\<forall>p \<in> set (free_of ws). id (a, c) < id p"
        using fb(2) order.strict_trans1 [OF \<open>a \<le> c\<close>] by (auto intro: less_pair_fst)
    qed
    then show ?thesis by (simp add: f(1))
  qed
  have uf: "used_of xs @ used_of ys = used_of (arena_free x ss)"
    using f(2,3) by (auto simp: f(1))
  let ?m' = "m\<lparr>alloced := set_erase fst (x, b) (alloced m), freed := free_of (arena_free x ss),
    alloced_size := alloced_size m - (b - x)\<rparr>"
  have lb: "lower_bound fst (x, 0) (alloced m) = ((x, b), bs) # used_of ys"
    unfolding al by (rule us(1))
  have "exec_free x m = Inr (COST_FREE, ?m')"
    by (simp add: exec_free_def lb prev nxt ins)
  moreover have "represents ?m' (arena_free x ss)"
    using ok' al us(2) uf by (simp add: represents_def f(1))
  ultimately show ?thesis by (intro that [of ?m']) simp_all
qed

lemma exec_free_arena_unknown:
  assumes rep: "represents m ss" and unused: "\<forall>b bs. Used x b bs \<notin> set ss"
  shows "exec_free x m = Inl (Runtime_error ''freeing non-allocated address'')"
proof -
  have no: "fst (fst e) \<noteq> x" if "e \<in> set (alloced m)" for e
    using rep unused that by (cases e) (auto simp: represents_def in_used_of)
  show ?thesis
  proof (cases "lower_bound fst (x, 0) (alloced m)")
    case (Cons e es)
    then have "e \<in> set (alloced m)"
      by (metis list.set_intros(1) lower_bound_def set_dropWhileD)
    from no [OF this] have "fst (fst e) \<noteq> x" .
    with Cons show ?thesis by (cases e) (simp add: exec_free_def)
  qed (simp add: exec_free_def)
qed

subsection \<open>The invariant of the heap\<close>

definition used_bytes :: "(block \<times> u8 list) list \<Rightarrow> nat" where
  "used_bytes es = (\<Sum>e \<leftarrow> es. unat (snd (fst e)) - unat (fst (fst e)))"

definition heap_ok :: "memory \<Rightarrow> bool" where
  "heap_ok m \<longleftrightarrow> (\<exists>ss. represents m ss) \<and> unat (alloced_size m) = used_bytes (alloced m)
     \<and> alloced_size m \<le> max_alloced_size m"

definition memory_ok :: "memory \<Rightarrow> bool" where
  "memory_ok m \<longleftrightarrow> heap_ok m \<and> length (stack m) = 10240"

text \<open>The bytes in used segments and in free segments add up to the whole heap.\<close>

definition seg_bytes :: "seg \<Rightarrow> nat" where
  "seg_bytes s = unat (seg_hi s) - unat (seg_lo s)"

lemma chain_bytes: "chain lo ss hi \<Longrightarrow> unat lo + (\<Sum>s \<leftarrow> ss. seg_bytes s) = unat hi"
proof (induction ss arbitrary: lo)
  case (Cons s ss)
  then have "seg_ok s" "seg_lo s = lo" by simp_all
  then have "unat lo \<le> unat (seg_hi s)" using seg_ok_le [of s] by (simp flip: word_le_nat_alt)
  with Cons \<open>seg_lo s = lo\<close> show ?case by (force simp: seg_bytes_def)
qed simp

lemma used_bytes_simps [simp]:
  "used_bytes [] = 0"
  "used_bytes (e # es) = (unat (snd (fst e)) - unat (fst (fst e))) + used_bytes es"
  "used_bytes (es @ es') = used_bytes es + used_bytes es'"
  by (simp_all add: used_bytes_def)

lemma used_bytes_le: "used_bytes (used_of ss) \<le> (\<Sum>s \<leftarrow> ss. seg_bytes s)"
  by (induction ss rule: used_of.induct) (auto simp: seg_bytes_def)

lemma arena_bytes_bound:
  assumes "arena_ok ss"
  shows "used_bytes (used_of ss) < 2 ^ 64"
proof -
  have "(\<Sum>s \<leftarrow> ss. seg_bytes s) \<le> unat HEAP_MAX"
    using chain_bytes [of HEAP_MIN ss HEAP_MAX] assms by (simp add: arena_ok_def)
  then have "used_bytes (used_of ss) \<le> unat HEAP_MAX" using used_bytes_le [of ss] by linarith
  then show ?thesis by (rule order.strict_trans1) (use u64_less_bound [of HEAP_MAX] in simp)
qed

lemma init_represents: "represents init_memory [Free HEAP_MIN HEAP_MAX]"
  by (simp add: represents_def init_memory_def arena_ok_def heap_limits)

lemma init_memory_ok: "memory_ok init_memory"
  using init_represents
  by (auto simp: memory_ok_def heap_ok_def init_memory_def STACK_MAX_def)

text \<open>Both operations keep the invariant.\<close>

lemma exec_malloc_guards:
  assumes "exec_malloc calloc_ok n m = Inr r"
  shows "n \<noteq> 0" "n mod 8 = 0" "calloc_ok m n"
  using assms by (auto simp: exec_malloc_def Let_def split: if_splits option.splits)

lemma exec_malloc_success:
  assumes ok: "heap_ok m" and ex: "exec_malloc calloc_ok n m = Inr (x, c, m')"
  obtains xs hi ys where
    "represents m (xs @ Free x hi # ys)"
    "represents m' (xs @ Used x (x + n) (replicate (unat n) 0) # Free (x + n) hi # ys)"
    "x \<le> hi" "\<not> hi - x < n" "0 < n" "8 dvd unat n" "c = COST_MALLOC"
    "alloced_size m' = alloced_size m + n"
    "max_alloced_size m' = max (max_alloced_size m) (alloced_size m + n)"
    "head m' = head m" "stack m' = stack m"
proof -
  note g = exec_malloc_guards [OF ex]
  from ok obtain ss where rep: "represents m ss" by (auto simp: heap_ok_def)
  show ?thesis
  proof (cases "arena_malloc n ss")
    case None
    with exec_malloc_arena_None [OF rep g(1,2)] ex show ?thesis by simp
  next
    case (Some r)
    obtain x0 ss' where r: "r = (x0, ss')" by (cases r)
    obtain m0 where m0: "exec_malloc calloc_ok n m = Inr (x0, COST_MALLOC, m0)" "represents m0 ss'"
      "alloced_size m0 = alloced_size m + n"
      "max_alloced_size m0 = max (max_alloced_size m) (alloced_size m + n)"
      "head m0 = head m" "stack m0 = stack m"
      by (rule exec_malloc_arena [where calloc_ok = calloc_ok, OF rep g Some [unfolded r]])
    with ex have eq: "x0 = x" "c = COST_MALLOC" "m0 = m'" by auto
    from arena_malloc_Some [OF Some [unfolded r]] obtain xs hi ys where
      sp: "ss = xs @ Free x hi # ys" "\<not> hi - x < n"
        "ss' = xs @ Used x (x + n) (replicate (unat n) 0) # Free (x + n) hi # ys"
      unfolding eq by blast
    from rep sp(1) have "chain HEAP_MIN (xs @ Free x hi # ys) HEAP_MAX"
      by (simp add: represents_def arena_ok_def)
    from chain_split(2) [OF this] have "x \<le> hi" by simp
    then show ?thesis
      using that [of xs hi ys] rep m0 sp eq g by (simp add: word_mod_8_dvd word_gt_0)
  qed
qed

lemma exec_malloc_heap_ok [inv_intros]:
  assumes ok: "heap_ok m" and ex: "exec_malloc calloc_ok n m = Inr (x, c, m')"
  shows "heap_ok m'"
proof -
  obtain xs hi ys where s: "represents m (xs @ Free x hi # ys)"
    "represents m' (xs @ Used x (x + n) (replicate (unat n) 0) # Free (x + n) hi # ys)"
    "x \<le> hi" "\<not> hi - x < n" "0 < n" "8 dvd unat n" "c = COST_MALLOC"
    "alloced_size m' = alloced_size m + n"
    "max_alloced_size m' = max (max_alloced_size m) (alloced_size m + n)"
    "head m' = head m" "stack m' = stack m"
    by (rule exec_malloc_success [OF ok ex])
  note b = carve_bounds [OF s(3-5)]
  have "used_bytes (alloced m') = used_bytes (alloced m) + unat n"
    using s(1,2) b by (simp add: represents_def)
  moreover have "used_bytes (alloced m') < 2 ^ 64"
    using s(2) arena_bytes_bound unfolding represents_def by metis
  ultimately have "unat (alloced_size m') = used_bytes (alloced m')"
    using ok s(8) by (simp add: heap_ok_def unat_add_no_wrap)
  then show ?thesis using s(2,8,9) by (auto simp: heap_ok_def)
qed

lemma exec_free_success:
  assumes ok: "heap_ok m" and ex: "exec_free x m = Inr (c, m')"
  obtains xs b bs ys where "represents m (xs @ Used x b bs # ys)"
    "represents m' (arena_free x (xs @ Used x b bs # ys))"
    "alloced m' = used_of xs @ used_of ys" "c = COST_FREE"
    "alloced_size m' = alloced_size m - (b - x)" "max_alloced_size m' = max_alloced_size m"
    "head m' = head m" "stack m' = stack m"
proof -
  from ok obtain ss where rep: "represents m ss" by (auto simp: heap_ok_def)
  have "\<exists>b bs. Used x b bs \<in> set ss"
    using exec_free_arena_unknown [OF rep, of x] ex by force
  then obtain b bs where used: "Used x b bs \<in> set ss" by blast
  then obtain xs ys where ss: "ss = xs @ Used x b bs # ys" by (meson split_list)
  obtain m0 where m0: "exec_free x m = Inr (COST_FREE, m0)" "represents m0 (arena_free x ss)"
    "alloced_size m0 = alloced_size m - (b - x)" "max_alloced_size m0 = max_alloced_size m"
    "head m0 = head m" "stack m0 = stack m" "alloced m0 = set_erase fst (x, b) (alloced m)"
    by (rule exec_free_arena [OF rep used])
  have "arena_ok (xs @ Used x b bs # ys)" "alloced m = used_of (xs @ Used x b bs # ys)"
    using rep ss by (simp_all add: represents_def)
  with m0(7) have "alloced m0 = used_of xs @ used_of ys" by (simp only: used_sets_around_used)
  then show ?thesis using that [of xs b bs ys] rep m0 ex ss by simp
qed

lemma exec_free_heap_ok [inv_intros]:
  assumes ok: "heap_ok m" and ex: "exec_free x m = Inr (c, m')"
  shows "heap_ok m'"
proof -
  obtain xs b bs ys where s: "represents m (xs @ Used x b bs # ys)"
    "represents m' (arena_free x (xs @ Used x b bs # ys))"
    "alloced m' = used_of xs @ used_of ys" "c = COST_FREE"
    "alloced_size m' = alloced_size m - (b - x)" "max_alloced_size m' = max_alloced_size m"
    "head m' = head m" "stack m' = stack m"
    by (rule exec_free_success [OF ok ex])
  from s(1) have "chain HEAP_MIN (xs @ Used x b bs # ys) HEAP_MAX"
    by (simp add: represents_def arena_ok_def)
  from chain_split(2) [OF this] have xb: "x \<le> b" by auto
  then have ub: "unat (b - x) = unat b - unat x" by (rule unat_diff_le)
  have total: "used_bytes (alloced m) = used_bytes (alloced m') + unat (b - x)"
    using s(1,3) ub by (simp add: represents_def)
  with ok have u: "unat (alloced_size m) = used_bytes (alloced m') + unat (b - x)"
    by (simp add: heap_ok_def)
  then have le: "b - x \<le> alloced_size m" by (simp add: word_le_nat_alt)
  with u s(5) have "unat (alloced_size m') = used_bytes (alloced m')"
    by (simp add: unat_diff_le)
  moreover have "alloced_size m' \<le> alloced_size m"
    using le s(5) by (simp add: word_le_nat_alt unat_diff_le)
  ultimately show ?thesis using ok s(2,6) by (auto simp: heap_ok_def)
qed

end
