(* ===== verification/Memory_Access.thy ===== *)
theory Memory_Access
  imports Heap_Alloc
begin

text \<open>
  Loads and stores. The locale \<open>access_port\<close> is the interface of a byte-addressed store
  with accesses of several sizes; the stack, the heap and the memory as a whole provide it. Its
  lemmas on sequences of stores hold for each of them. The heap part rests on the invariant: an
  aligned access that starts inside a block stays inside it, because block bounds are multiples
  of eight.
\<close>

subsection \<open>The interface\<close>

definition overlaps :: "msize \<Rightarrow> u64 \<Rightarrow> msize \<Rightarrow> u64 \<Rightarrow> bool" where
  "overlaps sz a sz' a' \<longleftrightarrow> unat a < unat a' + msize_of sz' \<and> unat a' < unat a + msize_of sz"

locale access_port =
  fixes load :: "msize \<Rightarrow> u64 \<Rightarrow> 's \<Rightarrow> 'e + u64"
    and store :: "msize \<Rightarrow> u64 \<Rightarrow> u64 \<Rightarrow> 's \<Rightarrow> 'e + 's"
    and ok :: "'s \<Rightarrow> bool"
    and valid :: "'s \<Rightarrow> msize \<Rightarrow> u64 \<Rightarrow> bool"
  assumes load_total: "\<lbrakk> ok s; valid s sz a \<rbrakk> \<Longrightarrow> \<exists>v. load sz a s = Inr v"
    and store_total: "\<lbrakk> ok s; valid s sz a \<rbrakk> \<Longrightarrow> \<exists>s'. store sz a v s = Inr s'"
    and store_keeps: "\<lbrakk> ok s; valid s sz a; store sz a v s = Inr s' \<rbrakk>
      \<Longrightarrow> ok s' \<and> valid s' = valid s"
    and load_same: "\<lbrakk> ok s; valid s sz a; store sz a v s = Inr s' \<rbrakk>
      \<Longrightarrow> load sz a s' = Inr (take_bit (8 * msize_of sz) v)"
    and load_other: "\<lbrakk> ok s; valid s sz a; valid s sz' a'; store sz a v s = Inr s';
      \<not> overlaps sz a sz' a' \<rbrakk> \<Longrightarrow> load sz' a' s' = load sz' a' s"
begin

fun store_all :: "(msize \<times> u64 \<times> u64) list \<Rightarrow> 's \<Rightarrow> 'e + 's" where
  "store_all [] s = Inr s"
| "store_all ((sz, a, v) # ws) s = rbind (store sz a v s) (store_all ws)"

lemma store_all_total:
  "\<lbrakk> ok s; \<forall>(sz, a, v) \<in> set ws. valid s sz a \<rbrakk>
   \<Longrightarrow> \<exists>s'. store_all ws s = Inr s' \<and> ok s' \<and> valid s' = valid s"
proof (induction ws arbitrary: s)
  case (Cons w ws)
  obtain sz a v where w: "w = (sz, a, v)" by (cases w)
  with Cons.prems obtain s1 where s1: "store sz a v s = Inr s1" using store_total by fastforce
  from Cons.prems w have "ok s1" "valid s1 = valid s" using store_keeps [OF _ _ s1] by auto
  with Cons.IH [of s1] Cons.prems w s1 show ?case by auto
qed simp

lemma load_store_all_other:
  "\<lbrakk> ok s; \<forall>(sz, a, v) \<in> set ws. valid s sz a \<and> \<not> overlaps sz a sz' a'; valid s sz' a';
     store_all ws s = Inr s' \<rbrakk> \<Longrightarrow> load sz' a' s' = load sz' a' s"
proof (induction ws arbitrary: s)
  case (Cons w ws)
  obtain sz a v where w: "w = (sz, a, v)" by (cases w)
  with Cons.prems obtain s1 where s1: "store sz a v s = Inr s1" "store_all ws s1 = Inr s'"
    by (auto simp: result_iff)
  from Cons.prems w have k: "ok s1" "valid s1 = valid s" using store_keeps [OF _ _ s1(1)] by auto
  have "load sz' a' s' = load sz' a' s1" using Cons k s1 w by auto
  also have "\<dots> = load sz' a' s" using Cons.prems w s1 load_other by auto
  finally show ?case .
qed simp

text \<open>The last of several stores to a location is the one a load sees.\<close>

lemma load_last_store:
  assumes "ok s" "valid s sz a" "\<forall>(sz', a', v') \<in> set ws. valid s sz' a' \<and> \<not> overlaps sz' a' sz a"
    and "store_all ((sz, a, v) # ws) s = Inr s'"
  shows "load sz a s' = Inr (take_bit (8 * msize_of sz) v)"
proof -
  from assms(4) obtain s1 where s1: "store sz a v s = Inr s1" "store_all ws s1 = Inr s'"
    by (auto simp: result_iff)
  have k: "ok s1" "valid s1 = valid s" using store_keeps [OF assms(1,2) s1(1)] by auto
  have "load sz a s' = load sz a s1"
    using load_store_all_other [OF k(1) _ _ s1(2)] assms k by simp
  with load_same [OF assms(1,2) s1(1)] show ?thesis by simp
qed

end

subsection \<open>Buffers\<close>

lemma load_buffer_Inr [simp]:
  "unat ofs + msize_of sz \<le> length bs \<Longrightarrow>
   load_buffer sz bs ofs = Inr (load_little_endian (msize_of sz) bs (unat ofs))"
  by (simp add: load_buffer_def)

lemma store_buffer_Inr [simp]:
  "unat ofs + msize_of sz \<le> length bs \<Longrightarrow>
   store_buffer sz bs ofs v = Inr (store_little_endian (msize_of sz) bs (unat ofs) v)"
  by (simp add: store_buffer_def)

subsection \<open>The stack\<close>

definition stack_valid :: "memory \<Rightarrow> msize \<Rightarrow> u64 \<Rightarrow> bool" where
  "stack_valid m sz a \<longleftrightarrow> unat a + msize_of sz \<le> 10240"

lemma store_stack_Inr:
  assumes "memory_ok m" and "unat a + msize_of sz \<le> 10240"
  shows "store_stack sz a v m
    = Inr (m\<lparr>stack := store_little_endian (msize_of sz) (stack m) (unat a) v\<rparr>)"
  using assms by (simp add: store_stack_def memory_ok_def)

lemma load_stack_Inr:
  assumes "memory_ok m" and "unat a + msize_of sz \<le> 10240"
  shows "load_stack sz a m = Inr (load_little_endian (msize_of sz) (stack m) (unat a))"
  using assms by (simp add: load_stack_def memory_ok_def)

lemma represents_cong:
  "\<lbrakk> alloced m' = alloced m; freed m' = freed m \<rbrakk> \<Longrightarrow> represents m' ss = represents m ss"
  by (simp add: represents_def)

lemma heap_ok_frame:
  "\<lbrakk> alloced m' = alloced m; freed m' = freed m; alloced_size m' = alloced_size m;
     max_alloced_size m' = max_alloced_size m \<rbrakk> \<Longrightarrow> heap_ok m' = heap_ok m"
  by (simp add: heap_ok_def represents_cong [of m' m])

lemma memory_ok_head [simp]: "memory_ok (m\<lparr>head := h\<rparr>) = memory_ok m"
  using heap_ok_frame [of "m\<lparr>head := h\<rparr>" m] by (simp add: memory_ok_def)

lemma memory_ok_stack: "\<lbrakk> memory_ok m; length bs = 10240 \<rbrakk> \<Longrightarrow> memory_ok (m\<lparr>stack := bs\<rparr>)"
  using heap_ok_frame [of "m\<lparr>stack := bs\<rparr>" m] by (simp add: memory_ok_def)

interpretation stk: access_port load_stack store_stack memory_ok stack_valid
proof
  fix s :: memory and sz sz' :: msize and a a' v :: u64 and s' :: memory
  assume ok: "memory_ok s" and va: "stack_valid s sz a"
  have len: "length (stack s) = 10240" using ok by (simp add: memory_ok_def)
  show "\<exists>v. load_stack sz a s = Inr v"
    using ok va by (simp add: stack_valid_def load_stack_Inr)
  show "\<exists>s'. store_stack sz a v s = Inr s'"
    using ok va by (simp add: stack_valid_def store_stack_Inr)
  assume st: "store_stack sz a v s = Inr s'"
  then have s': "s' = s\<lparr>stack := store_little_endian (msize_of sz) (stack s) (unat a) v\<rparr>"
    using ok va by (simp add: stack_valid_def store_stack_Inr)
  then have ok': "memory_ok s'" using ok len by (simp add: memory_ok_stack)
  then show "memory_ok s' \<and> stack_valid s' = stack_valid s"
    by (simp add: fun_eq_iff stack_valid_def)
  show "load_stack sz a s' = Inr (take_bit (8 * msize_of sz) v)"
    using ok' va len by (simp add: stack_valid_def load_stack_Inr s' load_store_same)
  assume va': "stack_valid s sz' a'" and no: "\<not> overlaps sz a sz' a'"
  have "load_little_endian (msize_of sz') (stack s') (unat a')
      = load_little_endian (msize_of sz') (stack s) (unat a')"
    using va va' no len unfolding s'
    by (simp add: stack_valid_def overlaps_def load_store_disjoint linorder_not_less disj_commute)
  then show "load_stack sz' a' s' = load_stack sz' a' s"
    using ok ok' va' by (simp add: stack_valid_def load_stack_Inr)
qed

subsection \<open>Finding the block of an address\<close>

lemma find_block_used:
  assumes rep: "represents m ss" and used: "Used x b bs \<in> set ss" and addr: "x \<le> addr" "addr < b"
  shows "find_block addr m = Inr ((x, b), bs)"
proof -
  from used obtain xs ys where ss: "ss = xs @ Used x b bs # ys" by (meson split_list)
  from rep have ok: "arena_ok (xs @ Used x b bs # ys)"
    and al: "alloced m = (used_of xs @ [((x, b), bs)]) @ used_of ys"
    by (simp_all add: represents_def ss)
  from ok have ch: "chain HEAP_MIN (xs @ Used x b bs # ys) HEAP_MAX" by (simp add: arena_ok_def)
  note us = used_before_after [OF ch]
  from chain_split(2) [OF ch] have bmax: "b \<noteq> - 1"
    using chain_seg [OF ch, of "Used x b bs"]
    by (auto simp: HEAP_MAX_def word_le_nat_alt unsigned_minus_1_eq_mask mask_eq_exp_minus_1)
  have "b < - 1" using bmax word_n1_ge [of b] by (simp add: order.not_eq_order_implies_strict)
  then have here: "(x, b) < (addr, - 1)" using addr by (cases "x = addr") (simp_all add: less_pair)
  have before: "fst e < (addr, - 1)" if "e \<in> set (used_of xs)" for e
    using us(1) that addr by (intro less_pair_fst) (auto intro: order.strict_trans2)
  have "fst e < (addr, - 1)" if "e \<in> set (used_of xs @ [((x, b), bs)])" for e
  proof (cases "e = ((x, b), bs)")
    case True
    show ?thesis unfolding True fst_conv by (rule here)
  next
    case False
    with that show ?thesis using before by simp
  qed
  moreover have "(addr, - 1) \<le> fst e" if "e \<in> set (used_of ys)" for e
    using us(2) that addr by (intro less_imp_le less_pair_fst) auto
  ultimately have "below fst (addr, - 1) (alloced m) = used_of xs @ [((x, b), bs)]"
    unfolding al by (intro below_split(1)) auto
  with addr show ?thesis by (simp add: find_block_def)
qed

lemma find_block_Inr:
  assumes rep: "represents m ss" and f: "find_block addr m = Inr e"
  obtains x b bs where "e = ((x, b), bs)" "Used x b bs \<in> set ss" "x \<le> addr" "addr < b"
proof -
  let ?bl = "below fst (addr, - 1) (alloced m)"
  from f have ne: "?bl \<noteq> []" and e: "e = last ?bl" "addr < snd (fst e)"
    by (auto simp: find_block_def Let_def not_le split: if_splits)
  from ne e(1) have "e \<in> set ?bl" by simp
  then have in_m: "e \<in> set (alloced m)" and "fst e < (addr, - 1)"
    by (auto simp: below_def dest: set_takeWhileD)
  then have "fst (fst e) \<le> addr" by (auto simp: less_prod_def')
  moreover have "Used (fst (fst e)) (snd (fst e)) (snd e) \<in> set ss"
    using in_m rep by (simp add: represents_def in_used_of)
  ultimately show ?thesis using that e(2) by (metis prod.collapse)
qed

lemma find_block_Inl:
  "find_block addr m = Inl e \<Longrightarrow> e = Runtime_error ''accessing non-allocated memory''"
  by (auto simp: find_block_def Let_def split: if_splits)

subsection \<open>The heap\<close>

definition heap_valid :: "memory \<Rightarrow> msize \<Rightarrow> u64 \<Rightarrow> bool" where
  "heap_valid m sz a \<longleftrightarrow> is_alligned sz a \<and>
     (\<exists>e \<in> set (alloced m). fst (fst e) \<le> a \<and> a < snd (fst e))"

lemma is_alligned_dvd: "is_alligned sz a \<longleftrightarrow> msize_of sz dvd unat a"
proof -
  have "unat (of_nat (msize_of sz) :: u64) = msize_of sz" by (cases sz) simp_all
  then have "unat (a mod of_nat (msize_of sz)) = unat a mod msize_of sz" by (simp add: unat_mod)
  then show ?thesis
    unfolding is_alligned_def dvd_eq_mod_eq_0 by (metis unat_eq_0)
qed

text \<open>An aligned access that starts in a block ends in it.\<close>

lemma access_in_block:
  assumes seg: "seg_ok (Used x b bs)" and a: "x \<le> a" "a < b" and al: "is_alligned sz a"
  shows "unat (a - x) + msize_of sz \<le> length bs" "unat (a - x) = unat a - unat x"
    "unat a + msize_of sz \<le> unat b"
proof -
  let ?k = "msize_of sz"
  have "?k dvd unat a" using al by (simp add: is_alligned_dvd)
  then obtain i where i: "unat a = ?k * i" by blast
  have "?k dvd unat b" using seg msize_of_bounds(3) [of sz] by (auto intro: dvd_trans)
  then obtain j where j: "unat b = ?k * j" by blast
  from a(2) i j have "?k * i < ?k * j" by (simp add: word_less_nat_alt)
  then have "i < j" by simp
  then have "?k * Suc i \<le> ?k * j" by (intro mult_le_mono2) simp
  then show fit: "unat a + ?k \<le> unat b" using i j by simp
  show "unat (a - x) = unat a - unat x" using a(1) by (rule unat_diff_le)
  with seg a fit show "unat (a - x) + ?k \<le> length bs" by (simp add: word_le_nat_alt)
qed

lemma represents_seg_ok: "\<lbrakk> represents m ss; s \<in> set ss \<rbrakk> \<Longrightarrow> seg_ok s"
  by (auto simp: represents_def arena_ok_def dest: chain_seg)

lemma represents_seg_bounds:
  "\<lbrakk> represents m ss; s \<in> set ss \<rbrakk> \<Longrightarrow> HEAP_MIN \<le> seg_lo s \<and> seg_hi s \<le> HEAP_MAX"
  by (auto simp: represents_def arena_ok_def dest: chain_seg)

lemma heap_valid_used:
  assumes rep: "represents m ss" and hv: "heap_valid m sz a"
  obtains x b bs where "Used x b bs \<in> set ss" "x \<le> a" "a < b" "is_alligned sz a"
    "unat (a - x) + msize_of sz \<le> length bs" "unat (a - x) = unat a - unat x"
proof -
  from hv obtain e where e: "e \<in> set (alloced m)" "fst (fst e) \<le> a" "a < snd (fst e)"
    and al: "is_alligned sz a" by (auto simp: heap_valid_def)
  from e(1) rep have used: "Used (fst (fst e)) (snd (fst e)) (snd e) \<in> set ss"
    by (simp add: represents_def in_used_of)
  from access_in_block [OF represents_seg_ok [OF rep used] e(2,3) al] used e al
  show ?thesis using that by blast
qed

lemma load_heap_Inr:
  assumes "represents m ss" "Used x b bs \<in> set ss" "x \<le> a" "a < b"
    "unat (a - x) + msize_of sz \<le> length bs"
  shows "load_heap sz a m = Inr (load_little_endian (msize_of sz) bs (unat (a - x)))"
  using assms by (simp add: load_heap_def find_block_used)

text \<open>Writing into a block replaces its bytes and nothing else.\<close>

definition put_bytes :: "u64 \<Rightarrow> u8 list \<Rightarrow> seg \<Rightarrow> seg" where
  "put_bytes x bs' s = (case s of
      Used a b bs \<Rightarrow> if a = x then Used a b bs' else s | Free a b \<Rightarrow> s)"

lemma put_bytes_simps [simp]:
  "put_bytes x bs' (Used a b bs) = (if a = x then Used a b bs' else Used a b bs)"
  "put_bytes x bs' (Free a b) = Free a b"
  by (simp_all add: put_bytes_def)

lemma put_bytes_lo_hi [simp]:
  "seg_lo (put_bytes x bs' s) = seg_lo s" "seg_hi (put_bytes x bs' s) = seg_hi s"
  "is_free (put_bytes x bs' s) = is_free s"
  by (cases s; simp)+

lemma free_of_put_bytes [simp]: "free_of (map (put_bytes x bs') ss) = free_of ss"
  by (induction ss rule: free_of.induct) auto

lemma separated_put_bytes [simp]: "separated (map (put_bytes x bs') ss) = separated ss"
  by (induction ss rule: separated.induct) auto

lemma chain_put_bytes:
  "\<lbrakk> chain lo ss hi; \<forall>b bs. Used x b bs \<in> set ss \<longrightarrow> length bs' = length bs \<rbrakk>
   \<Longrightarrow> chain lo (map (put_bytes x bs') ss) hi"
proof (induction ss arbitrary: lo)
  case (Cons s ss)
  then show ?case by (cases s) auto
qed simp

lemma used_unique:
  assumes "represents m ss" "Used x b bs \<in> set ss" "Used x c cs \<in> set ss"
  shows "c = b \<and> cs = bs"
proof -
  have "x < b" "x < c" using assms represents_seg_ok by fastforce+
  then have "find_block x m = Inr ((x, b), bs)" "find_block x m = Inr ((x, c), cs)"
    using assms find_block_used by blast+
  then show ?thesis by simp
qed

lemma store_heap_Inr:
  fixes v :: u64
  assumes rep: "represents m ss" and used: "Used x b bs \<in> set ss" and a: "x \<le> a" "a < b"
    and fit: "unat (a - x) + msize_of sz \<le> length bs"
  defines "bs' \<equiv> store_little_endian (msize_of sz) bs (unat (a - x)) v"
  shows "store_heap sz a v m = Inr (m\<lparr>alloced := set_bytes (x, b) bs' (alloced m)\<rparr>)"
    and "represents (m\<lparr>alloced := set_bytes (x, b) bs' (alloced m)\<rparr>) (map (put_bytes x bs') ss)"
proof -
  show "store_heap sz a v m = Inr (m\<lparr>alloced := set_bytes (x, b) bs' (alloced m)\<rparr>)"
    using fit by (simp add: store_heap_def find_block_used [OF rep used a] bs'_def)
  have len: "\<forall>c cs. Used x c cs \<in> set ss \<longrightarrow> length bs' = length cs"
    using used_unique [OF rep used] by (auto simp: bs'_def)
  have "set_bytes (x, b) bs' (used_of ts) = used_of (map (put_bytes x bs') ts)"
    if "set ts \<subseteq> set ss" for ts
    using that
  proof (induction ts rule: used_of.induct)
    case (2 c d cs ts)
    then show ?case using used_unique [OF rep used, of d cs] by (auto simp: set_bytes_def)
  qed (auto simp: set_bytes_def)
  then have "set_bytes (x, b) bs' (alloced m) = used_of (map (put_bytes x bs') ss)"
    using rep by (simp add: represents_def)
  with rep len chain_put_bytes [of HEAP_MIN ss HEAP_MAX x bs']
  show "represents (m\<lparr>alloced := set_bytes (x, b) bs' (alloced m)\<rparr>) (map (put_bytes x bs') ss)"
    by (simp add: represents_def arena_ok_def)
qed

lemma set_bytes_keys [simp]: "map fst (set_bytes blk bs es) = map fst es"
  by (induction es) (auto simp: set_bytes_def)

lemma set_bytes_key_set [simp]: "fst ` set (set_bytes blk bs es) = fst ` set es"
  by (metis set_bytes_keys set_map)

lemma used_bytes_set_bytes [simp]: "used_bytes (set_bytes blk bs es) = used_bytes es"
  by (induction es) (auto simp: set_bytes_def)

lemma heap_valid_keys: "fst ` set (alloced m') = fst ` set (alloced m) \<Longrightarrow> heap_valid m' = heap_valid m"
proof -
  assume k: "fst ` set (alloced m') = fst ` set (alloced m)"
  have "(\<exists>e \<in> set (alloced n). fst (fst e) \<le> a \<and> a < snd (fst e)) \<longleftrightarrow>
      (\<exists>k \<in> fst ` set (alloced n). fst k \<le> a \<and> a < snd k)"
    for n :: memory and a by blast
  then show ?thesis unfolding fun_eq_iff heap_valid_def by (simp only: k) blast
qed

lemma heap_valid_block:
  assumes ok: "memory_ok m" and hv: "heap_valid m sz a"
  obtains ss x b bs where "represents m ss" "Used x b bs \<in> set ss" "x \<le> a" "a < b"
    "unat (a - x) + msize_of sz \<le> length bs" "unat (a - x) = unat a - unat x"
proof -
  from ok obtain ss where "represents m ss" by (auto simp: memory_ok_def heap_ok_def)
  with hv that show ?thesis by (metis heap_valid_used)
qed

lemma set_bytes_memory_ok:
  assumes "memory_ok m" and "represents (m\<lparr>alloced := set_bytes blk bs (alloced m)\<rparr>) ss"
  shows "memory_ok (m\<lparr>alloced := set_bytes blk bs (alloced m)\<rparr>)"
  using assms by (auto simp: memory_ok_def heap_ok_def)

lemma heap_load_other:
  assumes ok: "memory_ok m" and va: "heap_valid m sz a" and va': "heap_valid m sz' a'"
    and st: "store_heap sz a v m = Inr m'" and no: "\<not> overlaps sz a sz' a'"
  shows "load_heap sz' a' m' = load_heap sz' a' m"
proof -
  obtain ss x b bs where u: "represents m ss" "Used x b bs \<in> set ss" "x \<le> a" "a < b"
    "unat (a - x) + msize_of sz \<le> length bs" "unat (a - x) = unat a - unat x"
    by (rule heap_valid_block [OF ok va])
  let ?bs = "store_little_endian (msize_of sz) bs (unat (a - x)) v"
  have rep': "represents m' (map (put_bytes x ?bs) ss)"
    using store_heap_Inr [OF u(1-5), of v] st by simp
  obtain y c cs where u': "Used y c cs \<in> set ss" "y \<le> a'" "a' < c" "is_alligned sz' a'"
    "unat (a' - y) + msize_of sz' \<le> length cs" "unat (a' - y) = unat a' - unat y"
    by (rule heap_valid_used [OF u(1) va'])
  have old: "load_heap sz' a' m = Inr (load_little_endian (msize_of sz') cs (unat (a' - y)))"
    by (rule load_heap_Inr [OF u(1) u'(1-3,5)])
  show ?thesis
  proof (cases "y = x")
    case False
    then have "Used y c cs \<in> set (map (put_bytes x ?bs) ss)"
      using u'(1) by (force simp: image_iff)
    with old load_heap_Inr [OF rep' _ u'(2,3,5)] show ?thesis by simp
  next
    case True
    then have same: "c = b" "cs = bs" using used_unique [OF u(1,2)] u'(1) by auto
    have "Used x b ?bs \<in> set (map (put_bytes x ?bs) ss)"
      using u(2) by (force simp: image_iff)
    then have new: "load_heap sz' a' m'
        = Inr (load_little_endian (msize_of sz') ?bs (unat (a' - x)))"
      using load_heap_Inr [OF rep'] u' True same by simp
    have "unat (a' - x) + msize_of sz' \<le> unat (a - x) \<or> unat (a - x) + msize_of sz \<le> unat (a' - x)"
      using no u(3,6) u'(2,6) True
      by (auto simp: overlaps_def word_le_nat_alt not_less)
    with u(5) u'(5) True same new old show ?thesis by (simp add: load_store_disjoint)
  qed
qed

lemma heap_load_same:
  assumes ok: "memory_ok m" and va: "heap_valid m sz a" and st: "store_heap sz a v m = Inr m'"
  shows "load_heap sz a m' = Inr (take_bit (8 * msize_of sz) v)"
proof -
  obtain ss x b bs where u: "represents m ss" "Used x b bs \<in> set ss" "x \<le> a" "a < b"
    "unat (a - x) + msize_of sz \<le> length bs" "unat (a - x) = unat a - unat x"
    by (rule heap_valid_block [OF ok va])
  let ?bs = "store_little_endian (msize_of sz) bs (unat (a - x)) v"
  have rep': "represents m' (map (put_bytes x ?bs) ss)"
    using store_heap_Inr [OF u(1-5), of v] st by simp
  have "Used x b ?bs \<in> set (map (put_bytes x ?bs) ss)" using u(2) by (force simp: image_iff)
  from load_heap_Inr [OF rep' this u(3,4)] u(5) show ?thesis by (simp add: load_store_same)
qed

interpretation hp: access_port load_heap store_heap memory_ok heap_valid
proof
  fix s :: memory and sz :: msize and a v :: u64
  assume ok: "memory_ok s" and va: "heap_valid s sz a"
  obtain ss x b bs where u: "represents s ss" "Used x b bs \<in> set ss" "x \<le> a" "a < b"
    "unat (a - x) + msize_of sz \<le> length bs" "unat (a - x) = unat a - unat x"
    by (rule heap_valid_block [OF ok va])
  show "\<exists>v. load_heap sz a s = Inr v" using load_heap_Inr [OF u(1-5)] by simp
  note st = store_heap_Inr [OF u(1-5), of v]
  show "\<exists>s'. store_heap sz a v s = Inr s'" using st by simp
  fix s' assume "store_heap sz a v s = Inr s'"
  with st have s': "s' = s\<lparr>alloced := set_bytes (x, b)
      (store_little_endian (msize_of sz) bs (unat (a - x)) v) (alloced s)\<rparr>" by simp
  have "memory_ok s'" unfolding s' by (rule set_bytes_memory_ok [OF ok st(2)])
  moreover have "heap_valid s' = heap_valid s" by (rule heap_valid_keys) (simp add: s')
  ultimately show "memory_ok s' \<and> heap_valid s' = heap_valid s" by simp
qed (blast intro: heap_load_same heap_load_other)+

end
