(* ===== verification/Allocator.thy ===== *)
theory Allocator
  imports Memory_Access
begin

text \<open>
  The allocator as an interface. \<open>allocator\<close> says what a client may assume of allocation
  and release: the result is fresh, a release takes exactly the named block away, and releasing
  anything that is not the start of a live block fails. The facts on runs of requests follow
  from these laws; the heap of the interpreter is the provider.
\<close>

datatype ('n, 'a) request = Alloc 'n | Release 'a

locale allocator =
  fixes malloc :: "'n \<Rightarrow> 's \<Rightarrow> 'e + 'a \<times> 'c \<times> 's"
    and release :: "'a \<Rightarrow> 's \<Rightarrow> 'e + 'c \<times> 's"
    and live :: "'s \<Rightarrow> 'b set"
    and start :: "'b \<Rightarrow> 'a"
    and clash :: "'b \<Rightarrow> 'b \<Rightarrow> bool"
    and ok :: "'s \<Rightarrow> bool"
  assumes malloc_ok: "\<lbrakk> ok s; malloc n s = Inr (a, c, s') \<rbrakk> \<Longrightarrow> ok s'"
    and release_ok: "\<lbrakk> ok s; release a s = Inr (c, s') \<rbrakk> \<Longrightarrow> ok s'"
    and malloc_live: "\<lbrakk> ok s; malloc n s = Inr (a, c, s') \<rbrakk>
      \<Longrightarrow> \<exists>b. start b = a \<and> b \<notin> live s \<and> live s' = insert b (live s) \<and>
              (\<forall>b' \<in> live s. \<not> clash b b' \<and> \<not> clash b' b)"
    and release_live: "\<lbrakk> ok s; release a s = Inr (c, s') \<rbrakk>
      \<Longrightarrow> \<exists>b \<in> live s. start b = a \<and> live s' = live s - {b}"
    and release_known: "\<lbrakk> ok s; b \<in> live s \<rbrakk> \<Longrightarrow> \<exists>c s'. release (start b) s = Inr (c, s')"
    and start_inj: "ok s \<Longrightarrow> inj_on start (live s)"
begin

definition exclusive :: "'s \<Rightarrow> bool" where
  "exclusive s \<longleftrightarrow> (\<forall>b \<in> live s. \<forall>b' \<in> live s. b \<noteq> b' \<longrightarrow> \<not> clash b b')"

fun run :: "('n, 'a) request list \<Rightarrow> 's \<Rightarrow> 'e + 's" where
  "run [] s = Inr s"
| "run (Alloc n # rs) s = rbind (malloc n s) (\<lambda>(a, c, s'). run rs s')"
| "run (Release a # rs) s = rbind (release a s) (\<lambda>(c, s'). run rs s')"

lemma malloc_exclusive: "\<lbrakk> ok s; exclusive s; malloc n s = Inr (a, c, s') \<rbrakk> \<Longrightarrow> exclusive s'"
  by (drule (1) malloc_live) (auto simp: exclusive_def)

lemma release_exclusive: "\<lbrakk> ok s; exclusive s; release a s = Inr (c, s') \<rbrakk> \<Longrightarrow> exclusive s'"
  by (drule (1) release_live) (auto simp: exclusive_def)

lemma run_exclusive: "\<lbrakk> ok s; exclusive s; run rs s = Inr s' \<rbrakk> \<Longrightarrow> ok s' \<and> exclusive s'"
proof (induction rs s rule: run.induct)
  case (2 n rs s)
  from "2.prems"(3) obtain a c t where t: "malloc n s = Inr (a, c, t)" "run rs t = Inr s'"
    by (auto simp: result_iff)
  then have "ok t" "exclusive t" using malloc_ok malloc_exclusive "2.prems" by blast+
  with t "2.IH" [OF t(1)] show ?case by blast
next
  case (3 a rs s)
  from "3.prems"(3) obtain c t where t: "release a s = Inr (c, t)" "run rs t = Inr s'"
    by (auto simp: result_iff)
  then have "ok t" "exclusive t" using release_ok release_exclusive "3.prems" by blast+
  with t "3.IH" [OF t(1)] show ?case by blast
qed simp

text \<open>A block can be released once: the second release of the same address fails.\<close>

lemma double_release:
  assumes ok: "ok s" and r: "release a s = Inr (c, s')"
  shows "\<exists>e. release a s' = Inl e"
proof (cases "release a s'")
  case (Inr p)
  obtain c' s'' where p: "p = (c', s'')" by (cases p)
  from release_live [OF ok r] obtain b where b: "b \<in> live s" "start b = a" "live s' = live s - {b}"
    by blast
  from release_live [OF release_ok [OF ok r]] Inr p obtain b' where
    b': "b' \<in> live s'" "start b' = a" by blast
  with b have ne: "b' \<in> live s" "b' \<noteq> b" by auto
  have "b' = b" by (rule inj_onD [OF start_inj [OF ok]]) (simp_all add: b b' ne(1))
  with ne show ?thesis by simp
qed auto

lemma release_after_malloc:
  assumes ok: "ok s" and m: "malloc n s = Inr (a, c, s')"
  shows "\<exists>c' s''. release a s' = Inr (c', s'') \<and> live s'' = live s"
proof -
  from malloc_live [OF ok m] obtain b where
    b: "start b = a" "b \<notin> live s" "live s' = insert b (live s)" by blast
  note ok' = malloc_ok [OF ok m]
  from release_known [OF ok'] b obtain c' s'' where r: "release a s' = Inr (c', s'')" by blast
  from release_live [OF ok' r] obtain b' where
    b': "b' \<in> live s'" "start b' = a" "live s'' = live s' - {b'}" by blast
  have "b' = b" by (rule inj_onD [OF start_inj [OF ok']]) (use b b' in simp_all)
  with b b' r show ?thesis by auto
qed

end

subsection \<open>The heap provides the interface\<close>

definition live_blocks :: "memory \<Rightarrow> block set" where
  "live_blocks m = fst ` set (alloced m)"

definition blocks_clash :: "block \<Rightarrow> block \<Rightarrow> bool" where
  "blocks_clash p q \<longleftrightarrow> fst p < snd q \<and> fst q < snd p"

lemma live_blocks_used: "represents m ss \<Longrightarrow> live_blocks m = fst ` set (used_of ss)"
  by (simp add: live_blocks_def represents_def)

lemma used_of_clear:
  assumes "chain HEAP_MIN (xs @ s # ys) HEAP_MAX" and "e \<in> set (used_of xs) \<union> set (used_of ys)"
  shows "snd (fst e) \<le> seg_lo s \<or> seg_hi s \<le> fst (fst e)"
proof -
  note c = chain_split [OF assms(1)]
  from assms(2) show ?thesis using before_used [OF c(1)] before_used [OF c(3)] by blast
qed

lemma malloc_block_fresh:
  assumes ok: "heap_ok m" and ex: "exec_malloc calloc_ok n m = Inr (x, c, m')"
  shows "live_blocks m' = insert (x, x + n) (live_blocks m)" and "(x, x + n) \<notin> live_blocks m"
    and "\<forall>b \<in> live_blocks m. snd b \<le> x \<or> x + n \<le> fst b" and "x < x + n"
    and "HEAP_MIN \<le> x" and "x + n \<le> HEAP_MAX" and "8 dvd unat x"
proof -
  obtain xs hi ys where s: "represents m (xs @ Free x hi # ys)"
    "represents m' (xs @ Used x (x + n) (replicate (unat n) 0) # Free (x + n) hi # ys)"
    "x \<le> hi" "\<not> hi - x < n" "0 < n" "8 dvd unat n" "c = COST_MALLOC"
    "alloced_size m' = alloced_size m + n"
    "max_alloced_size m' = max (max_alloced_size m) (alloced_size m + n)"
    "head m' = head m" "stack m' = stack m"
    by (rule exec_malloc_success [OF ok ex])
  note b = carve_bounds [OF s(3-5)]
  show "live_blocks m' = insert (x, x + n) (live_blocks m)"
    using s(1,2) by (auto simp: live_blocks_used)
  from s(1) have ch: "chain HEAP_MIN (xs @ Free x hi # ys) HEAP_MAX"
    by (simp add: represents_def arena_ok_def)
  have clear: "snd p \<le> x \<or> x + n \<le> fst p" if p: "p \<in> live_blocks m" for p
  proof -
    from p s(1) obtain e where "p = fst e" "e \<in> set (used_of xs) \<union> set (used_of ys)"
      by (auto simp: live_blocks_used)
    then have "snd p \<le> x \<or> hi \<le> fst p" using used_of_clear [OF ch, of e] by simp
    then show ?thesis using b(3) order_trans by blast
  qed
  then show "\<forall>b \<in> live_blocks m. snd b \<le> x \<or> x + n \<le> fst b" by blast
  show "x < x + n" by (rule b(2))
  with clear show "(x, x + n) \<notin> live_blocks m" by force
  have "Free x hi \<in> set (xs @ Free x hi # ys)" by simp
  from represents_seg_bounds [OF s(1) this] represents_seg_ok [OF s(1) this] b(3)
  show "HEAP_MIN \<le> x" "x + n \<le> HEAP_MAX" "8 dvd unat x" by auto
qed

lemma heap_ok_rep: "heap_ok m \<Longrightarrow> \<exists>ss. represents m ss"
  by (simp add: heap_ok_def)

lemma live_block_used:
  assumes "represents m ss" and "p \<in> live_blocks m"
  obtains bs where "Used (fst p) (snd p) bs \<in> set ss"
  using assms by (auto simp: live_blocks_def represents_def in_used_of)

lemma heap_start_inj: "heap_ok m \<Longrightarrow> inj_on fst (live_blocks m)"
proof (rule inj_onI)
  fix p q assume ok: "heap_ok m" and p: "p \<in> live_blocks m" and q: "q \<in> live_blocks m" and "fst p = fst q"
  from ok obtain ss where rep: "represents m ss" by (auto simp: heap_ok_def)
  obtain bs cs where "Used (fst p) (snd p) bs \<in> set ss" "Used (fst q) (snd q) cs \<in> set ss"
    by (metis live_block_used [OF rep p] live_block_used [OF rep q])
  with used_unique [OF rep] \<open>fst p = fst q\<close> show "p = q" by (metis prod_eq_iff)
qed

interpretation heap: allocator "exec_malloc calloc_ok" exec_free live_blocks fst blocks_clash heap_ok
  for calloc_ok
proof
  fix s n a c s'
  assume "heap_ok s" "exec_malloc calloc_ok n s = Inr (a, c, s')"
  note f = malloc_block_fresh [OF this]
  have "\<forall>b' \<in> live_blocks s. \<not> blocks_clash (a, a + n) b' \<and> \<not> blocks_clash b' (a, a + n)"
    using f(3) by (auto simp: blocks_clash_def)
  with f(1,2) show "\<exists>b. fst b = a \<and> b \<notin> live_blocks s \<and> live_blocks s' = insert b (live_blocks s) \<and>
      (\<forall>b' \<in> live_blocks s. \<not> blocks_clash b b' \<and> \<not> blocks_clash b' b)"
    by (intro exI [of _ "(a, a + n)"]) simp
next
  fix s a c s'
  assume ok: "heap_ok s" and ex: "exec_free a s = Inr (c, s')"
  obtain xs b bs ys where f: "represents s (xs @ Used a b bs # ys)"
    "represents s' (arena_free a (xs @ Used a b bs # ys))"
    "alloced s' = used_of xs @ used_of ys" "c = COST_FREE"
    "alloced_size s' = alloced_size s - (b - a)" "max_alloced_size s' = max_alloced_size s"
    "head s' = head s" "stack s' = stack s"
    by (rule exec_free_success [OF ok ex])
  from f(1) have ch: "chain HEAP_MIN (xs @ Used a b bs # ys) HEAP_MAX"
    by (simp add: represents_def arena_ok_def)
  then have "a < b" using chain_split(2) by fastforce
  then have "(a, b) \<notin> fst ` (set (used_of xs) \<union> set (used_of ys))"
    using used_of_clear [OF ch] by (force simp: image_iff)
  then have "live_blocks s' = live_blocks s - {(a, b)}"
    using f(1,3) by (auto simp: live_blocks_def represents_def image_Un)
  moreover have "(a, b) \<in> live_blocks s" using f(1) by (simp add: live_blocks_used)
  ultimately show "\<exists>b \<in> live_blocks s. fst b = a \<and> live_blocks s' = live_blocks s - {b}"
    by (intro bexI [of _ "(a, b)"]) simp_all
next
  fix s and b :: block
  assume ok: "heap_ok s" and "b \<in> live_blocks s"
  from ok obtain ss where rep: "represents s ss" by (auto simp: heap_ok_def)
  obtain bs where "Used (fst b) (snd b) bs \<in> set ss"
    by (rule live_block_used [OF rep \<open>b \<in> live_blocks s\<close>])
  from exec_free_arena [OF rep this] show "\<exists>c s'. exec_free (fst b) s = Inr (c, s')" by metis
qed (rule exec_malloc_heap_ok exec_free_heap_ok heap_start_inj; assumption)+

end
