(* ===== verification/Memory_Props.thy ===== *)
theory Memory_Props
  imports Allocator
begin

text \<open>
  The properties of the memory of the interpreter: allocation and release refine the arena,
  every operation keeps the invariant, a release undoes an allocation, loads see the last store,
  and the exact set of accesses whose behaviour C++ does not define.
\<close>

subsection \<open>The memory as one store\<close>

definition mem_load :: "msize \<Rightarrow> u64 \<Rightarrow> memory \<Rightarrow> u64 result" where
  "mem_load sz a m = rbind (exec_load sz a m) (\<lambda>(v, c, m'). Inr v)"

definition mem_store :: "msize \<Rightarrow> u64 \<Rightarrow> u64 \<Rightarrow> memory \<Rightarrow> memory result" where
  "mem_store sz a v m = rbind (exec_store sz a v m) (\<lambda>(c, m'). Inr m')"

definition mem_valid :: "memory \<Rightarrow> msize \<Rightarrow> u64 \<Rightarrow> bool" where
  "mem_valid m sz a \<longleftrightarrow> is_alligned sz a \<and> (stack_valid m sz a \<or> heap_valid m sz a)"

lemma unat_msize: "unat (of_nat (msize_of sz) :: u64) = msize_of sz"
  by (cases sz) simp_all

text \<open>The test of the code for the stack also accepts the addresses whose sum wraps around.\<close>

lemma is_stack_iff:
  "is_stack sz a \<longleftrightarrow> unat a + msize_of sz \<le> 10240 \<or> 2 ^ 64 \<le> unat a + msize_of sz"
proof (cases "unat a + msize_of sz < 2 ^ 64")
  case True
  then have "unat (a + of_nat (msize_of sz)) = unat a + msize_of sz"
    by (simp add: unat_add_no_wrap unat_msize)
  with True show ?thesis by (simp add: is_stack_def STACK_MAX_def word_le_nat_alt)
next
  case False
  have "unat (a + of_nat (msize_of sz)) = (unat a + msize_of sz) mod 2 ^ 64"
    by (simp add: unat_word_ariths unat_msize)
  also have "\<dots> = (unat a + msize_of sz) - 2 ^ 64"
  proof -
    have "unat a + msize_of sz - 18446744073709551616 < 18446744073709551616"
      using u64_less_bound [of a] msize_of_bounds(2) [of sz] by linarith
    then show ?thesis using False by (simp add: le_mod_geq)
  qed
  also have "unat a + msize_of sz - 2 ^ 64 \<le> 8"
    using u64_less_bound [of a] msize_of_bounds(2) [of sz] by (simp del: u64_less_bound)
  finally have "unat (a + of_nat (msize_of sz)) \<le> 10240" by simp
  with False show ?thesis by (simp add: is_stack_def STACK_MAX_def word_le_nat_alt)
qed

lemma heap_valid_range:
  assumes ok: "memory_ok m" and hv: "heap_valid m sz a"
  shows "is_heap sz a" "\<not> is_stack sz a" "20480 \<le> unat a"
proof -
  obtain ss x b bs where u: "represents m ss" "Used x b bs \<in> set ss" "x \<le> a" "a < b"
    "unat (a - x) + msize_of sz \<le> length bs" "unat (a - x) = unat a - unat x"
    by (rule heap_valid_block [OF ok hv])
  have al: "is_alligned sz a" using hv by (simp add: heap_valid_def)
  from represents_seg_bounds [OF u(1,2)] have lim: "HEAP_MIN \<le> x" "b \<le> HEAP_MAX" by simp_all
  from access_in_block(3) [OF represents_seg_ok [OF u(1,2)] u(3,4) al]
  have fit: "unat a + msize_of sz \<le> unat b" .
  also have "unat b \<le> 18446744073709551608"
    using lim(2) by (simp add: HEAP_MAX_def word_le_nat_alt)
  finally have top: "unat a + msize_of sz \<le> 18446744073709551608" .
  have "HEAP_MIN \<le> a" using lim(1) u(3) by (rule order_trans)
  then show low: "20480 \<le> unat a" by (simp add: HEAP_MIN_def word_le_nat_alt)
  show "\<not> is_stack sz a" using low top by (simp add: is_stack_iff)
  have "unat (a + of_nat (msize_of sz)) = unat a + msize_of sz"
    using top by (simp add: unat_add_no_wrap unat_msize)
  with top \<open>HEAP_MIN \<le> a\<close> show "is_heap sz a"
    by (simp add: is_heap_def HEAP_MAX_def word_le_nat_alt)
qed

lemma mem_load_stack:
  assumes "memory_ok m" "is_alligned sz a" "stack_valid m sz a"
  shows "mem_load sz a m = load_stack sz a m"
  using assms by (simp add: mem_load_def exec_load_def is_stack_iff stack_valid_def rbind_assoc)

lemma mem_load_heap:
  assumes "memory_ok m" "heap_valid m sz a"
  shows "mem_load sz a m = load_heap sz a m"
  using heap_valid_range [OF assms] assms(2)
  by (simp add: mem_load_def exec_load_def rbind_assoc heap_valid_def)

lemma mem_store_stack:
  assumes "memory_ok m" "is_alligned sz a" "stack_valid m sz a"
  shows "mem_store sz a v m = rbind (store_stack sz a v m) (\<lambda>m'. Inr (m'\<lparr>head := a\<rparr>))"
  using assms by (simp add: mem_store_def exec_store_def is_stack_iff stack_valid_def rbind_assoc)

lemma mem_store_heap:
  assumes "memory_ok m" "heap_valid m sz a"
  shows "mem_store sz a v m = rbind (store_heap sz a v m) (\<lambda>m'. Inr (m'\<lparr>head := a\<rparr>))"
  using heap_valid_range [OF assms] assms(2)
  by (simp add: mem_store_def exec_store_def rbind_assoc heap_valid_def)

text \<open>The head position plays no part in what an access reads.\<close>

lemma head_irrelevant [simp]:
  "load_stack sz a (m\<lparr>head := h\<rparr>) = load_stack sz a m"
  "load_heap sz a (m\<lparr>head := h\<rparr>) = load_heap sz a m"
  "stack_valid (m\<lparr>head := h\<rparr>) = stack_valid m"
  "heap_valid (m\<lparr>head := h\<rparr>) = heap_valid m"
  by (simp_all add: load_stack_def load_heap_def find_block_def fun_eq_iff stack_valid_def heap_valid_def)

lemma stack_store_frame:
  assumes "memory_ok m" "stack_valid m sz a" "store_stack sz a v m = Inr m'"
  shows "memory_ok m'" "heap_valid m' = heap_valid m" "load_heap sz' a' m' = load_heap sz' a' m"
proof -
  have m': "m' = m\<lparr>stack := store_little_endian (msize_of sz) (stack m) (unat a) v\<rparr>"
    using assms by (simp add: stack_valid_def store_stack_Inr)
  show "memory_ok m'" using stk.store_keeps [OF assms] by simp
  show "heap_valid m' = heap_valid m" "load_heap sz' a' m' = load_heap sz' a' m"
    by (simp_all add: m' fun_eq_iff heap_valid_def load_heap_def find_block_def)
qed

lemma heap_store_frame:
  assumes "memory_ok m" "heap_valid m sz a" "store_heap sz a v m = Inr m'"
  shows "load_stack sz' a' m' = load_stack sz' a' m"
  using assms(3) by (auto simp: store_heap_def load_stack_def result_iff)

lemma stack_heap_disjoint:
  assumes "memory_ok m" "stack_valid m sz a" "heap_valid m sz' a'"
  shows "\<not> overlaps sz a sz' a'"
  using heap_valid_range(3) [OF assms(1,3)] assms(2)
  by (simp add: overlaps_def stack_valid_def)

interpretation mem: access_port mem_load mem_store memory_ok mem_valid
proof
  fix s :: memory and sz :: msize and a v :: u64
  assume ok: "memory_ok s" and va: "mem_valid s sz a"
  show "\<exists>v. mem_load sz a s = Inr v"
    using va ok stk.load_total [OF ok] hp.load_total [OF ok]
    by (auto simp: mem_valid_def mem_load_stack mem_load_heap)
  show "\<exists>s'. mem_store sz a v s = Inr s'"
    using va ok stk.store_total [OF ok, of sz a v] hp.store_total [OF ok, of sz a v]
    by (auto simp: mem_valid_def mem_store_stack mem_store_heap)
  fix s' assume st: "mem_store sz a v s = Inr s'"
  have keeps: "memory_ok s' \<and> heap_valid s' = heap_valid s"
    using va
  proof (cases "stack_valid s sz a")
    case True
    with va st ok obtain t where "store_stack sz a v s = Inr t" "s' = t\<lparr>head := a\<rparr>"
      by (auto simp: mem_valid_def mem_store_stack result_iff)
    with stack_store_frame [OF ok True] show ?thesis by simp
  next
    case False
    with va have hv: "heap_valid s sz a" by (simp add: mem_valid_def)
    with st ok obtain t where "store_heap sz a v s = Inr t" "s' = t\<lparr>head := a\<rparr>"
      by (auto simp: mem_store_heap result_iff)
    with hp.store_keeps [OF ok hv] show ?thesis by simp
  qed
  then show "memory_ok s' \<and> mem_valid s' = mem_valid s"
    by (simp add: fun_eq_iff mem_valid_def stack_valid_def)
  show "mem_load sz a s' = Inr (take_bit (8 * msize_of sz) v)"
  proof (cases "stack_valid s sz a")
    case True
    with va st ok obtain t where t: "store_stack sz a v s = Inr t" "s' = t\<lparr>head := a\<rparr>"
      by (auto simp: mem_valid_def mem_store_stack result_iff)
    with stk.load_same [OF ok True t(1)] keeps va True show ?thesis
      by (subst mem_load_stack) (auto simp: mem_valid_def stack_valid_def)
  next
    case False
    with va have hv: "heap_valid s sz a" by (simp add: mem_valid_def)
    with st ok obtain t where t: "store_heap sz a v s = Inr t" "s' = t\<lparr>head := a\<rparr>"
      by (auto simp: mem_store_heap result_iff)
    with hp.load_same [OF ok hv t(1)] keeps hv show ?thesis by (simp add: mem_load_heap)
  qed
next
  fix s :: memory and sz sz' :: msize and a a' v :: u64 and s'
  assume ok: "memory_ok s" and va: "mem_valid s sz a" and va': "mem_valid s sz' a'"
    and st: "mem_store sz a v s = Inr s'" and no: "\<not> overlaps sz a sz' a'"
  show "mem_load sz' a' s' = mem_load sz' a' s"
  proof (cases "stack_valid s sz a")
    case True
    with va st ok obtain t where t: "store_stack sz a v s = Inr t" "s' = t\<lparr>head := a\<rparr>"
      by (auto simp: mem_valid_def mem_store_stack result_iff)
    note fr = stack_store_frame [OF ok True t(1)]
    show ?thesis
    proof (cases "stack_valid s sz' a'")
      case True
      with fr va' t ok stk.load_other [OF ok \<open>stack_valid s sz a\<close> True t(1) no] show ?thesis
        by (simp add: mem_valid_def mem_load_stack stack_valid_def)
    next
      case False
      with va' have "heap_valid s sz' a'" by (simp add: mem_valid_def)
      with fr ok t show ?thesis by (simp add: mem_load_heap)
    qed
  next
    case False
    with va have hv: "heap_valid s sz a" by (simp add: mem_valid_def)
    with st ok obtain t where t: "store_heap sz a v s = Inr t" "s' = t\<lparr>head := a\<rparr>"
      by (auto simp: mem_store_heap result_iff)
    note k = hp.store_keeps [OF ok hv t(1)]
    show ?thesis
    proof (cases "stack_valid s sz' a'")
      case True
      with k va' t ok heap_store_frame [OF ok hv t(1)] show ?thesis
        by (simp add: mem_valid_def mem_load_stack stack_valid_def)
    next
      case False
      with va' have "heap_valid s sz' a'" by (simp add: mem_valid_def)
      with k ok t hp.load_other [OF ok hv this t(1) no] show ?thesis by (simp add: mem_load_heap)
    qed
  qed
qed

subsection \<open>Failures of an access\<close>

lemma load_heap_defined:
  assumes ok: "memory_ok m" and al: "is_alligned sz a" and e: "load_heap sz a m = Inl e"
  shows "\<not> is_undefined e"
proof (cases "find_block a m")
  case (Inl e')
  with e show ?thesis by (auto simp: load_heap_def dest: find_block_Inl)
next
  case (Inr p)
  from ok obtain ss where rep: "represents m ss" by (auto simp: memory_ok_def heap_ok_def)
  obtain x b bs where u: "p = ((x, b), bs)" "Used x b bs \<in> set ss" "x \<le> a" "a < b"
    by (rule find_block_Inr [OF rep Inr])
  from access_in_block [OF represents_seg_ok [OF rep u(2)] u(3,4) al] e Inr u show ?thesis
    by (simp add: load_heap_def)
qed

lemma store_heap_defined:
  assumes ok: "memory_ok m" and al: "is_alligned sz a" and e: "store_heap sz a v m = Inl e"
  shows "\<not> is_undefined e"
proof (cases "find_block a m")
  case (Inl e')
  with e show ?thesis by (auto simp: store_heap_def dest: find_block_Inl)
next
  case (Inr p)
  from ok obtain ss where rep: "represents m ss" by (auto simp: memory_ok_def heap_ok_def)
  obtain x b bs where u: "p = ((x, b), bs)" "Used x b bs \<in> set ss" "x \<le> a" "a < b"
    by (rule find_block_Inr [OF rep Inr])
  from access_in_block [OF represents_seg_ok [OF rep u(2)] u(3,4) al] e Inr u show ?thesis
    by (simp add: store_heap_def)
qed

definition wraps :: "msize \<Rightarrow> u64 \<Rightarrow> bool" where
  "wraps sz a \<longleftrightarrow> is_alligned sz a \<and> 2 ^ 64 \<le> unat a + msize_of sz"

lemma exec_load_Inl:
  assumes ok: "memory_ok m" and e: "exec_load sz a m = Inl e"
  shows "is_undefined e \<longleftrightarrow> wraps sz a"
proof (cases "is_alligned sz a \<and> is_stack sz a")
  case True
  show ?thesis
  proof (cases "unat a + msize_of sz \<le> 10240")
    case True
    with \<open>is_alligned sz a \<and> is_stack sz a\<close> e ok show ?thesis
      by (simp add: exec_load_def load_stack_Inr)
  next
    case False
    with True e ok show ?thesis
      by (auto simp: exec_load_def load_stack_def load_buffer_def memory_ok_def wraps_def is_stack_iff)
  qed
next
  case False
  then have "\<not> wraps sz a" by (auto simp: wraps_def is_stack_iff)
  with False e ok show ?thesis
    by (auto simp: exec_load_def result_iff dest: load_heap_defined split: if_splits)
qed

lemma exec_store_Inl:
  assumes ok: "memory_ok m" and e: "exec_store sz a v m = Inl e"
  shows "is_undefined e \<longleftrightarrow> wraps sz a"
proof (cases "is_alligned sz a \<and> is_stack sz a")
  case True
  show ?thesis
  proof (cases "unat a + msize_of sz \<le> 10240")
    case True
    with \<open>is_alligned sz a \<and> is_stack sz a\<close> e ok show ?thesis
      by (simp add: exec_store_def store_stack_Inr)
  next
    case False
    with True e ok show ?thesis
      by (auto simp: exec_store_def store_stack_def store_buffer_def memory_ok_def wraps_def is_stack_iff)
  qed
next
  case False
  then have "\<not> wraps sz a" by (auto simp: wraps_def is_stack_iff)
  with False e ok show ?thesis
    by (auto simp: exec_store_def result_iff dest: store_heap_defined split: if_splits)
qed

lemma wraps_fails:
  assumes ok: "memory_ok m" and w: "wraps sz a"
  shows "\<exists>e. exec_load sz a m = Inl e" "\<exists>e. exec_store sz a v m = Inl e"
proof -
  have "is_alligned sz a" "is_stack sz a" "\<not> unat a + msize_of sz \<le> 10240"
    using w by (auto simp: wraps_def is_stack_iff)
  with ok show "\<exists>e. exec_load sz a m = Inl e" "\<exists>e. exec_store sz a v m = Inl e"
    by (auto simp: exec_load_def exec_store_def load_stack_def store_stack_def load_buffer_def
      store_buffer_def memory_ok_def)
qed

lemma exec_malloc_defined: "exec_malloc calloc_ok n m = Inl e \<Longrightarrow> \<not> is_undefined e"
  by (auto simp: exec_malloc_def Let_def split: if_splits option.splits)

lemma exec_free_Inl:
  "exec_free a m = Inl e \<Longrightarrow> e = Runtime_error ''freeing non-allocated address''"
  by (auto simp: exec_free_def Let_def split: if_splits list.splits prod.splits)

lemma exec_free_defined: "exec_free a m = Inl e \<Longrightarrow> \<not> is_undefined e"
  by (drule exec_free_Inl) simp

subsection \<open>The operations keep the invariant\<close>

lemma exec_load_memory_ok [inv_intros]:
  "\<lbrakk> memory_ok m; exec_load sz a m = Inr (v, c, m') \<rbrakk> \<Longrightarrow> memory_ok m'"
  by (auto simp: exec_load_def result_iff split: if_splits)

lemma store_stack_memory_ok:
  assumes ok: "memory_ok m" and st: "store_stack sz a v m = Inr m'"
  shows "memory_ok m'"
proof -
  have "stack_valid m sz a"
    using assms by (auto simp: store_stack_def store_buffer_def stack_valid_def memory_ok_def split: if_splits)
  from stk.store_keeps [OF ok this st] show ?thesis by simp
qed

lemma store_heap_memory_ok:
  assumes ok: "memory_ok m" and al: "is_alligned sz a" and st: "store_heap sz a v m = Inr m'"
  shows "memory_ok m'"
proof -
  from ok obtain ss where rep: "represents m ss" by (auto simp: memory_ok_def heap_ok_def)
  from st obtain p where p: "find_block a m = Inr p" by (auto simp: store_heap_def result_iff)
  obtain x b bs where u: "p = ((x, b), bs)" "Used x b bs \<in> set ss" "x \<le> a" "a < b"
    by (rule find_block_Inr [OF rep p])
  then have "((x, b), bs) \<in> set (alloced m)" using rep by (simp add: represents_def in_used_of)
  with u(3,4) al have "heap_valid m sz a" by (force simp: heap_valid_def)
  from hp.store_keeps [OF ok this st] show ?thesis by simp
qed

lemma exec_store_memory_ok [inv_intros]:
  "\<lbrakk> memory_ok m; exec_store sz a v m = Inr (c, m') \<rbrakk> \<Longrightarrow> memory_ok m'"
  by (auto simp: exec_store_def result_iff dest: store_stack_memory_ok store_heap_memory_ok split: if_splits)

lemma exec_malloc_memory_ok [inv_intros]:
  assumes ok: "memory_ok m" and ex: "exec_malloc calloc_ok n m = Inr (x, c, m')"
  shows "memory_ok m'"
proof -
  have "heap_ok m" using ok by (simp add: memory_ok_def)
  from exec_malloc_heap_ok [OF this ex] have "heap_ok m'" .
  moreover have "stack m' = stack m"
    using ex by (auto simp: exec_malloc_def Let_def split: if_splits option.splits)
  ultimately show ?thesis using ok by (simp add: memory_ok_def)
qed

lemma exec_free_memory_ok [inv_intros]:
  assumes ok: "memory_ok m" and ex: "exec_free x m = Inr (c, m')"
  shows "memory_ok m'"
proof -
  have "heap_ok m" using ok by (simp add: memory_ok_def)
  from exec_free_heap_ok [OF this ex] have "heap_ok m'" .
  moreover have "stack m' = stack m"
    using ex by (auto simp: exec_free_def Let_def split: if_splits list.splits prod.splits)
  ultimately show ?thesis using ok by (simp add: memory_ok_def)
qed

lemma exec_reset_memory_ok [inv_intros]:
  "memory_ok m \<Longrightarrow> memory_ok (snd (exec_reset_stack m))"
  "memory_ok m \<Longrightarrow> memory_ok (snd (exec_reset_heap m))"
  by (simp_all add: exec_reset_stack_def exec_reset_heap_def)

end
