(* ===== verification/Memory_Theorems.thy ===== *)
theory Memory_Theorems
  imports Memory_Props
begin

text \<open>
  The properties of the memory component with their witnesses. The proofs draw on
  \<open>Heap_Alloc\<close> (refinement of the arena), \<open>Allocator\<close> (laws of allocation as an
  interface) and \<open>Memory_Props\<close> (the store as an interface, failures, invariants).
\<close>

definition always_calloc :: "memory \<Rightarrow> u64 \<Rightarrow> bool" where
  "always_calloc m n = True"

text \<open>A heap with one block of 16 bytes, the example of the witnesses.\<close>

definition one_block :: memory where
  "one_block = init_memory\<lparr>alloced := [((20480, 20496), replicate 16 0)],
     freed := [(20496, HEAP_MAX)], alloced_size := 16, max_alloced_size := 16\<rparr>"

lemma one_block_represents:
  "represents one_block [Used 20480 20496 (replicate 16 0), Free 20496 HEAP_MAX]"
  by (simp add: represents_def one_block_def arena_ok_def heap_limits)

lemma one_block_ok: "memory_ok one_block"
proof -
  have "heap_ok one_block"
    using one_block_represents
    by (auto simp: heap_ok_def used_bytes_def one_block_def)
  then show ?thesis by (simp add: memory_ok_def one_block_def init_memory_def STACK_MAX_def)
qed

lemma malloc_one_block: "\<exists>m. exec_malloc always_calloc 16 init_memory = Inr (20480, COST_MALLOC, m)"
  by (simp add: exec_malloc_def init_memory_def heap_limits Let_def always_calloc_def)

subsection \<open>Refinement of the arena\<close>

text \<open>
  C8. Allocation of a positive multiple of eight bytes does on the two block sets of the code
  what the arena does: it splits the first free segment that is large enough and returns its
  start, and reports out-of-memory exactly when no free segment is large enough.
\<close>

theorem malloc_refines_arena:
  assumes "represents m ss" and "n \<noteq> 0" and "n mod 8 = 0" and "calloc_ok m n"
  shows "case arena_malloc n ss of
      None \<Rightarrow> exec_malloc calloc_ok n m = Inl (Runtime_error ''out-of-memory'')
    | Some (x, ss') \<Rightarrow> \<exists>m'. exec_malloc calloc_ok n m = Inr (x, COST_MALLOC, m') \<and> represents m' ss'"
proof (cases "arena_malloc n ss")
  case None
  with assms show ?thesis by (simp add: exec_malloc_arena_None)
next
  case (Some p)
  obtain x ss' where p: "p = (x, ss')" by (cases p)
  obtain m' where "exec_malloc calloc_ok n m = Inr (x, COST_MALLOC, m')" "represents m' ss'"
    by (rule exec_malloc_arena [where calloc_ok = calloc_ok, OF assms Some [unfolded p]])
  with Some p show ?thesis by simp
qed

theorem malloc_refines_arena_witness:
  "\<exists>m'. exec_malloc always_calloc 16 init_memory = Inr (20480, COST_MALLOC, m') \<and>
     represents m' [Used 20480 20496 (replicate 16 0), Free 20496 HEAP_MAX]"
proof -
  have n: "(16::u64) \<noteq> 0" "(16::u64) mod 8 = 0" by simp_all
  have c: "always_calloc init_memory 16" by (simp add: always_calloc_def)
  have a: "arena_malloc 16 [Free HEAP_MIN HEAP_MAX]
      = Some (20480, [Used 20480 20496 (replicate 16 0), Free 20496 HEAP_MAX])"
    by (simp add: HEAP_MIN_def HEAP_MAX_def)
  from malloc_refines_arena [where calloc_ok = always_calloc, OF init_represents n c]
  show ?thesis by (simp only: a option.case prod.case)
qed

text \<open>
  C9. Releasing the start of a used segment marks the segment free and joins it with its free
  neighbours; releasing any other address is refused.
\<close>

theorem free_refines_arena:
  assumes "represents m ss"
  shows "if \<exists>b bs. Used x b bs \<in> set ss
         then \<exists>m'. exec_free x m = Inr (COST_FREE, m') \<and> represents m' (arena_free x ss)
         else exec_free x m = Inl (Runtime_error ''freeing non-allocated address'')"
proof (cases "\<exists>b bs. Used x b bs \<in> set ss")
  case True
  then obtain b bs where "Used x b bs \<in> set ss" by blast
  from exec_free_arena [OF assms this] True show ?thesis by metis
next
  case False
  with exec_free_arena_unknown [OF assms] show ?thesis by auto
qed

theorem free_refines_arena_witness:
  "\<exists>m'. exec_free 20480 one_block = Inr (COST_FREE, m') \<and> represents m' [Free 20480 HEAP_MAX]"
proof -
  let ?ss = "[Used 20480 20496 (replicate 16 0), Free 20496 HEAP_MAX]"
  have "\<exists>b bs. Used 20480 b bs \<in> set ?ss" by auto
  moreover have "arena_free 20480 ?ss = [Free 20480 HEAP_MAX]" by (simp add: arena_free_def)
  ultimately show ?thesis using free_refines_arena [OF one_block_represents, of 20480] by simp
qed

subsection \<open>The invariant\<close>

text \<open>
  C13. Every operation of the memory keeps the invariant: the two block sets tile the heap
  without overlap or adjacent free blocks, every block owns as many bytes as its bounds say,
  the usage counter is the number of bytes in use, and the stack has its 10240 bytes.
\<close>

theorem memory_operations_keep_invariant:
  assumes "memory_ok m"
  shows "(\<forall>sz a v c m'. exec_load sz a m = Inr (v, c, m') \<longrightarrow> memory_ok m') \<and>
    (\<forall>sz a v c m'. exec_store sz a v m = Inr (c, m') \<longrightarrow> memory_ok m') \<and>
    (\<forall>n x c m'. exec_malloc calloc_ok n m = Inr (x, c, m') \<longrightarrow> memory_ok m') \<and>
    (\<forall>x c m'. exec_free x m = Inr (c, m') \<longrightarrow> memory_ok m') \<and>
    memory_ok (snd (exec_reset_stack m)) \<and> memory_ok (snd (exec_reset_heap m))"
  using assms by (auto intro: inv_intros)

theorem memory_operations_keep_invariant_witness:
  "\<exists>x c m. exec_malloc always_calloc 16 init_memory = Inr (x, c, m) \<and> memory_ok m"
proof -
  obtain m where m: "exec_malloc always_calloc 16 init_memory = Inr (20480, COST_MALLOC, m)"
    using malloc_one_block by blast
  then have "memory_ok m"
    using memory_operations_keep_invariant [OF init_memory_ok, where calloc_ok = always_calloc] by blast
  with m show ?thesis by blast
qed

text \<open>
  No byte of the heap is lost or counted twice: the usage counter and the sizes of the
  free blocks add up to the size of the heap.
\<close>

theorem heap_bytes_accounted:
  assumes "memory_ok m"
  shows "unat (alloced_size m) + (\<Sum>b \<leftarrow> freed m. unat (snd b) - unat (fst b))
    = unat HEAP_MAX - unat HEAP_MIN"
proof -
  from assms obtain ss where rep: "represents m ss" and u: "unat (alloced_size m) = used_bytes (alloced m)"
    by (auto simp: memory_ok_def heap_ok_def)
  have "used_bytes (used_of ts) + (\<Sum>b \<leftarrow> free_of ts. unat (snd b) - unat (fst b)) = (\<Sum>s \<leftarrow> ts. seg_bytes s)"
    for ts by (induction ts rule: used_of.induct) (auto simp: seg_bytes_def)
  moreover have "unat HEAP_MIN + (\<Sum>s \<leftarrow> ss. seg_bytes s) = unat HEAP_MAX"
    using rep chain_bytes by (simp add: represents_def arena_ok_def)
  ultimately show ?thesis using rep u by (simp add: represents_def)
qed

theorem heap_bytes_accounted_witness:
  "unat (alloced_size one_block) + (\<Sum>b \<leftarrow> freed one_block. unat (snd b) - unat (fst b))
    = 18446744073709531128"
  using heap_bytes_accounted [OF one_block_ok] by (simp add: heap_limits)

subsection \<open>Allocation and release\<close>

text \<open>
  Releasing a block right after its allocation restores both block sets and the usage
  counter, however the heap was fragmented before.
\<close>

theorem free_undoes_malloc:
  assumes ok: "memory_ok m" and ex: "exec_malloc calloc_ok n m = Inr (x, c, m1)"
  shows "\<exists>m2. exec_free x m1 = Inr (COST_FREE, m2) \<and> alloced m2 = alloced m \<and>
    freed m2 = freed m \<and> alloced_size m2 = alloced_size m"
proof -
  from ok have hok: "heap_ok m" by (simp add: memory_ok_def)
  obtain xs hi ys where s: "represents m (xs @ Free x hi # ys)"
    "represents m1 (xs @ Used x (x + n) (replicate (unat n) 0) # Free (x + n) hi # ys)"
    "x \<le> hi" "\<not> hi - x < n" "0 < n" "8 dvd unat n" "c = COST_MALLOC"
    "alloced_size m1 = alloced_size m + n"
    "max_alloced_size m1 = max (max_alloced_size m) (alloced_size m + n)"
    "head m1 = head m" "stack m1 = stack m"
    by (rule exec_malloc_success [OF hok ex])
  let ?ss = "xs @ Used x (x + n) (replicate (unat n) 0) # Free (x + n) hi # ys"
  have "Used x (x + n) (replicate (unat n) 0) \<in> set ?ss" by simp
  from exec_free_arena [OF s(2) this] obtain m2 where
    m2: "exec_free x m1 = Inr (COST_FREE, m2)" "represents m2 (arena_free x ?ss)"
      "alloced_size m2 = alloced_size m1 - (x + n - x)" by blast
  have ok1: "arena_ok ?ss" using s(2) by (simp add: represents_def)
  have xs: "xs = [] \<or> \<not> is_free (last xs)"
    using s(1) separated_split(3) [of xs "Free x hi" ys] by (simp add: represents_def arena_ok_def)
  have "arena_free x ?ss = xs @ Free x hi # ys"
    by (rule arena_free_split [OF ok1]) (use xs in auto)
  with m2 s(1,8) show ?thesis by (auto simp: represents_def)
qed

theorem free_undoes_malloc_witness:
  "\<exists>m1 m2. exec_malloc always_calloc 16 init_memory = Inr (20480, COST_MALLOC, m1) \<and>
     exec_free 20480 m1 = Inr (COST_FREE, m2) \<and> freed m2 = freed init_memory"
proof -
  obtain m1 where m1: "exec_malloc always_calloc 16 init_memory = Inr (20480, COST_MALLOC, m1)"
    using malloc_one_block by blast
  from free_undoes_malloc [OF init_memory_ok m1] m1 show ?thesis by blast
qed

lemma le_word_zeros: "le_word (replicate k 0) = 0"
  by (induction k) simp_all

lemma load_fresh_zero:
  assumes rep: "represents m ss" and ok: "memory_ok m" and used: "Used x b (replicate k 0) \<in> set ss"
    and a: "x \<le> a" "a < b" and al: "is_alligned sz a"
  shows "mem_load sz a m = Inr 0"
proof -
  from used rep have "((x, b), replicate k 0) \<in> set (alloced m)"
    by (simp add: represents_def in_used_of)
  with a al have hv: "heap_valid m sz a" by (force simp: heap_valid_def)
  from access_in_block [OF represents_seg_ok [OF rep used] a al]
  have fit: "unat (a - x) + msize_of sz \<le> k" by simp
  have "load_heap sz a m = Inr (load_little_endian (msize_of sz) (replicate k 0) (unat (a - x)))"
    by (rule load_heap_Inr [OF rep used a]) (simp add: fit)
  also have "\<dots> = Inr 0"
    using fit by (simp add: load_little_endian_le_word le_word_zeros)
  finally show ?thesis using mem_load_heap [OF ok hv] by simp
qed

lemma load_kept:
  assumes ok: "memory_ok m" "memory_ok m1" and rep: "represents m ss" "represents m1 ss1"
    and sub: "\<forall>x b bs. Used x b bs \<in> set ss \<longrightarrow> Used x b bs \<in> set ss1"
    and st: "stack m1 = stack m" and va: "mem_valid m sz a"
  shows "mem_load sz a m1 = mem_load sz a m"
proof (cases "stack_valid m sz a")
  case True
  with va have al: "is_alligned sz a" "stack_valid m1 sz a"
    by (simp_all add: mem_valid_def stack_valid_def)
  from mem_load_stack [OF ok(1) al(1) True] mem_load_stack [OF ok(2) al] st
  show ?thesis by (simp add: load_stack_def)
next
  case False
  with va have hv: "heap_valid m sz a" by (simp add: mem_valid_def)
  obtain x b bs where u: "Used x b bs \<in> set ss" "x \<le> a" "a < b" "is_alligned sz a"
    "unat (a - x) + msize_of sz \<le> length bs" "unat (a - x) = unat a - unat x"
    by (rule heap_valid_used [OF rep(1) hv])
  have u1: "Used x b bs \<in> set ss1" using sub u(1) by blast
  then have "((x, b), bs) \<in> set (alloced m1)" using rep(2) by (simp add: represents_def in_used_of)
  with u(2-4) have hv1: "heap_valid m1 sz a" by (force simp: heap_valid_def)
  from load_heap_Inr [OF rep(1) u(1-3,5)] load_heap_Inr [OF rep(2) u1 u(2,3,5)]
  show ?thesis by (simp add: mem_load_heap [OF ok(1) hv] mem_load_heap [OF ok(2) hv1])
qed

text \<open>
  C15. A successful allocation returns an aligned block inside the heap that overlaps no live
  block; every aligned load from it returns zero, and every location that was accessible before
  keeps its contents.
\<close>

theorem malloc_fresh_zeroed:
  assumes ok: "memory_ok m" and ex: "exec_malloc calloc_ok n m = Inr (x, c, m1)"
  shows "(\<forall>b \<in> live_blocks m. snd b \<le> x \<or> x + n \<le> fst b) \<and>
    HEAP_MIN \<le> x \<and> x < x + n \<and> x + n \<le> HEAP_MAX \<and> 8 dvd unat x \<and>
    (\<forall>sz a. is_alligned sz a \<and> x \<le> a \<and> a < x + n \<longrightarrow> mem_load sz a m1 = Inr 0) \<and>
    (\<forall>sz a. mem_valid m sz a \<longrightarrow> mem_load sz a m1 = mem_load sz a m)"
proof -
  from ok have hok: "heap_ok m" by (simp add: memory_ok_def)
  note f = malloc_block_fresh [OF hok ex]
  have ok1: "memory_ok m1" by (rule exec_malloc_memory_ok [OF ok ex])
  obtain xs hi ys where s: "represents m (xs @ Free x hi # ys)"
    "represents m1 (xs @ Used x (x + n) (replicate (unat n) 0) # Free (x + n) hi # ys)"
    "x \<le> hi" "\<not> hi - x < n" "0 < n" "8 dvd unat n" "c = COST_MALLOC"
    "alloced_size m1 = alloced_size m + n"
    "max_alloced_size m1 = max (max_alloced_size m) (alloced_size m + n)"
    "head m1 = head m" "stack m1 = stack m"
    by (rule exec_malloc_success [OF hok ex])
  have "mem_load sz a m1 = Inr 0" if "is_alligned sz a" "x \<le> a" "a < x + n" for sz a
    by (rule load_fresh_zero [where k = "unat n", OF s(2) ok1 _ that(2,3,1)]) simp
  moreover have "mem_load sz a m1 = mem_load sz a m" if "mem_valid m sz a" for sz a
    by (rule load_kept [OF ok ok1 s(1,2) _ s(11) that]) auto
  ultimately show ?thesis using f by blast
qed

theorem malloc_fresh_zeroed_witness:
  "\<exists>m1. exec_malloc always_calloc 16 init_memory = Inr (20480, COST_MALLOC, m1) \<and>
     mem_load MSize8 20488 m1 = Inr 0"
proof -
  obtain m1 where m1: "exec_malloc always_calloc 16 init_memory = Inr (20480, COST_MALLOC, m1)"
    using malloc_one_block by blast
  have "is_alligned MSize8 20488" by (simp add: is_alligned_def)
  with malloc_fresh_zeroed [OF init_memory_ok m1] have "mem_load MSize8 20488 m1 = Inr 0" by simp
  with m1 show ?thesis by blast
qed

text \<open>A run of requests, each of which has to succeed.\<close>

fun heap_run :: "(memory \<Rightarrow> u64 \<Rightarrow> bool) \<Rightarrow> (u64, u64) request list \<Rightarrow> memory \<Rightarrow> memory result" where
  "heap_run calloc_ok [] m = Inr m"
| "heap_run calloc_ok (Alloc n # rs) m =
     rbind (exec_malloc calloc_ok n m) (\<lambda>(a, c, m'). heap_run calloc_ok rs m')"
| "heap_run calloc_ok (Release a # rs) m = rbind (exec_free a m) (\<lambda>(c, m'). heap_run calloc_ok rs m')"

lemma heap_run_eq: "heap_run calloc_ok rs m = heap.run calloc_ok rs m"
  by (induction calloc_ok rs m rule: heap_run.induct) (auto simp: rbind_def split: sum.splits)

text \<open>
  C16. Whatever sequence of allocations and releases a program performs, no two live blocks
  share an address.
\<close>

theorem live_blocks_never_overlap:
  assumes "heap_run calloc_ok rs init_memory = Inr m"
    and "p \<in> live_blocks m" and "q \<in> live_blocks m" and "p \<noteq> q"
  shows "snd p \<le> fst q \<or> snd q \<le> fst p"
proof -
  have "heap_ok init_memory" using init_memory_ok by (simp add: memory_ok_def)
  moreover have "heap.exclusive init_memory"
    by (simp add: heap.exclusive_def live_blocks_def init_memory_def)
  moreover have "heap.run calloc_ok rs init_memory = Inr m" using assms(1) by (simp only: heap_run_eq)
  ultimately have "heap_ok m \<and> heap.exclusive m"
    by (rule heap.run_exclusive [where calloc_ok = calloc_ok])
  then have "\<not> blocks_clash p q" using assms(2-4) by (simp only: heap.exclusive_def) blast
  then show ?thesis by (auto simp: blocks_clash_def not_less)
qed

theorem live_blocks_never_overlap_witness:
  "\<exists>m. heap_run always_calloc [Alloc 16, Alloc 8] init_memory = Inr m \<and>
     (20480, 20496) \<in> live_blocks m \<and> (20496, 20504) \<in> live_blocks m \<and> (20496::u64) \<le> 20496"
proof -
  let ?m = "init_memory\<lparr>alloced := [((20480, 20496), replicate 16 0), ((20496, 20504), replicate 8 0)],
     freed := [(20504, HEAP_MAX)], alloced_size := 24, max_alloced_size := 24\<rparr>"
  have 1: "exec_malloc always_calloc 16 init_memory = Inr (20480, COST_MALLOC, one_block)"
    by (simp add: exec_malloc_def init_memory_def one_block_def heap_limits Let_def always_calloc_def
      set_insert_def set_erase_def lower_bound_def below_def)
  have 2: "exec_malloc always_calloc 8 one_block = Inr (20496, COST_MALLOC, ?m)"
    by (simp add: exec_malloc_def init_memory_def one_block_def heap_limits Let_def always_calloc_def
      set_insert_def set_erase_def lower_bound_def below_def)
  have r: "heap_run always_calloc [Alloc 16, Alloc 8] init_memory = Inr ?m"
    using 1 2 by simp
  have l: "(20480, 20496) \<in> live_blocks ?m" "(20496, 20504) \<in> live_blocks ?m"
    by (simp_all add: live_blocks_def)
  from live_blocks_never_overlap [OF r l] r l show ?thesis by blast
qed

text \<open>
  Releasing a block twice fails the second time with the run-time error of the code.
\<close>

theorem double_free_refused:
  assumes "memory_ok m" and "exec_free a m = Inr (c, m')"
  shows "exec_free a m' = Inl (Runtime_error ''freeing non-allocated address'')"
proof -
  have "heap_ok m" using assms(1) by (simp add: memory_ok_def)
  from heap.double_release [OF this assms(2)] show ?thesis by (auto dest: exec_free_Inl)
qed

theorem double_free_refused_witness:
  "\<exists>c m'. exec_free 20480 one_block = Inr (c, m') \<and>
     exec_free 20480 m' = Inl (Runtime_error ''freeing non-allocated address'')"
proof -
  have "\<exists>m'. exec_free 20480 one_block = Inr (COST_FREE, m')"
    by (simp add: exec_free_def one_block_def lower_bound_def below_def merge_prev_def
      merge_next_def heap_limits)
  then obtain m' where m': "exec_free 20480 one_block = Inr (COST_FREE, m')" by blast
  from double_free_refused [OF one_block_ok m'] m' show ?thesis by blast
qed

subsection \<open>Loads and stores\<close>

text \<open>
  C10. After a store to an accessible location, a load of that location returns the low bytes
  of the value, a load of any location that shares no byte with it returns what it did before,
  in the stack and in every heap block, and the same locations are accessible.
\<close>

theorem load_after_store:
  assumes ok: "memory_ok m" and va: "mem_valid m sz a"
  shows "\<exists>m'. mem_store sz a v m = Inr m' \<and> mem_valid m' = mem_valid m \<and>
    mem_load sz a m' = Inr (take_bit (8 * msize_of sz) v) \<and>
    (\<forall>sz' a'. mem_valid m sz' a' \<and> \<not> overlaps sz a sz' a' \<longrightarrow>
      mem_load sz' a' m' = mem_load sz' a' m)"
proof -
  obtain m' where m': "mem_store sz a v m = Inr m'" using mem.store_total [OF ok va] by blast
  note facts = mem.store_keeps [OF ok va m'] mem.load_same [OF ok va m']
    mem.load_other [OF ok va _ m']
  show ?thesis using m' facts by (intro exI [of _ m']) blast
qed

theorem load_after_store_witness:
  "\<exists>m'. mem_store MSize2 20488 65537 one_block = Inr m' \<and>
     mem_load MSize2 20488 m' = Inr 1 \<and> mem_load MSize8 20480 m' = mem_load MSize8 20480 one_block"
proof -
  have v: "mem_valid one_block MSize2 20488" "mem_valid one_block MSize8 20480"
    by (simp_all add: mem_valid_def heap_valid_def one_block_def is_alligned_def)
  have "\<not> overlaps MSize2 20488 MSize8 20480" by (simp add: overlaps_def)
  moreover have "take_bit (8 * msize_of MSize2) (65537 :: u64) = 1" by simp
  ultimately show ?thesis
    using load_after_store [OF one_block_ok v(1), of 65537] v(2) by metis
qed

text \<open>
  C17. A load or store leaves the memory of the interpreter process exactly when the end of the
  access wraps around 64 bits: the range test of the stack then accepts an address near
  \<open>2 ^ 64\<close> and indexes the stack array with it. Every other access that is not allowed ends
  in a reported run-time error.
\<close>

theorem access_undefined_iff:
  assumes ok: "memory_ok m"
  shows "((\<exists>e. exec_load sz a m = Inl e \<and> is_undefined e) \<longleftrightarrow> is_alligned sz a \<and> 2 ^ 64 \<le> unat a + msize_of sz) \<and>
    ((\<exists>e. exec_store sz a v m = Inl e \<and> is_undefined e) \<longleftrightarrow> is_alligned sz a \<and> 2 ^ 64 \<le> unat a + msize_of sz)"
  using exec_load_Inl [OF ok] exec_store_Inl [OF ok] wraps_fails [OF ok]
  unfolding wraps_def by metis

theorem access_undefined_iff_witness:
  "\<exists>e. exec_load MSize8 18446744073709551608 init_memory = Inl e \<and> is_undefined e"
proof -
  have "is_alligned MSize8 18446744073709551608" by (simp add: is_alligned_def)
  with access_undefined_iff [OF init_memory_ok, of MSize8 18446744073709551608 0]
  show ?thesis by simp
qed

end
