(* ===== verification/Regex.thy ===== *)
theory Regex
  imports Cxx_Strings
begin

text \<open>
  The part of \<open>std::regex\<close> the parser relies on: \<open>regex_match\<close> of a whole line against
  a pattern built from literals, character classes, alternatives, concatenation and repetition.
  The matcher works by derivatives, so it computes; \<open>lang\<close> says what it decides.
\<close>

datatype rexp =
    Never
  | Eps
  | Chr "char \<Rightarrow> bool"
  | Alt rexp rexp
  | Cat rexp rexp
  | Rep rexp

inductive_set reps :: "string set \<Rightarrow> string set" for L where
  reps_Nil: "[] \<in> reps L"
| reps_append: "\<lbrakk> x \<in> L; y \<in> reps L \<rbrakk> \<Longrightarrow> x @ y \<in> reps L"

fun lang :: "rexp \<Rightarrow> string set" where
  "lang Never = {}"
| "lang Eps = {[]}"
| "lang (Chr P) = {[c] | c. P c}"
| "lang (Alt r s) = lang r \<union> lang s"
| "lang (Cat r s) = {x @ y | x y. x \<in> lang r \<and> y \<in> lang s}"
| "lang (Rep r) = reps (lang r)"

fun nullable :: "rexp \<Rightarrow> bool" where
  "nullable Never = False"
| "nullable Eps = True"
| "nullable (Chr P) = False"
| "nullable (Alt r s) = (nullable r \<or> nullable s)"
| "nullable (Cat r s) = (nullable r \<and> nullable s)"
| "nullable (Rep r) = True"

fun mk_alt :: "rexp \<Rightarrow> rexp \<Rightarrow> rexp" where
  "mk_alt Never s = s"
| "mk_alt r Never = r"
| "mk_alt r s = Alt r s"

fun mk_cat :: "rexp \<Rightarrow> rexp \<Rightarrow> rexp" where
  "mk_cat Never s = Never"
| "mk_cat Eps s = s"
| "mk_cat r s = Cat r s"

fun step :: "char \<Rightarrow> rexp \<Rightarrow> rexp" where
  "step c Never = Never"
| "step c Eps = Never"
| "step c (Chr P) = (if P c then Eps else Never)"
| "step c (Alt r s) = mk_alt (step c r) (step c s)"
| "step c (Cat r s) =
     (if nullable r then mk_alt (mk_cat (step c r) s) (step c s) else mk_cat (step c r) s)"
| "step c (Rep r) = mk_cat (step c r) (Rep r)"

definition regex_match :: "string \<Rightarrow> rexp \<Rightarrow> bool" where
  "regex_match s r = nullable (foldl (\<lambda>r c. step c r) r s)"

lemma lang_mk_alt [simp]: "lang (mk_alt r s) = lang r \<union> lang s"
  by (induction r s rule: mk_alt.induct) auto

lemma lang_mk_cat [simp]: "lang (mk_cat r s) = lang (Cat r s)"
  by (induction r s rule: mk_cat.induct) auto

lemma nullable_iff: "nullable r \<longleftrightarrow> [] \<in> lang r"
  by (induction r) (auto intro: reps_Nil)

lemma Cons_reps: "c # s \<in> reps L \<longleftrightarrow> (\<exists>x y. s = x @ y \<and> c # x \<in> L \<and> y \<in> reps L)"
proof
  show "\<exists>x y. s = x @ y \<and> c # x \<in> L \<and> y \<in> reps L" if "c # s \<in> reps L"
    using that by (induction "c # s" arbitrary: s rule: reps.induct) (auto simp: append_eq_Cons_conv)
next
  assume "\<exists>x y. s = x @ y \<and> c # x \<in> L \<and> y \<in> reps L"
  then show "c # s \<in> reps L" by (metis append_Cons reps_append)
qed

lemma step_iff: "s \<in> lang (step c r) \<longleftrightarrow> c # s \<in> lang r"
proof (induction r arbitrary: s)
  case (Cat r1 r2)
  show ?case
    by (auto simp: Cat.IH nullable_iff append_eq_Cons_conv Cons_eq_append_conv)
next
  case (Rep r)
  then show ?case by (auto simp: Cons_reps)
qed auto

theorem regex_match_iff: "regex_match s r \<longleftrightarrow> s \<in> lang r"
proof (induction s arbitrary: r)
  case Nil
  show ?case by (simp add: regex_match_def nullable_iff)
next
  case (Cons c s)
  have "regex_match (c # s) r \<longleftrightarrow> regex_match s (step c r)" by (simp add: regex_match_def)
  then show ?case by (simp add: Cons.IH step_iff)
qed

subsection \<open>Sequences and literals\<close>

definition lit :: "string \<Rightarrow> rexp" where
  "lit w = foldr (\<lambda>c r. Cat (Chr (\<lambda>d. d = c)) r) w Eps"

definition seq :: "rexp list \<Rightarrow> rexp" where
  "seq rs = foldr Cat rs Eps"

definition alts :: "rexp list \<Rightarrow> rexp" where
  "alts rs = foldr Alt rs Never"

definition opt :: "rexp \<Rightarrow> rexp" where
  "opt r = Alt r Eps"

definition plus :: "rexp \<Rightarrow> rexp" where
  "plus r = Cat r (Rep r)"

lemma lang_lit [simp]: "lang (lit w) = {w}"
  by (induction w) (auto simp: lit_def)

lemma lang_seq_Nil [simp]: "lang (seq []) = {[]}"
  by (simp add: seq_def)

lemma lang_seq_Cons [simp]: "lang (seq (r # rs)) = {x @ y | x y. x \<in> lang r \<and> y \<in> lang (seq rs)}"
  by (simp add: seq_def)

lemma lang_alts [simp]: "lang (alts rs) = (\<Union>r \<in> set rs. lang r)"
  by (induction rs) (auto simp: alts_def)

lemma lang_opt [simp]: "lang (opt r) = insert [] (lang r)"
  by (auto simp: opt_def)

lemma lang_plus [simp]: "lang (plus r) = {x @ y | x y. x \<in> lang r \<and> y \<in> reps (lang r)}"
  by (simp add: plus_def)

lemma reps_Chr: "s \<in> reps {[c] | c. P c} \<longleftrightarrow> (\<forall>c \<in> set s. P c)"
proof
  show "\<forall>c \<in> set s. P c" if "s \<in> reps {[c] | c. P c}"
    using that by induction auto
next
  show "s \<in> reps {[c] | c. P c}" if "\<forall>c \<in> set s. P c"
    using that
  proof (induction s)
    case (Cons c s)
    then have "[c] @ s \<in> reps {[c] | c. P c}" by (intro reps_append) auto
    then show ?case by simp
  qed (rule reps_Nil)
qed

lemma lang_plus_Chr: "s \<in> lang (plus (Chr P)) \<longleftrightarrow> s \<noteq> [] \<and> (\<forall>c \<in> set s. P c)"
proof (cases s)
  case Nil
  then show ?thesis by simp
next
  case (Cons c t)
  have "c # t \<in> lang (plus (Chr P)) \<longleftrightarrow> P c \<and> t \<in> reps {[c] | c. P c}"
  proof
    assume "P c \<and> t \<in> reps {[c] | c. P c}"
    then have "[c] @ t \<in> lang (plus (Chr P))" unfolding lang_plus lang.simps by blast
    then show "c # t \<in> lang (plus (Chr P))" by simp
  qed auto
  with Cons show ?thesis by (simp only: reps_Chr) simp
qed

text \<open>Repetition as a list of pieces.\<close>

lemma reps_concat: "s \<in> reps L \<longleftrightarrow> (\<exists>xs. s = concat xs \<and> set xs \<subseteq> L)"
proof
  show "\<exists>xs. s = concat xs \<and> set xs \<subseteq> L" if "s \<in> reps L"
    using that
  proof induction
    case reps_Nil
    show ?case by (intro exI [of _ "[]"]) simp
  next
    case (reps_append x y)
    then obtain xs where "y = concat xs" "set xs \<subseteq> L" by blast
    with reps_append show ?case by (intro exI [of _ "x # xs"]) simp
  qed
next
  show "s \<in> reps L" if "\<exists>xs. s = concat xs \<and> set xs \<subseteq> L"
  proof -
    from that obtain xs where "s = concat xs" "set xs \<subseteq> L" by blast
    then show ?thesis
      by (induction xs arbitrary: s) (auto intro: reps_Nil reps_append)
  qed
qed

text \<open>Every character of a match satisfies what every class of the pattern implies.\<close>

fun all_chars :: "(char \<Rightarrow> bool) \<Rightarrow> rexp \<Rightarrow> bool" where
  "all_chars P (Chr Q) = (\<forall>c. Q c \<longrightarrow> P c)"
| "all_chars P (Alt r s) = (all_chars P r \<and> all_chars P s)"
| "all_chars P (Cat r s) = (all_chars P r \<and> all_chars P s)"
| "all_chars P (Rep r) = all_chars P r"
| "all_chars P _ = True"

lemma all_chars_lang: "\<lbrakk> all_chars P r; s \<in> lang r; c \<in> set s \<rbrakk> \<Longrightarrow> P c"
proof (induction r arbitrary: s)
  case (Rep r)
  from Rep.prems(2) obtain xs where "s = concat xs" "set xs \<subseteq> lang r"
    by (auto simp: reps_concat)
  with Rep.prems Rep.IH show ?case by auto
qed auto

lemma all_chars_lit [simp]: "all_chars P (lit w) \<longleftrightarrow> (\<forall>c \<in> set w. P c)"
  by (induction w) (auto simp: lit_def)

lemma all_chars_seq [simp]: "all_chars P (seq rs) \<longleftrightarrow> (\<forall>r \<in> set rs. all_chars P r)"
  by (induction rs) (auto simp: seq_def)

lemma all_chars_alts [simp]: "all_chars P (alts rs) \<longleftrightarrow> (\<forall>r \<in> set rs. all_chars P r)"
  by (induction rs) (auto simp: alts_def)

lemma all_chars_plus [simp]: "all_chars P (plus r) = all_chars P r"
  by (simp add: plus_def)

lemma nullable_plus [simp]: "nullable (plus r) = nullable r"
  by (simp add: plus_def)

lemma nullable_alts [simp]: "nullable (alts rs) \<longleftrightarrow> (\<exists>r \<in> set rs. nullable r)"
  by (induction rs) (auto simp: alts_def)

lemma nullable_seq [simp]: "nullable (seq rs) \<longleftrightarrow> (\<forall>r \<in> set rs. nullable r)"
  by (induction rs) (auto simp: seq_def)

lemma nullable_lit [simp]: "nullable (lit w) \<longleftrightarrow> w = []"
  by (cases w) (auto simp: lit_def)

end
