(* ===== verification/Grammar.thy ===== *)
theory Grammar
  imports Regex
begin

text \<open>
  The patterns of the parser (the constants at the top of \<open>parser.cpp\<close>) and the reading of a
  line as tokens: \<open>regex_replace(instr, regex(tAssign), " ")\<close> followed by extraction of
  words from a \<open>stringstream\<close>. The lemmas say which tokens a line has when it is put together
  from words, white space and \<open>=\<close> as the patterns demand.
\<close>

subsection \<open>Patterns\<close>

definition char_between :: "char \<Rightarrow> char \<Rightarrow> char \<Rightarrow> bool" where
  "char_between a b c \<longleftrightarrow> (of_char a :: nat) \<le> of_char c \<and> (of_char c :: nat) \<le> of_char b"

definition name_char :: "char \<Rightarrow> bool" where
  "name_char c \<longleftrightarrow> char_between (CHR ''a'') (CHR ''z'') c \<or> char_between (CHR ''A'') (CHR ''Z'') c \<or>
     is_digit c \<or> c = CHR ''-'' \<or> c = CHR ''_'' \<or> c = CHR ''.''"

definition line_end :: "char \<Rightarrow> bool" where
  "line_end c \<longleftrightarrow> c = CHR 0x0A \<or> c = CHR 0x0D"

definition tSpace :: rexp where "tSpace = plus (Chr is_space)"
definition tESpace :: rexp where "tESpace = Rep (Chr is_space)"

definition spaced :: "rexp \<Rightarrow> rexp" where "spaced r = seq [tESpace, r, tESpace]"

definition tAssign :: rexp where "tAssign = spaced (lit ''='')"

definition tNum16 :: rexp where
  "tNum16 = Alt (Chr (char_between (CHR ''1'') (CHR ''9'')))
     (seq [lit ''1'', Chr (char_between (CHR ''0'') (CHR ''6''))])"

definition tReg :: rexp where
  "tReg = Alt (seq [Alt (lit ''r'') (lit ''arg''), tNum16]) (lit ''sp'')"

definition tConst :: rexp where "tConst = plus (Chr is_digit)"
definition tValue :: rexp where "tValue = Alt tReg tConst"
definition tName :: rexp where "tName = plus (Chr name_char)"
definition tBBName :: rexp where "tBBName = seq [lit ''.'', tName]"

definition tArgN :: rexp where
  "tArgN = Alt (Chr is_digit) (seq [lit ''1'', Chr (char_between (CHR ''0'') (CHR ''6''))])"

definition words :: "string list \<Rightarrow> rexp" where "words ws = alts (map lit ws)"

definition tMSize :: rexp where "tMSize = words [''1'', ''2'', ''4'', ''8'']"
definition tSize :: rexp where "tSize = words [''1'', ''8'', ''16'', ''32'', ''64'']"

definition tStart :: rexp where "tStart = lit ''start''"
definition tEnd :: rexp where "tEnd = lit ''end''"
definition tMalloc :: rexp where "tMalloc = lit ''malloc''"
definition tFree :: rexp where "tFree = lit ''free''"
definition tLoad :: rexp where "tLoad = lit ''load''"
definition tStore :: rexp where "tStore = lit ''store''"
definition tRet :: rexp where "tRet = lit ''ret''"
definition tBr :: rexp where "tBr = lit ''br''"
definition tSwitch :: rexp where "tSwitch = lit ''switch''"

definition tBop :: rexp where
  "tBop = words [''udiv'', ''sdiv'', ''urem'', ''srem'', ''mul'', ''shl'', ''lshr'', ''ashr'',
     ''and'', ''or'', ''xor'', ''add'', ''sub'']"

definition tIcmp :: rexp where "tIcmp = lit ''icmp''"

definition tCond :: rexp where
  "tCond = words [''eq'', ''ne'', ''ugt'', ''uge'', ''ult'', ''ule'', ''sgt'', ''sge'', ''slt'', ''sle'']"

definition tSelect :: rexp where "tSelect = lit ''select''"
definition tCall :: rexp where "tCall = lit ''call''"
definition tAssert :: rexp where "tAssert = lit ''assert_eq''"
definition tRead :: rexp where "tRead = lit ''read''"
definition tWrite :: rexp where "tWrite = lit ''write''"

definition rComment :: rexp where
  "rComment = spaced (seq [lit '';'', Rep (Chr (\<lambda>c. \<not> line_end c))])"

definition rStartFunction :: rexp where
  "rStartFunction = spaced (seq [tStart, tSpace, tName, tSpace, tArgN, tESpace, lit '':''])"

definition rEndFunction :: rexp where "rEndFunction = spaced (seq [tEnd, tSpace, tName])"
definition rBBStart :: rexp where "rBBStart = spaced (seq [tBBName, tESpace, lit '':''])"

definition rMalloc :: rexp where
  "rMalloc = spaced (seq [tReg, tAssign, tMalloc, tSpace, tValue])"

definition rFree :: rexp where "rFree = spaced (seq [tFree, tSpace, tValue])"

definition rLoad :: rexp where
  "rLoad = spaced (seq [tReg, tAssign, tLoad, tSpace, tMSize, tSpace, tValue, tSpace, tConst])"

definition rStore :: rexp where
  "rStore = spaced (seq [tStore, tSpace, tMSize, tSpace, tValue, tSpace, tValue, tSpace, tConst])"

definition rResetStack :: rexp where "rResetStack = spaced (seq [lit ''reset'', tSpace, lit ''stack''])"
definition rResetHeap :: rexp where "rResetHeap = spaced (seq [lit ''reset'', tSpace, lit ''heap''])"

definition rRet :: rexp where "rRet = spaced tRet"
definition rRetVal :: rexp where "rRetVal = spaced (seq [tRet, tSpace, tValue])"
definition rBrUncond :: rexp where "rBrUncond = spaced (seq [tBr, tSpace, tBBName])"

definition rBrCond :: rexp where
  "rBrCond = spaced (seq [tBr, tSpace, tValue, tSpace, tBBName, tSpace, tBBName])"

definition rTable :: rexp where "rTable = Rep (seq [tSpace, tConst, tSpace, tBBName])"

definition rSwitch :: rexp where
  "rSwitch = spaced (seq [tSwitch, tSpace, tValue, rTable, tSpace, tBBName])"

definition rBop :: rexp where
  "rBop = spaced (seq [tReg, tAssign, tBop, tSpace, tValue, tSpace, tValue, tSpace, tSize])"

definition rIcmp :: rexp where
  "rIcmp = spaced (seq [tReg, tAssign, tIcmp, tSpace, tCond, tSpace, tValue, tSpace, tValue, tSpace, tSize])"

definition rSelect :: rexp where
  "rSelect = spaced (seq [tReg, tAssign, tSelect, tSpace, tValue, tSpace, tValue, tSpace, tValue])"

definition rAssign :: rexp where "rAssign = opt (seq [tReg, tAssign])"
definition rArgs :: rexp where "rArgs = Rep (seq [tSpace, tValue])"

definition rRead :: rexp where "rRead = spaced (seq [rAssign, tCall, tSpace, tRead])"
definition rWrite :: rexp where "rWrite = spaced (seq [rAssign, tCall, tSpace, tWrite, tSpace, tValue])"
definition rCall :: rexp where "rCall = spaced (seq [rAssign, tCall, tSpace, tName, rArgs])"
definition rAssert :: rexp where "rAssert = spaced (seq [tAssert, tSpace, tValue, tSpace, tValue])"

subsection \<open>Tokens\<close>

text \<open>\<open>regex_replace\<close> replaces, from the left, every longest run of white space, \<open>=\<close> and
  white space by one blank.\<close>

function replace_assign :: "string \<Rightarrow> string" where
  "replace_assign [] = []"
| "replace_assign (c # s) =
     (case dropWhile is_space (c # s) of
        d # t \<Rightarrow> if d = CHR ''='' then CHR '' '' # replace_assign (dropWhile is_space t)
                 else c # replace_assign s
      | [] \<Rightarrow> c # replace_assign s)"
  by pat_completeness auto
termination
proof (relation "measure length", goal_cases)
  case (3 c s d t)
  have "length (dropWhile is_space t) \<le> length t" by (rule length_dropWhile_le)
  also have "\<dots> < length (dropWhile is_space (c # s))" using 3 by simp
  also have "\<dots> \<le> length (c # s)" by (rule length_dropWhile_le)
  finally show ?case by simp
qed auto

definition tokens :: "string \<Rightarrow> string list" where
  "tokens s = words_of (replace_assign s)"

definition word_char :: "char \<Rightarrow> bool" where
  "word_char c \<longleftrightarrow> \<not> is_space c \<and> c \<noteq> CHR ''=''"

definition good :: "string \<Rightarrow> bool" where
  "good w \<longleftrightarrow> w \<noteq> [] \<and> (\<forall>c \<in> set w. word_char c)"

text \<open>A gap is what may follow a word: nothing, white space or \<open>=\<close>.\<close>

definition gap :: "string \<Rightarrow> bool" where
  "gap s \<longleftrightarrow> s = [] \<or> \<not> word_char (hd s)"

lemma eq_not_space [simp]: "\<not> is_space (CHR ''='')"
  by (simp add: is_space_def)

lemma tokens_Nil [simp]: "tokens [] = []"
  by (simp add: tokens_def)

lemma tokens_space [simp]:
  assumes "is_space c"
  shows "tokens (c # s) = tokens s"
proof (cases "\<exists>t. dropWhile is_space s = CHR ''='' # t")
  case True
  then obtain t where t: "dropWhile is_space s = CHR ''='' # t" ..
  then obtain d u where "s = d # u" by (cases s) auto
  with t assms show ?thesis by (simp add: tokens_def)
next
  case False
  then have "replace_assign (c # s) = c # replace_assign s"
    using assms by (auto split: list.splits)
  then show ?thesis using assms by (simp add: tokens_def)
qed

lemma tokens_spaces [simp]: "\<forall>c \<in> set sp. is_space c \<Longrightarrow> tokens (sp @ s) = tokens s"
  by (induction sp) auto

lemma tokens_only_spaces [simp]: "\<forall>c \<in> set sp. is_space c \<Longrightarrow> tokens sp = []"
  using tokens_spaces [of sp "[]"] by simp

lemma tokens_eq [simp]: "tokens (CHR ''='' # s) = tokens s"
proof -
  have "tokens (CHR ''='' # s) = tokens (dropWhile is_space s)"
    by (simp add: tokens_def is_space_def)
  also have "\<dots> = tokens (takeWhile is_space s @ dropWhile is_space s)"
    by (subst tokens_spaces) (auto dest: set_takeWhileD)
  finally show ?thesis by simp
qed

lemma replace_assign_word:
  assumes "\<forall>c \<in> set w. word_char c"
  shows "replace_assign (w @ s) = w @ replace_assign s"
  using assms by (induction w) (auto simp: word_char_def)

lemma replace_assign_gap:
  assumes "gap s"
  shows "replace_assign s = [] \<or> is_space (hd (replace_assign s))"
  using assms by (cases s) (auto simp: gap_def word_char_def is_space_def split: list.splits)

lemma tokens_word:
  assumes "good w" and "gap s"
  shows "tokens (w @ s) = w # tokens s"
proof -
  have "solid w" using assms(1) by (auto simp: good_def solid_def word_char_def)
  moreover have "replace_assign (w @ s) = w @ replace_assign s"
    using assms(1) by (intro replace_assign_word) (simp add: good_def)
  ultimately show ?thesis
    using replace_assign_gap [OF assms(2)] by (simp add: tokens_def words_of_word)
qed

lemma good_lang: "\<lbrakk> w \<in> lang r; all_chars word_char r; \<not> nullable r \<rbrakk> \<Longrightarrow> good w"
  by (auto simp: good_def nullable_iff dest: all_chars_lang)

subsection \<open>Lines put together from words\<close>

lemma lang_tSpace: "s \<in> lang tSpace \<longleftrightarrow> s \<noteq> [] \<and> (\<forall>c \<in> set s. is_space c)"
  by (simp only: tSpace_def lang_plus_Chr)

lemma lang_tESpace: "s \<in> lang tESpace \<longleftrightarrow> (\<forall>c \<in> set s. is_space c)"
  by (simp add: tESpace_def reps_Chr)

lemma lang_spaced: "s \<in> lang (spaced r) \<longleftrightarrow>
    (\<exists>a w b. s = a @ w @ b \<and> (\<forall>c \<in> set a. is_space c) \<and> w \<in> lang r \<and> (\<forall>c \<in> set b. is_space c))"
  by (auto simp: spaced_def lang_tESpace)

lemma gap_simps [simp]:
  "gap []"
  "gap (CHR ''='' # s)"
  "is_space c \<Longrightarrow> gap (c # s)"
  by (simp_all add: gap_def word_char_def)

lemma gap_space_append [simp]: "\<lbrakk> \<forall>c \<in> set a. is_space c; gap s \<rbrakk> \<Longrightarrow> gap (a @ s)"
  by (cases a) auto

lemma gap_tSpace: "g \<in> lang tSpace \<Longrightarrow> gap (g @ s)"
  by (cases g) (auto simp: lang_tSpace)

lemma tokens_tSpace: "g \<in> lang tSpace \<Longrightarrow> tokens (g @ s) = tokens s"
  by (simp add: lang_tSpace)

lemma lang_tAssign: "g \<in> lang tAssign \<Longrightarrow> gap (g @ s) \<and> tokens (g @ s) = tokens s"
  by (auto simp: tAssign_def lang_spaced)

subsection \<open>Patterns of words and gaps\<close>

definition word_rexp :: "rexp \<Rightarrow> bool" where
  "word_rexp r \<longleftrightarrow> (\<forall>w \<in> lang r. good w)"

definition gap_rexp :: "rexp \<Rightarrow> bool" where
  "gap_rexp r \<longleftrightarrow> (\<forall>g \<in> lang r. \<forall>s. gap (g @ s) \<and> tokens (g @ s) = tokens s)"

lemma word_rexpI: "\<lbrakk> all_chars word_char r; \<not> nullable r \<rbrakk> \<Longrightarrow> word_rexp r"
  by (auto simp: word_rexp_def intro: good_lang)

lemma gap_rexp [simp]: "gap_rexp tSpace" "gap_rexp tAssign"
  by (auto simp: gap_rexp_def gap_tSpace tokens_tSpace lang_tAssign)

lemma word_char_simps:
  "is_digit c \<Longrightarrow> word_char c"
  "name_char c \<Longrightarrow> word_char c"
  "char_between (CHR ''1'') (CHR ''9'') c \<Longrightarrow> word_char c"
  "char_between (CHR ''0'') (CHR ''6'') c \<Longrightarrow> word_char c"
  by (auto simp: word_char_def is_space_def name_char_def char_between_def is_digit_def)

lemma word_char_letters: "\<forall>c \<in> set ''abcdefghijklmnopqrstuvwxyz1248630_.:''. word_char c"
  by (simp add: word_char_def is_space_def)

lemma word_lit [simp]: "word_rexp (lit w) \<longleftrightarrow> good w"
  by (simp add: word_rexp_def)

lemma word_words: "word_rexp (words ws) \<longleftrightarrow> (\<forall>w \<in> set ws. good w)"
  by (auto simp: word_rexp_def words_def)

lemma lang_words: "w \<in> lang (words ws) \<longleftrightarrow> w \<in> set ws"
  by (auto simp: words_def)

lemma word_char_lits:
  "word_char (CHR ''r'')" "word_char (CHR ''a'')" "word_char (CHR ''g'')" "word_char (CHR ''s'')"
  "word_char (CHR ''p'')" "word_char (CHR ''1'')" "word_char (CHR ''.'')"
  by (simp_all add: word_char_def is_space_def)

lemma word_rexps [simp]:
  "word_rexp tReg" "word_rexp tConst" "word_rexp tValue" "word_rexp tName" "word_rexp tBBName"
  "word_rexp tArgN"
  by (rule word_rexpI; simp add: tReg_def tConst_def tValue_def tName_def tBBName_def tArgN_def tNum16_def
    word_char_simps word_char_lits)+

lemma word_rexps_lit [simp]:
  "word_rexp tMSize" "word_rexp tSize" "word_rexp tBop" "word_rexp tCond"
  "word_rexp tStart" "word_rexp tEnd" "word_rexp tMalloc" "word_rexp tFree" "word_rexp tLoad"
  "word_rexp tStore" "word_rexp tRet" "word_rexp tBr" "word_rexp tSwitch" "word_rexp tIcmp"
  "word_rexp tSelect" "word_rexp tCall" "word_rexp tAssert" "word_rexp tRead" "word_rexp tWrite"
  unfolding tMSize_def tSize_def tBop_def tCond_def word_words
    tStart_def tEnd_def tMalloc_def tFree_def tLoad_def tStore_def tRet_def tBr_def tSwitch_def
    tIcmp_def tSelect_def tCall_def tAssert_def tRead_def tWrite_def word_lit
  by (simp_all add: good_def word_char_def is_space_def)

fun pattern_ok :: "rexp list \<Rightarrow> bool" where
  "pattern_ok [w] = word_rexp w"
| "pattern_ok (w # g # rs) = (word_rexp w \<and> gap_rexp g \<and> pattern_ok rs)"
| "pattern_ok [] = False"

fun pattern_words :: "rexp list \<Rightarrow> rexp list" where
  "pattern_words (w # g # rs) = w # pattern_words rs"
| "pattern_words rs = rs"

lemma pattern_tokens:
  "\<lbrakk> pattern_ok rs; x \<in> lang (seq rs); gap b \<rbrakk> \<Longrightarrow>
   \<exists>ts. tokens (x @ b) = ts @ tokens b \<and> list_all2 (\<lambda>t r. t \<in> lang r) ts (pattern_words rs)"
proof (induction rs arbitrary: x rule: pattern_ok.induct)
  case (1 w)
  then have "x \<in> lang w" "good x" by (auto simp: word_rexp_def)
  with 1 show ?case by (intro exI [of _ "[x]"]) (simp add: tokens_word)
next
  case (2 w g rs)
  then obtain u v y where x: "x = u @ v @ y" and u: "u \<in> lang w" and v: "v \<in> lang g" and y: "y \<in> lang (seq rs)"
    by auto
  from 2 y obtain ts where ts: "tokens (y @ b) = ts @ tokens b"
    "list_all2 (\<lambda>t r. t \<in> lang r) ts (pattern_words rs)" by auto
  have "good u" using 2 u by (auto simp: word_rexp_def)
  moreover have "gap (v @ y @ b)" "tokens (v @ y @ b) = tokens (y @ b)"
    using 2 v by (auto simp: gap_rexp_def)
  ultimately have "tokens (x @ b) = u # tokens (y @ b)" by (simp add: x tokens_word)
  with ts u show ?case by (intro exI [of _ "u # ts"]) simp
qed simp

text \<open>The tokens of a line that matches a pattern are its words.\<close>

lemma line_tokens:
  assumes "s \<in> lang (spaced (seq rs))" and "pattern_ok rs"
  shows "list_all2 (\<lambda>t r. t \<in> lang r) (tokens s) (pattern_words rs)"
proof -
  from assms(1) obtain a x b where s: "s = a @ x @ b" "\<forall>c \<in> set a. is_space c" "x \<in> lang (seq rs)"
    "\<forall>c \<in> set b. is_space c" by (auto simp: lang_spaced)
  have "gap b" using s(4) gap_space_append [of b "[]"] by simp
  from pattern_tokens [OF assms(2) s(3) this] s show ?thesis by auto
qed

end
