(* ===== verification/Bop.thy ===== *)
theory Bop
  imports Isa "HOL-Library.Signed_Division"
begin

text \<open>
  The binary operations (\<open>stmt.cpp\<close>). Operands are cut to the width of the operation, with
  or without sign, computed on 64 bits and the result is cut again. The reference
  \<open>bop_spec\<close> is ordinary integer arithmetic on the operands read as \<open>n\<close>-bit numbers.
  Division of the least 64-bit integer by \<open>-1\<close> overflows \<open>int64_t\<close>, which C++ leaves
  undefined.
\<close>

fun is_signed_op :: "bop_kind \<Rightarrow> bool" where
  "is_signed_op Ashr = True"
| "is_signed_op Sdiv = True"
| "is_signed_op Srem = True"
| "is_signed_op Sgt = True"
| "is_signed_op Sge = True"
| "is_signed_op Slt = True"
| "is_signed_op Sle = True"
| "is_signed_op _ = False"

fun is_shift_op :: "bop_kind \<Rightarrow> bool" where
  "is_shift_op Shl = True"
| "is_shift_op Lshr = True"
| "is_shift_op Ashr = True"
| "is_shift_op _ = False"

definition get_op1 :: "bop_kind \<Rightarrow> bitsize \<Rightarrow> u64 \<Rightarrow> u64" where
  "get_op1 k sz v =
     (if is_signed_op k then
        (case sz of
           Size1 \<Rightarrow> if v mod 2 = 1 then - 1 else 0
         | Size8 \<Rightarrow> scast (ucast v :: 8 word)
         | Size16 \<Rightarrow> scast (ucast v :: 16 word)
         | Size32 \<Rightarrow> scast (ucast v :: 32 word)
         | Size64 \<Rightarrow> v)
      else
        (case sz of
           Size1 \<Rightarrow> if v mod 2 = 1 then 1 else 0
         | Size8 \<Rightarrow> ucast (ucast v :: 8 word)
         | Size16 \<Rightarrow> ucast (ucast v :: 16 word)
         | Size32 \<Rightarrow> ucast (ucast v :: 32 word)
         | Size64 \<Rightarrow> v))"

definition get_op2 :: "bop_kind \<Rightarrow> bitsize \<Rightarrow> u64 \<Rightarrow> u64" where
  "get_op2 k sz v = (if is_shift_op k then v mod of_nat (bw_of sz) else get_op1 k sz v)"

definition get_result :: "bitsize \<Rightarrow> u64 \<Rightarrow> u64" where
  "get_result sz v =
     (case sz of
        Size1 \<Rightarrow> v mod 2
      | Size8 \<Rightarrow> ucast (ucast v :: 8 word)
      | Size16 \<Rightarrow> ucast (ucast v :: 16 word)
      | Size32 \<Rightarrow> ucast (ucast v :: 32 word)
      | Size64 \<Rightarrow> v)"

definition div_by_zero :: fault where
  "div_by_zero = Runtime_error ''division by zero''"

definition div_overflow :: "u64 \<Rightarrow> u64 \<Rightarrow> bool" where
  "div_overflow a b \<longleftrightarrow> sint a = - (2 ^ 63) \<and> sint b = - 1"

definition overflow_fault :: fault where
  "overflow_fault = Undefined ''signed division overflow''"

text \<open>The switch of \<open>StmtBop::compute\<close>, on the operands after extension.\<close>

fun bop_switch :: "bop_kind \<Rightarrow> u64 \<Rightarrow> u64 \<Rightarrow> u64 result" where
  "bop_switch Udiv a b = (if b = 0 then Inl div_by_zero else Inr (a div b))"
| "bop_switch Sdiv a b =
     (if b = 0 then Inl div_by_zero
      else if div_overflow a b then Inl overflow_fault
      else Inr (word_of_int (sint a sdiv sint b)))"
| "bop_switch Urem a b = (if b = 0 then Inl div_by_zero else Inr (a mod b))"
| "bop_switch Srem a b =
     (if b = 0 then Inl div_by_zero
      else if div_overflow a b then Inl overflow_fault
      else Inr (word_of_int (sint a smod sint b)))"
| "bop_switch Mul a b = Inr (a * b)"
| "bop_switch Shl a b = Inr (push_bit (unat b) a)"
| "bop_switch Lshr a b = Inr (drop_bit (unat b) a)"
| "bop_switch Ashr a b = Inr (signed_drop_bit (unat b) a)"
| "bop_switch And a b = Inr (and a b)"
| "bop_switch Or a b = Inr (or a b)"
| "bop_switch Xor a b = Inr (xor a b)"
| "bop_switch Add a b = Inr (a + b)"
| "bop_switch Sub a b = Inr (a - b)"
| "bop_switch Eq a b = Inr (if a = b then 1 else 0)"
| "bop_switch Ne a b = Inr (if a \<noteq> b then 1 else 0)"
| "bop_switch Ugt a b = Inr (if b < a then 1 else 0)"
| "bop_switch Uge a b = Inr (if b \<le> a then 1 else 0)"
| "bop_switch Ult a b = Inr (if a < b then 1 else 0)"
| "bop_switch Ule a b = Inr (if a \<le> b then 1 else 0)"
| "bop_switch Sgt a b = Inr (if sint b < sint a then 1 else 0)"
| "bop_switch Sge a b = Inr (if sint b \<le> sint a then 1 else 0)"
| "bop_switch Slt a b = Inr (if sint a < sint b then 1 else 0)"
| "bop_switch Sle a b = Inr (if sint a \<le> sint b then 1 else 0)"

definition compute :: "bop_kind \<Rightarrow> bitsize \<Rightarrow> u64 \<Rightarrow> u64 \<Rightarrow> u64 result" where
  "compute k sz v1 v2 =
     rbind (bop_switch k (get_op1 k sz v1) (get_op2 k sz v2)) (\<lambda>r. Inr (get_result sz r))"

fun cost_of :: "bop_kind \<Rightarrow> rat" where
  "cost_of Udiv = COST_MULDIV"
| "cost_of Sdiv = COST_MULDIV"
| "cost_of Urem = COST_MULDIV"
| "cost_of Srem = COST_MULDIV"
| "cost_of Mul = COST_MULDIV"
| "cost_of Shl = COST_LOGICAL"
| "cost_of Lshr = COST_LOGICAL"
| "cost_of Ashr = COST_LOGICAL"
| "cost_of And = COST_LOGICAL"
| "cost_of Or = COST_LOGICAL"
| "cost_of Xor = COST_LOGICAL"
| "cost_of Add = COST_ADDSUB"
| "cost_of Sub = COST_ADDSUB"
| "cost_of _ = COST_COMP"

lemma cost_of_nonneg: "0 \<le> cost_of k"
  by (cases k) (simp_all add: cost_defs)

subsection \<open>Reference arithmetic\<close>

definition unsigned_of :: "nat \<Rightarrow> u64 \<Rightarrow> int" where
  "unsigned_of n v = take_bit n (uint v)"

definition signed_of :: "nat \<Rightarrow> u64 \<Rightarrow> int" where
  "signed_of n v = signed_take_bit (n - 1) (uint v)"

definition is_div_op :: "bop_kind \<Rightarrow> bool" where
  "is_div_op k \<longleftrightarrow> k \<in> {Udiv, Sdiv, Urem, Srem}"

fun bop_spec :: "bop_kind \<Rightarrow> nat \<Rightarrow> u64 \<Rightarrow> u64 \<Rightarrow> int" where
  "bop_spec Udiv n a b = unsigned_of n a div unsigned_of n b"
| "bop_spec Sdiv n a b = signed_of n a sdiv signed_of n b"
| "bop_spec Urem n a b = unsigned_of n a mod unsigned_of n b"
| "bop_spec Srem n a b = signed_of n a smod signed_of n b"
| "bop_spec Mul n a b = unsigned_of n a * unsigned_of n b"
| "bop_spec Shl n a b = unsigned_of n a * 2 ^ (unat b mod n)"
| "bop_spec Lshr n a b = unsigned_of n a div 2 ^ (unat b mod n)"
| "bop_spec Ashr n a b = signed_of n a div 2 ^ (unat b mod n)"
| "bop_spec And n a b = and (unsigned_of n a) (unsigned_of n b)"
| "bop_spec Or n a b = or (unsigned_of n a) (unsigned_of n b)"
| "bop_spec Xor n a b = xor (unsigned_of n a) (unsigned_of n b)"
| "bop_spec Add n a b = unsigned_of n a + unsigned_of n b"
| "bop_spec Sub n a b = unsigned_of n a - unsigned_of n b"
| "bop_spec Eq n a b = of_bool (unsigned_of n a = unsigned_of n b)"
| "bop_spec Ne n a b = of_bool (unsigned_of n a \<noteq> unsigned_of n b)"
| "bop_spec Ugt n a b = of_bool (unsigned_of n b < unsigned_of n a)"
| "bop_spec Uge n a b = of_bool (unsigned_of n b \<le> unsigned_of n a)"
| "bop_spec Ult n a b = of_bool (unsigned_of n a < unsigned_of n b)"
| "bop_spec Ule n a b = of_bool (unsigned_of n a \<le> unsigned_of n b)"
| "bop_spec Sgt n a b = of_bool (signed_of n b < signed_of n a)"
| "bop_spec Sge n a b = of_bool (signed_of n b \<le> signed_of n a)"
| "bop_spec Slt n a b = of_bool (signed_of n a < signed_of n b)"
| "bop_spec Sle n a b = of_bool (signed_of n a \<le> signed_of n b)"

text \<open>Reading the operands and the result.\<close>

lemma take_bit_64_uint [simp]: "take_bit 64 (uint (v :: u64)) = uint v"
  using unsigned_less [where 'a = int, of v] by (simp add: take_bit_int_eq_self_iff)

lemma uint_get_result: "uint (get_result sz r) = take_bit (bw_of sz) (uint r)"
  by (cases sz) (simp_all add: get_result_def unsigned_ucast_eq uint_mod unsigned_take_bit_eq
    flip: take_bit_eq_mod)

lemma mod_2_eq_1: "(v::u64) mod 2 = 1 \<longleftrightarrow> uint v mod 2 = 1"
proof -
  have "uint (v mod 2) = uint v mod 2" by (simp add: uint_mod)
  then show ?thesis by (metis uint_1_eq word_uint_eq_iff)
qed

lemma take_bit_1_uint: "take_bit 1 (uint v) = (if (v::u64) mod 2 = 1 then 1 else 0)"
  by (auto simp: mod_2_eq_1 take_bit_eq_mod)

lemma signed_take_bit_0_uint: "signed_take_bit 0 (uint v) = (if (v::u64) mod 2 = 1 then - 1 else 0)"
  by (auto simp: mod_2_eq_1 odd_iff_mod_2_eq_one)

lemma sint_63: "sint (v :: u64) = signed_take_bit 63 (uint v)"
  using sint_uint [of v] by simp

lemma sint_scast_ucast:
  "sint (scast (ucast v :: 8 word) :: u64) = signed_take_bit 7 (uint v)"
  "sint (scast (ucast v :: 16 word) :: u64) = signed_take_bit 15 (uint v)"
  "sint (scast (ucast v :: 32 word) :: u64) = signed_take_bit 31 (uint v)"
proof -
  have up8: "sint (scast w :: u64) = sint w" for w :: "8 word" by (rule sint_up_scast) (simp add: is_up)
  have up16: "sint (scast w :: u64) = sint w" for w :: "16 word" by (rule sint_up_scast) (simp add: is_up)
  have up32: "sint (scast w :: u64) = sint w" for w :: "32 word" by (rule sint_up_scast) (simp add: is_up)
  show "sint (scast (ucast v :: 8 word) :: u64) = signed_take_bit 7 (uint v)"
    "sint (scast (ucast v :: 16 word) :: u64) = signed_take_bit 15 (uint v)"
    "sint (scast (ucast v :: 32 word) :: u64) = signed_take_bit 31 (uint v)"
    unfolding up8 up16 up32 by (simp_all add: signed_ucast_eq)
qed

lemma uint_get_op1:
  assumes "\<not> is_signed_op k"
  shows "uint (get_op1 k sz v) = unsigned_of (bw_of sz) v"
proof (cases sz)
  case Size1
  with assms show ?thesis by (simp add: get_op1_def unsigned_of_def take_bit_1_uint del: take_bit_Suc_0 One_nat_def)
qed (use assms in \<open>simp_all add: get_op1_def unsigned_of_def unsigned_ucast_eq unsigned_take_bit_eq\<close>)

lemma sint_get_op1:
  assumes "is_signed_op k"
  shows "sint (get_op1 k sz v) = signed_of (bw_of sz) v"
proof (cases sz)
  case Size1
  with assms show ?thesis by (simp add: get_op1_def signed_of_def signed_take_bit_0_uint del: signed_take_bit_0)
next
  case Size64
  with assms show ?thesis by (simp add: get_op1_def signed_of_def sint_63)
qed (use assms in \<open>simp_all add: get_op1_def signed_of_def sint_scast_ucast\<close>)

lemma get_op1_eq_iff: "get_op1 k sz a = get_op1 k sz b \<longleftrightarrow> unsigned_of (bw_of sz) a = unsigned_of (bw_of sz) b"
  if "\<not> is_signed_op k"
  using uint_get_op1 [OF that] by (metis word_uint_eq_iff)

lemma unat_get_op2:
  assumes "is_shift_op k"
  shows "unat (get_op2 k sz v) = unat v mod bw_of sz"
proof -
  have "unat (of_nat (bw_of sz) :: u64) = bw_of sz" by (cases sz) simp_all
  with assms show ?thesis by (simp add: get_op2_def unat_mod)
qed

lemma get_result_of_int: "get_result sz (word_of_int i) = word_of_int (take_bit (bw_of sz) i)"
proof (rule word_uint_eqI)
  show "uint (get_result sz (word_of_int i)) = uint (word_of_int (take_bit (bw_of sz) i) :: u64)"
    using bw_of_bounds(2) [of sz]
    by (simp add: uint_get_result uint_word_of_int_eq min_def)
qed

text \<open>Word operations as integer operations on the operands.\<close>

lemma word_of_int_ops:
  fixes a b :: u64
  shows "word_of_int (uint a div uint b) = a div b"
    and "word_of_int (uint a mod uint b) = a mod b"
    and "word_of_int (uint a * uint b) = a * b"
    and "word_of_int (uint a + uint b) = a + b"
    and "word_of_int (uint a - uint b) = a - b"
    and "word_of_int (uint a * 2 ^ n) = push_bit n a"
    and "word_of_int (uint a div 2 ^ n) = drop_bit n a"
    and "word_of_int (sint a div 2 ^ n) = signed_drop_bit n a"
    and "word_of_int (and (uint a) (uint b)) = and a b"
    and "word_of_int (or (uint a) (uint b)) = or a b"
    and "word_of_int (xor (uint a) (uint b)) = xor a b"
  by (simp_all add: word_div_def word_mod_def push_bit_eq_mult)
    ((rule bit_word_eqI, simp add: bit_simps flip: drop_bit_eq_div)+)?

text \<open>The switch computes the reference up to a multiple of \<open>2 ^ 64\<close>.\<close>

lemma bop_switch_spec:
  assumes b: "is_div_op k \<Longrightarrow> get_op2 k sz v2 \<noteq> 0"
    and o: "k \<in> {Sdiv, Srem} \<Longrightarrow> \<not> div_overflow (get_op1 k sz v1) (get_op2 k sz v2)"
  shows "bop_switch k (get_op1 k sz v1) (get_op2 k sz v2)
    = Inr (word_of_int (bop_spec k (bw_of sz) v1 v2))"
proof -
  have u: "\<And>v. uint (get_op1 k sz v) = unsigned_of (bw_of sz) v" if "\<not> is_signed_op k"
    using that by (rule uint_get_op1)
  have s: "\<And>v. sint (get_op1 k sz v) = signed_of (bw_of sz) v" if "is_signed_op k"
    using that by (rule sint_get_op1)
  have sh: "unat (get_op2 k sz v2) = unat v2 mod bw_of sz" if "is_shift_op k"
    using that by (rule unat_get_op2)
  have 2: "get_op2 k sz v2 = get_op1 k sz v2" if "\<not> is_shift_op k"
    using that by (simp add: get_op2_def)
  show ?thesis
  proof (cases "is_signed_op k")
    case True
    then show ?thesis
      using b o s sh 2 by (cases k) (simp_all add: is_div_op_def word_of_int_ops flip: s)
  next
    case False
    then show ?thesis
      using b u sh 2
      by (cases k) (simp_all add: is_div_op_def word_of_int_ops word_less_def word_le_def
        push_bit_eq_mult flip: u word_uint_eq_iff)
  qed
qed

lemma bop_switch_zero: "is_div_op k \<Longrightarrow> bop_switch k a 0 = Inl div_by_zero"
  by (auto simp: is_div_op_def)

lemma bop_switch_overflow:
  "\<lbrakk> k \<in> {Sdiv, Srem}; b \<noteq> 0; div_overflow a b \<rbrakk> \<Longrightarrow> bop_switch k a b = Inl overflow_fault"
  by auto

lemma compute_cases:
  "compute k sz v1 v2 =
     (if is_div_op k \<and> unsigned_of (bw_of sz) v2 = 0 then Inl (Runtime_error ''division by zero'')
      else if k \<in> {Sdiv, Srem} \<and> sz = Size64 \<and> sint v1 = - (2 ^ 63) \<and> sint v2 = - 1
      then Inl (Undefined ''signed division overflow'')
      else Inr (word_of_int (take_bit (bw_of sz) (bop_spec k (bw_of sz) v1 v2))))"
proof -
  have zero: "get_op2 k sz v2 = 0 \<longleftrightarrow> unsigned_of (bw_of sz) v2 = 0" if "is_div_op k"
  proof -
    from that have sh: "\<not> is_shift_op k" by (auto simp: is_div_op_def)
    show ?thesis
    proof (cases "is_signed_op k")
      case True
      have "get_op2 k sz v2 = 0 \<longleftrightarrow> signed_of (bw_of sz) v2 = 0"
        using sint_get_op1 [OF True, of sz v2] sh by (metis get_op2_def signed_eq_0_iff)
      also have "\<dots> \<longleftrightarrow> unsigned_of (bw_of sz) v2 = 0"
        using bw_of_bounds(1) [of sz]
          signed_take_bit_eq_iff_take_bit_eq [of "bw_of sz - 1" "uint v2" 0]
        by (simp add: signed_of_def unsigned_of_def)
      finally show ?thesis .
    next
      case False
      from uint_get_op1 [OF this, of sz v2] sh show ?thesis
        by (metis get_op2_def unsigned_eq_0_iff)
    qed
  qed
  have ov: "div_overflow (get_op1 k sz v1) (get_op2 k sz v2) \<longleftrightarrow>
      sz = Size64 \<and> sint v1 = - (2 ^ 63) \<and> sint v2 = - 1" if "k \<in> {Sdiv, Srem}"
  proof -
    from that have k: "is_signed_op k" "\<not> is_shift_op k" by auto
    have r: "- (2 ^ 31) \<le> signed_of (bw_of sz) v1" if "sz \<noteq> Size64"
      using that signed_take_bit_int_greater_eq_minus_exp [of "bw_of sz - 1" "uint v1"]
      by (cases sz) (simp_all add: signed_of_def)
    show ?thesis
      using r sint_get_op1 [OF k(1)] k
      by (cases sz) (auto simp: div_overflow_def get_op2_def signed_of_def sint_63)
  qed
  show ?thesis
  proof (cases "is_div_op k \<and> get_op2 k sz v2 = 0")
    case True
    with zero show ?thesis
      by (simp only: compute_def bop_switch_zero simp_thms if_True rbind_simps div_by_zero_def)
  next
    case nz: False
    show ?thesis
    proof (cases "k \<in> {Sdiv, Srem} \<and> div_overflow (get_op1 k sz v1) (get_op2 k sz v2)")
      case True
      then have d: "is_div_op k" by (auto simp: is_div_op_def)
      with nz have n: "get_op2 k sz v2 \<noteq> 0" by blast
      have "compute k sz v1 v2 = Inl (Undefined ''signed division overflow'')"
        using bop_switch_overflow [OF _ n] True by (simp only: compute_def rbind_simps overflow_fault_def)
      moreover have "\<not> (is_div_op k \<and> unsigned_of (bw_of sz) v2 = 0)" using nz zero by blast
      ultimately show ?thesis using True ov by (simp only: if_False if_True simp_thms)
    next
      case False
      have "bop_switch k (get_op1 k sz v1) (get_op2 k sz v2)
          = Inr (word_of_int (bop_spec k (bw_of sz) v1 v2))"
        by (rule bop_switch_spec) (use nz False in blast)+
      then have "compute k sz v1 v2 = Inr (word_of_int (take_bit (bw_of sz) (bop_spec k (bw_of sz) v1 v2)))"
        by (simp only: compute_def rbind_simps get_result_of_int)
      moreover have "\<not> (is_div_op k \<and> unsigned_of (bw_of sz) v2 = 0)" using nz zero by blast
      moreover have "\<not> (k \<in> {Sdiv, Srem} \<and> sz = Size64 \<and> sint v1 = - (2 ^ 63) \<and> sint v2 = - 1)"
        using False ov by blast
      ultimately show ?thesis by (simp only: if_False)
    qed
  qed
qed

text \<open>
  C7. Every binary operation is integer arithmetic on operands read as \<open>n\<close>-bit numbers,
  unsigned or in two's complement as the operation says, with the result taken modulo
  \<open>2 ^ n\<close> and the shift amount modulo \<open>n\<close>. It fails only for a zero divisor, and it is
  undefined only for the 64-bit signed quotient or remainder of the least integer by \<open>-1\<close>.
\<close>

theorem compute_is_n_bit_arithmetic:
  "compute k sz v1 v2 =
     (if is_div_op k \<and> unsigned_of (bw_of sz) v2 = 0 then Inl (Runtime_error ''division by zero'')
      else if k \<in> {Sdiv, Srem} \<and> sz = Size64 \<and> sint v1 = - (2 ^ 63) \<and> sint v2 = - 1
      then Inl (Undefined ''signed division overflow'')
      else Inr (word_of_int (take_bit (bw_of sz) (bop_spec k (bw_of sz) v1 v2))))"
  by (rule compute_cases)

end
