(* ===== verification/Machine.thy ===== *)
theory Machine
  imports Bop Memory_Props
begin

text \<open>
  The interpreter proper: the execution of one statement (\<open>stmt.cpp\<close>), functions and
  programs (\<open>function.cpp\<close>, \<open>program.cpp\<close>), and the loop that runs a function
  (\<open>state.cpp\<close>, \<open>main.cpp\<close>).

  The state is the object \<open>State\<close> (registers, memory, cost) with the globals the statements
  touch: the line number for error messages and the standard streams. A basic block is the
  list of its statements; running off its end follows a null pointer. A run that stops
  early yields the fault and the state in which the failing statement began.
\<close>

record state =
  s_regfile :: regfile
  s_memory :: memory
  s_cost :: rat
  s_line :: int
  s_in :: string
  s_out :: string

definition init_state :: "string \<Rightarrow> state" where
  "init_state input =
     \<lparr>s_regfile = init_regfile, s_memory = init_memory, s_cost = 0, s_line = 0, s_in = input, s_out = []\<rparr>"

subsection \<open>Functions and programs\<close>

record func =
  fname :: string
  fn_nargs :: int
  first_bb :: string
  bb_map :: "string \<rightharpoonup> stmt list"

definition new_function :: "string \<Rightarrow> int \<Rightarrow> func" where
  "new_function nm n = \<lparr>fname = nm, fn_nargs = n, first_bb = [], bb_map = Map.empty\<rparr>"

definition get_first_bb :: "func \<Rightarrow> stmt list option" where
  "get_first_bb f = bb_map f (first_bb f)"

definition set_first_bb :: "string \<Rightarrow> func \<Rightarrow> func" where
  "set_first_bb bb f = f\<lparr>first_bb := bb\<rparr>"

definition get_bb :: "func \<Rightarrow> string \<Rightarrow> stmt list option" where
  "get_bb f bb = bb_map f bb"

definition set_bb :: "string \<Rightarrow> stmt list \<Rightarrow> func \<Rightarrow> func \<times> bool" where
  "set_bb bb st f =
     (if bb_map f bb \<noteq> None then (f, False) else (f\<lparr>bb_map := (bb_map f)(bb \<mapsto> st)\<rparr>, True))"

type_synonym program = "string \<rightharpoonup> func"

definition get_function :: "program \<Rightarrow> string \<Rightarrow> func option" where
  "get_function p nm = p nm"

definition set_function :: "string \<Rightarrow> func \<Rightarrow> program \<Rightarrow> program \<times> bool" where
  "set_function nm f p = (if p nm \<noteq> None then (p, False) else (p(nm \<mapsto> f), True))"

subsection \<open>One statement\<close>

definition write_result :: "reg \<Rightarrow> u64 \<Rightarrow> state \<Rightarrow> state result" where
  "write_result lhs v s = rbind (write_reg lhs v (s_regfile s)) (\<lambda>rf. Inr (s\<lparr>s_regfile := rf\<rparr>))"

text \<open>\<open>exec\<close> of each subclass of \<open>Stmt\<close>, with the left-hand side and the operands as arguments.\<close>

definition malloc_exec :: "(memory \<Rightarrow> u64 \<Rightarrow> bool) \<Rightarrow> reg \<Rightarrow> val \<Rightarrow> state \<Rightarrow> (rat \<times> state) result" where
  "malloc_exec calloc_ok lhs v s =
     rbind (get_value v (s_regfile s)) (\<lambda>n.
     rbind (exec_malloc calloc_ok n (s_memory s)) (\<lambda>(addr, c, m).
     rbind (write_result lhs addr (s\<lparr>s_memory := m\<rparr>)) (\<lambda>s'. Inr (c, s'))))"

definition free_exec :: "val \<Rightarrow> state \<Rightarrow> (rat \<times> state) result" where
  "free_exec p s =
     rbind (get_value p (s_regfile s)) (\<lambda>addr.
     rbind (exec_free addr (s_memory s)) (\<lambda>(c, m). Inr (c, s\<lparr>s_memory := m\<rparr>)))"

definition load_exec :: "reg \<Rightarrow> msize \<Rightarrow> val \<Rightarrow> u64 \<Rightarrow> state \<Rightarrow> (rat \<times> state) result" where
  "load_exec lhs sz p ofs s =
     rbind (get_value p (s_regfile s)) (\<lambda>a.
     rbind (exec_load sz (a + ofs) (s_memory s)) (\<lambda>(v, c, m).
     rbind (write_result lhs v (s\<lparr>s_memory := m\<rparr>)) (\<lambda>s'. Inr (c, s'))))"

definition store_exec :: "msize \<Rightarrow> val \<Rightarrow> val \<Rightarrow> u64 \<Rightarrow> state \<Rightarrow> (rat \<times> state) result" where
  "store_exec sz v p ofs s =
     rbind (get_value p (s_regfile s)) (\<lambda>a.
     rbind (get_value v (s_regfile s)) (\<lambda>w.
     rbind (exec_store sz (a + ofs) w (s_memory s)) (\<lambda>(c, m). Inr (c, s\<lparr>s_memory := m\<rparr>))))"

definition reset_stack_exec :: "state \<Rightarrow> (rat \<times> state) result" where
  "reset_stack_exec s = (let (c, m) = exec_reset_stack (s_memory s) in Inr (c, s\<lparr>s_memory := m\<rparr>))"

definition reset_heap_exec :: "state \<Rightarrow> (rat \<times> state) result" where
  "reset_heap_exec s = (let (c, m) = exec_reset_heap (s_memory s) in Inr (c, s\<lparr>s_memory := m\<rparr>))"

definition bop_exec :: "reg \<Rightarrow> bop_kind \<Rightarrow> val \<Rightarrow> val \<Rightarrow> bitsize \<Rightarrow> state \<Rightarrow> (rat \<times> state) result" where
  "bop_exec lhs k v1 v2 sz s =
     rbind (get_value v1 (s_regfile s)) (\<lambda>a.
     rbind (get_value v2 (s_regfile s)) (\<lambda>b.
     rbind (compute k sz a b) (\<lambda>r.
     rbind (write_result lhs r s) (\<lambda>s'. Inr (cost_of k, s')))))"

definition select_exec :: "reg \<Rightarrow> val \<Rightarrow> val \<Rightarrow> val \<Rightarrow> state \<Rightarrow> (rat \<times> state) result" where
  "select_exec lhs c vt vf s =
     rbind (get_value c (s_regfile s)) (\<lambda>w.
     rbind (get_value vt (s_regfile s)) (\<lambda>a.
     rbind (get_value vf (s_regfile s)) (\<lambda>b.
     rbind (write_result lhs (if w \<noteq> 0 then a else b) s) (\<lambda>s'. Inr (COST_TERNARY, s')))))"

definition assert_exec :: "val \<Rightarrow> val \<Rightarrow> state \<Rightarrow> (rat \<times> state) result" where
  "assert_exec v1 v2 s =
     rbind (get_value v1 (s_regfile s)) (\<lambda>a.
     rbind (get_value v2 (s_regfile s)) (\<lambda>b.
       if a = b then Inr (COST_ASSERT, s) else Inl Assertion_failed))"

definition read_exec :: "reg \<Rightarrow> state \<Rightarrow> (rat \<times> state) result" where
  "read_exec lhs s =
     (let (w, rest) = extract_word (s_in s)
      in case stoull w of
           None \<Rightarrow> Inl (Runtime_error ''invalid input'')
         | Some v \<Rightarrow> rbind (write_result lhs v (s\<lparr>s_in := rest\<rparr>)) (\<lambda>s'. Inr (COST_CALL, s')))"

definition write_exec :: "reg \<Rightarrow> val \<Rightarrow> state \<Rightarrow> (rat \<times> state) result" where
  "write_exec lhs v s =
     rbind (get_value v (s_regfile s)) (\<lambda>w.
     rbind (write_result lhs 0 (s\<lparr>s_out := s_out s @ u64_to_string w @ [newline]\<rparr>))
       (\<lambda>s'. Inr (COST_CALL + COST_PER_ARG, s')))"

lemmas stmt_execs [simp] = malloc_exec_def free_exec_def load_exec_def store_exec_def
  reset_stack_exec_def reset_heap_exec_def bop_exec_def select_exec_def assert_exec_def
  read_exec_def write_exec_def

text \<open>The virtual call \<open>curr->exec(regfile, memory)\<close>; terminators and calls do nothing there.\<close>

fun exec_stmt :: "(memory \<Rightarrow> u64 \<Rightarrow> bool) \<Rightarrow> reg \<Rightarrow> stmt_body \<Rightarrow> state \<Rightarrow> (rat \<times> state) result" where
  "exec_stmt calloc_ok lhs (SMalloc v) s = malloc_exec calloc_ok lhs v s"
| "exec_stmt calloc_ok lhs (SFree p) s = free_exec p s"
| "exec_stmt calloc_ok lhs (SLoad sz p ofs) s = load_exec lhs sz p ofs s"
| "exec_stmt calloc_ok lhs (SStore sz v p ofs) s = store_exec sz v p ofs s"
| "exec_stmt calloc_ok lhs SResetStack s = reset_stack_exec s"
| "exec_stmt calloc_ok lhs SResetHeap s = reset_heap_exec s"
| "exec_stmt calloc_ok lhs (SBop k v1 v2 sz) s = bop_exec lhs k v1 v2 sz s"
| "exec_stmt calloc_ok lhs (SSelect c vt vf) s = select_exec lhs c vt vf s"
| "exec_stmt calloc_ok lhs (SAssert v1 v2) s = assert_exec v1 v2 s"
| "exec_stmt calloc_ok lhs SRead s = read_exec lhs s"
| "exec_stmt calloc_ok lhs (SWrite v) s = write_exec lhs v s"
| "exec_stmt calloc_ok lhs _ s = Inr (0, s)"

text \<open>\<open>StmtBrCond::get_bb\<close> and \<open>StmtSwitch::get_bb\<close>.\<close>

definition cond_target :: "val \<Rightarrow> string \<Rightarrow> string \<Rightarrow> regfile \<Rightarrow> string result" where
  "cond_target c t f rf = rbind (get_value c rf) (\<lambda>v. Inr (if v \<noteq> 0 then t else f))"

definition switch_target :: "val \<Rightarrow> (u64 \<times> string) list \<Rightarrow> string \<Rightarrow> regfile \<Rightarrow> string result" where
  "switch_target c tbl d rf =
     rbind (get_value c rf) (\<lambda>v. Inr (case map_of tbl v of None \<Rightarrow> d | Some bb \<Rightarrow> bb))"

text \<open>\<open>StmtCall::setup_args\<close>: argument \<open>i\<close> is read from the caller's registers and
  written to register \<open>A1 + i\<close>.\<close>

fun setup_args_from :: "reg \<Rightarrow> val list \<Rightarrow> regfile \<Rightarrow> regfile \<Rightarrow> regfile result" where
  "setup_args_from r [] old rf = Inr rf"
| "setup_args_from r (a # args) old rf =
     rbind (get_value a old) (\<lambda>v.
     rbind (set_value r v rf) (\<lambda>rf'. setup_args_from (r + 1) args old rf'))"

definition setup_args :: "val list \<Rightarrow> regfile \<Rightarrow> regfile \<Rightarrow> regfile result" where
  "setup_args args old rf = setup_args_from A1 args old rf"

subsection \<open>One iteration of the loop\<close>

text \<open>
  The body of the loop of \<open>State::exec_function\<close>, up to its recursive call: it goes on
  with a statement list, returns from the function, fails, or enters a callee. A pending call
  keeps what the C++ frame keeps across the recursive call: the saved registers, the
  left-hand side and the rest of the block.
\<close>

record pending =
  p_old :: regfile
  p_lhs :: reg
  p_rest :: "stmt list"

datatype control =
    Goto "stmt list" state
  | Return u64 state
  | Fail fault state
  | Enter func pending state

definition fail_or :: "state \<Rightarrow> 'a result \<Rightarrow> ('a \<Rightarrow> control) \<Rightarrow> control" where
  "fail_or s r k = (case r of Inl e \<Rightarrow> Fail e s | Inr x \<Rightarrow> k x)"

definition branch_to :: "func \<Rightarrow> string \<Rightarrow> state \<Rightarrow> control" where
  "branch_to f bb s =
     (case get_bb f bb of
        None \<Rightarrow> Fail (Runtime_error ''branching to an undefined basic block'') s
      | Some cur \<Rightarrow> Goto cur (s\<lparr>s_cost := s_cost s + COST_TERMINATOR\<rparr>))"

definition enter_call :: "program \<Rightarrow> reg \<Rightarrow> string \<Rightarrow> val list \<Rightarrow> stmt list \<Rightarrow> state \<Rightarrow> control" where
  "enter_call p lhs g args rest s =
     (case get_function p g of
        None \<Rightarrow> Fail (Runtime_error ''calling an undefined function'') s
      | Some callee \<Rightarrow>
          if fn_nargs callee \<noteq> int (length args)
          then Fail (Runtime_error ''calling with incorrect number of arguments'') s
          else let old = s_regfile s
               in fail_or s (setup_args args old (set_nargs (fn_nargs callee) old)) (\<lambda>rf.
                    Enter callee \<lparr>p_old = old, p_lhs = lhs, p_rest = rest\<rparr>
                      (s\<lparr>s_regfile := rf,
                        s_cost := s_cost s + (COST_CALL + of_int (fn_nargs callee) * COST_PER_ARG)\<rparr>)))"

definition step_stmt :: "(memory \<Rightarrow> u64 \<Rightarrow> bool) \<Rightarrow> program \<Rightarrow> func \<Rightarrow> stmt list \<Rightarrow> state \<Rightarrow> control" where
  "step_stmt calloc_ok p f cur s0 =
     (case cur of
        [] \<Rightarrow> Fail (Undefined ''null statement'') s0
      | st # rest \<Rightarrow>
          (let s = s0\<lparr>s_line := get_line st\<rparr>
           in case body st of
                SRet v \<Rightarrow> fail_or s (get_value v (s_regfile s))
                  (\<lambda>r. Return r (s\<lparr>s_cost := s_cost s + COST_TERMINATOR\<rparr>))
              | SBrUncond bb \<Rightarrow> branch_to f bb s
              | SBrCond c t e \<Rightarrow> fail_or s (cond_target c t e (s_regfile s)) (\<lambda>bb. branch_to f bb s)
              | SSwitch c tbl d \<Rightarrow> fail_or s (switch_target c tbl d (s_regfile s)) (\<lambda>bb. branch_to f bb s)
              | SCall g args \<Rightarrow> enter_call p (get_lhs st) g args rest s
              | _ \<Rightarrow> fail_or s (exec_stmt calloc_ok (get_lhs st) (body st) s)
                  (\<lambda>(c, s'). Goto rest (s'\<lparr>s_cost := s_cost s' + c\<rparr>))))"

text \<open>After the recursive call: restore the registers and write the result.\<close>

definition resume :: "pending \<Rightarrow> u64 \<Rightarrow> state \<Rightarrow> control" where
  "resume k ret s =
     fail_or s (write_reg (p_lhs k) ret (p_old k)) (\<lambda>rf. Goto (p_rest k) (s\<lparr>s_regfile := rf\<rparr>))"

subsection \<open>Running a function\<close>

text \<open>
  \<open>State::exec_function\<close> with a bound on the number of nested iterations; \<open>None\<close> means
  that the bound was too small.
\<close>

type_synonym outcome = "fault \<times> state + u64 \<times> state"

fun exec_loop :: "(memory \<Rightarrow> u64 \<Rightarrow> bool) \<Rightarrow> program \<Rightarrow> nat \<Rightarrow> func \<Rightarrow> stmt list \<Rightarrow> state \<Rightarrow> outcome option" where
  "exec_loop calloc_ok p 0 f cur s = None"
| "exec_loop calloc_ok p (Suc n) f cur s =
     (case step_stmt calloc_ok p f cur s of
        Goto cur' s' \<Rightarrow> exec_loop calloc_ok p n f cur' s'
      | Return r s' \<Rightarrow> Some (Inr (r, s'))
      | Fail e s' \<Rightarrow> Some (Inl (e, s'))
      | Enter g k s' \<Rightarrow>
          (case get_first_bb g of
             None \<Rightarrow> Some (Inl (Runtime_error ''missing first basic block'', s'))
           | Some b \<Rightarrow>
               (case exec_loop calloc_ok p n g b s' of
                  None \<Rightarrow> None
                | Some (Inl x) \<Rightarrow> Some (Inl x)
                | Some (Inr (r, s'')) \<Rightarrow>
                    (case resume k r s'' of
                       Goto cur' t \<Rightarrow> exec_loop calloc_ok p n f cur' t
                     | Fail e t \<Rightarrow> Some (Inl (e, t))
                     | _ \<Rightarrow> None))))"

definition exec_function :: "(memory \<Rightarrow> u64 \<Rightarrow> bool) \<Rightarrow> program \<Rightarrow> nat \<Rightarrow> func \<Rightarrow> state \<Rightarrow> outcome option" where
  "exec_function calloc_ok p n f s =
     (case get_first_bb f of
        None \<Rightarrow> Some (Inl (Runtime_error ''missing first basic block'', s))
      | Some b \<Rightarrow> exec_loop calloc_ok p n f b s)"

text \<open>\<open>main\<close> after parsing: the result and the numbers it writes to the log.\<close>

definition run_program :: "(memory \<Rightarrow> u64 \<Rightarrow> bool) \<Rightarrow> program \<Rightarrow> nat \<Rightarrow> string \<Rightarrow> outcome option" where
  "run_program calloc_ok p n input =
     (case get_function p ''main'' of
        None \<Rightarrow> Some (Inl (Runtime_error ''missing main function'', init_state input))
      | Some f \<Rightarrow> exec_function calloc_ok p n f (init_state input))"

definition log_of :: "u64 \<times> state \<Rightarrow> u64 \<times> rat \<times> u64" where
  "log_of r = (fst r, s_cost (snd r), max_alloced_size (s_memory (snd r)))"

end
