(* ===== verification/Parser.thy ===== *)
theory Parser
  imports Grammar Machine
begin

text \<open>
  The parser (\<open>parser.cpp\<close>): one function per kind of line, which reads the tokens of the
  line from a string stream, and the state machine \<open>parse\<close> that builds the program line by
  line. A null result of \<open>parse_normal_stmt\<close> and \<open>parse_terminator\<close> is \<open>None\<close>.

  The parser holds pointers into the program: the current function and the last statement of
  the current block. Names are unique in both maps, so the model names the function and the
  block and writes through the maps; \<open>prev_stmt->set_next(s)\<close> appends \<open>s\<close> to the block.
\<close>

subsection \<open>Tokens and operands\<close>

text \<open>The value of \<open>token\<close> after \<open>i + 1\<close> extractions: a failing one leaves it alone.\<close>

definition tok :: "nat \<Rightarrow> string list \<Rightarrow> string" where
  "tok i ws = (if i < length ws then ws ! i else if ws = [] then [] else last ws)"

definition rRegR :: rexp where "rRegR = seq [lit ''r'', Rep (Chr (\<lambda>c. \<not> line_end c))]"
definition rRegArg :: rexp where "rRegArg = seq [lit ''arg'', Rep (Chr (\<lambda>c. \<not> line_end c))]"

text \<open>The enumeration \<open>Reg\<close> has values that fit in six bits; other casts are undefined.\<close>

definition to_reg :: "int \<Rightarrow> reg result" where
  "to_reg i = (if 0 \<le> i \<and> i < 64 then Inr (nat i) else Inl (Undefined ''register number out of range''))"

definition parse_reg :: "string \<Rightarrow> reg result" where
  "parse_reg t =
     (if regex_match t rRegR then
        (case stoi (tl t) of None \<Rightarrow> Inl (Uncaught_exception ''stoi'') | Some n \<Rightarrow> to_reg (n - 1))
      else if regex_match t rRegArg then
        (case stoi (drop 3 t) of None \<Rightarrow> Inl (Uncaught_exception ''stoi'') | Some n \<Rightarrow> to_reg (int R16 + n))
      else if t = ''sp'' then Inr RegSp
      else Inr RegNone)"

definition parse_const :: "string \<Rightarrow> u64 result" where
  "parse_const t =
     (case stoull t of None \<Rightarrow> Inl (Syntax_error ''constant out of range'') | Some v \<Rightarrow> Inr v)"

definition parse_value :: "string \<Rightarrow> val result" where
  "parse_value t =
     (if regex_match t tReg then rbind (parse_reg t) (\<lambda>r. Inr (VReg r))
      else rbind (parse_const t) (\<lambda>v. Inr (VLit v)))"

definition parse_msize :: "string \<Rightarrow> msize result" where
  "parse_msize t =
     (if t = ''1'' then Inr MSize1
      else if t = ''2'' then Inr MSize2
      else if t = ''4'' then Inr MSize4
      else if t = ''8'' then Inr MSize8
      else Inl (Syntax_error ''invalid size for memory operations''))"

definition parse_size :: "string \<Rightarrow> bitsize result" where
  "parse_size t =
     (if t = ''1'' then Inr Size1
      else if t = ''8'' then Inr Size8
      else if t = ''16'' then Inr Size16
      else if t = ''32'' then Inr Size32
      else if t = ''64'' then Inr Size64
      else Inl (Syntax_error ''invalid bit width for arithmetic operations''))"

subsection \<open>Lines\<close>

definition parse_start_function :: "string \<Rightarrow> func result" where
  "parse_start_function instr =
     (let ws = tokens instr; nm = (if 1 < length ws then ws ! 1 else [])
      in case stoi (tok 2 ws) of
           None \<Rightarrow> Inl (Uncaught_exception ''stoi'')
         | Some n \<Rightarrow> Inr (new_function nm n))"

definition parse_end_function :: "string \<Rightarrow> string \<Rightarrow> bool" where
  "parse_end_function instr nm \<longleftrightarrow> tok 1 (tokens instr) = nm"

definition parse_bbname :: "string \<Rightarrow> string" where
  "parse_bbname instr = butlast (tok 0 (tokens instr))"

definition parse_malloc :: "string \<Rightarrow> (reg \<times> stmt_body) result" where
  "parse_malloc instr =
     (let ws = tokens instr in
      rbind (parse_reg (tok 0 ws)) (\<lambda>lhs.
      rbind (parse_value (tok 2 ws)) (\<lambda>v.
      Inr (lhs, SMalloc v))))"

definition parse_free :: "string \<Rightarrow> (reg \<times> stmt_body) result" where
  "parse_free instr =
     (let ws = tokens instr in
      rbind (parse_value (tok 1 ws)) (\<lambda>p.
      Inr (RegNone, SFree p)))"

definition parse_load :: "string \<Rightarrow> (reg \<times> stmt_body) result" where
  "parse_load instr =
     (let ws = tokens instr in
      rbind (parse_reg (tok 0 ws)) (\<lambda>lhs.
      rbind (parse_msize (tok 2 ws)) (\<lambda>sz.
      rbind (parse_value (tok 3 ws)) (\<lambda>p.
      rbind (parse_const (tok 4 ws)) (\<lambda>ofs.
      Inr (lhs, SLoad sz p ofs))))))"

definition parse_store :: "string \<Rightarrow> (reg \<times> stmt_body) result" where
  "parse_store instr =
     (let ws = tokens instr in
      rbind (parse_msize (tok 1 ws)) (\<lambda>sz.
      rbind (parse_value (tok 2 ws)) (\<lambda>v.
      rbind (parse_value (tok 3 ws)) (\<lambda>p.
      rbind (parse_const (tok 4 ws)) (\<lambda>ofs.
      Inr (RegNone, SStore sz v p ofs))))))"

definition parse_ret :: "string \<Rightarrow> (reg \<times> stmt_body) result" where
  "parse_ret instr =
     (let ws = tokens instr in
      if 1 < length ws then rbind (parse_value (tok 1 ws)) (\<lambda>v. Inr (RegNone, SRet v))
      else Inr (RegNone, SRet (VLit 0)))"

definition parse_br_uncond :: "string \<Rightarrow> (reg \<times> stmt_body) result" where
  "parse_br_uncond instr = (let ws = tokens instr in Inr (RegNone, SBrUncond (tok 1 ws)))"

definition parse_br_cond :: "string \<Rightarrow> (reg \<times> stmt_body) result" where
  "parse_br_cond instr =
     (let ws = tokens instr in
      rbind (parse_value (tok 1 ws)) (\<lambda>c.
      Inr (RegNone, SBrCond c (tok 2 ws) (tok 3 ws))))"

text \<open>The loop over the cases: pairs of a constant and a block, then the default block.\<close>

fun switch_cases :: "string list \<Rightarrow> (u64 \<times> string) list \<Rightarrow> ((u64 \<times> string) list \<times> string) result" where
  "switch_cases (t1 # t2 # ws) tbl =
     rbind (parse_const t1) (\<lambda>v.
       if case_exists tbl v then Inl (Syntax_error ''duplicated case in switch statement'')
       else switch_cases ws (fst (switch_set_bb tbl v t2)))"
| "switch_cases [t1] tbl = Inr (tbl, t1)"
| "switch_cases [] tbl = Inr (tbl, [])"

definition parse_switch :: "string \<Rightarrow> (reg \<times> stmt_body) result" where
  "parse_switch instr =
     (let ws = tokens instr in
      rbind (parse_value (tok 1 ws)) (\<lambda>c.
      rbind (switch_cases (drop 2 ws) []) (\<lambda>(tbl, d).
      Inr (RegNone, SSwitch c tbl d))))"

definition bop_of_token :: "string \<Rightarrow> bop_kind result" where
  "bop_of_token t =
     (if t = ''udiv'' then Inr Udiv else if t = ''sdiv'' then Inr Sdiv
      else if t = ''urem'' then Inr Urem else if t = ''srem'' then Inr Srem
      else if t = ''mul'' then Inr Mul else if t = ''shl'' then Inr Shl
      else if t = ''lshr'' then Inr Lshr else if t = ''ashr'' then Inr Ashr
      else if t = ''and'' then Inr And else if t = ''or'' then Inr Or
      else if t = ''xor'' then Inr Xor else if t = ''add'' then Inr Add
      else if t = ''sub'' then Inr Sub
      else Inl (Syntax_error ''invalid binary operation''))"

definition cond_of_token :: "string \<Rightarrow> bop_kind result" where
  "cond_of_token t =
     (if t = ''eq'' then Inr Eq else if t = ''ne'' then Inr Ne
      else if t = ''ugt'' then Inr Ugt else if t = ''uge'' then Inr Uge
      else if t = ''ult'' then Inr Ult else if t = ''ule'' then Inr Ule
      else if t = ''sgt'' then Inr Sgt else if t = ''sge'' then Inr Sge
      else if t = ''slt'' then Inr Slt else if t = ''sle'' then Inr Sle
      else Inl (Syntax_error ''invalid comparison''))"

definition parse_bop :: "string \<Rightarrow> (reg \<times> stmt_body) result" where
  "parse_bop instr =
     (let ws = tokens instr in
      rbind (parse_reg (tok 0 ws)) (\<lambda>lhs.
      rbind (bop_of_token (tok 1 ws)) (\<lambda>k.
      rbind (parse_value (tok 2 ws)) (\<lambda>v1.
      rbind (parse_value (tok 3 ws)) (\<lambda>v2.
      rbind (parse_size (tok 4 ws)) (\<lambda>sz.
      Inr (lhs, SBop k v1 v2 sz)))))))"

definition parse_icmp :: "string \<Rightarrow> (reg \<times> stmt_body) result" where
  "parse_icmp instr =
     (let ws = tokens instr in
      rbind (parse_reg (tok 0 ws)) (\<lambda>lhs.
      rbind (cond_of_token (tok 2 ws)) (\<lambda>k.
      rbind (parse_value (tok 3 ws)) (\<lambda>v1.
      rbind (parse_value (tok 4 ws)) (\<lambda>v2.
      rbind (parse_size (tok 5 ws)) (\<lambda>sz.
      Inr (lhs, SBop k v1 v2 sz)))))))"

definition parse_select :: "string \<Rightarrow> (reg \<times> stmt_body) result" where
  "parse_select instr =
     (let ws = tokens instr in
      rbind (parse_reg (tok 0 ws)) (\<lambda>lhs.
      rbind (parse_value (tok 2 ws)) (\<lambda>c.
      rbind (parse_value (tok 3 ws)) (\<lambda>vt.
      rbind (parse_value (tok 4 ws)) (\<lambda>vf.
      Inr (lhs, SSelect c vt vf))))))"

text \<open>An optional left-hand side shifts the tokens of a call by one.\<close>

definition call_lhs :: "string list \<Rightarrow> (reg \<times> nat) result" where
  "call_lhs ws =
     (if regex_match (tok 0 ws) tReg then rbind (parse_reg (tok 0 ws)) (\<lambda>r. Inr (r, 2))
      else Inr (RegNone, 1))"

fun parse_values :: "string list \<Rightarrow> val list result" where
  "parse_values [] = Inr []"
| "parse_values (t # ts) =
     rbind (parse_value t) (\<lambda>v. rbind (parse_values ts) (\<lambda>vs. Inr (v # vs)))"

definition parse_call :: "string \<Rightarrow> (reg \<times> stmt_body) result" where
  "parse_call instr =
     (let ws = tokens instr in
      rbind (call_lhs ws) (\<lambda>(lhs, i).
      rbind (parse_values (drop (i + 1) ws)) (\<lambda>args.
      Inr (lhs, SCall (tok i ws) args))))"

definition parse_assert :: "string \<Rightarrow> (reg \<times> stmt_body) result" where
  "parse_assert instr =
     (let ws = tokens instr in
      rbind (parse_value (tok 1 ws)) (\<lambda>v1.
      rbind (parse_value (tok 2 ws)) (\<lambda>v2.
      Inr (RegNone, SAssert v1 v2))))"

definition parse_read :: "string \<Rightarrow> (reg \<times> stmt_body) result" where
  "parse_read instr =
     (let ws = tokens instr in
      rbind (call_lhs ws) (\<lambda>(lhs, i).
        if tok i ws \<noteq> ''read'' then Inl (Syntax_error ''call to read function expected'')
        else Inr (lhs, SRead)))"

definition parse_write :: "string \<Rightarrow> (reg \<times> stmt_body) result" where
  "parse_write instr =
     (let ws = tokens instr in
      rbind (call_lhs ws) (\<lambda>(lhs, i).
        if tok i ws \<noteq> ''write'' then Inl (Syntax_error ''call to write function expected'')
        else rbind (parse_value (tok (i + 1) ws)) (\<lambda>v. Inr (lhs, SWrite v))))"

definition make_stmt :: "int \<Rightarrow> (reg \<times> stmt_body) result \<Rightarrow> stmt option result" where
  "make_stmt line r =
     rbind r (\<lambda>(lhs, b). Inr (Some \<lparr>get_line = line, get_lhs = lhs, body = b\<rparr>))"

definition parse_normal_stmt :: "int \<Rightarrow> string \<Rightarrow> stmt option result" where
  "parse_normal_stmt line instr =
     (if regex_match instr rMalloc then make_stmt line (parse_malloc instr)
      else if regex_match instr rFree then make_stmt line (parse_free instr)
      else if regex_match instr rLoad then make_stmt line (parse_load instr)
      else if regex_match instr rStore then make_stmt line (parse_store instr)
      else if regex_match instr rResetStack then make_stmt line (Inr (RegNone, SResetStack))
      else if regex_match instr rResetHeap then make_stmt line (Inr (RegNone, SResetHeap))
      else if regex_match instr rBop then make_stmt line (parse_bop instr)
      else if regex_match instr rIcmp then make_stmt line (parse_icmp instr)
      else if regex_match instr rSelect then make_stmt line (parse_select instr)
      else if regex_match instr rRead then make_stmt line (parse_read instr)
      else if regex_match instr rWrite then make_stmt line (parse_write instr)
      else if regex_match instr rCall then make_stmt line (parse_call instr)
      else if regex_match instr rAssert then make_stmt line (parse_assert instr)
      else Inr None)"

definition parse_terminator :: "int \<Rightarrow> string \<Rightarrow> stmt option result" where
  "parse_terminator line instr =
     (if regex_match instr rRet then make_stmt line (parse_ret instr)
      else if regex_match instr rRetVal then make_stmt line (parse_ret instr)
      else if regex_match instr rBrUncond then make_stmt line (parse_br_uncond instr)
      else if regex_match instr rBrCond then make_stmt line (parse_br_cond instr)
      else if regex_match instr rSwitch then make_stmt line (parse_switch instr)
      else Inr None)"

subsection \<open>The state machine\<close>

datatype parser_state =
    PSBegin | PSStartFunction | PSStartBB | PSNormal | PSEndBB | PSEndFunction

record parser =
  ps :: parser_state
  ps_program :: program
  ps_function :: string
  ps_bb :: string

definition init_parser :: parser where
  "init_parser = \<lparr>ps = PSBegin, ps_program = Map.empty, ps_function = [], ps_bb = []\<rparr>"

definition curr_function :: "parser \<Rightarrow> func" where
  "curr_function p = the (ps_program p (ps_function p))"

definition put_function :: "func \<Rightarrow> parser \<Rightarrow> parser" where
  "put_function f p = p\<lparr>ps_program := (ps_program p)(ps_function p \<mapsto> f)\<rparr>"

text \<open>\<open>prev_stmt->set_next(st)\<close>.\<close>

definition append_stmt :: "stmt \<Rightarrow> parser \<Rightarrow> parser" where
  "append_stmt st p =
     (let f = curr_function p; b = the (bb_map f (ps_bb p))
      in put_function (f\<lparr>bb_map := (bb_map f)(ps_bb p \<mapsto> b @ [st])\<rparr>) p)"

definition at_begin :: "string \<Rightarrow> parser \<Rightarrow> parser result" where
  "at_begin instr p =
     (if \<not> regex_match instr rStartFunction then Inl (Syntax_error ''start of a function expected'')
      else rbind (parse_start_function instr) (\<lambda>f.
        if fname f = ''read'' \<or> fname f = ''write'' then Inl (Syntax_error ''duplicated function name'')
        else Inr (p\<lparr>ps_program := fst (set_function (fname f) f (ps_program p)),
                   ps_function := fname f, ps := PSStartFunction\<rparr>)))"

definition at_start_function :: "string \<Rightarrow> parser \<Rightarrow> parser result" where
  "at_start_function instr p =
     (if \<not> regex_match instr rBBStart then Inl (Syntax_error ''start of a basic block expected'')
      else let bb = parse_bbname instr
           in Inr ((put_function (set_first_bb bb (curr_function p)) p)\<lparr>ps_bb := bb, ps := PSStartBB\<rparr>))"

definition at_start_bb :: "int \<Rightarrow> string \<Rightarrow> parser \<Rightarrow> parser result" where
  "at_start_bb line instr p =
     rbind (parse_normal_stmt line instr) (\<lambda>r. case r of
       Some st \<Rightarrow>
         (let (f, fresh) = set_bb (ps_bb p) [st] (curr_function p)
          in if \<not> fresh then Inl (Syntax_error ''duplicated basic block'')
             else Inr ((put_function f p)\<lparr>ps := PSNormal\<rparr>))
     | None \<Rightarrow>
         rbind (parse_terminator line instr) (\<lambda>r'. case r' of
           Some st \<Rightarrow> Inr ((put_function (fst (set_bb (ps_bb p) [st] (curr_function p))) p)\<lparr>ps := PSEndBB\<rparr>)
         | None \<Rightarrow> Inl (Syntax_error ''instruction expected'')))"

definition at_normal :: "int \<Rightarrow> string \<Rightarrow> parser \<Rightarrow> parser result" where
  "at_normal line instr p =
     rbind (parse_normal_stmt line instr) (\<lambda>r. case r of
       Some st \<Rightarrow> Inr ((append_stmt st p)\<lparr>ps := PSNormal\<rparr>)
     | None \<Rightarrow>
         rbind (parse_terminator line instr) (\<lambda>r'. case r' of
           Some st \<Rightarrow> Inr ((append_stmt st p)\<lparr>ps := PSEndBB\<rparr>)
         | None \<Rightarrow> Inl (Syntax_error ''instruction expected'')))"

definition at_end_bb :: "string \<Rightarrow> parser \<Rightarrow> parser result" where
  "at_end_bb instr p =
     (if regex_match instr rBBStart then Inr (p\<lparr>ps_bb := parse_bbname instr, ps := PSStartBB\<rparr>)
      else if regex_match instr rEndFunction then
        (if \<not> parse_end_function instr (fname (curr_function p))
         then Inl (Syntax_error ''unmatching function name'')
         else Inr (p\<lparr>ps := PSEndFunction\<rparr>))
      else Inl (Syntax_error ''bbname or end of function expected''))"

definition at_end_function :: "string \<Rightarrow> parser \<Rightarrow> parser result" where
  "at_end_function instr p =
     (if \<not> regex_match instr rStartFunction then Inl (Syntax_error ''start of a function expected'')
      else rbind (parse_start_function instr) (\<lambda>f.
        if fname f = ''read'' \<or> fname f = ''write'' \<or> \<not> snd (set_function (fname f) f (ps_program p))
        then Inl (Syntax_error ''duplicated function name'')
        else Inr (p\<lparr>ps_program := fst (set_function (fname f) f (ps_program p)),
                   ps_function := fname f, ps := PSStartFunction\<rparr>)))"

definition blank_line :: "string \<Rightarrow> bool" where
  "blank_line instr \<longleftrightarrow> regex_match instr (Alt tESpace rComment)"

definition parse_line :: "int \<Rightarrow> string \<Rightarrow> parser \<Rightarrow> parser result" where
  "parse_line line instr p =
     (if blank_line instr then Inr p
      else case ps p of
        PSBegin \<Rightarrow> at_begin instr p
      | PSStartFunction \<Rightarrow> at_start_function instr p
      | PSStartBB \<Rightarrow> at_start_bb line instr p
      | PSNormal \<Rightarrow> at_normal line instr p
      | PSEndBB \<Rightarrow> at_end_bb instr p
      | PSEndFunction \<Rightarrow> at_end_function instr p)"

fun parse_lines :: "int \<Rightarrow> string list \<Rightarrow> parser \<Rightarrow> int \<times> fault + int \<times> parser" where
  "parse_lines line [] p = Inr (line, p)"
| "parse_lines line (instr # rest) p =
     (case parse_line (line + 1) instr p of
        Inl e \<Rightarrow> Inl (line + 1, e)
      | Inr p' \<Rightarrow> parse_lines (line + 1) rest p')"

text \<open>\<open>getline\<close>: the lines of a file, without an empty one after the last newline.\<close>

function lines_of :: "string \<Rightarrow> string list" where
  "lines_of [] = []"
| "lines_of (c # s) =
     takeWhile (\<lambda>d. d \<noteq> newline) (c # s) # lines_of (drop 1 (dropWhile (\<lambda>d. d \<noteq> newline) (c # s)))"
  by pat_completeness auto
termination
proof (relation "measure length", goal_cases)
  case (2 c s)
  have "length (dropWhile (\<lambda>d. d \<noteq> newline) (c # s)) \<le> length (c # s)" by (rule length_dropWhile_le)
  then show ?case by (auto simp del: dropWhile.simps)
qed simp

text \<open>\<open>parse\<close>, on the contents of the file; an error has the line it is reported at.\<close>

definition parse :: "string \<Rightarrow> int \<times> fault + program" where
  "parse text =
     rbind (parse_lines 0 (lines_of text) init_parser) (\<lambda>(line, p).
       if ps p \<noteq> PSEndFunction then Inl (line, Syntax_error ''function not ended'')
       else case get_function (ps_program p) ''main'' of
         None \<Rightarrow> Inl (0, Syntax_error ''missing main function'')
       | Some f \<Rightarrow>
           if fn_nargs f \<noteq> 0 then Inl (0, Syntax_error ''main function should take 0 arguments'')
           else Inr (ps_program p))"

end
