(* ===== verification/Machine_Props.thy ===== *)
theory Machine_Props
  imports Machine "HOL-Library.Sublist"
begin

text \<open>
  Well-formed programs and states, and what one iteration of the interpreter does to them:
  every statement keeps the invariant of registers and memory, the undefined operations of
  C++ are reached only by the two hazards \<open>hazard\<close> names, the cost never decreases and the
  output only grows.
\<close>

subsection \<open>Well-formed programs\<close>

fun body_ok :: "stmt_body \<Rightarrow> bool" where
  "body_ok (SMalloc v) = val_ok v"
| "body_ok (SFree v) = val_ok v"
| "body_ok (SLoad _ p _) = val_ok p"
| "body_ok (SStore _ v p _) = (val_ok v \<and> val_ok p)"
| "body_ok SResetStack = True"
| "body_ok SResetHeap = True"
| "body_ok (SRet v) = val_ok v"
| "body_ok (SBrUncond _) = True"
| "body_ok (SBrCond c _ _) = val_ok c"
| "body_ok (SSwitch c _ _) = val_ok c"
| "body_ok (SBop _ a b _) = (val_ok a \<and> val_ok b)"
| "body_ok (SSelect c a b) = (val_ok c \<and> val_ok a \<and> val_ok b)"
| "body_ok (SCall _ args) = (\<forall>a \<in> set args. val_ok a)"
| "body_ok (SAssert a b) = (val_ok a \<and> val_ok b)"
| "body_ok SRead = True"
| "body_ok (SWrite v) = val_ok v"

definition stmt_ok :: "stmt \<Rightarrow> bool" where
  "stmt_ok st \<longleftrightarrow> get_lhs st \<le> RegNone \<and> body_ok (body st)"

text \<open>A block is not empty and its last statement is its only terminator.\<close>

fun block_ok :: "stmt list \<Rightarrow> bool" where
  "block_ok [] = False"
| "block_ok (st # rest) =
     (stmt_ok st \<and> (if is_terminator (body st) then rest = [] else block_ok rest))"

definition func_ok :: "func \<Rightarrow> bool" where
  "func_ok f \<longleftrightarrow> 0 \<le> fn_nargs f \<and> fn_nargs f \<le> 16 \<and> (\<forall>b \<in> ran (bb_map f). block_ok b)"

definition program_ok :: "program \<Rightarrow> bool" where
  "program_ok p \<longleftrightarrow> (\<forall>f \<in> ran p. func_ok f)"

definition state_ok :: "state \<Rightarrow> bool" where
  "state_ok s \<longleftrightarrow> regfile_ok (s_regfile s) \<and> memory_ok (s_memory s)"

lemma init_state_ok: "state_ok (init_state input)"
  by (simp add: state_ok_def init_state_def init_regfile_ok init_memory_ok)

lemma state_ok_updates [simp]:
  "state_ok (s\<lparr>s_cost := c\<rparr>) = state_ok s"
  "state_ok (s\<lparr>s_line := i\<rparr>) = state_ok s"
  "state_ok (s\<lparr>s_in := x\<rparr>) = state_ok s"
  "state_ok (s\<lparr>s_out := x\<rparr>) = state_ok s"
  by (simp_all add: state_ok_def)

lemma write_result_ok: "\<lbrakk> state_ok s; write_result lhs v s = Inr s' \<rbrakk> \<Longrightarrow> state_ok s'"
  by (auto simp: write_result_def state_ok_def result_iff intro: inv_intros)

lemma write_result_frame:
  "write_result lhs v s = Inr s' \<Longrightarrow> s_memory s' = s_memory s \<and> s_cost s' = s_cost s \<and>
    s_out s' = s_out s \<and> s_in s' = s_in s \<and> s_line s' = s_line s"
  by (auto simp: write_result_def result_iff)

lemma write_result_defined: "\<lbrakk> lhs \<le> RegNone; write_result lhs v s = Inl e \<rbrakk> \<Longrightarrow> \<not> is_undefined e"
  by (auto simp: write_result_def result_iff dest: write_reg_defined [rotated])

lemma set_memory_ok: "\<lbrakk> state_ok s; memory_ok m \<rbrakk> \<Longrightarrow> state_ok (s\<lparr>s_memory := m\<rparr>)"
  by (simp add: state_ok_def)

lemma state_ok_memory: "state_ok s \<Longrightarrow> memory_ok (s_memory s)"
  by (simp add: state_ok_def)

text \<open>The ways a statement that changes the state succeeds.\<close>

lemma exec_stmt_cases:
  assumes "exec_stmt calloc_ok lhs b s = Inr (c, s')"
  obtains (malloc) v n addr m where "b = SMalloc v" "exec_malloc calloc_ok n (s_memory s) = Inr (addr, c, m)"
      "write_result lhs addr (s\<lparr>s_memory := m\<rparr>) = Inr s'"
    | (release) v addr m where "b = SFree v" "exec_free addr (s_memory s) = Inr (c, m)" "s' = s\<lparr>s_memory := m\<rparr>"
    | (load) sz p ofs a v m where "b = SLoad sz p ofs" "exec_load sz (a + ofs) (s_memory s) = Inr (v, c, m)"
      "write_result lhs v (s\<lparr>s_memory := m\<rparr>) = Inr s'"
    | (store) sz v p ofs a w m where "b = SStore sz v p ofs"
      "exec_store sz (a + ofs) w (s_memory s) = Inr (c, m)" "s' = s\<lparr>s_memory := m\<rparr>"
    | (reset_stack) "b = SResetStack" "c = COST_RESET" "s' = s\<lparr>s_memory := snd (exec_reset_stack (s_memory s))\<rparr>"
    | (reset_heap) "b = SResetHeap" "c = COST_RESET" "s' = s\<lparr>s_memory := snd (exec_reset_heap (s_memory s))\<rparr>"
    | (bop) k v1 v2 sz r where "b = SBop k v1 v2 sz" "c = cost_of k" "write_result lhs r s = Inr s'"
    | (select) v vt vf r where "b = SSelect v vt vf" "c = COST_TERNARY" "write_result lhs r s = Inr s'"
    | (read) v rest where "b = SRead" "c = COST_CALL" "write_result lhs v (s\<lparr>s_in := rest\<rparr>) = Inr s'"
    | (wr) v out where "b = SWrite v" "c = COST_CALL + COST_PER_ARG"
      "write_result lhs 0 (s\<lparr>s_out := s_out s @ out\<rparr>) = Inr s'"
    | (none) "c = 0" "s' = s"
proof (cases b)
  case (SMalloc v)
  with assms show ?thesis by (auto simp: result_iff intro: that(1))
next
  case (SFree v)
  with assms show ?thesis by (auto simp: result_iff intro: that(2))
next
  case (SLoad sz p ofs)
  with assms show ?thesis by (auto simp: result_iff intro: that(3))
next
  case (SStore sz v p ofs)
  with assms show ?thesis by (auto simp: result_iff intro: that(4))
next
  case SResetStack
  show ?thesis by (rule that(5)) (use assms SResetStack in \<open>auto simp: exec_reset_stack_def exec_reset_heap_def\<close>)
next
  case SResetHeap
  show ?thesis by (rule that(6)) (use assms SResetHeap in \<open>auto simp: exec_reset_stack_def exec_reset_heap_def\<close>)
next
  case (SBop k v1 v2 sz)
  with assms show ?thesis by (auto simp: result_iff intro: that(7))
next
  case (SSelect v vt vf)
  with assms show ?thesis by (auto simp: result_iff intro: that(8))
next
  case SRead
  with assms show ?thesis
    by (auto simp: result_iff Let_def split: option.splits prod.splits intro: that(9))
next
  case (SWrite v)
  with assms show ?thesis by (auto simp: result_iff intro: that(10))
next
  case (SAssert v1 v2)
  show ?thesis by (rule that(11)) (use assms SAssert in \<open>auto simp: result_iff COST_ASSERT_def split: if_splits\<close>)
qed (use assms in \<open>auto intro: that(11)\<close>)

lemma exec_stmt_ok [inv_intros]:
  assumes ok: "state_ok s" and ex: "exec_stmt calloc_ok lhs b s = Inr (c, s')"
  shows "state_ok s'"
proof -
  note mem = state_ok_memory [OF ok]
  note set = set_memory_ok [OF ok]
  show ?thesis
    using ex
  proof (cases rule: exec_stmt_cases)
    case malloc
    with write_result_ok [OF set] exec_malloc_memory_ok [OF mem] show ?thesis by blast
  next
    case load
    with write_result_ok [OF set] exec_load_memory_ok [OF mem] show ?thesis by blast
  next
    case read
    with write_result_ok ok state_ok_updates(3) show ?thesis by blast
  next
    case wr
    with write_result_ok ok state_ok_updates(4) show ?thesis by blast
  qed (use ok mem set in \<open>auto intro: inv_intros write_result_ok\<close>)
qed

subsection \<open>Hazards\<close>

definition hazard :: "stmt_body \<Rightarrow> regfile \<Rightarrow> bool" where
  "hazard b rf =
     (case b of
        SLoad sz p ofs \<Rightarrow> (case get_value p rf of Inr a \<Rightarrow> wraps sz (a + ofs) | _ \<Rightarrow> False)
      | SStore sz v p ofs \<Rightarrow>
          (case (get_value p rf, get_value v rf) of (Inr a, Inr _) \<Rightarrow> wraps sz (a + ofs) | _ \<Rightarrow> False)
      | SBop k v1 v2 sz \<Rightarrow>
          (case (get_value v1 rf, get_value v2 rf) of
             (Inr a, Inr d) \<Rightarrow> k \<in> {Sdiv, Srem} \<and> sz = Size64 \<and> sint a = - (2 ^ 63) \<and> sint d = - 1
           | _ \<Rightarrow> False)
      | _ \<Rightarrow> False)"

lemma compute_Inl:
  "compute k sz a d = Inl e \<Longrightarrow>
     is_undefined e \<longleftrightarrow> k \<in> {Sdiv, Srem} \<and> sz = Size64 \<and> sint a = - (2 ^ 63) \<and> sint d = - 1"
  unfolding compute_cases
  by (auto split: if_splits simp: is_div_op_def unsigned_of_def unsigned_eq_0_iff)

lemma exec_stmt_Inl:
  assumes ok: "state_ok s" and st: "lhs \<le> RegNone" "body_ok b"
    and e: "exec_stmt calloc_ok lhs b s = Inl e"
  shows "is_undefined e \<longleftrightarrow> hazard b (s_regfile s)"
proof -
  note mem = state_ok_memory [OF ok]
  note wr = write_result_defined [OF st(1)]
  show ?thesis
  proof (cases b)
    case (SMalloc v)
    with e st show ?thesis
      by (auto simp: hazard_def result_iff dest: get_value_defined [rotated] exec_malloc_defined wr)
  next
    case (SFree v)
    with e st show ?thesis
      by (auto simp: hazard_def result_iff dest: get_value_defined [rotated] exec_free_defined)
  next
    case (SLoad sz p ofs)
    show ?thesis
    proof (cases "get_value p (s_regfile s)")
      case (Inl e')
      with e st SLoad show ?thesis by (auto simp: hazard_def dest: get_value_defined [rotated])
    next
      case a: (Inr a)
      have h: "hazard b (s_regfile s) \<longleftrightarrow> wraps sz (a + ofs)" using SLoad a by (simp add: hazard_def)
      show ?thesis
      proof (cases "exec_load sz (a + ofs) (s_memory s)")
        case (Inl e')
        with e SLoad a have "exec_load sz (a + ofs) (s_memory s) = Inl e" by simp
        with h show ?thesis by (simp add: exec_load_Inl [OF mem])
      next
        case (Inr r)
        with wraps_fails(1) [OF mem, of sz "a + ofs"] have "\<not> wraps sz (a + ofs)" by auto
        moreover have "\<not> is_undefined e"
          using e SLoad a Inr by (auto simp: result_iff dest: wr split: prod.splits)
        ultimately show ?thesis using h by simp
      qed
    qed
  next
    case (SStore sz v p ofs)
    show ?thesis
    proof (cases "\<exists>a w. get_value p (s_regfile s) = Inr a \<and> get_value v (s_regfile s) = Inr w")
      case True
      then obtain a w where a: "get_value p (s_regfile s) = Inr a" "get_value v (s_regfile s) = Inr w"
        by blast
      have h: "hazard b (s_regfile s) \<longleftrightarrow> wraps sz (a + ofs)" using SStore a by (simp add: hazard_def)
      from e SStore a have "exec_store sz (a + ofs) w (s_memory s) = Inl e" by (auto simp: result_iff)
      with h show ?thesis by (simp add: exec_store_Inl [OF mem])
    next
      case False
      with e st SStore have "\<not> is_undefined e"
        by (auto simp: result_iff dest: get_value_defined [rotated])
      with False SStore show ?thesis by (auto simp: hazard_def split: sum.splits)
    qed
  next
    case (SBop k v1 v2 sz)
    show ?thesis
    proof (cases "\<exists>a d. get_value v1 (s_regfile s) = Inr a \<and> get_value v2 (s_regfile s) = Inr d")
      case True
      then obtain a d where a: "get_value v1 (s_regfile s) = Inr a" "get_value v2 (s_regfile s) = Inr d"
        by blast
      let ?H = "k \<in> {Sdiv, Srem} \<and> sz = Size64 \<and> sint a = - (2 ^ 63) \<and> sint d = - 1"
      have h: "hazard b (s_regfile s) \<longleftrightarrow> ?H" using SBop a by (simp add: hazard_def)
      show ?thesis
      proof (cases "compute k sz a d")
        case (Inl e')
        with e SBop a have "compute k sz a d = Inl e" by simp
        with h show ?thesis by (simp only: compute_Inl)
      next
        case (Inr r)
        then have "\<not> ?H" unfolding compute_cases by (auto split: if_splits)
        moreover have "\<not> is_undefined e" using e SBop a Inr by (auto simp: result_iff dest: wr)
        ultimately show ?thesis using h by simp
      qed
    next
      case False
      with e st SBop have "\<not> is_undefined e"
        by (auto simp: result_iff dest: get_value_defined [rotated])
      with False SBop show ?thesis by (auto simp: hazard_def split: sum.splits)
    qed
  next
    case (SSelect c a d)
    with e st show ?thesis
      by (auto simp: hazard_def result_iff dest: get_value_defined [rotated] wr)
  next
    case (SAssert a d)
    with e st show ?thesis
      by (auto simp: hazard_def result_iff dest: get_value_defined [rotated] split: if_splits)
  next
    case SRead
    with e st show ?thesis
      by (auto simp: hazard_def result_iff Let_def dest: wr split: option.splits prod.splits)
  next
    case (SWrite v)
    with e st show ?thesis
      by (auto simp: hazard_def result_iff dest: get_value_defined [rotated] wr)
  qed (use e in \<open>auto simp: Let_def split: prod.splits\<close>)
qed

subsection \<open>Costs and output\<close>

lemma access_cost_nonneg: "0 \<le> base \<Longrightarrow> 0 \<le> access_cost base a m"
  using of_nat_0_le_iff [where 'a = rat, of "unat (head_distance a (head m))"]
  by (auto simp: access_cost_def cost_defs intro!: add_nonneg_nonneg mult_nonneg_nonneg)

lemma exec_load_frame:
  "exec_load sz a m = Inr (v, c, m') \<Longrightarrow> 0 \<le> c \<and> max_alloced_size m' = max_alloced_size m"
  by (auto simp: exec_load_def result_iff cost_defs access_cost_nonneg split: if_splits)

lemma exec_store_frame:
  "exec_store sz a v m = Inr (c, m') \<Longrightarrow> 0 \<le> c \<and> max_alloced_size m' = max_alloced_size m"
  by (auto simp: exec_store_def store_stack_def store_heap_def result_iff cost_defs access_cost_nonneg
    split: if_splits)

lemma exec_malloc_frame:
  "exec_malloc calloc_ok n m = Inr (x, c, m') \<Longrightarrow> 0 \<le> c \<and> max_alloced_size m \<le> max_alloced_size m'"
  by (auto simp: exec_malloc_def Let_def cost_defs split: if_splits option.splits)

lemma exec_free_frame:
  "exec_free x m = Inr (c, m') \<Longrightarrow> 0 \<le> c \<and> max_alloced_size m' = max_alloced_size m"
  by (auto simp: exec_free_def Let_def cost_defs split: if_splits list.splits prod.splits)

text \<open>What only grows during a run: the cost, the output and the peak of the heap.\<close>

definition grows :: "state \<Rightarrow> state \<Rightarrow> bool" where
  "grows s t \<longleftrightarrow> s_cost s \<le> s_cost t \<and> prefix (s_out s) (s_out t) \<and>
     max_alloced_size (s_memory s) \<le> max_alloced_size (s_memory t)"

lemma grows_refl [simp]: "grows s s"
  by (simp add: grows_def)

lemma grows_trans: "\<lbrakk> grows s t; grows t u \<rbrakk> \<Longrightarrow> grows s u"
  by (auto simp: grows_def)

lemma exec_stmt_grows:
  assumes "exec_stmt calloc_ok lhs b s = Inr (c, s')"
  shows "grows s (s'\<lparr>s_cost := s_cost s' + c\<rparr>)"
  using assms
proof (cases rule: exec_stmt_cases)
  case malloc
  with write_result_frame exec_malloc_frame show ?thesis by (fastforce simp: grows_def)
next
  case release
  with exec_free_frame show ?thesis by (fastforce simp: grows_def)
next
  case load
  with write_result_frame exec_load_frame show ?thesis by (fastforce simp: grows_def)
next
  case store
  with exec_store_frame show ?thesis by (fastforce simp: grows_def)
qed (auto dest!: write_result_frame simp: grows_def cost_of_nonneg cost_defs exec_reset_stack_def exec_reset_heap_def)

end
