(* ===== verification/Parser_Props.thy ===== *)
theory Parser_Props
  imports Parser Machine_Props
begin

text \<open>
  What the parser guarantees. A line that matches its pattern has exactly the tokens the
  parsing function reads, so no conversion throws and no register number is out of range: the
  only failures are reported syntax errors, and the statements are well-formed. The state
  machine keeps \<open>parser_ok\<close>, from which the result of \<open>parse\<close> is a well-formed program.
\<close>

subsection \<open>Sound results\<close>

definition is_syntax :: "fault \<Rightarrow> bool" where
  "is_syntax e \<longleftrightarrow> (\<exists>msg. e = Syntax_error msg)"

definition sound :: "('a \<Rightarrow> bool) \<Rightarrow> 'a result \<Rightarrow> bool" where
  "sound P r = (case r of Inl e \<Rightarrow> is_syntax e | Inr x \<Rightarrow> P x)"

lemma sound_simps [simp]:
  "sound P (Inl (Syntax_error msg))"
  "sound P (Inr x) = P x"
  by (simp_all add: sound_def is_syntax_def)

lemma sound_rbind: "\<lbrakk> sound P r; \<And>x. P x \<Longrightarrow> sound Q (f x) \<rbrakk> \<Longrightarrow> sound Q (rbind r f)"
  by (cases r) (simp_all add: sound_def)

lemma sound_Inr: "\<lbrakk> sound P r; r = Inr x \<rbrakk> \<Longrightarrow> P x"
  by simp

lemma sound_Inl: "\<lbrakk> sound P r; r = Inl e \<rbrakk> \<Longrightarrow> is_syntax e"
  by (simp add: sound_def)

lemma sound_True_weaken: "sound P r \<Longrightarrow> sound (\<lambda>x. True) r"
  by (cases r) (simp_all add: sound_def)

subsection \<open>Operands\<close>

lemma nat_of_digits_short: "nat_of_digits [c] = digit_value c" "nat_of_digits [c, d] = 10 * digit_value c + digit_value d"
  by (simp_all add: nat_of_digits_def)

lemma char_between_digit:
  "char_between (CHR ''1'') (CHR ''9'') c \<Longrightarrow> is_digit c \<and> 1 \<le> digit_value c \<and> digit_value c \<le> 9"
  "char_between (CHR ''0'') (CHR ''6'') c \<Longrightarrow> is_digit c \<and> digit_value c \<le> 6"
  "is_digit c \<Longrightarrow> digit_value c \<le> 9"
  by (auto simp: char_between_def is_digit_def digit_value_def)

lemma digit_one [simp]: "is_digit (CHR ''1'')" "digit_value (CHR ''1'') = 1"
  by (simp_all add: is_digit_def digit_value_def)

lemma stoi_digits_end:
  assumes "t = [] \<or> \<not> is_digit (hd t)"
  shows "is_digit c \<Longrightarrow> stoi (c # t) = Some (int (digit_value c))"
    and "\<lbrakk> is_digit c; is_digit d \<rbrakk> \<Longrightarrow> stoi (c # d # t) = Some (int (10 * digit_value c + digit_value d))"
  using stoi_digits [of "[c]" t] stoi_digits [of "[c, d]" t] assms
    char_between_digit(3) [of c] char_between_digit(3) [of d]
  by (simp_all add: nat_of_digits_short)

lemma lang_tNum16: "n \<in> lang tNum16 \<longleftrightarrow>
    (\<exists>c. n = [c] \<and> char_between (CHR ''1'') (CHR ''9'') c) \<or> (\<exists>c. n = [CHR ''1'', c] \<and> char_between (CHR ''0'') (CHR ''6'') c)"
  by (auto simp: tNum16_def)

lemma lang_tArgN: "n \<in> lang tArgN \<longleftrightarrow>
    (\<exists>c. n = [c] \<and> is_digit c) \<or> (\<exists>c. n = [CHR ''1'', c] \<and> char_between (CHR ''0'') (CHR ''6'') c)"
  by (auto simp: tArgN_def)

lemma tArgN_stoi:
  assumes n: "n \<in> lang tArgN" and t: "t = [] \<or> \<not> is_digit (hd t)"
  obtains k where "stoi (n @ t) = Some (int k)" "k \<le> 16"
proof -
  consider (one) c where "n = [c]" "is_digit c" | (two) c where "n = [CHR ''1'', c]" "is_digit c" "digit_value c \<le> 6"
    using n by (auto simp: lang_tArgN dest: char_between_digit(2))
  then show ?thesis
  proof cases
    case one
    with stoi_digits_end(1) [OF t one(2)] char_between_digit(3) [OF one(2)] show ?thesis
      by (intro that [of "digit_value c"]) simp_all
  next
    case two
    with stoi_digits_end(2) [OF t digit_one(1) two(2)] show ?thesis
      by (intro that [of "10 + digit_value c"]) simp_all
  qed
qed

lemma tNum16_stoi:
  assumes n: "n \<in> lang tNum16"
  obtains k where "stoi n = Some (int k)" "1 \<le> k" "k \<le> 16"
proof -
  consider (one) c where "n = [c]" "is_digit c" "1 \<le> digit_value c"
    | (two) c where "n = [CHR ''1'', c]" "is_digit c" "digit_value c \<le> 6"
    using n by (auto simp: lang_tNum16 dest: char_between_digit(1,2))
  then show ?thesis
  proof cases
    case one
    with stoi_digits_end(1) [of "[]" c] char_between_digit(3) [OF one(2)] show ?thesis
      by (intro that [of "digit_value c"]) simp_all
  next
    case two
    with stoi_digits_end(2) [of "[]" "CHR ''1''" c] show ?thesis
      by (intro that [of "10 + digit_value c"]) simp_all
  qed
qed

lemma word_char_not_line_end: "word_char c \<Longrightarrow> \<not> line_end c"
  by (auto simp: word_char_def line_end_def is_space_def)

lemma tNum16_no_line_end: "\<lbrakk> n \<in> lang tNum16; c \<in> set n \<rbrakk> \<Longrightarrow> \<not> line_end c"
  by (rule word_char_not_line_end, rule all_chars_lang [of word_char tNum16])
    (simp_all add: tNum16_def word_char_simps word_char_lits)

lemma rRegR_match: "regex_match t rRegR \<longleftrightarrow> (\<exists>n. t = CHR ''r'' # n \<and> (\<forall>c \<in> set n. \<not> line_end c))"
  by (auto simp: regex_match_iff rRegR_def reps_Chr)

lemma rRegArg_match: "regex_match t rRegArg \<longleftrightarrow> (\<exists>n. t = ''arg'' @ n \<and> (\<forall>c \<in> set n. \<not> line_end c))"
  by (auto simp: regex_match_iff rRegArg_def reps_Chr)

lemma lang_tReg: "t \<in> lang tReg \<longleftrightarrow> t = ''sp'' \<or> (\<exists>n \<in> lang tNum16. t = CHR ''r'' # n \<or> t = ''arg'' @ n)"
proof -
  have "t \<in> lang tReg \<longleftrightarrow> t = ''sp'' \<or> (\<exists>x y. t = x @ y \<and> (x = ''r'' \<or> x = ''arg'') \<and> y \<in> lang tNum16)"
    by (auto simp: tReg_def)
  also have "\<dots> \<longleftrightarrow> t = ''sp'' \<or> (\<exists>n \<in> lang tNum16. t = ''r'' @ n \<or> t = ''arg'' @ n)" by blast
  finally show ?thesis by simp
qed

lemma parse_reg_sound:
  assumes "t \<in> lang tReg"
  shows "\<exists>r \<le> RegSp. parse_reg t = Inr r"
proof -
  consider "t = ''sp''" | (r) n where "n \<in> lang tNum16" "t = CHR ''r'' # n"
    | (arg) n where "n \<in> lang tNum16" "t = ''arg'' @ n"
    using assms by (auto simp: lang_tReg)
  then show ?thesis
  proof cases
    case 1
    then show ?thesis by (simp add: parse_reg_def rRegR_match rRegArg_match)
  next
    case r
    from tNum16_stoi [OF r(1)] obtain k where "stoi n = Some (int k)" "1 \<le> k" "k \<le> 16" .
    with r show ?thesis
      by (auto simp: parse_reg_def rRegR_match to_reg_def reg_numbers dest: tNum16_no_line_end)
  next
    case arg
    from tNum16_stoi [OF arg(1)] obtain k where "stoi n = Some (int k)" "1 \<le> k" "k \<le> 16" .
    with arg show ?thesis
      by (auto simp: parse_reg_def rRegR_match rRegArg_match to_reg_def reg_numbers dest: tNum16_no_line_end)
  qed
qed

lemma sound_parse_reg: "t \<in> lang tReg \<Longrightarrow> sound (\<lambda>r. r \<le> RegNone) (parse_reg t)"
  using parse_reg_sound [of t] by (auto simp: reg_numbers)

lemma sound_parse_const [simp]: "sound (\<lambda>v. True) (parse_const t)"
  by (simp add: parse_const_def split: option.split)

lemma sound_parse_value [simp]: "sound val_ok (parse_value t)"
proof (cases "t \<in> lang tReg")
  case True
  then show ?thesis using parse_reg_sound [of t] by (auto simp: parse_value_def regex_match_iff)
next
  case False
  then show ?thesis by (auto simp: parse_value_def regex_match_iff intro!: sound_rbind [OF sound_parse_const])
qed

lemma sound_parse_msize [simp]: "sound (\<lambda>sz. True) (parse_msize t)"
  by (simp add: parse_msize_def)

lemma sound_parse_size [simp]: "sound (\<lambda>sz. True) (parse_size t)"
  by (simp add: parse_size_def)

lemma sound_bop_of_token [simp]: "sound (\<lambda>k. True) (bop_of_token t)"
  by (simp add: bop_of_token_def)

lemma sound_cond_of_token [simp]: "sound (\<lambda>k. True) (cond_of_token t)"
  by (simp add: cond_of_token_def)

lemma sound_parse_values [simp]: "sound (\<lambda>vs. \<forall>v \<in> set vs. val_ok v) (parse_values ts)"
  by (induction ts) (auto intro!: sound_rbind [OF sound_parse_value] intro: sound_rbind)

lemma sound_switch_cases [simp]: "sound (\<lambda>x. True) (switch_cases ts tbl)"
proof (induction ts tbl rule: switch_cases.induct)
  case (1 t1 t2 ws tbl)
  then show ?case by (cases "parse_const t1") (auto simp: parse_const_def split: option.splits)
qed simp_all

lemma sound_call_lhs [simp]: "sound (\<lambda>(r, i). r \<le> RegNone) (call_lhs ws)"
  by (auto simp: call_lhs_def regex_match_iff intro!: sound_rbind [OF sound_parse_reg])

subsection \<open>Statements\<close>

definition line_sound :: "bool \<Rightarrow> (reg \<times> stmt_body) result \<Rightarrow> bool" where
  "line_sound term = sound (\<lambda>(lhs, b). lhs \<le> RegNone \<and> body_ok b \<and> is_terminator b = term)"

lemmas line_sound_intros = sound_rbind [OF sound_parse_value] sound_rbind [OF sound_parse_const]
  sound_rbind [OF sound_parse_msize] sound_rbind [OF sound_parse_size] sound_rbind [OF sound_bop_of_token]
  sound_rbind [OF sound_cond_of_token] sound_rbind [OF sound_parse_values]
  sound_rbind [OF sound_switch_cases] sound_rbind [OF sound_call_lhs]

text \<open>Lines that start with an assignment have the register as their first token.\<close>

lemma first_token_reg:
  assumes "regex_match s (spaced (seq (tReg # tAssign # rs)))" and "pattern_ok rs"
  shows "tok 0 (tokens s) \<in> lang tReg"
proof -
  have "list_all2 (\<lambda>t r. t \<in> lang r) (tokens s) (tReg # pattern_words rs)"
    using line_tokens [of s "tReg # tAssign # rs"] assms by (simp add: regex_match_iff)
  then show ?thesis by (auto simp: list_all2_Cons2 tok_def)
qed

lemma parse_malloc_sound: "regex_match s rMalloc \<Longrightarrow> line_sound False (parse_malloc s)"
  by (auto simp: parse_malloc_def Let_def line_sound_def rMalloc_def
    intro!: sound_rbind [OF sound_parse_reg] line_sound_intros first_token_reg)

lemma parse_load_sound: "regex_match s rLoad \<Longrightarrow> line_sound False (parse_load s)"
  by (auto simp: parse_load_def Let_def line_sound_def rLoad_def
    intro!: sound_rbind [OF sound_parse_reg] line_sound_intros first_token_reg)

lemma parse_bop_sound: "regex_match s rBop \<Longrightarrow> line_sound False (parse_bop s)"
  by (auto simp: parse_bop_def Let_def line_sound_def rBop_def
    intro!: sound_rbind [OF sound_parse_reg] line_sound_intros first_token_reg)

lemma parse_icmp_sound: "regex_match s rIcmp \<Longrightarrow> line_sound False (parse_icmp s)"
  by (auto simp: parse_icmp_def Let_def line_sound_def rIcmp_def
    intro!: sound_rbind [OF sound_parse_reg] line_sound_intros first_token_reg)

lemma parse_select_sound: "regex_match s rSelect \<Longrightarrow> line_sound False (parse_select s)"
  by (auto simp: parse_select_def Let_def line_sound_def rSelect_def
    intro!: sound_rbind [OF sound_parse_reg] line_sound_intros first_token_reg)

lemma parse_other_sound:
  "line_sound False (parse_free s)" "line_sound False (parse_store s)"
  "line_sound False (parse_call s)" "line_sound False (parse_assert s)"
  "line_sound False (parse_read s)" "line_sound False (parse_write s)"
  "line_sound False (Inr (RegNone, SResetStack))" "line_sound False (Inr (RegNone, SResetHeap))"
  by (auto simp: parse_free_def parse_store_def parse_call_def parse_assert_def parse_read_def
    parse_write_def Let_def line_sound_def reg_numbers intro!: line_sound_intros)

lemma parse_terminators_sound:
  "line_sound True (parse_ret s)" "line_sound True (parse_br_uncond s)"
  "line_sound True (parse_br_cond s)" "line_sound True (parse_switch s)"
  by (auto simp: parse_ret_def parse_br_uncond_def parse_br_cond_def parse_switch_def Let_def
    line_sound_def reg_numbers intro!: line_sound_intros)

definition option_ok :: "bool \<Rightarrow> stmt option \<Rightarrow> bool" where
  "option_ok term r = (case r of None \<Rightarrow> True | Some st \<Rightarrow> stmt_ok st \<and> is_terminator (body st) = term)"

lemma sound_make_stmt: "line_sound term r \<Longrightarrow> sound (option_ok term) (make_stmt line r)"
  unfolding line_sound_def make_stmt_def
  by (erule sound_rbind) (auto simp: option_ok_def stmt_ok_def)

lemma parse_normal_stmt_sound: "sound (option_ok False) (parse_normal_stmt line s)"
  by (simp add: parse_normal_stmt_def sound_make_stmt parse_malloc_sound parse_load_sound parse_bop_sound
    parse_icmp_sound parse_select_sound parse_other_sound option_ok_def)

lemma parse_terminator_sound: "sound (option_ok True) (parse_terminator line s)"
  by (simp add: parse_terminator_def sound_make_stmt parse_terminators_sound option_ok_def)

subsection \<open>Function headers\<close>

lemma start_function_tokens:
  assumes "regex_match s rStartFunction"
  obtains nm n t where "tok 2 (tokens s) = n @ t" "n \<in> lang tArgN" "t = [] \<or> t = '':''"
    "1 < length (tokens s)" "tokens s ! 1 = nm" "nm \<in> lang tName"
proof -
  from assms obtain a u g1 nm g2 n g3 b where s: "s = a @ (u @ g1 @ nm @ g2 @ n @ g3 @ '':'') @ b"
    and sp: "\<forall>c \<in> set a. is_space c" "\<forall>c \<in> set b. is_space c" "g1 \<in> lang tSpace" "g2 \<in> lang tSpace"
      "\<forall>c \<in> set g3. is_space c"
    and w: "u = ''start''" "nm \<in> lang tName" "n \<in> lang tArgN"
    by (auto simp: regex_match_iff rStartFunction_def lang_spaced tStart_def lang_tESpace)
  have good: "good ''start''" "good nm" "good n" "good '':''" "good (n @ '':'')"
    using w word_rexps by (auto simp: word_rexp_def good_def word_char_def is_space_def)
  have gaps: "gap (g1 @ x)" "gap (g2 @ x)" "gap b" for x
    using sp gap_tSpace gap_space_append [of b "[]"] by auto
  have head: "tokens (''start'' @ g1 @ nm @ g2 @ x) = ''start'' # nm # tokens x" for x
    using good(1,2) gaps sp(3,4) by (simp only: tokens_word tokens_tSpace)
  have tl: "tokens (n @ g3 @ '':'' @ b) = (if g3 = [] then [n @ '':''] else [n, '':''])"
  proof (cases "g3 = []")
    case True
    then show ?thesis using tokens_word [OF good(5) gaps(3)] sp(2) by simp
  next
    case False
    then have "gap (g3 @ '':'' @ b)" using sp(5) by (cases g3) auto
    with False show ?thesis
      using tokens_word [OF good(3)] tokens_word [OF good(4) gaps(3)] sp(2,5) by simp
  qed
  have "tokens s = ''start'' # nm # tokens (n @ g3 @ '':'' @ b)"
    using s w(1) sp(1) head [of "n @ g3 @ '':'' @ b"] by simp
  with tl have "tokens s = ''start'' # nm # (if g3 = [] then [n @ '':''] else [n, '':''])" by simp
  then show ?thesis
    using w by (intro that [of n "if g3 = [] then '':'' else []" nm]) (auto simp: tok_def)
qed

lemma parse_start_function_sound:
  assumes "regex_match s rStartFunction"
  shows "sound (\<lambda>f. bb_map f = Map.empty \<and> 0 \<le> fn_nargs f \<and> fn_nargs f \<le> 16) (parse_start_function s)"
proof -
  obtain nm n t where t: "tok 2 (tokens s) = n @ t" "n \<in> lang tArgN" "t = [] \<or> t = '':''"
    by (rule start_function_tokens [OF assms])
  have "t = [] \<or> \<not> is_digit (hd t)" using t(3) by (auto simp: is_digit_def)
  from tArgN_stoi [OF t(2) this] obtain k where "stoi (n @ t) = Some (int k)" "k \<le> 16" .
  with t(1) show ?thesis by (simp add: parse_start_function_def Let_def new_function_def)
qed

end
