(* ===== verification/Printer.thy ===== *)
theory Printer
  imports Parser_Props
begin

text \<open>
  A printer for statements and programs in the syntax of the parser, as the abstract syntax a
  reader of the format has in mind, and the round trip: parsing what is printed gives back the
  statement. The patterns are ambiguous in several places (a call of \<open>read\<close> is a
  \<open>StmtRead\<close>, for instance), so the printer has a domain, \<open>printable\<close>.
\<close>

subsection \<open>Tokens\<close>

definition show_reg :: "reg \<Rightarrow> string" where
  "show_reg r =
     (if r \<le> R16 then ''r'' @ nat_to_string (r + 1)
      else if r \<le> A16 then ''arg'' @ nat_to_string (r - R16)
      else ''sp'')"

fun show_val :: "val \<Rightarrow> string" where
  "show_val (VReg r) = show_reg r"
| "show_val (VLit w) = u64_to_string w"

fun show_msize :: "msize \<Rightarrow> string" where
  "show_msize MSize1 = ''1''"
| "show_msize MSize2 = ''2''"
| "show_msize MSize4 = ''4''"
| "show_msize MSize8 = ''8''"

fun show_size :: "bitsize \<Rightarrow> string" where
  "show_size Size1 = ''1''"
| "show_size Size8 = ''8''"
| "show_size Size16 = ''16''"
| "show_size Size32 = ''32''"
| "show_size Size64 = ''64''"

fun show_bop :: "bop_kind \<Rightarrow> string list" where
  "show_bop Udiv = [''udiv'']" | "show_bop Sdiv = [''sdiv'']" | "show_bop Urem = [''urem'']"
| "show_bop Srem = [''srem'']" | "show_bop Mul = [''mul'']" | "show_bop Shl = [''shl'']"
| "show_bop Lshr = [''lshr'']" | "show_bop Ashr = [''ashr'']" | "show_bop And = [''and'']"
| "show_bop Or = [''or'']" | "show_bop Xor = [''xor'']" | "show_bop Add = [''add'']"
| "show_bop Sub = [''sub'']"
| "show_bop Eq = [''icmp'', ''eq'']" | "show_bop Ne = [''icmp'', ''ne'']"
| "show_bop Ugt = [''icmp'', ''ugt'']" | "show_bop Uge = [''icmp'', ''uge'']"
| "show_bop Ult = [''icmp'', ''ult'']" | "show_bop Ule = [''icmp'', ''ule'']"
| "show_bop Sgt = [''icmp'', ''sgt'']" | "show_bop Sge = [''icmp'', ''sge'']"
| "show_bop Slt = [''icmp'', ''slt'']" | "show_bop Sle = [''icmp'', ''sle'']"

text \<open>The tokens of a statement after the assignment.\<close>

fun body_tokens :: "stmt_body \<Rightarrow> string list" where
  "body_tokens (SMalloc v) = [''malloc'', show_val v]"
| "body_tokens (SFree p) = [''free'', show_val p]"
| "body_tokens (SLoad sz p ofs) = [''load'', show_msize sz, show_val p, u64_to_string ofs]"
| "body_tokens (SStore sz v p ofs) = [''store'', show_msize sz, show_val v, show_val p, u64_to_string ofs]"
| "body_tokens SResetStack = [''reset'', ''stack'']"
| "body_tokens SResetHeap = [''reset'', ''heap'']"
| "body_tokens (SRet v) = [''ret'', show_val v]"
| "body_tokens (SBrUncond bb) = [''br'', bb]"
| "body_tokens (SBrCond c t e) = [''br'', show_val c, t, e]"
| "body_tokens (SSwitch c tbl d) =
     [''switch'', show_val c] @ concat (map (\<lambda>(v, bb). [u64_to_string v, bb]) tbl) @ [d]"
| "body_tokens (SBop k v1 v2 sz) = show_bop k @ [show_val v1, show_val v2, show_size sz]"
| "body_tokens (SSelect c vt vf) = [''select'', show_val c, show_val vt, show_val vf]"
| "body_tokens (SCall f args) = [''call'', f] @ map show_val args"
| "body_tokens (SAssert a b) = [''assert_eq'', show_val a, show_val b]"
| "body_tokens SRead = [''call'', ''read'']"
| "body_tokens (SWrite v) = [''call'', ''write'', show_val v]"

fun unwords :: "string list \<Rightarrow> string" where
  "unwords [] = []"
| "unwords [w] = w"
| "unwords (w # ws) = w @ '' '' @ unwords ws"

definition show_stmt :: "reg \<Rightarrow> stmt_body \<Rightarrow> string" where
  "show_stmt lhs b =
     (if lhs = RegNone then unwords (body_tokens b)
      else show_reg lhs @ '' = '' @ unwords (body_tokens b))"

fun has_result :: "stmt_body \<Rightarrow> bool" where
  "has_result (SMalloc _) = True"
| "has_result (SLoad _ _ _) = True"
| "has_result (SBop _ _ _ _) = True"
| "has_result (SSelect _ _ _) = True"
| "has_result _ = False"

fun may_have_result :: "stmt_body \<Rightarrow> bool" where
  "may_have_result (SCall _ _) = True"
| "may_have_result SRead = True"
| "may_have_result (SWrite _) = True"
| "may_have_result b = has_result b"

definition bb_name :: "string \<Rightarrow> bool" where
  "bb_name s \<longleftrightarrow> regex_match s tBBName"

definition fn_name :: "string \<Rightarrow> bool" where
  "fn_name s \<longleftrightarrow> regex_match s tName"

fun names_ok :: "stmt_body \<Rightarrow> bool" where
  "names_ok (SBrUncond bb) = bb_name bb"
| "names_ok (SBrCond _ t e) = (bb_name t \<and> bb_name e)"
| "names_ok (SSwitch _ tbl d) = (distinct (map fst tbl) \<and> (\<forall>(v, bb) \<in> set tbl. bb_name bb) \<and> bb_name d)"
| "names_ok (SCall f _) = (fn_name f \<and> f \<noteq> ''read'' \<and> f \<noteq> ''write'')"
| "names_ok _ = True"

definition printable :: "reg \<Rightarrow> stmt_body \<Rightarrow> bool" where
  "printable lhs b \<longleftrightarrow> body_ok b \<and> names_ok b \<and>
     (if has_result b then lhs \<le> RegSp
      else if may_have_result b then lhs \<le> RegNone else lhs = RegNone)"

subsection \<open>Tokens are read back\<close>

lemma nat_to_string_small: "n < 10 \<Longrightarrow> nat_to_string n = [digit_char n]"
  by (subst nat_to_string.simps) simp

lemma nat_to_string_two: "\<lbrakk> 10 \<le> n; n < 20 \<rbrakk> \<Longrightarrow> nat_to_string n = [CHR ''1'', digit_char (n - 10)]"
proof -
  have d: "digit_char 1 = CHR ''1''" by code_simp
  assume n: "10 \<le> n" "n < 20"
  then have "n div 10 = 1" "n mod 10 = n - 10" by (auto simp: div_nat_eqI mod_nat_eqI)
  with n show ?thesis
    by (subst nat_to_string.simps) (simp add: nat_to_string_small d [simplified])
qed

lemma of_char_digit_char: "n < 10 \<Longrightarrow> (of_char (digit_char n) :: nat) = 48 + n"
  by (simp add: digit_char_def)

lemma nat_to_string_tNum16: "\<lbrakk> 1 \<le> n; n \<le> 16 \<rbrakk> \<Longrightarrow> nat_to_string n \<in> lang tNum16"
  by (cases "n < 10")
    (auto simp: lang_tNum16 nat_to_string_small nat_to_string_two char_between_def of_char_digit_char)

lemma show_reg_tReg: "r \<le> RegSp \<Longrightarrow> show_reg r \<in> lang tReg"
  using nat_to_string_tNum16 [of "Suc r"] nat_to_string_tNum16 [of "r - 15"]
  by (auto simp: show_reg_def lang_tReg reg_numbers)

lemma nat_to_string_no_line_end: "c \<in> set (nat_to_string n) \<Longrightarrow> \<not> line_end c"
  using nat_to_string_digits [of n] by (auto simp: line_end_def is_digit_def)

lemma stoi_nat_to_string: "n < 2 ^ 31 \<Longrightarrow> stoi (nat_to_string n) = Some (int n)"
  using stoi_digits [of "nat_to_string n" "[]"] nat_to_string_digits [of n]
  by (simp add: nat_of_digits_to_string)

lemma parse_show_reg [simp]: "r \<le> RegSp \<Longrightarrow> parse_reg (show_reg r) = Inr r"
  by (auto simp: parse_reg_def show_reg_def rRegR_match rRegArg_match stoi_nat_to_string to_reg_def
    reg_numbers dest: nat_to_string_no_line_end)

lemma digits_not_tReg:
  assumes "s \<noteq> []" "\<forall>c \<in> set s. is_digit c"
  shows "s \<notin> lang tReg"
  using assms by (auto simp: lang_tReg is_digit_def)

lemma u64_to_string_digits: "u64_to_string w \<noteq> []" "\<forall>c \<in> set (u64_to_string w). is_digit c"
  using nat_to_string_digits [of "unat w"] by (auto simp: u64_to_string_def)

lemma u64_to_string_tConst [simp]: "u64_to_string w \<in> lang tConst"
  using u64_to_string_digits [of w] by (simp only: tConst_def lang_plus_Chr) simp

lemma parse_show_const [simp]: "parse_const (u64_to_string w) = Inr w"
  by (simp add: parse_const_def stoull_u64_to_string)

lemma parse_show_val [simp]: "val_ok v \<Longrightarrow> parse_value (show_val v) = Inr v"
  using digits_not_tReg [OF u64_to_string_digits]
  by (cases v) (auto simp: parse_value_def regex_match_iff show_reg_tReg)

lemma show_val_tValue: "val_ok v \<Longrightarrow> show_val v \<in> lang tValue"
  by (cases v) (auto simp: tValue_def show_reg_tReg)

lemma parse_show_msize [simp]: "parse_msize (show_msize sz) = Inr sz"
  by (cases sz) (simp_all add: parse_msize_def)

lemma parse_show_size [simp]: "parse_size (show_size sz) = Inr sz"
  by (cases sz) (simp_all add: parse_size_def)

lemma show_sizes [simp]: "show_msize sz \<in> lang tMSize" "show_size bw \<in> lang tSize"
  by (cases sz; simp add: tMSize_def lang_words) (cases bw; simp add: tSize_def lang_words)

lemma parse_show_values [simp]: "\<forall>v \<in> set vs. val_ok v \<Longrightarrow> parse_values (map show_val vs) = Inr vs"
  by (induction vs) simp_all

subsection \<open>The tokens of a printed statement\<close>

lemma good_tValue: "val_ok v \<Longrightarrow> good (show_val v)"
  using show_val_tValue [of v] word_rexps(3) by (auto simp: word_rexp_def)

lemma good_reg: "r \<le> RegSp \<Longrightarrow> good (show_reg r)"
  using show_reg_tReg [of r] word_rexps(1) by (auto simp: word_rexp_def)

lemma good_const [simp]: "good (u64_to_string w)"
  using u64_to_string_tConst [of w] word_rexps(2) unfolding word_rexp_def by blast

lemma good_msize [simp]: "good (show_msize sz)"
  by (cases sz) (simp_all add: good_def word_char_def is_space_def)

lemma good_size [simp]: "good (show_size sz)"
  by (cases sz) (simp_all add: good_def word_char_def is_space_def)

lemma good_bb: "bb_name s \<Longrightarrow> good s"
  using word_rexps(5) by (auto simp: bb_name_def regex_match_iff word_rexp_def)

lemma good_fn: "fn_name s \<Longrightarrow> good s"
  using word_rexps(4) by (auto simp: fn_name_def regex_match_iff word_rexp_def)

lemma good_bop: "w \<in> set (show_bop k) \<Longrightarrow> good w"
  by (cases k) (auto simp: good_def word_char_def is_space_def)

lemma good_keywords:
  "good ''malloc''" "good ''free''" "good ''load''" "good ''store''" "good ''reset''" "good ''stack''"
  "good ''heap''" "good ''ret''" "good ''br''" "good ''switch''" "good ''select''" "good ''call''"
  "good ''assert_eq''" "good ''read''" "good ''write''"
  by (simp_all add: good_def word_char_def is_space_def)

lemma body_tokens_good: "\<lbrakk> body_ok b; names_ok b; w \<in> set (body_tokens b) \<rbrakk> \<Longrightarrow> good w"
  by (cases b) (auto simp: good_keywords good_tValue good_bb good_fn good_bop)

lemma tokens_unwords: "\<forall>w \<in> set ws. good w \<Longrightarrow> tokens (unwords ws) = ws"
proof (induction ws rule: unwords.induct)
  case (2 w)
  then show ?case using tokens_word [of w "[]"] by simp
next
  case (3 w v ws)
  then show ?case using tokens_word [of w "'' '' @ unwords (v # ws)"] by (simp add: is_space_def)
qed simp

lemma tokens_show:
  assumes "printable lhs b"
  shows "tokens (show_stmt lhs b) = (if lhs = RegNone then [] else [show_reg lhs]) @ body_tokens b"
proof -
  have g: "\<forall>w \<in> set (body_tokens b). good w"
    using assms body_tokens_good by (auto simp: printable_def)
  have sp: "is_space (CHR '' '')" by (simp add: is_space_def)
  show ?thesis
  proof (cases "lhs = RegNone")
    case True
    with g show ?thesis by (simp add: show_stmt_def tokens_unwords)
  next
    case False
    then have "lhs \<le> RegSp" using assms by (auto simp: printable_def reg_numbers split: if_splits)
    then show ?thesis
      using False g tokens_word [OF good_reg [of lhs], of "'' = '' @ unwords (body_tokens b)"] sp
      by (simp add: show_stmt_def tokens_unwords)
  qed
qed

subsection \<open>A printed statement matches its pattern\<close>

fun spread :: "rexp list \<Rightarrow> rexp list" where
  "spread (r # s # rs) = r # tSpace # spread (s # rs)"
| "spread rs = rs"

lemma blank_tSpace: "'' '' \<in> lang tSpace"
  by (simp add: lang_tSpace is_space_def del: lang.simps)

lemma unwords_lang:
  "list_all2 (\<lambda>w r. w \<in> lang r) ws rs \<Longrightarrow> unwords ws \<in> lang (seq (spread rs))"
proof (induction rs arbitrary: ws rule: spread.induct)
  case (1 r s rs)
  then obtain w v vs where ws: "ws = w # v # vs" "w \<in> lang r" "list_all2 (\<lambda>w r. w \<in> lang r) (v # vs) (s # rs)"
    by (auto simp: list_all2_Cons2)
  with 1 have "unwords (v # vs) \<in> lang (seq (spread (s # rs)))" by blast
  then have "w @ '' '' @ unwords (v # vs) \<in> lang (seq (r # tSpace # spread (s # rs)))"
    using ws(2) blank_tSpace unfolding lang_seq_Cons by blast
  then show ?case using ws(1) by simp
qed (auto simp: list_all2_Cons2)

lemma match_spaced: "s \<in> lang r \<Longrightarrow> regex_match s (spaced r)"
  unfolding regex_match_iff lang_spaced by (rule exI [of _ "[]"], rule exI [of _ s], rule exI [of _ "[]"]) simp

lemma match_plain: "list_all2 (\<lambda>w r. w \<in> lang r) ws rs \<Longrightarrow> regex_match (unwords ws) (spaced (seq (spread rs)))"
  by (rule match_spaced, rule unwords_lang)

lemma eq_tAssign: "'' = '' \<in> lang tAssign"
  unfolding tAssign_def lang_spaced
  by (rule exI [of _ "'' ''"], rule exI [of _ "''=''"], rule exI [of _ "'' ''"]) (simp add: is_space_def)

lemma assign_lang:
  assumes "w \<in> lang tReg" and "s \<in> lang (seq rs)"
  shows "w @ '' = '' @ s \<in> lang (seq (tReg # tAssign # rs))"
  using assms eq_tAssign unfolding lang_seq_Cons by blast

lemma match_assign:
  assumes "w \<in> lang tReg" and "list_all2 (\<lambda>w r. w \<in> lang r) ws rs"
  shows "regex_match (w @ '' = '' @ unwords ws) (spaced (seq (tReg # tAssign # spread rs)))"
  by (rule match_spaced, rule assign_lang [OF assms(1)], rule unwords_lang [OF assms(2)])

subsection \<open>A printed statement matches no other pattern\<close>

abbreviation fits :: "string list \<Rightarrow> rexp list \<Rightarrow> bool" where
  "fits ts rs \<equiv> list_all2 (\<lambda>t r. t \<in> lang r) ts rs"

lemma no_match: "\<lbrakk> \<not> fits (tokens s) (pattern_words rs); pattern_ok rs \<rbrakk> \<Longrightarrow> \<not> regex_match s (spaced (seq rs))"
  using line_tokens by (auto simp: regex_match_iff)

lemma no_lines:
  "\<not> fits (tokens s) [tReg, tMalloc, tValue] \<Longrightarrow> \<not> regex_match s rMalloc"
  "\<not> fits (tokens s) [tFree, tValue] \<Longrightarrow> \<not> regex_match s rFree"
  "\<not> fits (tokens s) [tReg, tLoad, tMSize, tValue, tConst] \<Longrightarrow> \<not> regex_match s rLoad"
  "\<not> fits (tokens s) [tStore, tMSize, tValue, tValue, tConst] \<Longrightarrow> \<not> regex_match s rStore"
  "\<not> fits (tokens s) [lit ''reset'', lit ''stack''] \<Longrightarrow> \<not> regex_match s rResetStack"
  "\<not> fits (tokens s) [lit ''reset'', lit ''heap''] \<Longrightarrow> \<not> regex_match s rResetHeap"
  "\<not> fits (tokens s) [tReg, tBop, tValue, tValue, tSize] \<Longrightarrow> \<not> regex_match s rBop"
  "\<not> fits (tokens s) [tReg, tIcmp, tCond, tValue, tValue, tSize] \<Longrightarrow> \<not> regex_match s rIcmp"
  "\<not> fits (tokens s) [tReg, tSelect, tValue, tValue, tValue] \<Longrightarrow> \<not> regex_match s rSelect"
  "\<not> fits (tokens s) [tAssert, tValue, tValue] \<Longrightarrow> \<not> regex_match s rAssert"
  "\<not> fits (tokens s) [tRet, tValue] \<Longrightarrow> \<not> regex_match s rRetVal"
  "\<not> fits (tokens s) [tBr, tBBName] \<Longrightarrow> \<not> regex_match s rBrUncond"
  "\<not> fits (tokens s) [tBr, tValue, tBBName, tBBName] \<Longrightarrow> \<not> regex_match s rBrCond"
  by (simp_all add: rMalloc_def rFree_def rLoad_def rStore_def rResetStack_def rResetHeap_def rBop_def
    rIcmp_def rSelect_def rAssert_def rRetVal_def rBrUncond_def rBrCond_def no_match good_keywords)

lemma no_rRet: "\<not> fits (tokens s) [tRet] \<Longrightarrow> \<not> regex_match s rRet"
proof -
  have "lang (spaced (seq [tRet])) = lang rRet" by (auto simp: rRet_def spaced_def)
  then show "\<not> fits (tokens s) [tRet] \<Longrightarrow> \<not> regex_match s rRet"
    using no_match [of s "[tRet]"] by (simp add: regex_match_iff)
qed

text \<open>An optional assignment is a choice of two patterns.\<close>

lemma lang_rAssign: "s \<in> lang (spaced (seq (rAssign # rs))) \<longleftrightarrow>
    s \<in> lang (spaced (seq rs)) \<or> s \<in> lang (spaced (seq (tReg # tAssign # rs)))"
proof -
  have "lang (seq (rAssign # rs)) = lang (seq rs) \<union> lang (seq (tReg # tAssign # rs))"
  proof (intro equalityI subsetI)
    fix s
    assume "s \<in> lang (seq rs) \<union> lang (seq (tReg # tAssign # rs))"
    then consider "s \<in> lang (seq rs)" | (b) x y z where "s = (x @ y) @ z" "x \<in> lang tReg" "y \<in> lang tAssign" "z \<in> lang (seq rs)"
      by auto
    then show "s \<in> lang (seq (rAssign # rs))"
    proof cases
      case 1
      then have "[] @ s \<in> lang (seq (rAssign # rs))" unfolding lang_seq_Cons by (auto simp: rAssign_def)
      then show ?thesis by simp
    next
      case b
      then have "x @ y @ [] \<in> lang (seq [tReg, tAssign])" unfolding lang_seq_Cons lang_seq_Nil by blast
      then have "x @ y \<in> lang rAssign" by (simp add: rAssign_def)
      with b show ?thesis unfolding lang_seq_Cons by blast
    qed
  qed (auto simp: rAssign_def)
  then show ?thesis unfolding lang_spaced by blast
qed

lemma no_calls:
  "\<lbrakk> \<not> fits (tokens s) [tCall, tRead]; \<not> fits (tokens s) [tReg, tCall, tRead] \<rbrakk> \<Longrightarrow> \<not> regex_match s rRead"
  "\<lbrakk> \<not> fits (tokens s) [tCall, tWrite, tValue]; \<not> fits (tokens s) [tReg, tCall, tWrite, tValue] \<rbrakk> \<Longrightarrow>
    \<not> regex_match s rWrite"
  unfolding rRead_def rWrite_def regex_match_iff lang_rAssign
  using line_tokens [of s "[tCall, tSpace, tRead]"] line_tokens [of s "[tReg, tAssign, tCall, tSpace, tRead]"]
    line_tokens [of s "[tCall, tSpace, tWrite, tSpace, tValue]"]
    line_tokens [of s "[tReg, tAssign, tCall, tSpace, tWrite, tSpace, tValue]"]
  by auto

text \<open>The first tokens of a line, when the rest of its pattern is not a list of words.\<close>

lemma first_token:
  assumes "s \<in> lang (spaced (seq (w # g # rs)))" and "word_rexp w" "gap_rexp g"
  obtains t x b where "tokens s = t # tokens (x @ b)" "t \<in> lang w" "x \<in> lang (seq rs)" "\<forall>c \<in> set b. is_space c"
proof -
  from assms(1) obtain a u v x b where s: "s = a @ u @ v @ x @ b" "\<forall>c \<in> set a. is_space c" "u \<in> lang w"
    "v \<in> lang g" "x \<in> lang (seq rs)" "\<forall>c \<in> set b. is_space c" by (auto simp: lang_spaced)
  have "good u" "gap (v @ x @ b)" "tokens (v @ x @ b) = tokens (x @ b)"
    using s(3,4) assms(2,3) by (auto simp: word_rexp_def gap_rexp_def)
  then have "tokens s = u # tokens (x @ b)" using s(1,2) by (simp add: tokens_word)
  with s show ?thesis by (intro that)
qed

lemma no_rCall:
  assumes "\<not> (\<exists>ts. tokens s = ''call'' # ts)" and "\<not> (\<exists>r ts. tokens s = r # ''call'' # ts \<and> r \<in> lang tReg)"
  shows "\<not> regex_match s rCall"
proof
  assume "regex_match s rCall"
  then consider (a) "s \<in> lang (spaced (seq [tCall, tSpace, tName, rArgs]))"
    | (b) "s \<in> lang (spaced (seq [tReg, tAssign, tCall, tSpace, tName, rArgs]))"
    unfolding rCall_def regex_match_iff lang_rAssign by blast
  then show False
  proof cases
    case a
    then show False
      by (rule first_token) (use assms(1) in \<open>auto simp: tCall_def good_keywords\<close>)
  next
    case b
    obtain t x bb where t: "tokens s = t # tokens (x @ bb)" "t \<in> lang tReg"
      "x \<in> lang (seq [tCall, tSpace, tName, rArgs])" "\<forall>c \<in> set bb. is_space c"
      by (rule first_token [OF b]) simp_all
    then have "x @ bb \<in> lang (spaced (seq [tCall, tSpace, tName, rArgs]))"
      unfolding lang_spaced by (intro exI [of _ "[]"] exI [of _ x] exI [of _ bb]) auto
    then show False
      by (rule first_token) (use assms(2) t in \<open>auto simp: tCall_def good_keywords\<close>)
  qed
qed

lemma no_rSwitch:
  assumes "\<not> (\<exists>ts. tokens s = ''switch'' # ts)"
  shows "\<not> regex_match s rSwitch"
proof
  assume "regex_match s rSwitch"
  then have "s \<in> lang (spaced (seq [tSwitch, tSpace, tValue, rTable, tSpace, tBBName]))"
    by (simp only: rSwitch_def regex_match_iff)
  then show False
    by (rule first_token) (use assms in \<open>auto simp: tSwitch_def good_keywords\<close>)
qed

subsection \<open>Matches of calls and switches\<close>

lemma unwords_append: "\<lbrakk> ws \<noteq> []; vs \<noteq> [] \<rbrakk> \<Longrightarrow> unwords (ws @ vs) = unwords ws @ '' '' @ unwords vs"
proof (induction ws rule: unwords.induct)
  case (2 w)
  then obtain v us where "vs = v # us" by (cases vs) auto
  then show ?case by simp
qed auto

text \<open>A tail of words, each after a blank.\<close>

fun tail_words :: "string list \<Rightarrow> string" where
  "tail_words [] = []"
| "tail_words (w # ws) = '' '' @ w @ tail_words ws"

lemma unwords_Cons: "unwords (w # ws) = w @ tail_words ws"
  by (induction ws arbitrary: w) simp_all

lemma unwords_two: "unwords (w # v # ws) = w @ '' '' @ v @ tail_words ws"
  by (simp only: unwords_Cons tail_words.simps append_assoc)

lemma tail_words_append: "tail_words (ws @ vs) = tail_words ws @ tail_words vs"
  by (induction ws) simp_all

lemma lang_seq_append: "\<lbrakk> x \<in> lang r; y \<in> lang (seq rs) \<rbrakk> \<Longrightarrow> x @ y \<in> lang (seq (r # rs))"
  unfolding lang_seq_Cons by blast

lemma lang_seq_end: "[] \<in> lang (seq [])"
  by simp

lemmas lang_seq_intros = lang_seq_append lang_seq_end blank_tSpace show_val_tValue u64_to_string_tConst

lemma args_lang: "\<forall>v \<in> set vs. val_ok v \<Longrightarrow> tail_words (map show_val vs) \<in> lang rArgs"
proof (induction vs)
  case (Cons v vs)
  have "'' '' @ show_val v @ [] \<in> lang (seq [tSpace, tValue])"
    using Cons.prems by (intro lang_seq_intros) simp
  then have "('' '' @ show_val v @ []) @ tail_words (map show_val vs) \<in> lang rArgs"
    unfolding rArgs_def lang.simps(6) using Cons by (intro reps_append) (simp_all add: rArgs_def)
  then show ?case by simp
qed (simp add: rArgs_def reps_Nil)

lemma table_lang:
  "\<forall>(v, bb) \<in> set tbl. bb_name bb \<Longrightarrow>
   tail_words (concat (map (\<lambda>(v, bb). [u64_to_string v, bb]) tbl)) \<in> lang rTable"
proof (induction tbl)
  case (Cons e tbl)
  obtain v bb where e: "e = (v, bb)" by (cases e)
  have "bb \<in> lang tBBName" using Cons.prems e by (simp add: bb_name_def regex_match_iff)
  then have "'' '' @ u64_to_string v @ '' '' @ bb @ [] \<in> lang (seq [tSpace, tConst, tSpace, tBBName])"
    by (intro lang_seq_intros)
  then have "('' '' @ u64_to_string v @ '' '' @ bb @ []) @
      tail_words (concat (map (\<lambda>(v, bb). [u64_to_string v, bb]) tbl)) \<in> lang rTable"
    unfolding rTable_def lang.simps(6) using Cons by (intro reps_append) (simp_all add: rTable_def)
  then show ?case using e by simp
qed (simp add: rTable_def reps_Nil)

lemma match_switch:
  assumes "val_ok c" "\<forall>(v, bb) \<in> set tbl. bb_name bb" "bb_name d"
  shows "regex_match (unwords (body_tokens (SSwitch c tbl d))) rSwitch"
proof -
  let ?t = "tail_words (concat (map (\<lambda>(v, bb). [u64_to_string v, bb]) tbl))"
  have d: "d \<in> lang tBBName" using assms(3) by (simp add: bb_name_def regex_match_iff)
  have "''switch'' \<in> lang tSwitch" by (simp add: tSwitch_def)
  then have "''switch'' @ '' '' @ show_val c @ ?t @ '' '' @ d @ []
      \<in> lang (seq [tSwitch, tSpace, tValue, rTable, tSpace, tBBName])"
    using assms(1) table_lang [OF assms(2)] d by (intro lang_seq_intros)
  then have "regex_match (''switch'' @ '' '' @ show_val c @ ?t @ '' '' @ d @ []) rSwitch"
    unfolding rSwitch_def by (rule match_spaced)
  then show ?thesis
    by (simp only: body_tokens.simps append_Cons append_Nil unwords_two tail_words_append
      tail_words.simps append_assoc append_Nil2)
qed

lemma call_lang:
  assumes "fn_name f" "\<forall>v \<in> set args. val_ok v"
  shows "unwords (body_tokens (SCall f args)) \<in> lang (seq [tCall, tSpace, tName, rArgs])"
proof -
  have "''call'' \<in> lang tCall" "f \<in> lang tName"
    using assms(1) by (simp_all add: tCall_def fn_name_def regex_match_iff)
  then have "''call'' @ '' '' @ f @ tail_words (map show_val args) @ [] \<in> lang (seq [tCall, tSpace, tName, rArgs])"
    using args_lang [OF assms(2)] by (intro lang_seq_intros)
  then show ?thesis by (simp only: body_tokens.simps append_Cons append_Nil unwords_two append_Nil2)
qed

text \<open>A line with an optional assignment.\<close>

lemma match_optional:
  assumes "x \<in> lang (seq rs)" and "lhs = RegNone \<or> lhs \<le> RegSp"
  shows "regex_match (if lhs = RegNone then x else show_reg lhs @ '' = '' @ x) (spaced (seq (rAssign # rs)))"
proof (cases "lhs = RegNone")
  case True
  with match_spaced [OF assms(1)] show ?thesis by (simp add: regex_match_iff lang_rAssign)
next
  case False
  with assms(2) have "show_reg lhs \<in> lang tReg" by (simp add: show_reg_tReg)
  from match_spaced [OF assign_lang [OF this assms(1)]] False
  show ?thesis by (simp add: regex_match_iff lang_rAssign)
qed

end
