(* ===== verification/Roundtrip.thy ===== *)
theory Roundtrip
  imports Printer
begin

text \<open>
  Parsing a printed statement gives the statement back. Each statement matches the pattern the
  parser tests for it and no pattern it tests before.
\<close>

lemmas keyword_defs = tMalloc_def tFree_def tLoad_def tStore_def tRet_def tBr_def tSwitch_def
  tIcmp_def tSelect_def tCall_def tAssert_def tRead_def tWrite_def

lemma lang_tBop: "w \<in> lang tBop \<longleftrightarrow> w \<in> set [''udiv'', ''sdiv'', ''urem'', ''srem'', ''mul'', ''shl'',
    ''lshr'', ''ashr'', ''and'', ''or'', ''xor'', ''add'', ''sub'']"
  by (simp only: tBop_def lang_words)

lemma lang_tCond: "w \<in> lang tCond \<longleftrightarrow> w \<in> set [''eq'', ''ne'', ''ugt'', ''uge'', ''ult'', ''ule'', ''sgt'',
    ''sge'', ''slt'', ''sle'']"
  by (simp only: tCond_def lang_words)

lemma show_bop_lang:
  "\<lbrakk> k \<in> {Eq, Ne, Ugt, Uge, Ult, Ule, Sgt, Sge, Slt, Sle} \<rbrakk> \<Longrightarrow> \<exists>c. show_bop k = [''icmp'', c] \<and> c \<in> lang tCond \<and> cond_of_token c = Inr k"
  "\<lbrakk> k \<notin> {Eq, Ne, Ugt, Uge, Ult, Ule, Sgt, Sge, Slt, Sle} \<rbrakk> \<Longrightarrow> \<exists>c. show_bop k = [c] \<and> c \<in> lang tBop \<and> bop_of_token c = Inr k"
  by (cases k; simp add: lang_tCond lang_tBop cond_of_token_def bop_of_token_def)+

lemma fits_sizes [simp]: "show_msize sz \<in> lang tMSize" "show_size bw \<in> lang tSize"
  by simp_all

text \<open>Assignments.\<close>

lemma match_result:
  assumes "lhs \<le> RegSp" and "fits (body_tokens b) rs"
  shows "regex_match (show_stmt lhs b) (spaced (seq (tReg # tAssign # spread rs)))"
proof -
  have "lhs \<noteq> RegNone" using assms(1) by (simp add: reg_numbers)
  with match_assign [OF show_reg_tReg [OF assms(1)] assms(2)] show ?thesis by (simp add: show_stmt_def)
qed

lemma match_no_result:
  assumes "fits (body_tokens b) rs"
  shows "regex_match (show_stmt RegNone b) (spaced (seq (spread rs)))"
  using match_plain [OF assms] by (simp add: show_stmt_def)

lemma match_lines:
  "\<lbrakk> lhs \<le> RegSp; val_ok v \<rbrakk> \<Longrightarrow> regex_match (show_stmt lhs (SMalloc v)) rMalloc"
  "\<lbrakk> lhs \<le> RegSp; val_ok p \<rbrakk> \<Longrightarrow> regex_match (show_stmt lhs (SLoad sz p ofs)) rLoad"
  "\<lbrakk> lhs \<le> RegSp; val_ok c; val_ok vt; val_ok vf \<rbrakk> \<Longrightarrow> regex_match (show_stmt lhs (SSelect c vt vf)) rSelect"
  "val_ok p \<Longrightarrow> regex_match (show_stmt RegNone (SFree p)) rFree"
  "\<lbrakk> val_ok v; val_ok p \<rbrakk> \<Longrightarrow> regex_match (show_stmt RegNone (SStore sz v p ofs)) rStore"
  "regex_match (show_stmt RegNone SResetStack) rResetStack"
  "regex_match (show_stmt RegNone SResetHeap) rResetHeap"
  "\<lbrakk> val_ok a; val_ok d \<rbrakk> \<Longrightarrow> regex_match (show_stmt RegNone (SAssert a d)) rAssert"
  "val_ok v \<Longrightarrow> regex_match (show_stmt RegNone (SRet v)) rRetVal"
  "bb_name bb \<Longrightarrow> regex_match (show_stmt RegNone (SBrUncond bb)) rBrUncond"
  "\<lbrakk> val_ok c; bb_name t; bb_name e \<rbrakk> \<Longrightarrow> regex_match (show_stmt RegNone (SBrCond c t e)) rBrCond"
  using match_result [of lhs "SMalloc v" "[tMalloc, tValue]"]
    match_result [of lhs "SLoad sz p ofs" "[tLoad, tMSize, tValue, tConst]"]
    match_result [of lhs "SSelect c vt vf" "[tSelect, tValue, tValue, tValue]"]
    match_no_result [of "SFree p" "[tFree, tValue]"]
    match_no_result [of "SStore sz v p ofs" "[tStore, tMSize, tValue, tValue, tConst]"]
    match_no_result [of SResetStack "[lit ''reset'', lit ''stack'']"]
    match_no_result [of SResetHeap "[lit ''reset'', lit ''heap'']"]
    match_no_result [of "SAssert a d" "[tAssert, tValue, tValue]"]
    match_no_result [of "SRet v" "[tRet, tValue]"]
    match_no_result [of "SBrUncond bb" "[tBr, tBBName]"]
    match_no_result [of "SBrCond c t e" "[tBr, tValue, tBBName, tBBName]"]
  by (simp_all add: rMalloc_def rLoad_def rSelect_def rFree_def rStore_def rResetStack_def rResetHeap_def
    rAssert_def rRetVal_def rBrUncond_def rBrCond_def show_val_tValue bb_name_def regex_match_iff keyword_defs)

lemma match_bops:
  assumes "lhs \<le> RegSp" "val_ok v1" "val_ok v2"
  shows "show_bop k = [''icmp'', c] \<Longrightarrow> c \<in> lang tCond \<Longrightarrow> regex_match (show_stmt lhs (SBop k v1 v2 sz)) rIcmp"
    and "show_bop k = [c] \<Longrightarrow> c \<in> lang tBop \<Longrightarrow> regex_match (show_stmt lhs (SBop k v1 v2 sz)) rBop"
  using match_result [of lhs "SBop k v1 v2 sz" "[tIcmp, tCond, tValue, tValue, tSize]"]
    match_result [of lhs "SBop k v1 v2 sz" "[tBop, tValue, tValue, tSize]"] assms
  by (simp_all add: rIcmp_def rBop_def show_val_tValue keyword_defs)

lemma match_calls:
  assumes "lhs = RegNone \<or> lhs \<le> RegSp"
  shows "regex_match (show_stmt lhs SRead) rRead"
    and "val_ok v \<Longrightarrow> regex_match (show_stmt lhs (SWrite v)) rWrite"
    and "\<lbrakk> fn_name f; \<forall>v \<in> set args. val_ok v \<rbrakk> \<Longrightarrow> regex_match (show_stmt lhs (SCall f args)) rCall"
  using match_optional [OF unwords_lang assms, of "body_tokens SRead" "[tCall, tRead]"]
    match_optional [OF unwords_lang assms, of "body_tokens (SWrite v)" "[tCall, tWrite, tValue]"]
    match_optional [OF call_lang assms, of f args]
  by (simp_all add: show_stmt_def rRead_def rWrite_def rCall_def show_val_tValue keyword_defs del: unwords.simps)

text \<open>Keywords are not registers, so they decide between the patterns.\<close>

lemma keywords_not_reg [simp]:
  "''malloc'' \<notin> lang tReg" "''free'' \<notin> lang tReg" "''load'' \<notin> lang tReg" "''store'' \<notin> lang tReg"
  "''reset'' \<notin> lang tReg" "''ret'' \<notin> lang tReg" "''br'' \<notin> lang tReg" "''switch'' \<notin> lang tReg"
  "''select'' \<notin> lang tReg" "''call'' \<notin> lang tReg" "''assert_eq'' \<notin> lang tReg"
  by (auto simp: lang_tReg lang_tNum16)

lemma show_reg_not: "\<lbrakk> r \<le> RegSp; w \<notin> lang tReg \<rbrakk> \<Longrightarrow> show_reg r \<noteq> w"
  using show_reg_tReg by blast

lemma printable_lhs: "printable lhs b \<Longrightarrow> lhs = RegNone \<or> lhs \<le> RegSp"
  by (auto simp: printable_def reg_numbers split: if_splits)

lemma reg_none_not_reg [simp]: "lhs \<le> RegSp \<Longrightarrow> lhs \<noteq> RegNone"
  by (auto simp: reg_numbers)

lemma tok_Cons [simp]: "tok 0 (w # ws) = w" "i < length ws \<Longrightarrow> tok (Suc i) (w # ws) = tok i ws"
  by (auto simp: tok_def)

lemma tok_numerals [simp]:
  "0 < length ws \<Longrightarrow> tok 1 (w # ws) = tok 0 ws"
  "1 < length ws \<Longrightarrow> tok 2 (w # ws) = tok 1 ws"
  "2 < length ws \<Longrightarrow> tok 3 (w # ws) = tok 2 ws"
  "3 < length ws \<Longrightarrow> tok 4 (w # ws) = tok 3 ws"
  "4 < length ws \<Longrightarrow> tok 5 (w # ws) = tok 4 ws"
  by (simp_all add: tok_def nth_Cons numeral_eq_Suc)

lemmas normal_defs = parse_normal_stmt_def no_lines no_calls make_stmt_def Let_def keyword_defs lang_words
  show_reg_not

lemma parse_show_malloc:
  assumes "printable lhs (SMalloc v)"
  shows "parse_normal_stmt line (show_stmt lhs (SMalloc v)) =
    Inr (Some \<lparr>get_line = line, get_lhs = lhs, body = SMalloc v\<rparr>)"
  using assms tokens_show [OF assms]
  by (simp add: printable_def normal_defs match_lines parse_malloc_def)

lemma parse_show_free:
  assumes "printable lhs (SFree v)"
  shows "parse_normal_stmt line (show_stmt lhs (SFree v)) =
    Inr (Some \<lparr>get_line = line, get_lhs = lhs, body = SFree v\<rparr>)"
  using assms tokens_show [OF assms]
  by (simp add: printable_def normal_defs match_lines parse_free_def)

lemma parse_show_load:
  assumes "printable lhs (SLoad sz p ofs)"
  shows "parse_normal_stmt line (show_stmt lhs (SLoad sz p ofs)) =
    Inr (Some \<lparr>get_line = line, get_lhs = lhs, body = SLoad sz p ofs\<rparr>)"
  using assms tokens_show [OF assms]
  by (simp add: printable_def normal_defs match_lines parse_load_def)

lemma parse_show_store:
  assumes "printable lhs (SStore sz v p ofs)"
  shows "parse_normal_stmt line (show_stmt lhs (SStore sz v p ofs)) =
    Inr (Some \<lparr>get_line = line, get_lhs = lhs, body = SStore sz v p ofs\<rparr>)"
  using assms tokens_show [OF assms]
  by (simp add: printable_def normal_defs match_lines parse_store_def)

lemma parse_show_resets:
  "parse_normal_stmt line (show_stmt RegNone SResetStack) =
    Inr (Some \<lparr>get_line = line, get_lhs = RegNone, body = SResetStack\<rparr>)"
  "parse_normal_stmt line (show_stmt RegNone SResetHeap) =
    Inr (Some \<lparr>get_line = line, get_lhs = RegNone, body = SResetHeap\<rparr>)"
proof -
  have p: "printable RegNone SResetStack" "printable RegNone SResetHeap" by (simp_all add: printable_def)
  show "parse_normal_stmt line (show_stmt RegNone SResetStack) =
      Inr (Some \<lparr>get_line = line, get_lhs = RegNone, body = SResetStack\<rparr>)"
    "parse_normal_stmt line (show_stmt RegNone SResetHeap) =
      Inr (Some \<lparr>get_line = line, get_lhs = RegNone, body = SResetHeap\<rparr>)"
    using tokens_show [OF p(1)] tokens_show [OF p(2)] by (simp_all add: normal_defs match_lines)
qed

lemma parse_show_bop:
  assumes "printable lhs (SBop k v1 v2 sz)"
  shows "parse_normal_stmt line (show_stmt lhs (SBop k v1 v2 sz)) =
    Inr (Some \<lparr>get_line = line, get_lhs = lhs, body = SBop k v1 v2 sz\<rparr>)"
proof (cases "k \<in> {Eq, Ne, Ugt, Uge, Ult, Ule, Sgt, Sge, Slt, Sle}")
  case True
  from show_bop_lang(1) [OF True] obtain c where c: "show_bop k = [''icmp'', c]" "c \<in> lang tCond"
    "cond_of_token c = Inr k" by blast
  with match_bops(1) [of lhs v1 v2 k c sz] assms tokens_show [OF assms] show ?thesis
    by (simp add: printable_def normal_defs parse_icmp_def lang_tBop)
next
  case False
  from show_bop_lang(2) [OF False] obtain c where c: "show_bop k = [c]" "c \<in> lang tBop"
    "bop_of_token c = Inr k" by blast
  then have "c \<noteq> ''load''" "c \<noteq> ''malloc''" by (auto simp: lang_tBop)
  with c match_bops(2) [of lhs v1 v2 k c sz] assms tokens_show [OF assms] show ?thesis
    by (simp add: printable_def normal_defs parse_bop_def)
qed

lemma parse_show_select:
  assumes "printable lhs (SSelect c vt vf)"
  shows "parse_normal_stmt line (show_stmt lhs (SSelect c vt vf)) =
    Inr (Some \<lparr>get_line = line, get_lhs = lhs, body = SSelect c vt vf\<rparr>)"
  using assms tokens_show [OF assms]
  by (simp add: printable_def normal_defs match_lines parse_select_def lang_tBop)

lemma parse_show_assert:
  assumes "printable lhs (SAssert a b)"
  shows "parse_normal_stmt line (show_stmt lhs (SAssert a b)) =
    Inr (Some \<lparr>get_line = line, get_lhs = lhs, body = SAssert a b\<rparr>)"
  using assms tokens_show [OF assms]
  by (simp add: printable_def normal_defs match_lines parse_assert_def no_rCall)

lemma call_lhs_show:
  "lhs \<le> RegSp \<Longrightarrow> call_lhs (show_reg lhs # ws) = Inr (lhs, 2)"
  "call_lhs (''call'' # ws) = Inr (RegNone, 1)"
  by (simp_all add: call_lhs_def regex_match_iff show_reg_tReg)

lemma parse_show_call:
  assumes "printable lhs (SCall f args)"
  shows "parse_normal_stmt line (show_stmt lhs (SCall f args)) =
    Inr (Some \<lparr>get_line = line, get_lhs = lhs, body = SCall f args\<rparr>)"
proof -
  have m: "regex_match (show_stmt lhs (SCall f args)) rCall"
    using match_calls(3) [OF printable_lhs [OF assms]] assms by (simp add: printable_def)
  show ?thesis
    using printable_lhs [OF assms] assms m tokens_show [OF assms]
    by (auto simp: printable_def normal_defs parse_call_def call_lhs_show lang_tBop)
qed

lemma parse_show_read:
  assumes "printable lhs SRead"
  shows "parse_normal_stmt line (show_stmt lhs SRead) =
    Inr (Some \<lparr>get_line = line, get_lhs = lhs, body = SRead\<rparr>)"
  using printable_lhs [OF assms] assms match_calls(1) [OF printable_lhs [OF assms]] tokens_show [OF assms]
  by (auto simp: printable_def normal_defs parse_read_def call_lhs_show)

lemma parse_show_write:
  assumes "printable lhs (SWrite v)"
  shows "parse_normal_stmt line (show_stmt lhs (SWrite v)) =
    Inr (Some \<lparr>get_line = line, get_lhs = lhs, body = SWrite v\<rparr>)"
proof -
  have m: "regex_match (show_stmt lhs (SWrite v)) rWrite"
    using match_calls(2) [OF printable_lhs [OF assms]] assms by (simp add: printable_def)
  show ?thesis
    using printable_lhs [OF assms] assms m tokens_show [OF assms]
    by (auto simp: printable_def normal_defs parse_write_def call_lhs_show)
qed

subsection \<open>Terminators\<close>

lemma not_normal:
  assumes "tokens s = w # ws" and "w \<notin> lang tReg"
    and "w \<notin> {''free'', ''store'', ''reset'', ''call'', ''assert_eq''}"
  shows "parse_normal_stmt line s = Inr None"
  using assms by (simp add: normal_defs no_rCall)

lemma parse_show_br:
  assumes "bb_name bb"
  shows "parse_terminator line (show_stmt RegNone (SBrUncond bb)) =
    Inr (Some \<lparr>get_line = line, get_lhs = RegNone, body = SBrUncond bb\<rparr>)"
proof -
  have p: "printable RegNone (SBrUncond bb)" using assms by (simp add: printable_def)
  from tokens_show [OF p] show ?thesis
    by (simp add: parse_terminator_def no_lines no_rRet match_lines assms parse_br_uncond_def make_stmt_def
      keyword_defs)
qed

lemma parse_show_br_cond:
  assumes "printable lhs (SBrCond c t e)"
  shows "parse_terminator line (show_stmt RegNone (SBrCond c t e)) =
    Inr (Some \<lparr>get_line = line, get_lhs = RegNone, body = SBrCond c t e\<rparr>)"
  using assms tokens_show [of RegNone "SBrCond c t e"]
  by (simp add: printable_def parse_terminator_def no_lines no_rRet match_lines parse_br_cond_def make_stmt_def
    Let_def keyword_defs)

lemma parse_show_ret:
  assumes "printable lhs (SRet v)"
  shows "parse_terminator line (show_stmt RegNone (SRet v)) =
    Inr (Some \<lparr>get_line = line, get_lhs = RegNone, body = SRet v\<rparr>)"
  using assms tokens_show [of RegNone "SRet v"]
  by (simp add: printable_def parse_terminator_def no_lines no_rRet match_lines parse_ret_def make_stmt_def
    Let_def keyword_defs)

lemma switch_cases_show:
  assumes "distinct (map fst (done @ tbl))"
  shows "switch_cases (concat (map (\<lambda>(v, bb). [u64_to_string v, bb]) tbl) @ [d]) done = Inr (done @ tbl, d)"
  using assms
proof (induction tbl arbitrary: "done")
  case (Cons e tbl)
  obtain v bb where e: "e = (v, bb)" by (cases e)
  have "v \<notin> fst ` set done" using Cons.prems e by auto
  then have "map_of done v = None" by (simp add: map_of_eq_None_iff)
  then have "\<not> case_exists done v" unfolding case_exists_def by blast
  with Cons.IH [of "done @ [e]"] Cons.prems e show ?case
    by (simp add: switch_set_bb_def)
qed simp

lemma parse_show_switch:
  assumes "printable lhs (SSwitch c tbl d)"
  shows "parse_terminator line (show_stmt RegNone (SSwitch c tbl d)) =
    Inr (Some \<lparr>get_line = line, get_lhs = RegNone, body = SSwitch c tbl d\<rparr>)"
proof -
  have "regex_match (show_stmt RegNone (SSwitch c tbl d)) rSwitch"
    using match_switch [of c tbl d] assms by (simp add: printable_def show_stmt_def)
  with assms tokens_show [of RegNone "SSwitch c tbl d"] switch_cases_show [of "[]" tbl d] show ?thesis
    by (simp add: printable_def parse_terminator_def no_lines no_rRet parse_switch_def make_stmt_def
      Let_def keyword_defs)
qed

text \<open>A printed statement is read as normal statement or as terminator, whichever it is.\<close>

lemma parse_show_normal:
  assumes "printable lhs b" and "\<not> is_terminator b"
  shows "parse_normal_stmt line (show_stmt lhs b) = Inr (Some \<lparr>get_line = line, get_lhs = lhs, body = b\<rparr>)"
proof -
  have "lhs = RegNone" if "b = SResetStack \<or> b = SResetHeap" using assms(1) that by (auto simp: printable_def)
  then show ?thesis
    using assms
    by (cases b) (simp_all add: parse_show_malloc parse_show_free parse_show_load parse_show_store
      parse_show_resets parse_show_bop parse_show_select parse_show_call parse_show_assert parse_show_read
      parse_show_write)
qed

lemma parse_show_terminator:
  assumes "printable lhs b" and "is_terminator b"
  shows "parse_normal_stmt line (show_stmt lhs b) = Inr None"
    and "parse_terminator line (show_stmt lhs b) = Inr (Some \<lparr>get_line = line, get_lhs = lhs, body = b\<rparr>)"
proof -
  have l: "lhs = RegNone" using assms by (cases b) (auto simp: printable_def)
  from tokens_show [OF assms(1)] l have t: "tokens (show_stmt lhs b) = body_tokens b" by simp
  have "\<exists>w ws. body_tokens b = w # ws \<and> w \<in> {''ret'', ''br'', ''switch''}"
    using assms(2) by (cases b) auto
  then obtain w ws where w: "body_tokens b = w # ws" "w \<in> {''ret'', ''br'', ''switch''}" by blast
  have "w \<notin> lang tReg" "w \<notin> {''free'', ''store'', ''reset'', ''call'', ''assert_eq''}" using w(2) by auto
  from not_normal [OF t [unfolded w(1)] this]
  show "parse_normal_stmt line (show_stmt lhs b) = Inr None" .
  show "parse_terminator line (show_stmt lhs b) = Inr (Some \<lparr>get_line = line, get_lhs = lhs, body = b\<rparr>)"
    using assms parse_show_br parse_show_br_cond parse_show_ret parse_show_switch unfolding l
    by (cases b) (auto simp: printable_def)
qed

text \<open>
  C12. Parsing a printed statement gives back the statement, for every statement the format can
  express: each line matches the pattern of its statement and no pattern the parser tries
  before, and its tokens are read in the right places.
\<close>

theorem parse_show_roundtrip:
  assumes "printable lhs b"
  shows "rbind (parse_normal_stmt line (show_stmt lhs b)) (\<lambda>r. case r of
      Some st \<Rightarrow> Inr (Some st)
    | None \<Rightarrow> parse_terminator line (show_stmt lhs b)) =
    Inr (Some \<lparr>get_line = line, get_lhs = lhs, body = b\<rparr>)"
  using parse_show_normal [OF assms] parse_show_terminator [OF assms] by (cases "is_terminator b") simp_all

theorem parse_show_roundtrip_witness:
  "rbind (parse_normal_stmt 7 ''r1 = load 4 sp 8'') (\<lambda>r. case r of
      Some st \<Rightarrow> Inr (Some st)
    | None \<Rightarrow> parse_terminator 7 ''r1 = load 4 sp 8'') =
    Inr (Some \<lparr>get_line = 7, get_lhs = 0, body = SLoad MSize4 (VReg 32) 8\<rparr>)"
proof -
  have p: "printable 0 (SLoad MSize4 (VReg 32) 8)" by (simp add: printable_def reg_numbers)
  have d: "digit_char 1 = CHR ''1''" "digit_char 8 = CHR ''8''" by code_simp+
  have s: "show_stmt 0 (SLoad MSize4 (VReg 32) 8) = ''r1 = load 4 sp 8''"
    by (simp add: show_stmt_def show_reg_def reg_numbers nat_to_string_small u64_to_string_def d [simplified])
  from parse_show_roundtrip [OF p, of 7] show ?thesis unfolding s .
qed

end
