(* ===== verification/Parser_Theorems.thy ===== *)
theory Parser_Theorems
  imports Parser_Props
begin

text \<open>
  The invariant of the parsing state machine and what it gives for the result: an accepted
  text is a well-formed program, a rejected one is rejected with a syntax error.
\<close>

subsection \<open>Blocks under construction\<close>

definition open_block :: "stmt list \<Rightarrow> bool" where
  "open_block b \<longleftrightarrow> b \<noteq> [] \<and> (\<forall>st \<in> set b. stmt_ok st \<and> \<not> is_terminator (body st))"

lemma block_ok_append:
  "\<lbrakk> \<forall>st \<in> set b. stmt_ok st \<and> \<not> is_terminator (body st); block_ok b' \<rbrakk> \<Longrightarrow> block_ok (b @ b')"
  by (induction b) auto

lemma open_block_append:
  assumes "open_block b" "stmt_ok st"
  shows "is_terminator (body st) \<Longrightarrow> block_ok (b @ [st])"
    and "\<not> is_terminator (body st) \<Longrightarrow> open_block (b @ [st])"
  using assms by (auto simp: open_block_def intro!: block_ok_append)

definition complete :: "func \<Rightarrow> bool" where
  "complete f \<longleftrightarrow> func_ok f \<and> get_first_bb f \<noteq> None"

definition blocks_ok :: "string set \<Rightarrow> func \<Rightarrow> bool" where
  "blocks_ok S f \<longleftrightarrow> (\<forall>bb b. bb_map f bb = Some b \<and> bb \<notin> S \<longrightarrow> block_ok b)"

definition nargs_ok :: "func \<Rightarrow> bool" where
  "nargs_ok f \<longleftrightarrow> 0 \<le> fn_nargs f \<and> fn_nargs f \<le> 16"

lemma func_ok_iff: "func_ok f \<longleftrightarrow> nargs_ok f \<and> blocks_ok {} f"
  by (auto simp: func_ok_def nargs_ok_def blocks_ok_def ran_def)

text \<open>What the current function has in each state of the parser.\<close>

definition current_ok :: "parser_state \<Rightarrow> string \<Rightarrow> func \<Rightarrow> bool" where
  "current_ok q bb f \<longleftrightarrow> nargs_ok f \<and>
     (case q of
        PSBegin \<Rightarrow> True
      | PSStartFunction \<Rightarrow> bb_map f = Map.empty
      | PSStartBB \<Rightarrow> blocks_ok {} f \<and> (first_bb f = bb \<or> get_first_bb f \<noteq> None)
      | PSNormal \<Rightarrow> blocks_ok {bb} f \<and> get_first_bb f \<noteq> None \<and> (\<exists>b. bb_map f bb = Some b \<and> open_block b)
      | PSEndBB \<Rightarrow> blocks_ok {} f \<and> get_first_bb f \<noteq> None
      | PSEndFunction \<Rightarrow> blocks_ok {} f \<and> get_first_bb f \<noteq> None)"

definition parser_ok :: "parser \<Rightarrow> bool" where
  "parser_ok p \<longleftrightarrow>
     (\<forall>nm f. ps_program p nm = Some f \<and> nm \<noteq> ps_function p \<longrightarrow> complete f) \<and>
     (if ps p = PSBegin then ps_program p = Map.empty
      else ps_program p (ps_function p) \<noteq> None \<and> current_ok (ps p) (ps_bb p) (curr_function p))"

lemma init_parser_ok: "parser_ok init_parser"
  by (simp add: parser_ok_def init_parser_def)

text \<open>Replacing the current function.\<close>

lemma put_function_ok:
  assumes ok: "parser_ok p" and q: "q \<noteq> PSBegin" and f: "current_ok q bb f"
  shows "parser_ok ((put_function f p)\<lparr>ps_bb := bb, ps := q\<rparr>)"
  using assms by (auto simp: parser_ok_def put_function_def curr_function_def)

lemma put_function_same_bb:
  assumes "parser_ok p" and "q \<noteq> PSBegin" and "current_ok q (ps_bb p) f"
  shows "parser_ok ((put_function f p)\<lparr>ps := q\<rparr>)"
  using put_function_ok [OF assms] by (simp add: put_function_def)

lemma current_okD: "\<lbrakk> parser_ok p; ps p \<noteq> PSBegin \<rbrakk> \<Longrightarrow> current_ok (ps p) (ps_bb p) (curr_function p)"
  by (simp add: parser_ok_def)

lemma new_current_ok:
  assumes ok: "parser_ok p" and q: "ps p = PSBegin \<or> ps p = PSEndFunction"
    and f: "bb_map f = Map.empty \<and> 0 \<le> fn_nargs f \<and> fn_nargs f \<le> 16"
    and fresh: "ps_program p (fname f) = None"
  shows "parser_ok (p\<lparr>ps_program := fst (set_function (fname f) f (ps_program p)),
    ps_function := fname f, ps := PSStartFunction\<rparr>)"
proof -
  have others: "complete g" if "ps_program p nm = Some g" for nm g
  proof (cases "ps p = PSBegin")
    case True
    with ok that show ?thesis by (simp add: parser_ok_def)
  next
    case False
    with q have e: "ps p = PSEndFunction" by simp
    show ?thesis
    proof (cases "nm = ps_function p")
      case True
      with current_okD [OF ok False] e that show ?thesis
        by (simp add: current_ok_def curr_function_def complete_def func_ok_iff)
    next
      case False
      with ok that show ?thesis by (auto simp: parser_ok_def)
    qed
  qed
  with f fresh show ?thesis
    by (auto simp: parser_ok_def set_function_def curr_function_def current_ok_def nargs_ok_def)
qed

subsection \<open>Each state keeps the invariant\<close>

lemma at_begin_sound:
  assumes ok: "parser_ok p" and q: "ps p = PSBegin"
  shows "sound parser_ok (at_begin instr p)"
proof (cases "regex_match instr rStartFunction")
  case True
  have e: "ps_program p = Map.empty" using ok q by (simp add: parser_ok_def)
  have new: "parser_ok (p\<lparr>ps_program := fst (set_function (fname f) f (ps_program p)),
      ps_function := fname f, ps := PSStartFunction\<rparr>)"
    if "bb_map f = Map.empty \<and> 0 \<le> fn_nargs f \<and> fn_nargs f \<le> 16" for f
    by (rule new_current_ok [OF ok _ that]) (simp_all add: q e)
  show ?thesis
    unfolding at_begin_def using True
    by (auto intro!: sound_rbind [OF parse_start_function_sound [OF True]] new)
qed (simp add: at_begin_def)

lemma at_end_function_sound:
  assumes ok: "parser_ok p" and q: "ps p = PSEndFunction"
  shows "sound parser_ok (at_end_function instr p)"
proof (cases "regex_match instr rStartFunction")
  case True
  have s: "snd (set_function nm f P) \<longleftrightarrow> P nm = None" for nm f P
    by (simp add: set_function_def)
  show ?thesis
    unfolding at_end_function_def using True
    by (auto intro!: sound_rbind [OF parse_start_function_sound [OF True]] new_current_ok [OF ok] simp: q s)
qed (simp add: at_end_function_def)

lemma at_start_function_sound:
  assumes ok: "parser_ok p" and q: "ps p = PSStartFunction"
  shows "sound parser_ok (at_start_function instr p)"
  using current_okD [OF ok] q
  by (auto simp: at_start_function_def Let_def current_ok_def set_first_bb_def nargs_ok_def blocks_ok_def
    intro!: put_function_ok [OF ok])

lemma at_start_bb_sound:
  assumes ok: "parser_ok p" and q: "ps p = PSStartBB"
  shows "sound parser_ok (at_start_bb line instr p)"
proof -
  let ?f = "curr_function p"
  have f: "nargs_ok ?f" "blocks_ok {} ?f" "first_bb ?f = ps_bb p \<or> get_first_bb ?f \<noteq> None"
    using current_okD [OF ok] q by (simp_all add: current_ok_def)
  show ?thesis
    unfolding at_start_bb_def
  proof (rule sound_rbind [OF parse_normal_stmt_sound])
    fix r
    assume r: "option_ok False r"
    show "sound parser_ok (case r of
        Some st \<Rightarrow>
          (let (f, fresh) = set_bb (ps_bb p) [st] ?f
           in if \<not> fresh then Inl (Syntax_error ''duplicated basic block'')
              else Inr ((put_function f p)\<lparr>ps := PSNormal\<rparr>))
      | None \<Rightarrow>
          rbind (parse_terminator line instr) (\<lambda>r'. case r' of
            Some st \<Rightarrow> Inr ((put_function (fst (set_bb (ps_bb p) [st] ?f)) p)\<lparr>ps := PSEndBB\<rparr>)
          | None \<Rightarrow> Inl (Syntax_error ''instruction expected'')))"
    proof (cases r)
      case (Some st)
      then have st: "stmt_ok st" "\<not> is_terminator (body st)" using r by (simp_all add: option_ok_def)
      show ?thesis
        using Some st f
        by (auto simp: set_bb_def current_ok_def blocks_ok_def nargs_ok_def get_first_bb_def open_block_def
          intro!: put_function_same_bb [OF ok])
    next
      case None
      have "current_ok PSEndBB (ps_bb p) (fst (set_bb (ps_bb p) [st] ?f))"
        if "stmt_ok st" "is_terminator (body st)" for st
        using that f by (auto simp: set_bb_def current_ok_def blocks_ok_def nargs_ok_def get_first_bb_def)
      with None show ?thesis
        by (auto intro!: sound_rbind [OF parse_terminator_sound] put_function_same_bb [OF ok]
          simp: option_ok_def split: option.splits)
    qed
  qed
qed

lemma append_stmt_sound:
  assumes ok: "parser_ok p" and q: "ps p = PSNormal" and st: "stmt_ok st"
  shows "is_terminator (body st) \<Longrightarrow> parser_ok ((append_stmt st p)\<lparr>ps := PSEndBB\<rparr>)"
    and "\<not> is_terminator (body st) \<Longrightarrow> parser_ok ((append_stmt st p)\<lparr>ps := PSNormal\<rparr>)"
proof -
  let ?f = "curr_function p"
  obtain b where f: "nargs_ok ?f" "blocks_ok {ps_bb p} ?f" "get_first_bb ?f \<noteq> None"
    "bb_map ?f (ps_bb p) = Some b" "open_block b"
    using current_okD [OF ok] q by (auto simp: current_ok_def)
  let ?g = "?f\<lparr>bb_map := (bb_map ?f)(ps_bb p \<mapsto> b @ [st])\<rparr>"
  have a: "append_stmt st p = put_function ?g p" using f(4) by (simp add: append_stmt_def Let_def)
  have fb: "get_first_bb ?g \<noteq> None" using f(3) by (auto simp: get_first_bb_def)
  note o = open_block_append [OF f(5) st]
  show "is_terminator (body st) \<Longrightarrow> parser_ok ((append_stmt st p)\<lparr>ps := PSEndBB\<rparr>)"
    unfolding a using f(1,2) fb o(1)
    by (intro put_function_same_bb [OF ok]) (auto simp: current_ok_def nargs_ok_def blocks_ok_def)
  show "\<not> is_terminator (body st) \<Longrightarrow> parser_ok ((append_stmt st p)\<lparr>ps := PSNormal\<rparr>)"
    unfolding a using f(1,2) fb o(2)
    by (intro put_function_same_bb [OF ok]) (auto simp: current_ok_def nargs_ok_def blocks_ok_def)
qed

lemma at_normal_sound:
  assumes ok: "parser_ok p" and q: "ps p = PSNormal"
  shows "sound parser_ok (at_normal line instr p)"
  unfolding at_normal_def
proof (rule sound_rbind [OF parse_normal_stmt_sound])
  fix r
  assume r: "option_ok False r"
  show "sound parser_ok (case r of
      Some st \<Rightarrow> Inr ((append_stmt st p)\<lparr>ps := PSNormal\<rparr>)
    | None \<Rightarrow>
        rbind (parse_terminator line instr) (\<lambda>r'. case r' of
          Some st \<Rightarrow> Inr ((append_stmt st p)\<lparr>ps := PSEndBB\<rparr>)
        | None \<Rightarrow> Inl (Syntax_error ''instruction expected'')))"
  proof (cases r)
    case (Some st)
    with r append_stmt_sound(2) [OF ok q, of st] show ?thesis by (simp add: option_ok_def)
  next
    case None
    have "parser_ok ((append_stmt st p)\<lparr>ps := PSEndBB\<rparr>)"
      if "option_ok True (Some st)" for st
      using that append_stmt_sound(1) [OF ok q, of st] by (simp add: option_ok_def)
    with None show ?thesis
      by (auto intro!: sound_rbind [OF parse_terminator_sound] split: option.splits)
  qed
qed

lemma at_end_bb_sound:
  assumes ok: "parser_ok p" and q: "ps p = PSEndBB"
  shows "sound parser_ok (at_end_bb instr p)"
  using ok q current_okD [OF ok]
  by (auto simp: at_end_bb_def parser_ok_def current_ok_def curr_function_def)

lemma parse_line_sound: "parser_ok p \<Longrightarrow> sound parser_ok (parse_line line instr p)"
  by (cases "ps p") (simp_all add: parse_line_def at_begin_sound at_start_function_sound at_start_bb_sound
    at_normal_sound at_end_bb_sound at_end_function_sound)

lemma parse_lines_sound:
  "parser_ok p \<Longrightarrow> case parse_lines line ls p of Inl (n, e) \<Rightarrow> is_syntax e | Inr (n, p') \<Rightarrow> parser_ok p'"
proof (induction ls arbitrary: line p)
  case (Cons instr ls)
  show ?case
  proof (cases "parse_line (line + 1) instr p")
    case (Inl e)
    with sound_Inl [OF parse_line_sound [OF Cons.prems]] show ?thesis by auto
  next
    case (Inr p')
    with sound_Inr [OF parse_line_sound [OF Cons.prems]] have "parser_ok p'" by auto
    with Cons.IH Inr show ?thesis by simp
  qed
qed simp

subsection \<open>The result of the parser\<close>

lemma parse_accepts_well_formed:
  assumes "parse text = Inr p"
  shows "program_ok p \<and> (\<forall>f \<in> ran p. get_first_bb f \<noteq> None) \<and>
    (\<exists>f. get_function p ''main'' = Some f \<and> fn_nargs f = 0)"
proof -
  from assms obtain n q where q: "parse_lines 0 (lines_of text) init_parser = Inr (n, q)"
    "ps q = PSEndFunction" "p = ps_program q" "\<exists>f. get_function p ''main'' = Some f \<and> fn_nargs f = 0"
    by (auto simp: parse_def result_iff split: if_splits option.splits)
  have ok: "parser_ok q" using parse_lines_sound [OF init_parser_ok, of 0 "lines_of text"] q(1) by simp
  have "complete f" if "p nm = Some f" for nm f
  proof (cases "nm = ps_function q")
    case True
    with current_okD [OF ok] q that show ?thesis
      by (simp add: current_ok_def curr_function_def complete_def func_ok_iff)
  next
    case False
    with ok q(3) that show ?thesis by (auto simp: parser_ok_def)
  qed
  then show ?thesis using q(4) by (auto simp: program_ok_def complete_def ran_def)
qed

lemma parse_fault_syntax:
  "case parse text of Inr p \<Rightarrow> True | Inl (line, e) \<Rightarrow> \<exists>msg. e = Syntax_error msg"
  using parse_lines_sound [OF init_parser_ok, of 0 "lines_of text"]
  by (auto simp: parse_def is_syntax_def split: sum.splits option.splits if_splits)

end
