(* ===== verification/Roundtrip_Program.thy ===== *)
theory Roundtrip_Program
  imports Roundtrip Parser_Theorems
begin

text \<open>
  The round trip of whole programs: the parser, run on the printed text of a list of functions,
  yields exactly those functions. A source block lists left-hand sides and bodies; the line
  numbers of the parsed statements are the lines they were printed on.
\<close>

type_synonym src_block = "string \<times> (reg \<times> stmt_body) list"

record src_func =
  sf_name :: string
  sf_nargs :: nat
  sf_blocks :: "src_block list"

definition show_block :: "src_block \<Rightarrow> string list" where
  "show_block blk = (fst blk @ '':'') # map (\<lambda>(lhs, b). show_stmt lhs b) (snd blk)"

definition show_header :: "src_func \<Rightarrow> string" where
  "show_header f = ''start '' @ sf_name f @ '' '' @ nat_to_string (sf_nargs f) @ '':''"

definition show_func :: "src_func \<Rightarrow> string list" where
  "show_func f = show_header f # concat (map show_block (sf_blocks f)) @ [''end '' @ sf_name f]"

definition show_program :: "src_func list \<Rightarrow> string list" where
  "show_program fs = concat (map show_func fs)"

definition unlines :: "string list \<Rightarrow> string" where
  "unlines ls = concat (map (\<lambda>l. l @ [newline]) ls)"

text \<open>The source the printer covers: the well-formed programs of the parser.\<close>

fun src_block_ok :: "(reg \<times> stmt_body) list \<Rightarrow> bool" where
  "src_block_ok [] = False"
| "src_block_ok ((lhs, b) # rest) =
     (printable lhs b \<and> (if is_terminator b then rest = [] else src_block_ok rest))"

definition src_func_ok :: "src_func \<Rightarrow> bool" where
  "src_func_ok f \<longleftrightarrow> fn_name (sf_name f) \<and> sf_name f \<notin> {''read'', ''write''} \<and> sf_nargs f \<le> 16 \<and>
     sf_blocks f \<noteq> [] \<and> distinct (map fst (sf_blocks f)) \<and>
     (\<forall>(bb, b) \<in> set (sf_blocks f). bb_name bb \<and> src_block_ok b)"

definition src_ok :: "src_func list \<Rightarrow> bool" where
  "src_ok fs \<longleftrightarrow> distinct (map sf_name fs) \<and> (\<forall>f \<in> set fs. src_func_ok f)"

text \<open>What the parser builds, with the line of the first statement.\<close>

fun number_stmts :: "int \<Rightarrow> (reg \<times> stmt_body) list \<Rightarrow> stmt list" where
  "number_stmts n [] = []"
| "number_stmts n ((lhs, b) # rest) = \<lparr>get_line = n, get_lhs = lhs, body = b\<rparr> # number_stmts (n + 1) rest"

fun number_blocks :: "int \<Rightarrow> src_block list \<Rightarrow> (string \<times> stmt list) list" where
  "number_blocks n [] = []"
| "number_blocks n ((bb, b) # rest) =
     (bb, number_stmts (n + 2) b) # number_blocks (n + 1 + int (length b)) rest"

definition number_func :: "int \<Rightarrow> src_func \<Rightarrow> func" where
  "number_func n f =
     \<lparr>fname = sf_name f, fn_nargs = int (sf_nargs f), first_bb = fst (hd (sf_blocks f)),
      bb_map = map_of (number_blocks (n + 1) (sf_blocks f))\<rparr>"

fun number_program :: "int \<Rightarrow> src_func list \<Rightarrow> (string \<times> func) list" where
  "number_program n [] = []"
| "number_program n (f # fs) =
     (sf_name f, number_func n f) # number_program (n + int (length (show_func f))) fs"

subsection \<open>Lines of a text\<close>

lemma lines_of_line:
  assumes "newline \<notin> set l"
  shows "lines_of (l @ newline # s) = l # lines_of s"
proof (cases l)
  case Nil
  then show ?thesis by simp
next
  case (Cons c t)
  have "takeWhile (\<lambda>d. d \<noteq> newline) (l @ newline # s) = l" "dropWhile (\<lambda>d. d \<noteq> newline) (l @ newline # s) = newline # s"
    using assms by (auto simp: takeWhile_append dropWhile_append)
  with Cons show ?thesis by simp
qed

lemma lines_of_unlines: "\<forall>l \<in> set ls. newline \<notin> set l \<Longrightarrow> lines_of (unlines ls) = ls"
  by (induction ls) (simp_all add: unlines_def lines_of_line)

lemma newline_space: "is_space newline" "newline \<noteq> CHR ''=''"
  by (simp_all add: newline_def is_space_def)

lemma good_no_newline: "good w \<Longrightarrow> newline \<notin> set w"
  using newline_space by (auto simp: good_def word_char_def)

lemma unwords_no_newline: "\<forall>w \<in> set ws. good w \<Longrightarrow> newline \<notin> set (unwords ws)"
  by (induction ws rule: unwords.induct) (auto simp: newline_def dest: good_no_newline [unfolded newline_def])

lemma show_stmt_no_newline:
  assumes "printable lhs b"
  shows "newline \<notin> set (show_stmt lhs b)"
proof -
  have "\<forall>w \<in> set (body_tokens b). good w" using assms body_tokens_good by (auto simp: printable_def)
  then have "newline \<notin> set (unwords (body_tokens b))" by (rule unwords_no_newline)
  moreover have "lhs \<noteq> RegNone \<Longrightarrow> newline \<notin> set (show_reg lhs)"
    using printable_lhs [OF assms] good_reg good_no_newline by blast
  ultimately show ?thesis by (auto simp: show_stmt_def newline_def)
qed

text \<open>A line whose first token is not a comment is not blank.\<close>

lemma not_blank:
  assumes "tokens s = w # ws" and "hd w \<noteq> CHR '';''"
  shows "\<not> blank_line s"
proof
  assume "blank_line s"
  then consider "s \<in> lang tESpace" | "s \<in> lang rComment" by (auto simp: blank_line_def regex_match_iff)
  then show False
  proof cases
    case 1
    with assms(1) show False by (simp add: lang_tESpace)
  next
    case 2
    then obtain a x b where s: "s = a @ (CHR '';'' # x) @ b" "\<forall>c \<in> set a. is_space c"
      by (auto simp: rComment_def lang_spaced)
    let ?r = "CHR '';'' # x @ b"
    have "word_char (CHR '';'')" by (simp add: word_char_def is_space_def)
    then have "replace_assign ([CHR '';''] @ (x @ b)) = [CHR '';''] @ replace_assign (x @ b)"
      by (intro replace_assign_word) simp
    then have "replace_assign ?r = CHR '';'' # replace_assign (x @ b)" by simp
    then have "tokens ?r = words_of (CHR '';'' # replace_assign (x @ b))" by (simp only: tokens_def)
    moreover have "\<exists>v vs. words_of (CHR '';'' # t) = (CHR '';'' # v) # vs" for t
      by (subst words_of.simps) (simp add: extract_word_def is_space_def Let_def)
    ultimately obtain v vs where "tokens ?r = (CHR '';'' # v) # vs" by metis
    moreover have "tokens s = tokens ?r" using s by simp
    ultimately show False using assms by simp
  qed
qed

lemma show_stmt_not_blank:
  assumes "printable lhs b"
  shows "\<not> blank_line (show_stmt lhs b)"
proof (cases "lhs = RegNone")
  case True
  then have "\<exists>w ws. body_tokens b = w # ws \<and> hd w \<noteq> CHR '';''"
    using assms by (cases b) (auto simp: printable_def reg_numbers)
  then show ?thesis using not_blank tokens_show [OF assms] True by auto
next
  case False
  have "hd (show_reg lhs) \<noteq> CHR '';''" by (simp add: show_reg_def)
  with False show ?thesis using not_blank tokens_show [OF assms] by auto
qed

subsection \<open>Header lines\<close>

lemma nat_to_string_tArgN: "n \<le> 16 \<Longrightarrow> nat_to_string n \<in> lang tArgN"
  by (cases "n < 10")
    (auto simp: lang_tArgN nat_to_string_small nat_to_string_two char_between_def of_char_digit_char
      digit_char_props)

lemma good_colon: "good w \<Longrightarrow> good (w @ '':'')"
  by (auto simp: good_def word_char_def is_space_def)

lemma good_nat: "good (nat_to_string n)"
  using nat_to_string_digits [of n] by (auto simp: good_def word_char_simps)

lemma gap_blank [simp]: "gap (CHR '' '' # s)"
  by (simp add: is_space_def)

lemma tokens_blank [simp]: "tokens (CHR '' '' # s) = tokens s"
  by (simp add: is_space_def)

lemma tokens_last: "good w \<Longrightarrow> tokens w = [w]"
  using tokens_word [of w "[]"] by simp

lemma header_tokens:
  assumes "fn_name (sf_name f)"
  shows "tokens (show_header f) = [''start'', sf_name f, nat_to_string (sf_nargs f) @ '':'']"
proof -
  have g: "good ''start''" by (simp add: good_def word_char_def is_space_def)
  show ?thesis
    using tokens_word [OF g, of "'' '' @ sf_name f @ '' '' @ nat_to_string (sf_nargs f) @ '':''"]
      tokens_word [OF good_fn [OF assms], of "'' '' @ nat_to_string (sf_nargs f) @ '':''"]
      tokens_last [OF good_colon [OF good_nat]]
    by (simp add: show_header_def)
qed

lemma header_match:
  assumes "fn_name (sf_name f)" "sf_nargs f \<le> 16"
  shows "regex_match (show_header f) rStartFunction"
proof -
  have "''start'' \<in> lang tStart" "sf_name f \<in> lang tName" "[] \<in> lang tESpace" "'':'' \<in> lang (lit '':'')"
    using assms(1) by (simp_all add: tStart_def fn_name_def regex_match_iff lang_tESpace)
  then have "''start'' @ '' '' @ sf_name f @ '' '' @ nat_to_string (sf_nargs f) @ [] @ '':'' @ []
      \<in> lang (seq [tStart, tSpace, tName, tSpace, tArgN, tESpace, lit '':''])"
    using nat_to_string_tArgN [OF assms(2)] by (intro lang_seq_intros)
  from match_spaced [OF this] show ?thesis by (simp add: rStartFunction_def show_header_def)
qed

lemma header_parse:
  assumes "fn_name (sf_name f)" "sf_nargs f \<le> 16"
  shows "parse_start_function (show_header f) = Inr (new_function (sf_name f) (int (sf_nargs f)))"
proof -
  have "stoi (nat_to_string (sf_nargs f) @ '':'') = Some (int (sf_nargs f))"
    using stoi_digits [of "nat_to_string (sf_nargs f)" "'':''"] nat_to_string_digits [of "sf_nargs f"] assms(2)
    by (simp add: nat_of_digits_to_string is_digit_def)
  then show ?thesis by (simp add: parse_start_function_def header_tokens [OF assms(1)])
qed

lemma bb_line:
  assumes "bb_name bb"
  shows "regex_match (bb @ '':'') rBBStart" "parse_bbname (bb @ '':'') = bb" "\<not> blank_line (bb @ '':'')"
    "newline \<notin> set (bb @ '':'')"
proof -
  have t: "tokens (bb @ '':'') = [bb @ '':'']" by (rule tokens_last [OF good_colon [OF good_bb [OF assms]]])
  have bb: "bb \<in> lang tBBName" "[] \<in> lang tESpace" "'':'' \<in> lang (lit '':'')"
    using assms by (simp_all add: bb_name_def regex_match_iff lang_tESpace)
  then have "bb @ [] @ '':'' @ [] \<in> lang (seq [tBBName, tESpace, lit '':''])" by (intro lang_seq_intros)
  from match_spaced [OF this] show "regex_match (bb @ '':'') rBBStart" by (simp add: rBBStart_def)
  show "parse_bbname (bb @ '':'') = bb" by (simp add: parse_bbname_def t)
  have "hd (bb @ '':'') \<noteq> CHR '';''" using bb(1) by (auto simp: tBBName_def)
  from not_blank [OF t this] show "\<not> blank_line (bb @ '':'')" .
  show "newline \<notin> set (bb @ '':'')" using good_no_newline [OF good_bb [OF assms]] by (simp add: newline_def)
qed

lemma end_line:
  assumes "fn_name nm"
  shows "\<not> regex_match (''end '' @ nm) rBBStart" "regex_match (''end '' @ nm) rEndFunction"
    "parse_end_function (''end '' @ nm) nm" "\<not> blank_line (''end '' @ nm)" "newline \<notin> set (''end '' @ nm)"
proof -
  have g: "good ''end''" by (simp add: good_def word_char_def is_space_def)
  have t: "tokens (''end '' @ nm) = [''end'', nm]"
    using tokens_word [OF g, of "'' '' @ nm"] tokens_last [OF good_fn [OF assms]] by simp
  have no: "''end '' @ nm \<noteq> a @ CHR ''.'' # y" if "\<forall>c \<in> set a. is_space c" for a y
    using that by (cases a) (auto simp: is_space_def)
  show "\<not> regex_match (''end '' @ nm) rBBStart"
  proof
    assume "regex_match (''end '' @ nm) rBBStart"
    then obtain a y where "''end '' @ nm = a @ CHR ''.'' # y" "\<forall>c \<in> set a. is_space c"
      by (auto simp: rBBStart_def regex_match_iff lang_spaced tBBName_def)
    with no show False by blast
  qed
  have "''end'' \<in> lang tEnd" "nm \<in> lang tName"
    using assms by (simp_all add: tEnd_def fn_name_def regex_match_iff)
  then have "''end'' @ '' '' @ nm @ [] \<in> lang (seq [tEnd, tSpace, tName])" by (intro lang_seq_intros)
  from match_spaced [OF this] show "regex_match (''end '' @ nm) rEndFunction" by (simp add: rEndFunction_def)
  show "parse_end_function (''end '' @ nm) nm" 
    unfolding parse_end_function_def t by (simp add: tok_def)
  show "\<not> blank_line (''end '' @ nm)" by (rule not_blank [OF t]) simp
  show "newline \<notin> set (''end '' @ nm)" using good_no_newline [OF good_fn [OF assms]] by (simp add: newline_def)
qed

subsection \<open>The state machine on printed lines\<close>

definition pst :: "parser_state \<Rightarrow> program \<Rightarrow> string \<Rightarrow> func \<Rightarrow> string \<Rightarrow> parser" where
  "pst q P nm f bb = \<lparr>ps = q, ps_program = P(nm \<mapsto> f), ps_function = nm, ps_bb = bb\<rparr>"

lemma pst_simps [simp]:
  "ps (pst q P nm f bb) = q"
  "ps_bb (pst q P nm f bb) = bb"
  "ps_function (pst q P nm f bb) = nm"
  "ps_program (pst q P nm f bb) = P(nm \<mapsto> f)"
  "curr_function (pst q P nm f bb) = f"
  "put_function g (pst q P nm f bb) = pst q P nm g bb"
  "(pst q P nm f bb)\<lparr>ps := q'\<rparr> = pst q' P nm f bb"
  "(pst q P nm f bb)\<lparr>ps_bb := bb'\<rparr> = pst q P nm f bb'"
  by (simp_all add: pst_def curr_function_def put_function_def)

definition put_block :: "string \<Rightarrow> stmt list \<Rightarrow> func \<Rightarrow> func" where
  "put_block bb b f = f\<lparr>bb_map := (bb_map f)(bb \<mapsto> b)\<rparr>"

lemma put_block_simps [simp]:
  "bb_map (put_block bb b f) = (bb_map f)(bb \<mapsto> b)"
  "put_block bb b (put_block bb b' f) = put_block bb b f"
  "first_bb (put_block bb b f) = first_bb f" "fname (put_block bb b f) = fname f"
  "fn_nargs (put_block bb b f) = fn_nargs f"
  by (simp_all add: put_block_def)

abbreviation show_lines :: "(reg \<times> stmt_body) list \<Rightarrow> string list" where
  "show_lines \<equiv> map (\<lambda>(lhs, b). show_stmt lhs b)"

lemma line_normal:
  assumes "printable lhs b" and "bb_map f bb = Some blk"
  shows "parse_line n (show_stmt lhs b) (pst PSNormal P nm f bb) =
    Inr (pst (if is_terminator b then PSEndBB else PSNormal) P nm
      (put_block bb (blk @ [\<lparr>get_line = n, get_lhs = lhs, body = b\<rparr>]) f) bb)"
  using assms show_stmt_not_blank [OF assms(1)] parse_show_normal [OF assms(1)] parse_show_terminator [OF assms(1)]
  by (simp add: parse_line_def at_normal_def append_stmt_def Let_def put_block_def)

lemma line_start_bb:
  assumes "printable lhs b" and "bb_map f bb = None"
  shows "parse_line n (show_stmt lhs b) (pst PSStartBB P nm f bb) =
    Inr (pst (if is_terminator b then PSEndBB else PSNormal) P nm
      (put_block bb [\<lparr>get_line = n, get_lhs = lhs, body = b\<rparr>] f) bb)"
  using assms show_stmt_not_blank [OF assms(1)] parse_show_normal [OF assms(1)] parse_show_terminator [OF assms(1)]
  by (simp add: parse_line_def at_start_bb_def set_bb_def put_block_def)

lemma lines_normal:
  "\<lbrakk> src_block_ok ss; bb_map f bb = Some blk \<rbrakk> \<Longrightarrow>
   parse_lines n (show_lines ss @ rest) (pst PSNormal P nm f bb) =
   parse_lines (n + int (length ss)) rest (pst PSEndBB P nm (put_block bb (blk @ number_stmts (n + 1) ss) f) bb)"
proof (induction ss arbitrary: n f blk)
  case (Cons x ss)
  obtain lhs b where x: "x = (lhs, b)" by (cases x)
  have pr: "printable lhs b" using Cons.prems x by (auto split: if_splits)
  note step = line_normal [OF pr Cons.prems(2), of "n + 1" P nm]
  show ?case
  proof (cases "is_terminator b")
    case True
    then have "ss = []" using Cons.prems x by simp
    with x step True show ?thesis by simp
  next
    case False
    then have ss: "src_block_ok ss" using Cons.prems x by simp
    let ?st = "\<lparr>get_line = n + 1, get_lhs = lhs, body = b\<rparr>"
    from Cons.IH [OF ss, of "put_block bb (blk @ [?st]) f" "blk @ [?st]" "n + 1"] x step False show ?thesis
      by (simp add: algebra_simps)
  qed
qed simp

lemma lines_block:
  assumes "src_block_ok ss" and "bb_map f bb = None"
  shows "parse_lines n (show_lines ss @ rest) (pst PSStartBB P nm f bb) =
    parse_lines (n + int (length ss)) rest (pst PSEndBB P nm (put_block bb (number_stmts (n + 1) ss) f) bb)"
proof (cases ss)
  case Nil
  with assms show ?thesis by simp
next
  case (Cons x rs)
  obtain lhs b where x: "x = (lhs, b)" by (cases x)
  have pr: "printable lhs b" using assms Cons x by (auto split: if_splits)
  note step = line_start_bb [OF pr assms(2), of "n + 1" P nm]
  let ?st = "\<lparr>get_line = n + 1, get_lhs = lhs, body = b\<rparr>"
  show ?thesis
  proof (cases "is_terminator b")
    case True
    then have "rs = []" using assms Cons x by simp
    with Cons x step True show ?thesis by simp
  next
    case False
    then have "src_block_ok rs" using assms Cons x by simp
    from lines_normal [OF this, of "put_block bb [?st] f" bb "[?st]" "n + 1"] Cons x step False show ?thesis
      by (simp add: algebra_simps)
  qed
qed

text \<open>All blocks of a function but the first.\<close>

fun put_blocks :: "(string \<times> stmt list) list \<Rightarrow> func \<Rightarrow> func" where
  "put_blocks [] f = f"
| "put_blocks ((bb, b) # bs) f = put_blocks bs (put_block bb b f)"

definition block_src_ok :: "src_block \<Rightarrow> bool" where
  "block_src_ok blk \<longleftrightarrow> bb_name (fst blk) \<and> src_block_ok (snd blk)"

lemma lines_blocks:
  "\<lbrakk> \<forall>blk \<in> set bs. block_src_ok blk; distinct (map fst bs); \<forall>blk \<in> set bs. bb_map f (fst blk) = None \<rbrakk> \<Longrightarrow>
   \<exists>bb'. parse_lines n (concat (map show_block bs) @ rest) (pst PSEndBB P nm f bb) =
     parse_lines (n + int (length (concat (map show_block bs)))) rest
       (pst PSEndBB P nm (put_blocks (number_blocks n bs) f) bb')"
proof (induction bs arbitrary: n f bb)
  case (Cons blk bs)
  obtain l ss where blk: "blk = (l, ss)" by (cases blk)
  have l: "bb_name l" "src_block_ok ss" "bb_map f l = None" using Cons.prems blk by (auto simp: block_src_ok_def)
  have 1: "parse_line (n + 1) (l @ '':'') (pst PSEndBB P nm f bb) = Inr (pst PSStartBB P nm f l)"
    using bb_line [OF l(1)] by (simp add: parse_line_def at_end_bb_def)
  let ?f = "put_block l (number_stmts (n + 2) ss) f"
  let ?r = "concat (map show_block bs) @ rest"
  have 2: "parse_lines (n + 1) (show_lines ss @ ?r) (pst PSStartBB P nm f l) =
      parse_lines (n + 1 + int (length ss)) ?r (pst PSEndBB P nm ?f l)"
    using lines_block [OF l(2,3), of "n + 1" ?r P nm] by (simp add: add.commute)
  have "\<forall>blk \<in> set bs. bb_map ?f (fst blk) = None" using Cons.prems blk by (auto simp: image_iff)
  then obtain bb' where bb': "parse_lines (n + 1 + int (length ss)) ?r (pst PSEndBB P nm ?f l) =
      parse_lines (n + 1 + int (length ss) + int (length (concat (map show_block bs)))) rest
        (pst PSEndBB P nm (put_blocks (number_blocks (n + 1 + int (length ss)) bs) ?f) bb')"
    using Cons.IH [of ?f "n + 1 + int (length ss)" l] Cons.prems by auto
  have sb: "show_block blk = (l @ '':'') # show_lines ss" using blk by (simp add: show_block_def)
  have "parse_lines n (concat (map show_block (blk # bs)) @ rest) (pst PSEndBB P nm f bb) =
      parse_lines (n + 1) (show_lines ss @ ?r) (pst PSStartBB P nm f l)"
    using sb 1 by simp
  also note 2
  also note bb'
  also have "n + 1 + int (length ss) + int (length (concat (map show_block bs))) =
      n + int (length (concat (map show_block (blk # bs))))"
    using sb by simp
  finally show ?case using blk by auto
qed auto

lemma put_blocks_other: "\<forall>b \<in> set bs. fst b \<noteq> l \<Longrightarrow> bb_map (put_blocks bs f) l = bb_map f l"
  by (induction bs f rule: put_blocks.induct) auto

lemma number_blocks_fst [simp]: "map fst (number_blocks n bs) = map fst bs"
  by (induction n bs rule: number_blocks.induct) simp_all

lemma put_blocks_eq:
  "distinct (map fst bs) \<Longrightarrow> put_blocks bs f = f\<lparr>bb_map := bb_map f ++ map_of bs\<rparr>"
proof (induction bs f rule: put_blocks.induct)
  case (2 bb b bs f)
  then have "map_of bs bb = None" by (simp add: map_of_eq_None_iff)
  then have eq: "(bb_map f)(bb \<mapsto> b) ++ map_of bs = bb_map f ++ map_of ((bb, b) # bs)"
    by (auto simp: fun_eq_iff map_add_def split: option.splits)
  have "put_blocks ((bb, b) # bs) f = (put_block bb b f)\<lparr>bb_map := bb_map (put_block bb b f) ++ map_of bs\<rparr>"
    using "2.IH" "2.prems" by (simp only: put_blocks.simps distinct.simps list.map simp_thms)
  also have "\<dots> = f\<lparr>bb_map := (bb_map f)(bb \<mapsto> b) ++ map_of bs\<rparr>" by (simp add: put_block_def)
  finally show ?case by (simp only: eq)
qed simp

lemma parse_lines_step:
  "parse_line (n + 1) l p = Inr p' \<Longrightarrow> parse_lines n (l # ls) p = parse_lines (n + 1) ls p'"
  by simp

text \<open>The lines of one function, from its header to its end.\<close>

lemma lines_func:
  assumes f: "src_func_ok sf" and fresh: "P (sf_name sf) = None"
    and start: "parse_line (n + 1) (show_header sf) q =
      Inr (pst PSStartFunction P (sf_name sf) (new_function (sf_name sf) (int (sf_nargs sf))) bb0)"
  shows "\<exists>bb. parse_lines n (show_func sf @ rest) q =
    parse_lines (n + int (length (show_func sf))) rest (pst PSEndFunction P (sf_name sf) (number_func n sf) bb)"
proof -
  let ?nm = "sf_name sf" and ?f0 = "new_function (sf_name sf) (int (sf_nargs sf))"
  from f obtain blk bs where bs: "sf_blocks sf = blk # bs" by (cases "sf_blocks sf") (auto simp: src_func_ok_def)
  obtain l ss where blk: "blk = (l, ss)" by (cases blk)
  have ok: "fn_name ?nm" "bb_name l" "src_block_ok ss" "\<forall>blk \<in> set bs. block_src_ok blk"
    "distinct (l # map fst bs)"
    using f bs blk by (auto simp: src_func_ok_def block_src_ok_def)
  let ?f1 = "set_first_bb l ?f0"
  let ?r = "concat (map show_block bs) @ [''end '' @ ?nm] @ rest"
  let ?k = "n + 2 + int (length ss)"
  have 1: "parse_line (n + 2) (l @ '':'') (pst PSStartFunction P ?nm ?f0 bb0) = Inr (pst PSStartBB P ?nm ?f1 l)"
    using bb_line [OF ok(2)] by (simp add: parse_line_def at_start_function_def)
  have e: "bb_map ?f1 = Map.empty" by (simp add: set_first_bb_def new_function_def)
  let ?f2 = "put_block l (number_stmts (n + 3) ss) ?f1"
  have 2: "parse_lines (n + 2) (show_lines ss @ ?r) (pst PSStartBB P ?nm ?f1 l) =
      parse_lines ?k ?r (pst PSEndBB P ?nm ?f2 l)"
    using lines_block [OF ok(3), of ?f1 l "n + 2" ?r P ?nm] e by (simp add: add.commute)
  have "\<forall>blk \<in> set bs. bb_map ?f2 (fst blk) = None" using ok(5) e by (auto simp: image_iff)
  then obtain bb where 3: "parse_lines ?k ?r (pst PSEndBB P ?nm ?f2 l) =
      parse_lines (?k + int (length (concat (map show_block bs)))) ([''end '' @ ?nm] @ rest)
        (pst PSEndBB P ?nm (put_blocks (number_blocks ?k bs) ?f2) bb)"
    using lines_blocks [OF ok(4), of ?f2 ?k "[''end '' @ ?nm] @ rest" P ?nm l] ok(5) by auto
  let ?f3 = "put_blocks (number_blocks ?k bs) ?f2"
  have d: "distinct (map fst (number_blocks ?k bs))" using ok(5) by simp
  have "map_of (number_blocks ?k bs) l = None" using ok(5) by (simp add: map_of_eq_None_iff flip: set_map)
  then have f3: "?f3 = number_func n sf"
    unfolding put_blocks_eq [OF d] number_func_def bs blk
    by (auto simp: put_block_def set_first_bb_def new_function_def fun_eq_iff map_add_def add.commute add.left_commute
      split: option.splits)
  have 4: "parse_line (m + 1) (''end '' @ ?nm) (pst PSEndBB P ?nm ?f3 bb) = Inr (pst PSEndFunction P ?nm ?f3 bb)" for m
    using end_line [OF ok(1)] unfolding f3 by (simp add: parse_line_def at_end_bb_def number_func_def)
  have sf: "show_func sf @ rest = show_header sf # (l @ '':'') # show_lines ss @ ?r"
    by (simp add: show_func_def bs blk show_block_def)
  have "parse_lines n (show_func sf @ rest) q =
      parse_lines (n + 2) (show_lines ss @ ?r) (pst PSStartBB P ?nm ?f1 l)"
    unfolding sf using start 1 by (simp add: add.commute)
  also note 2
  also note 3
  also have "parse_lines (?k + int (length (concat (map show_block bs)))) ([''end '' @ ?nm] @ rest) (pst PSEndBB P ?nm ?f3 bb) =
      parse_lines (n + int (length (show_func sf))) rest (pst PSEndFunction P ?nm ?f3 bb)"
  proof -
    let ?m = "?k + int (length (concat (map show_block bs)))"
    have "?m + 1 = n + int (length (show_func sf))" by (simp add: show_func_def bs blk show_block_def)
    with parse_lines_step [OF 4 [of ?m]] show ?thesis by (simp only: append_Cons append_Nil)
  qed
  finally show ?thesis unfolding f3 by blast
qed

subsection \<open>Programs\<close>

lemma show_func_no_newline:
  assumes "src_func_ok f" "l \<in> set (show_func f)"
  shows "newline \<notin> set l"
proof -
  have nm: "fn_name (sf_name f)" using assms(1) by (simp add: src_func_ok_def)
  have stmts: "newline \<notin> set (show_stmt lhs b)" if "src_block_ok ss" "(lhs, b) \<in> set ss" for lhs b ss
    using that by (induction ss rule: src_block_ok.induct) (auto split: if_splits dest: show_stmt_no_newline)
  have "newline \<notin> set (show_header f)"
    using good_no_newline [OF good_fn [OF nm]] good_no_newline [OF good_nat]
    by (auto simp: show_header_def newline_def)
  moreover have "newline \<notin> set m" if "blk \<in> set (sf_blocks f)" "m \<in> set (show_block blk)" for blk m
    using that assms(1) stmts bb_line(4) by (force simp: show_block_def src_func_ok_def)
  moreover have "newline \<notin> set (''end '' @ sf_name f)" by (rule end_line(5) [OF nm])
  ultimately show ?thesis using assms(2) by (auto simp: show_func_def)
qed

lemma header_lines:
  assumes "src_func_ok f"
  shows "parse_line n (show_header f) init_parser =
      Inr (pst PSStartFunction Map.empty (sf_name f) (new_function (sf_name f) (int (sf_nargs f))) [])"
    and "(P(nm \<mapsto> g)) (sf_name f) = None \<Longrightarrow>
      parse_line n (show_header f) (pst PSEndFunction P nm g bb) =
      Inr (pst PSStartFunction (P(nm \<mapsto> g)) (sf_name f) (new_function (sf_name f) (int (sf_nargs f))) bb)"
proof -
  have f: "fn_name (sf_name f)" "sf_nargs f \<le> 16" "sf_name f \<noteq> ''read''" "sf_name f \<noteq> ''write''"
    using assms by (auto simp: src_func_ok_def)
  have nb: "\<not> blank_line (show_header f)" by (rule not_blank [OF header_tokens [OF f(1)]]) simp
  show "parse_line n (show_header f) init_parser =
      Inr (pst PSStartFunction Map.empty (sf_name f) (new_function (sf_name f) (int (sf_nargs f))) [])"
    using f nb header_match [OF f(1,2)] header_parse [OF f(1,2)]
    by (simp add: parse_line_def init_parser_def at_begin_def set_function_def pst_def new_function_def)
  assume "(P(nm \<mapsto> g)) (sf_name f) = None"
  then show "parse_line n (show_header f) (pst PSEndFunction P nm g bb) =
      Inr (pst PSStartFunction (P(nm \<mapsto> g)) (sf_name f) (new_function (sf_name f) (int (sf_nargs f))) bb)"
    using f nb header_match [OF f(1,2)] header_parse [OF f(1,2)]
    by (auto simp: parse_line_def at_end_function_def set_function_def pst_def new_function_def split: if_splits)
qed

lemma lines_funcs:
  "\<lbrakk> \<forall>f \<in> set fs. src_func_ok f; distinct (map sf_name fs); \<forall>f \<in> set fs. (P(nm \<mapsto> g)) (sf_name f) = None \<rbrakk> \<Longrightarrow>
   \<exists>nm' g' bb' P' m. parse_lines n (show_program fs) (pst PSEndFunction P nm g bb) =
       Inr (m, pst PSEndFunction P' nm' g' bb') \<and>
     P'(nm' \<mapsto> g') = P(nm \<mapsto> g) ++ map_of (number_program n fs)"
proof (induction fs arbitrary: n P nm g bb)
  case Nil
  show ?case by (simp add: show_program_def) blast
next
  case (Cons f fs)
  have f: "src_func_ok f" "(P(nm \<mapsto> g)) (sf_name f) = None" using Cons.prems by auto
  let ?k = "n + int (length (show_func f))"
  obtain bb1 where bb1: "parse_lines n (show_func f @ show_program fs) (pst PSEndFunction P nm g bb) =
      parse_lines ?k (show_program fs) (pst PSEndFunction (P(nm \<mapsto> g)) (sf_name f) (number_func n f) bb1)"
    using lines_func [OF f header_lines(2) [OF f], of n "show_program fs"] by blast
  have "\<forall>h \<in> set fs. (P(nm \<mapsto> g, sf_name f \<mapsto> number_func n f)) (sf_name h) = None"
    using Cons.prems by (auto simp: image_iff split: if_splits)
  moreover have "\<forall>f \<in> set fs. src_func_ok f" "distinct (map sf_name fs)" using Cons.prems by auto
  ultimately obtain nm' g' bb' P' m where
    r: "parse_lines ?k (show_program fs) (pst PSEndFunction (P(nm \<mapsto> g)) (sf_name f) (number_func n f) bb1) =
       Inr (m, pst PSEndFunction P' nm' g' bb')"
      "P'(nm' \<mapsto> g') = P(nm \<mapsto> g, sf_name f \<mapsto> number_func n f) ++ map_of (number_program ?k fs)"
    using Cons.IH [of "P(nm \<mapsto> g)" "sf_name f" "number_func n f" ?k bb1] by blast
  have names: "map fst (number_program n fs) = map sf_name fs" for n
    by (induction fs arbitrary: n) simp_all
  have "map_of (number_program ?k fs) (sf_name f) = None"
    using Cons.prems(2) names [of ?k] by (simp add: map_of_eq_None_iff flip: set_map)
  then have "P(nm \<mapsto> g, sf_name f \<mapsto> number_func n f) ++ map_of (number_program ?k fs) =
      P(nm \<mapsto> g) ++ map_of (number_program n (f # fs))"
    by (auto simp: fun_eq_iff map_add_def split: option.splits)
  moreover have "show_program (f # fs) = show_func f @ show_program fs" by (simp add: show_program_def)
  ultimately show ?case using bb1 r by metis
qed

lemma parse_printed:
  assumes ok: "src_ok fs" and main: "\<exists>f \<in> set fs. sf_name f = ''main'' \<and> sf_nargs f = 0"
  shows "parse (unlines (show_program fs)) = Inr (map_of (number_program 0 fs))"
proof -
  obtain f gs where fs: "fs = f # gs" using main by (cases fs) auto
  have f: "src_func_ok f" "\<forall>g \<in> set gs. src_func_ok g" "distinct (map sf_name gs)" "sf_name f \<notin> sf_name ` set gs"
    using ok fs by (auto simp: src_ok_def)
  have "\<forall>l \<in> set (show_program fs). newline \<notin> set l"
    using ok show_func_no_newline by (auto simp: show_program_def src_ok_def)
  then have ls: "lines_of (unlines (show_program fs)) = show_func f @ show_program gs"
    by (simp add: lines_of_unlines fs show_program_def)
  let ?k = "int (length (show_func f))"
  obtain bb where 1: "parse_lines 0 (show_func f @ show_program gs) init_parser =
      parse_lines ?k (show_program gs) (pst PSEndFunction Map.empty (sf_name f) (number_func 0 f) bb)"
    using lines_func [OF f(1) _ header_lines(1) [OF f(1)], of 0 "show_program gs"] by auto
  have "\<forall>g \<in> set gs. (Map.empty(sf_name f \<mapsto> number_func 0 f)) (sf_name g) = None"
    using f(4) by (auto simp: image_iff)
  from lines_funcs [OF f(2,3) this] obtain nm' g' bb' P' m where
    2: "parse_lines ?k (show_program gs) (pst PSEndFunction Map.empty (sf_name f) (number_func 0 f) bb) =
      Inr (m, pst PSEndFunction P' nm' g' bb')"
     "P'(nm' \<mapsto> g') = Map.empty(sf_name f \<mapsto> number_func 0 f) ++ map_of (number_program ?k gs)" by blast
  have names: "fst ` set (number_program n gs) = sf_name ` set gs" for n
    by (induction gs arbitrary: n) simp_all
  have "map_of (number_program ?k gs) (sf_name f) = None"
    using f(4) names [of ?k] by (simp add: map_of_eq_None_iff)
  then have p: "P'(nm' \<mapsto> g') = map_of (number_program 0 fs)"
    unfolding 2(2) fs by (auto simp: fun_eq_iff map_add_def split: option.splits)
  have find: "\<exists>h. map_of (number_program n hs) (sf_name g) = Some h \<and> fn_nargs h = int (sf_nargs g)"
    if "g \<in> set hs" "distinct (map sf_name hs)" for g hs n
    using that
  proof (induction hs arbitrary: n)
    case (Cons h hs)
    have "g = h" if "sf_name g = sf_name h" using that Cons.prems by (auto simp: image_iff)
    with Cons show ?case by (cases "sf_name g = sf_name h") (auto simp: number_func_def)
  qed simp
  from main obtain g where g: "g \<in> set fs" "sf_name g = ''main''" "sf_nargs g = 0" by blast
  from find [OF g(1), of 0] ok obtain h where h: "map_of (number_program 0 fs) ''main'' = Some h" "fn_nargs h = 0"
    by (auto simp: src_ok_def g)
  show ?thesis
    using 1 2(1) h unfolding parse_def ls by (simp add: p get_function_def)
qed

text \<open>A printed program for the witness.\<close>

definition sample_source :: "src_func list" where
  "sample_source =
     [\<lparr>sf_name = ''main'', sf_nargs = 0,
       sf_blocks = [(''.e'', [(0, SBop Add (VReg 32) (VReg 0) Size64), (RegNone, SBrUncond ''.x'')]),
                    (''.x'', [(RegNone, SRet (VReg 0))])]\<rparr>]"

lemma names_in_lang: "bb_name ''.e''" "bb_name ''.x''" "fn_name ''main''"
proof -
  have "w \<in> lang tName" if "w \<in> {''e'', ''x'', ''main''}" for w
    unfolding tName_def lang_plus_Chr using that by (auto simp: name_char_def char_between_def)
  then have n: "''e'' \<in> lang tName" "''x'' \<in> lang tName" "''main'' \<in> lang tName" by simp_all
  have "''.'' @ w @ [] \<in> lang tBBName" if "w \<in> lang tName" for w
    unfolding tBBName_def using that by (intro lang_seq_intros) simp_all
  from this [OF n(1)] this [OF n(2)] n(3)
  show "bb_name ''.e''" "bb_name ''.x''" "fn_name ''main''"
    by (simp_all add: bb_name_def fn_name_def regex_match_iff)
qed

lemma sample_source_ok: "src_ok sample_source"
  by (simp add: src_ok_def sample_source_def src_func_ok_def printable_def names_in_lang reg_numbers)

text \<open>
  C4. Parsing the text printed from any list of functions with distinct names and blocks, whose
  statements the format can express and which contains a \<open>main\<close> without arguments, yields
  exactly those functions, blocks and statements, each with the line it is printed on.
\<close>

theorem parse_show_program:
  assumes ok: "src_ok fs" and main: "\<exists>f \<in> set fs. sf_name f = ''main'' \<and> sf_nargs f = 0"
  shows "parse (unlines (show_program fs)) = Inr (map_of (number_program 0 fs))"
  using ok main by (rule parse_printed)

theorem parse_show_program_witness:
  "parse (unlines (show_program sample_source)) = Inr (map_of (number_program 0 sample_source)) \<and>
   length (show_program sample_source) = 7"
proof -
  have "\<exists>f \<in> set sample_source. sf_name f = ''main'' \<and> sf_nargs f = 0" by (simp add: sample_source_def)
  from parse_show_program [OF sample_source_ok this] show ?thesis
    by (simp add: show_program_def sample_source_def show_func_def show_block_def)
qed

text \<open>
  C6. A text the parser accepts is a well-formed program: every block is a sequence of
  statements with valid registers that ends with its only terminator, every function has its
  first block and at most 16 arguments, and there is a \<open>main\<close> function without arguments.
\<close>

theorem parse_well_formed:
  assumes "parse text = Inr p"
  shows "program_ok p \<and> (\<forall>f \<in> ran p. get_first_bb f \<noteq> None) \<and>
    (\<exists>f. get_function p ''main'' = Some f \<and> fn_nargs f = 0)"
  by (rule parse_accepts_well_formed [OF assms])

theorem parse_well_formed_witness:
  "program_ok (map_of (number_program 0 sample_source)) \<and>
   parse (unlines (show_program sample_source)) = Inr (map_of (number_program 0 sample_source))"
proof -
  have "\<exists>f \<in> set sample_source. sf_name f = ''main'' \<and> sf_nargs f = 0" by (simp add: sample_source_def)
  note p = parse_printed [OF sample_source_ok this]
  from p parse_well_formed [OF p]
  show ?thesis by blast
qed

text \<open>
  C11. Parsing always ends, and it fails only with a reported syntax error: the conversions
  \<open>stoi\<close> and \<open>stoull\<close> never throw out of the parser and no register number is out of
  range, whatever the text is.
\<close>

theorem parse_fails_only_with_syntax_error:
  "case parse text of Inr p \<Rightarrow> True | Inl (line, e) \<Rightarrow> \<exists>msg. e = Syntax_error msg"
  by (rule parse_fault_syntax)

end
