(* ===== verification/Fuel.thy ===== *)
theory Fuel
  imports Main
begin

text \<open>
  Evaluation with fuel as an interface: the evaluator returns nothing when the fuel runs out, and
  one more unit keeps every result. The interpreter of the assembly and the semantics of the
  intermediate representation are its two instances.
\<close>

locale fuelled =
  fixes ev :: "nat \<Rightarrow> 'c \<Rightarrow> 'r option"
  assumes ev_Suc: "ev n c = Some r \<Longrightarrow> ev (Suc n) c = Some r"
begin

lemma ev_mono: "\<lbrakk> ev n c = Some r; n \<le> m \<rbrakk> \<Longrightarrow> ev m c = Some r"
  by (induction m) (auto simp: le_Suc_eq ev_Suc)

lemma ev_unique: "\<lbrakk> ev n c = Some r; ev m c = Some r' \<rbrakk> \<Longrightarrow> r = r'"
  using ev_mono [of n c r "max n m"] ev_mono [of m c r' "max n m"] by simp

end

end
