(* ===== verification/Machine_Theorems.thy ===== *)
theory Machine_Theorems
  imports Machine_Steps Memory_Theorems Fuel
begin

text \<open>
  The evaluator with fuel as an interface (locale \<open>fuelled\<close>), its equivalence with the
  transition system, and the properties of the interpreter with their witnesses.
\<close>

subsection \<open>Evaluation with fuel\<close>

definition run_cfg :: "(memory \<Rightarrow> u64 \<Rightarrow> bool) \<Rightarrow> program \<Rightarrow> nat \<Rightarrow> func \<times> stmt list \<times> state \<Rightarrow> outcome option" where
  "run_cfg calloc_ok p n c = (case c of (f, cur, s) \<Rightarrow> exec_loop calloc_ok p n f cur s)"

text \<open>One iteration of the loop, by what the statement does.\<close>

lemma exec_loop_Goto: "step_stmt calloc_ok p f cur s = Goto cur' s' \<Longrightarrow>
    exec_loop calloc_ok p (Suc n) f cur s = exec_loop calloc_ok p n f cur' s'"
  by simp

lemma exec_loop_Return: "step_stmt calloc_ok p f cur s = Return v t \<Longrightarrow>
    exec_loop calloc_ok p (Suc n) f cur s = Some (Inr (v, t))"
  by simp

lemma exec_loop_Fail: "step_stmt calloc_ok p f cur s = Fail e t \<Longrightarrow>
    exec_loop calloc_ok p (Suc n) f cur s = Some (Inl (e, t))"
  by simp

lemma exec_loop_Enter_None: "\<lbrakk> step_stmt calloc_ok p f cur s = Enter g k s'; get_first_bb g = None \<rbrakk> \<Longrightarrow>
    exec_loop calloc_ok p (Suc n) f cur s = Some (Inl (Runtime_error ''missing first basic block'', s'))"
  by simp

lemma exec_loop_Enter:
  assumes "step_stmt calloc_ok p f cur s = Enter g k s'" "get_first_bb g = Some b"
  shows "exec_loop calloc_ok p (Suc n) f cur s = Some r \<longleftrightarrow>
    (\<exists>x. exec_loop calloc_ok p n g b s' = Some (Inl x) \<and> r = Inl x) \<or>
    (\<exists>v t cur' t'. exec_loop calloc_ok p n g b s' = Some (Inr (v, t)) \<and> resume k v t = Goto cur' t' \<and>
       exec_loop calloc_ok p n f cur' t' = Some r) \<or>
    (\<exists>v t e t'. exec_loop calloc_ok p n g b s' = Some (Inr (v, t)) \<and> resume k v t = Fail e t' \<and>
       r = Inl (e, t'))"
  using assms by (auto split: option.splits sum.splits control.splits)

lemmas exec_loop_step = exec_loop_Goto exec_loop_Return exec_loop_Fail exec_loop_Enter_None exec_loop_Enter

declare exec_loop.simps(2) [simp del]

lemma exec_loop_Suc:
  "exec_loop calloc_ok p n f cur s = Some r \<Longrightarrow> exec_loop calloc_ok p (Suc n) f cur s = Some r"
proof (induction n arbitrary: f cur s r)
  case (Suc n)
  show ?case
  proof (cases "step_stmt calloc_ok p f cur s")
    case (Enter g k s')
    show ?thesis
    proof (cases "get_first_bb g")
      case (Some b)
      show ?thesis
        using Suc.prems unfolding exec_loop_Enter [OF Enter Some] by (blast intro: Suc.IH)
    qed (use Suc.prems Enter in \<open>simp add: exec_loop_step\<close>)
  qed (use Suc in \<open>simp_all add: exec_loop_step\<close>)
qed simp

interpretation run: fuelled "run_cfg calloc_ok p" for calloc_ok p
  by unfold_locales (auto simp: run_cfg_def intro: exec_loop_Suc)

lemma exec_loop_mono:
  "\<lbrakk> exec_loop calloc_ok p n f cur s = Some r; n \<le> m \<rbrakk> \<Longrightarrow> exec_loop calloc_ok p m f cur s = Some r"
  using run.ev_mono [of calloc_ok p n "(f, cur, s)" r m] by (simp add: run_cfg_def)

subsection \<open>Equivalence with the transition system\<close>

fun after_return :: "(func \<times> pending) list \<Rightarrow> u64 \<Rightarrow> state \<Rightarrow> config" where
  "after_return [] v t = Done (Inr (v, t))"
| "after_return ((f, k) # ks) v t =
     (case resume k v t of
        Goto cur t' \<Rightarrow> Running ks f cur t'
      | Fail e t' \<Rightarrow> Done (Inl (e, t'))
      | _ \<Rightarrow> Running ks f [] t)"

definition continue :: "(func \<times> pending) list \<Rightarrow> outcome \<Rightarrow> config" where
  "continue ks r = (case r of Inl x \<Rightarrow> Done (Inl x) | Inr (v, t) \<Rightarrow> after_return ks v t)"

lemma continue_simps [simp]:
  "continue ks (Inl x) = Done (Inl x)"
  "continue ks (Inr (v, t)) = after_return ks v t"
  by (simp_all add: continue_def)

lemma return_step:
  assumes "step_stmt calloc_ok p f cur s = Return v t"
  shows "machine_step calloc_ok p (Running ks f cur s) (after_return ks v t)"
proof (cases ks)
  case (Cons x ks')
  obtain f' k where x: "x = (f', k)" by (cases x)
  show ?thesis
    by (rule resume_cases [of k v t]) (use assms Cons x in \<open>auto intro: machine_step.intros\<close>)
qed (use assms in \<open>auto intro: machine_step.intros\<close>)

lemma exec_loop_steps:
  "exec_loop calloc_ok p n f cur s = Some r \<Longrightarrow>
   (machine_step calloc_ok p)\<^sup>*\<^sup>* (Running ks f cur s) (continue ks r)"
proof (induction n arbitrary: f cur s r ks)
  case (Suc n)
  let ?R = "(machine_step calloc_ok p)\<^sup>*\<^sup>*"
  show ?case
  proof (cases "step_stmt calloc_ok p f cur s")
    case (Enter g k s')
    show ?thesis
    proof (cases "get_first_bb g")
      case None
      with Suc.prems machine_step.enter_missing [OF Enter None] Enter show ?thesis
        by (auto simp: exec_loop_step)
    next
      case (Some b)
      have call: "?R (Running ks f cur s) (continue ((f, k) # ks) q)"
        if "exec_loop calloc_ok p n g b s' = Some q" for q
        using machine_step.enter [OF Enter Some] Suc.IH [OF that]
        by (rule converse_rtranclp_into_rtranclp)
      show ?thesis
        using Suc.prems unfolding exec_loop_Enter [OF Enter Some]
      proof (elim disjE exE conjE)
        fix v t cur' t'
        assume a: "exec_loop calloc_ok p n g b s' = Some (Inr (v, t))" "resume k v t = Goto cur' t'"
          "exec_loop calloc_ok p n f cur' t' = Some r"
        from call [OF a(1)] a(2) Suc.IH [OF a(3), of ks] show ?thesis by simp
      qed (use call in \<open>fastforce+\<close>)
    qed
  next
    case (Goto cur' s')
    with Suc.prems have "exec_loop calloc_ok p n f cur' s' = Some r" by (simp add: exec_loop_step)
    from machine_step.goto [OF Goto] Suc.IH [OF this] show ?thesis by (rule converse_rtranclp_into_rtranclp)
  next
    case (Return v t)
    with Suc.prems return_step show ?thesis by (auto simp: exec_loop_step)
  next
    case (Fail e t)
    with Suc.prems machine_step.fail [OF Fail] show ?thesis by (auto simp: exec_loop_step)
  qed
qed simp

text \<open>Conversely, a run that ends gives the result of the evaluator for some fuel.\<close>

lemma steps_exec_loop:
  "(machine_step calloc_ok p ^^ n) (Running ks f cur s) (Done r) \<Longrightarrow>
   \<exists>m q. exec_loop calloc_ok p m f cur s = Some q \<and>
     (\<exists>n' < n. (machine_step calloc_ok p ^^ n') (continue ks q) (Done r))"
proof (induction n arbitrary: ks f cur s rule: less_induct)
  case (less n)
  from less.prems obtain k c where n: "n = Suc k" and c: "machine_step calloc_ok p (Running ks f cur s) c"
    and rest: "(machine_step calloc_ok p ^^ k) c (Done r)"
    by (metis config.distinct(1) not0_implies_Suc relpowp_0_E relpowp_Suc_D2)
  note IH = less.IH [of k, unfolded n, OF lessI]
  from c show ?case
  proof cases
    case (goto cur' s')
    with IH rest obtain m q where "exec_loop calloc_ok p m f cur' s' = Some q"
      "\<exists>n' < k. (machine_step calloc_ok p ^^ n') (continue ks q) (Done r)" by blast
    with goto n show ?thesis
      by (intro exI [of _ "Suc m"] exI [of _ q]) (auto simp: exec_loop_step less_Suc_eq)
  next
    case (fail e t)
    with rest n show ?thesis
      by (intro exI [of _ "Suc 0"] exI [of _ "Inl (e, t)"]) (auto simp: exec_loop_step)
  next
    case (enter_missing g kk s')
    with rest n show ?thesis
      by (intro exI [of _ "Suc 0"] exI) (auto simp: exec_loop_step)
  next
    case (ret_main v t)
    with rest n show ?thesis
      by (intro exI [of _ "Suc 0"] exI [of _ "Inr (v, t)"]) (auto simp: exec_loop_step)
  next
    case (ret_call v t kk cur' t' f' ks')
    with rest n show ?thesis
      by (intro exI [of _ "Suc 0"] exI [of _ "Inr (v, t)"]) (auto simp: exec_loop_step)
  next
    case (ret_fail v t kk e t' f' ks')
    with rest n show ?thesis
      by (intro exI [of _ "Suc 0"] exI [of _ "Inr (v, t)"]) (auto simp: exec_loop_step)
  next
    case (enter g kk s' b)
    with IH rest obtain m q n1 where q: "exec_loop calloc_ok p m g b s' = Some q" and n1: "n1 < k"
      "(machine_step calloc_ok p ^^ n1) (continue ((f, kk) # ks) q) (Done r)" by blast
    have fuel: "exec_loop calloc_ok p M g b s' = Some q" if "m \<le> M" for M
      using exec_loop_mono [OF q that] .
    consider (err) x where "q = Inl x" | (ret) v t where "q = Inr (v, t)"
      by (metis old.sum.exhaust surj_pair)
    then show ?thesis
    proof cases
      case (err x)
      with enter n n1 q show ?thesis
        by (intro exI [of _ "Suc m"] exI [of _ "Inl x"]) (auto simp: exec_loop_step intro: less_SucI)
    next
      case (ret v t)
      show ?thesis
      proof (rule resume_cases [of kk v t])
        fix t'
        assume t': "resume kk v t = Goto (p_rest kk) t'"
        with n1 ret have "(machine_step calloc_ok p ^^ n1) (Running ks f (p_rest kk) t') (Done r)" by simp
        moreover have "n1 < n" using n n1(1) by simp
        ultimately obtain m2 q2 n2 where q2:
          "exec_loop calloc_ok p m2 f (p_rest kk) t' = Some q2" "n2 < n1"
          "(machine_step calloc_ok p ^^ n2) (continue ks q2) (Done r)" using less.IH by blast
        have "exec_loop calloc_ok p (max m m2) f (p_rest kk) t' = Some q2"
          by (rule exec_loop_mono [OF q2(1)]) simp
        with fuel [of "max m m2"] ret t' enter
        have "exec_loop calloc_ok p (Suc (max m m2)) f cur s = Some q2"
          by (auto simp: exec_loop_step)
        with q2 n n1 show ?thesis by (meson less_SucI less_trans)
      next
        fix e
        assume "resume kk v t = Fail e t"
        with enter n n1 q ret show ?thesis
          by (intro exI [of _ "Suc m"] exI [of _ "Inl (e, t)"]) (auto simp: exec_loop_step intro: less_SucI)
      qed
    qed
  qed
qed

subsection \<open>Properties of the interpreter\<close>

text \<open>The start of a function and a small program for the witnesses: \<open>main\<close> calls
  \<open>inc\<close>, which adds one to its argument, writes the result and returns it.\<close>

definition inc_function :: func where
  "inc_function = \<lparr>fname = ''inc'', fn_nargs = 1, first_bb = ''.e'',
     bb_map = [''.e'' \<mapsto>
       [\<lparr>get_line = 2, get_lhs = 0, body = SBop Add (VReg 16) (VLit 1) Size64\<rparr>,
        \<lparr>get_line = 3, get_lhs = RegNone, body = SRet (VReg 0)\<rparr>]]\<rparr>"

definition main_function :: func where
  "main_function = \<lparr>fname = ''main'', fn_nargs = 0, first_bb = ''.e'',
     bb_map = [''.e'' \<mapsto>
       [\<lparr>get_line = 6, get_lhs = 1, body = SCall ''inc'' [VLit 41]\<rparr>,
        \<lparr>get_line = 7, get_lhs = RegNone, body = SRet (VReg 1)\<rparr>]]\<rparr>"

definition sample_program :: program where
  "sample_program = [''inc'' \<mapsto> inc_function, ''main'' \<mapsto> main_function]"

lemma sample_program_ok: "program_ok sample_program" "func_ok inc_function" "func_ok main_function"
  by (auto simp: program_ok_def sample_program_def func_ok_def inc_function_def main_function_def
    stmt_ok_def reg_numbers ran_def split: if_splits)

text \<open>
  C1. The recursive evaluator and the transition system agree: a function returns or fails
  with an outcome for some bound exactly when the transitions lead from its first statement to
  that outcome.
\<close>

theorem evaluator_iff_transitions:
  "(\<exists>n. exec_loop calloc_ok p n f cur s = Some r) \<longleftrightarrow>
   (machine_step calloc_ok p)\<^sup>*\<^sup>* (Running [] f cur s) (Done r)"
proof
  assume "\<exists>n. exec_loop calloc_ok p n f cur s = Some r"
  then obtain n where "exec_loop calloc_ok p n f cur s = Some r" ..
  from exec_loop_steps [OF this, of "[]"]
  show "(machine_step calloc_ok p)\<^sup>*\<^sup>* (Running [] f cur s) (Done r)"
    by (cases r) auto
next
  assume "(machine_step calloc_ok p)\<^sup>*\<^sup>* (Running [] f cur s) (Done r)"
  then obtain n where "(machine_step calloc_ok p ^^ n) (Running [] f cur s) (Done r)"
    by (auto simp: rtranclp_power)
  from steps_exec_loop [OF this] obtain m q n' where q: "exec_loop calloc_ok p m f cur s = Some q"
    "(machine_step calloc_ok p ^^ n') (continue [] q) (Done r)" by blast
  have "continue [] q = Done q" by (auto simp: continue_def split: sum.splits prod.splits)
  with q(2) have "(machine_step calloc_ok p)\<^sup>*\<^sup>* (Done q) (Done r)" by (simp add: relpowp_imp_rtranclp)
  then have "q = r" by (auto elim: converse_rtranclpE)
  with q(1) show "\<exists>n. exec_loop calloc_ok p n f cur s = Some r" by blast
qed

text \<open>
  A larger bound does not change the outcome, so a program has at most one outcome.
\<close>

theorem outcome_independent_of_bound:
  assumes "run_program calloc_ok p n input = Some r" and "run_program calloc_ok p m input = Some r'"
  shows "r = r'"
proof (cases "get_function p ''main''")
  case (Some f)
  show ?thesis
  proof (cases "get_first_bb f")
    case (Some b)
    with \<open>get_function p ''main'' = Some f\<close> assms show ?thesis
      using run.ev_unique [of calloc_ok p n "(f, b, init_state input)" r m r']
      by (simp add: run_program_def exec_function_def run_cfg_def)
  qed (use assms Some in \<open>simp add: run_program_def exec_function_def\<close>)
qed (use assms in \<open>simp add: run_program_def\<close>)

text \<open>The statements of a program, and where the evaluator finds its next statement.\<close>

definition stmts_of :: "program \<Rightarrow> stmt set" where
  "stmts_of p = (\<Union>f \<in> ran p. \<Union>b \<in> ran (bb_map f). set b)"

lemma step_stmt_Goto_source:
  assumes "step_stmt calloc_ok p f cur s = Goto cur' s'"
  shows "(\<exists>st. cur = st # cur') \<or> cur' \<in> ran (bb_map f)"
proof (cases cur)
  case (Cons st rest)
  have br: "branch_to f bb t = Goto cur' s' \<Longrightarrow> cur' \<in> ran (bb_map f)" for bb t
    by (auto simp: branch_to_def get_bb_def intro: ranI split: option.splits)
  show ?thesis
    using assms Cons
    by (cases "body st") (auto simp: step_stmt_def Let_def fail_or_iff enter_call_def dest: br dest!: sym [of "Goto cur' s'"]
      split: option.splits if_splits prod.splits simp del: exec_stmt.simps)
qed (use assms in \<open>simp add: step_stmt_def\<close>)

lemma step_stmt_Enter_source:
  assumes "step_stmt calloc_ok p f cur s = Enter g k s'"
  shows "g \<in> ran p \<and> (\<exists>st. cur = st # p_rest k)"
proof (cases cur)
  case (Cons st rest)
  have br: "branch_to f bb t \<noteq> Enter g k s'" for bb t
    by (auto simp: branch_to_def split: option.splits)
  show ?thesis
    using assms Cons br
    by (cases "body st") (auto simp: step_stmt_def Let_def fail_or_iff enter_call_def get_function_def
      intro: ranI dest!: sym [of "Enter g k s'"] split: option.splits if_splits prod.splits simp del: exec_stmt.simps)
qed (use assms in \<open>simp add: step_stmt_def\<close>)

lemma ran_blocks: "\<lbrakk> f \<in> ran p; b \<in> ran (bb_map f) \<rbrakk> \<Longrightarrow> set b \<subseteq> stmts_of p"
  by (auto simp: stmts_of_def)

definition located :: "program \<Rightarrow> func \<Rightarrow> stmt list \<Rightarrow> bool" where
  "located p f cur \<longleftrightarrow> f \<in> ran p \<and> set cur \<subseteq> stmts_of p"

lemma located_Goto: "\<lbrakk> located p f cur; step_stmt calloc_ok p f cur s = Goto cur' s' \<rbrakk> \<Longrightarrow> located p f cur'"
  by (auto simp: located_def dest!: step_stmt_Goto_source dest: ran_blocks)

lemma located_Enter:
  "\<lbrakk> located p f cur; step_stmt calloc_ok p f cur s = Enter g k s' \<rbrakk> \<Longrightarrow> located p f (p_rest k)"
  "\<lbrakk> located p f cur; step_stmt calloc_ok p f cur s = Enter g k s'; get_first_bb g = Some b \<rbrakk> \<Longrightarrow> located p g b"
  by (auto simp: located_def get_first_bb_def dest!: step_stmt_Enter_source dest: ran_blocks [OF _ ranI])

definition at_hazard :: "program \<Rightarrow> state \<Rightarrow> bool" where
  "at_hazard p t \<longleftrightarrow> (\<exists>st \<in> stmts_of p. s_line t = get_line st \<and> hazard (body st) (s_regfile t))"

definition ends_ok :: "program \<Rightarrow> outcome \<Rightarrow> bool" where
  "ends_ok p r \<longleftrightarrow> state_ok (final_state r) \<and>
     (\<forall>e t. r = Inl (e, t) \<and> is_undefined e \<longrightarrow> at_hazard p t)"

lemma exec_loop_ends_ok:
  assumes p: "program_ok p"
  shows "\<lbrakk> located p f cur; block_ok cur; state_ok s; exec_loop calloc_ok p n f cur s = Some r \<rbrakk> \<Longrightarrow> ends_ok p r"
proof (induction n arbitrary: f cur s r)
  case (Suc n)
  have f: "func_ok f" using p Suc.prems(1) by (simp add: located_def program_ok_def)
  have step: "control_ok (step_stmt calloc_ok p f cur s)"
    by (rule step_stmt_ok [OF p f Suc.prems(2,3)])
  show ?case
  proof (cases "step_stmt calloc_ok p f cur s")
    case (Goto cur' s')
    with Suc.prems step show ?thesis
      by (auto simp: exec_loop_step intro: Suc.IH located_Goto)
  next
    case (Return v t)
    with Suc.prems step show ?thesis by (auto simp: exec_loop_step ends_ok_def)
  next
    case (Fail e t)
    from step_stmt_Fail [OF p Suc.prems(2,3) Fail] have "is_undefined e \<Longrightarrow> at_hazard p t"
      using Suc.prems(1,2) by (cases cur) (auto simp: at_hazard_def located_def)
    with Fail Suc.prems(4) step show ?thesis by (auto simp: exec_loop_step ends_ok_def)
  next
    case (Enter g k s')
    show ?thesis
    proof (cases "get_first_bb g")
      case None
      with Enter Suc.prems(4) step show ?thesis by (auto simp: exec_loop_step ends_ok_def)
    next
      case (Some b)
      have callee: "ends_ok p q" if "exec_loop calloc_ok p n g b s' = Some q" for q
        using Enter step get_first_bb_ok [OF _ Some]
        by (intro Suc.IH [OF located_Enter(2) [OF Suc.prems(1) Enter Some] _ _ that]) auto
      show ?thesis
        using Suc.prems(4) unfolding exec_loop_Enter [OF Enter Some]
      proof (elim disjE exE conjE)
        fix v t cur' t'
        assume a: "exec_loop calloc_ok p n g b s' = Some (Inr (v, t))" "resume k v t = Goto cur' t'"
          "exec_loop calloc_ok p n f cur' t' = Some r"
        have t: "state_ok t" using callee [OF a(1)] by (simp add: ends_ok_def)
        have "cur' = p_rest k" using a(2) by (auto simp: resume_def fail_or_iff)
        moreover have "control_ok (Goto cur' t')"
          using resume_ok [OF t, of k v] Enter step a(2) by simp
        ultimately show ?thesis
          using located_Enter(1) [OF Suc.prems(1) Enter] a(3) by (auto intro: Suc.IH)
      next
        fix v t e t'
        assume a: "exec_loop calloc_ok p n g b s' = Some (Inr (v, t))" "resume k v t = Fail e t'"
          "r = Inl (e, t')"
        with callee [OF a(1)] resume_Fail [OF _ a(2)] Enter step show ?thesis by (simp add: ends_ok_def)
      qed (use callee in simp)
    qed
  qed
qed simp

lemma run_ends_ok:
  assumes "program_ok p" and "run_program calloc_ok p n input = Some r"
  shows "ends_ok p r"
proof (cases "get_function p ''main''")
  case None
  with assms show ?thesis by (auto simp: run_program_def ends_ok_def init_state_ok)
next
  case (Some f)
  then have f: "f \<in> ran p" by (auto simp: get_function_def intro: ranI)
  show ?thesis
  proof (cases "get_first_bb f")
    case None
    with Some assms show ?thesis by (auto simp: run_program_def exec_function_def ends_ok_def init_state_ok)
  next
    case b: (Some b)
    then have "located p f b" using f by (auto simp: located_def get_first_bb_def dest: ran_blocks [OF _ ranI])
    moreover have "block_ok b" using get_first_bb_ok [OF _ b] f assms(1) by (simp add: program_ok_def)
    moreover have "exec_loop calloc_ok p n f b (init_state input) = Some r"
      using Some b assms by (simp add: run_program_def exec_function_def)
    ultimately show ?thesis by (rule exec_loop_ends_ok [OF assms(1) _ _ init_state_ok])
  qed
qed

text \<open>
  C5. A run of a well-formed program keeps the invariants of registers and memory to its end.
  It never runs off the end of a block and never indexes outside the register file: it is
  undefined only at a statement of the program that, with the registers at that time, is an
  access whose end wraps around 64 bits or the division of the least integer by \<open>-1\<close>.
\<close>

theorem undefined_only_at_hazards:
  assumes "program_ok p" and "run_program calloc_ok p n input = Some r"
  shows "state_ok (final_state r) \<and> (\<forall>e t. r = Inl (e, t) \<and> is_undefined e \<longrightarrow>
    (\<exists>st \<in> stmts_of p. s_line t = get_line st \<and> hazard (body st) (s_regfile t)))"
  using run_ends_ok [OF assms] unfolding ends_ok_def at_hazard_def .

definition wrap_program :: program where
  "wrap_program = [''main'' \<mapsto> \<lparr>fname = ''main'', fn_nargs = 0, first_bb = ''.e'',
     bb_map = [''.e'' \<mapsto>
       [\<lparr>get_line = 2, get_lhs = 0, body = SLoad MSize8 (VLit 0) 18446744073709551608\<rparr>,
        \<lparr>get_line = 3, get_lhs = RegNone, body = SRet (VReg 0)\<rparr>]]\<rparr>]"

lemma wrap_program_ok: "program_ok wrap_program"
  by (auto simp: program_ok_def wrap_program_def func_ok_def stmt_ok_def reg_numbers ran_def split: if_splits)

theorem undefined_only_at_hazards_witness:
  "\<exists>e t. run_program always_calloc wrap_program 2 [] = Some (Inl (e, t)) \<and> is_undefined e \<and>
     (\<exists>st \<in> stmts_of wrap_program. s_line t = get_line st \<and> hazard (body st) (s_regfile t))"
proof -
  have "exec_load MSize8 18446744073709551608 init_memory = Inl (Undefined ''load outside the buffer'')"
    by (simp add: exec_load_def is_alligned_def is_stack_def load_stack_def load_buffer_def init_memory_def
      STACK_MAX_def)
  then have "\<exists>t. run_program always_calloc wrap_program 2 [] = Some (Inl (Undefined ''load outside the buffer'', t))"
    by (simp add: run_program_def wrap_program_def get_function_def exec_function_def get_first_bb_def
      eval_nat_numeral exec_loop.simps step_stmt_def init_state_def fail_or_def)
  then obtain t where t: "run_program always_calloc wrap_program 2 [] = Some (Inl (Undefined ''load outside the buffer'', t))"
    by blast
  from undefined_only_at_hazards [OF wrap_program_ok t] t show ?thesis by auto
qed

text \<open>The sample program runs to its end.\<close>

lemma sample_program_run:
  "\<exists>t. run_program always_calloc sample_program 4 [] = Some (Inr (42, t)) \<and> s_cost t = 31 / 5"
  by (simp add: run_program_def sample_program_def main_function_def inc_function_def get_function_def
    exec_function_def get_first_bb_def eval_nat_numeral exec_loop.simps step_stmt_def init_state_def fail_or_def
    enter_call_def setup_args_def set_value_def read_reg_def reg_numbers set_nargs_def init_regfile_def
    compute_def get_op1_def get_op2_def get_result_def write_result_def write_reg_def resume_def cost_defs)

theorem outcome_independent_of_bound_witness:
  "\<exists>r. run_program always_calloc sample_program 4 [] = Some (Inr r) \<and> fst r = 42 \<and> (\<forall>m r'.
     run_program always_calloc sample_program m [] = Some r' \<longrightarrow> r' = Inr r)"
proof -
  obtain t where t: "run_program always_calloc sample_program 4 [] = Some (Inr (42, t))"
    using sample_program_run by blast
  have u: "\<forall>m r'. run_program always_calloc sample_program m [] = Some r' \<longrightarrow> r' = Inr (42, t)"
    using outcome_independent_of_bound [OF _ t] by blast
  show ?thesis by (intro exI [of _ "(42, t)"] conjI u t) simp
qed

text \<open>
  C14. When a callee returns, every register of the caller except the left-hand side of the
  call holds what it held before the call, whatever the callee did, and the left-hand side
  holds the returned value; memory, cost and streams are those the callee left.
\<close>

theorem call_restores_registers:
  assumes s: "state_ok s" and call: "step_stmt calloc_ok p f (st # rest) s = Enter g k t"
    and ret: "resume k v u = Goto cur w"
  shows "cur = rest \<and> (\<forall>r. r \<noteq> get_lhs st \<longrightarrow> read_reg r (s_regfile w) = read_reg r (s_regfile s)) \<and>
    (writable (get_lhs st) \<longrightarrow> read_reg (get_lhs st) (s_regfile w) = Inr v) \<and>
    nargs (s_regfile w) = nargs (s_regfile s) \<and> w = u\<lparr>s_regfile := s_regfile w\<rparr>"
proof -
  have k: "p_old k = s_regfile s \<and> p_lhs k = get_lhs st \<and> p_rest k = rest"
    using call by (cases "body st") (auto simp: step_stmt_def Let_def fail_or_iff enter_call_def branch_to_def
      dest!: sym [of "Enter g k t"] split: option.splits if_splits prod.splits simp del: exec_stmt.simps)
  from ret obtain rf where rf: "write_reg (get_lhs st) v (s_regfile s) = Inr rf" "cur = rest" "w = u\<lparr>s_regfile := rf\<rparr>"
    using k by (auto simp: resume_def fail_or_iff)
  have ok: "regfile_ok (s_regfile s)" using s by (simp add: state_ok_def)
  show ?thesis
    using rf rbank.rd_wr_other [OF rf(1)] rbank.rd_wr_same [OF ok _ rf(1)] write_reg_nargs [OF rf(1)] by auto
qed

theorem call_restores_registers_witness:
  "\<exists>g k t w. step_stmt always_calloc sample_program main_function
       [\<lparr>get_line = 6, get_lhs = 1, body = SCall ''inc'' [VLit 41]\<rparr>] (init_state []) = Enter g k t \<and>
     read_reg 16 (s_regfile t) = Inr 41 \<and>
     resume k 42 (t\<lparr>s_regfile := init_regfile\<lparr>regs := replicate 33 7\<rparr>\<rparr>) = Goto [] w \<and>
     read_reg 1 (s_regfile w) = Inr 42 \<and> read_reg 0 (s_regfile w) = Inr 0"
proof -
  let ?st = "\<lparr>get_line = 6, get_lhs = 1, body = SCall ''inc'' [VLit 41]\<rparr>"
  have "\<exists>g k t. step_stmt always_calloc sample_program main_function [?st] (init_state []) = Enter g k t \<and>
      read_reg 16 (s_regfile t) = Inr 41 \<and> p_lhs k = 1 \<and> p_rest k = [] \<and> p_old k = init_regfile"
    by (simp add: step_stmt_def enter_call_def sample_program_def inc_function_def get_function_def
      init_state_def setup_args_def set_value_def read_reg_def reg_numbers fail_or_def set_nargs_def init_regfile_def)
  then obtain g k t where e: "step_stmt always_calloc sample_program main_function [?st] (init_state []) = Enter g k t"
    "read_reg 16 (s_regfile t) = Inr 41" "p_lhs k = 1" "p_rest k = []" "p_old k = init_regfile" by blast
  let ?u = "t\<lparr>s_regfile := init_regfile\<lparr>regs := replicate 33 7\<rparr>\<rparr>"
  obtain w where w: "resume k 42 ?u = Goto [] w"
    using e(3-5) by (simp add: resume_def fail_or_def write_reg_def reg_numbers)
  have "writable 1" "read_reg 0 (s_regfile (init_state [])) = Inr 0"
    by (simp_all add: writable_def read_reg_def reg_numbers init_state_def init_regfile_def)
  with call_restores_registers [OF init_state_ok e(1) w] e w show ?thesis by auto
qed

text \<open>
  C18. Along every run the cost never decreases, nothing that was written is taken back, and
  the heap usage reported at the end is at least the usage at every earlier moment.
\<close>

theorem cost_output_and_peak_grow:
  assumes p: "program_ok p" and run: "(machine_step calloc_ok p)\<^sup>*\<^sup>* (Running [] f b (init_state input)) c"
    and fin: "(machine_step calloc_ok p)\<^sup>*\<^sup>* c (Done (Inr (v, t)))"
    and f: "func_ok f" "block_ok b"
  shows "0 \<le> s_cost (state_of c) \<and> s_cost (state_of c) \<le> s_cost t \<and>
    prefix (s_out (state_of c)) (s_out t) \<and> alloced_size (s_memory (state_of c)) \<le> max_alloced_size (s_memory t)"
proof -
  have "config_ok (Running [] f b (init_state input))" using f init_state_ok by simp
  from machine_steps_ok [OF run p this] have "config_ok c" .
  then have "state_ok (state_of c)" by (cases c) simp_all
  then have "alloced_size (s_memory (state_of c)) \<le> max_alloced_size (s_memory (state_of c))"
    by (simp add: state_ok_def memory_ok_def heap_ok_def)
  with machine_steps_grow [OF run p] machine_steps_grow [OF fin p] show ?thesis
    by (auto simp: grows_def init_state_def)
qed

theorem cost_output_and_peak_grow_witness:
  "\<exists>b t. get_first_bb main_function = Some b \<and>
     (machine_step always_calloc sample_program)\<^sup>*\<^sup>* (Running [] main_function b (init_state [])) (Done (Inr (42, t))) \<and>
     0 \<le> s_cost t \<and> alloced_size (s_memory (init_state [])) \<le> max_alloced_size (s_memory t)"
proof -
  obtain t where t: "run_program always_calloc sample_program 4 [] = Some (Inr (42, t))"
    using sample_program_run by blast
  obtain b where b: "get_first_bb main_function = Some b"
    by (simp add: get_first_bb_def main_function_def)
  have "get_function sample_program ''main'' = Some main_function"
    by (simp add: get_function_def sample_program_def)
  with t b have "exec_loop always_calloc sample_program 4 main_function b (init_state []) = Some (Inr (42, t))"
    by (simp add: run_program_def exec_function_def)
  from exec_loop_steps [OF this, of "[]"] have r: "(machine_step always_calloc sample_program)\<^sup>*\<^sup>*
      (Running [] main_function b (init_state [])) (Done (Inr (42, t)))" by simp
  have "block_ok b" by (rule get_first_bb_ok [OF sample_program_ok(3) b])
  from cost_output_and_peak_grow [OF sample_program_ok(1) rtranclp.rtrancl_refl r sample_program_ok(3) this]
  have "0 \<le> s_cost t" "alloced_size (s_memory (init_state [])) \<le> max_alloced_size (s_memory t)"
    by auto
  with b r show ?thesis by blast
qed

end
