(* ===== verification/Interpreter.thy ===== *)
theory Interpreter
  imports Roundtrip_Program Machine_Theorems
begin

text \<open>
  The interpreter as a whole (\<open>main.cpp\<close>): parse the file, run \<open>main\<close>, report. The
  theorem composes the parser's guarantee with the safety of the run.
\<close>

datatype exit_status =
    Usage
  | Cannot_find string
  | Stopped int fault
  | Finished "u64 \<times> rat \<times> u64" string

text \<open>The file system is a map from names to contents; the arguments include the program's
  name. A log file name as third argument only says where the numbers of the log go.\<close>

definition interpreter_main ::
  "(memory \<Rightarrow> u64 \<Rightarrow> bool) \<Rightarrow> nat \<Rightarrow> (string \<rightharpoonup> string) \<Rightarrow> string list \<Rightarrow> string \<Rightarrow> exit_status option" where
  "interpreter_main calloc_ok n files args input =
     (if length args \<noteq> 2 \<and> length args \<noteq> 3 then Some Usage
      else case files (args ! 1) of
        None \<Rightarrow> Some (Cannot_find (args ! 1))
      | Some text \<Rightarrow>
          (case parse text of
             Inl (line, e) \<Rightarrow> Some (Stopped line e)
           | Inr p \<Rightarrow>
               (case run_program calloc_ok p n input of
                  None \<Rightarrow> None
                | Some (Inl (e, t)) \<Rightarrow> Some (Stopped (s_line t) e)
                | Some (Inr r) \<Rightarrow> Some (Finished (log_of r) (s_out (snd r))))))"

subsection \<open>The faults of a run\<close>

fun run_fault :: "fault \<Rightarrow> bool" where
  "run_fault (Runtime_error _) = True"
| "run_fault Assertion_failed = True"
| "run_fault (Undefined _) = True"
| "run_fault _ = False"

lemma read_reg_fault: "read_reg r rf = Inl e \<Longrightarrow> run_fault e"
  by (auto simp: read_reg_def split: if_splits)

lemma write_result_fault: "write_result lhs v s = Inl e \<Longrightarrow> run_fault e"
  by (auto simp: write_result_def write_reg_def result_iff split: if_splits)

lemma get_value_fault: "get_value v rf = Inl e \<Longrightarrow> run_fault e"
  by (cases v) (auto dest: read_reg_fault)

lemma find_block_fault: "find_block a m = Inl e \<Longrightarrow> run_fault e"
  by (auto simp: find_block_def Let_def split: if_splits)

lemma buffer_fault:
  "load_buffer sz bs a = Inl e \<Longrightarrow> run_fault e"
  "store_buffer sz bs a v = Inl e \<Longrightarrow> run_fault e"
  by (auto simp: load_buffer_def store_buffer_def split: if_splits)

lemma memory_fault:
  "exec_load sz a m = Inl e \<Longrightarrow> run_fault e"
  "exec_store sz a v m = Inl e \<Longrightarrow> run_fault e"
  "exec_malloc calloc_ok n m = Inl e \<Longrightarrow> run_fault e"
  "exec_free a m = Inl e \<Longrightarrow> run_fault e"
  by (auto simp: exec_load_def exec_store_def load_stack_def load_heap_def store_stack_def store_heap_def
    exec_malloc_def Let_def result_iff dest: find_block_fault buffer_fault dest!: exec_free_Inl
    split: if_splits option.splits)

lemma compute_fault: "compute k sz a b = Inl e \<Longrightarrow> run_fault e"
  unfolding compute_cases by (auto split: if_splits)

lemma exec_stmt_fault: "exec_stmt calloc_ok lhs b s = Inl e \<Longrightarrow> run_fault e"
  by (cases b) (auto simp: result_iff Let_def exec_reset_stack_def exec_reset_heap_def
    dest: get_value_fault write_result_fault memory_fault compute_fault split: option.splits prod.splits if_splits)

lemma setup_args_fault: "setup_args_from r args old rf = Inl e \<Longrightarrow> run_fault e"
  by (induction args arbitrary: r rf) (auto simp: result_iff set_value_def dest: get_value_fault split: if_splits)

lemma step_stmt_fault:
  assumes "step_stmt calloc_ok p f cur s = Fail e t"
  shows "run_fault e"
proof (cases cur)
  case (Cons st rest)
  have br: "branch_to f bb u = Fail e t \<Longrightarrow> run_fault e" "Fail e t = branch_to f bb u \<Longrightarrow> run_fault e" for bb u
    by (auto simp: branch_to_def split: option.splits)
  have tg: "cond_target c a b rf = Inl e \<Longrightarrow> run_fault e" "switch_target c tbl d rf = Inl e \<Longrightarrow> run_fault e" for c a b tbl d rf
    by (auto simp: cond_target_def switch_target_def result_iff dest: get_value_fault)
  have call: "enter_call p lhs g args rest u = Fail e t \<Longrightarrow> run_fault e" for lhs g args u
    by (auto simp: enter_call_def Let_def fail_or_iff setup_args_def dest: setup_args_fault
      dest!: sym [of "Fail e t"] split: option.splits if_splits)
  have plain: "fail_or u (exec_stmt calloc_ok lhs b u) (\<lambda>(c, s'). Goto rest (s'\<lparr>s_cost := s_cost s' + c\<rparr>)) = Fail e t
      \<Longrightarrow> run_fault e" for u lhs b
    by (auto simp: fail_or_iff dest: exec_stmt_fault split: prod.splits)
  show ?thesis
    using assms Cons
    by (cases "body st") (auto simp: step_stmt_def Let_def fail_or_iff dest: br tg call plain get_value_fault
      exec_stmt_fault simp del: exec_stmt.simps split: prod.splits)
qed (use assms in \<open>simp add: step_stmt_def\<close>, metis run_fault.simps(3))

lemma exec_loop_fault: "exec_loop calloc_ok p n f cur s = Some (Inl (e, t)) \<Longrightarrow> run_fault e"
proof (induction n arbitrary: f cur s e t)
  case (Suc n)
  show ?case
  proof (cases "step_stmt calloc_ok p f cur s")
    case (Enter g k s')
    show ?thesis
    proof (cases "get_first_bb g")
      case (Some b)
      have res: "run_fault e" if "resume k v u = Fail e t" for v u
        using that by (auto simp: resume_def fail_or_iff write_reg_def split: if_splits)
      show ?thesis
        using Suc.prems unfolding exec_loop_Enter [OF Enter Some] by (auto dest: Suc.IH res)
    qed (use Suc.prems Enter in \<open>auto simp: exec_loop_step\<close>)
  qed (use Suc in \<open>auto simp: exec_loop_step dest: step_stmt_fault\<close>)
qed simp

lemma run_program_fault: "run_program calloc_ok p n input = Some (Inl (e, t)) \<Longrightarrow> run_fault e"
  by (auto simp: run_program_def exec_function_def dest: exec_loop_fault split: option.splits)

text \<open>
  C2. Whatever the file and the input are, the interpreter stops early only in a documented way:
  with a syntax error of the parser at the line it reports, or with a run-time error or failed
  assertion of a well-formed program. No exception escapes, and undefined behaviour is reached
  only on the line of a load, store or division whose operands are one of the two hazards.
\<close>

theorem interpreter_stops_safely:
  assumes "interpreter_main calloc_ok n files args input = Some (Stopped line e)"
  shows "\<exists>text. files (args ! 1) = Some text \<and>
    ((\<exists>msg. e = Syntax_error msg \<and> parse text = Inl (line, e)) \<or>
     (\<exists>p. parse text = Inr p \<and> program_ok p \<and>
       (e = Assertion_failed \<or> (\<exists>msg. e = Runtime_error msg) \<or>
        (is_undefined e \<and> (\<exists>st \<in> stmts_of p. get_line st = line \<and> (\<exists>rf. hazard (body st) rf))))))"
proof -
  from assms obtain src where src: "files (args ! 1) = Some src"
    by (auto simp: interpreter_main_def split: if_splits option.splits)
  show ?thesis
  proof (cases "parse src")
    case (Inl x)
    obtain l e' where x: "x = (l, e')" by (cases x)
    then have "l = line" "e' = e" using assms src Inl by (auto simp: interpreter_main_def split: if_splits)
    with Inl x src parse_fault_syntax [of src] show ?thesis by auto
  next
    case (Inr p)
    from assms src Inr obtain t where t: "run_program calloc_ok p n input = Some (Inl (e, t))" "line = s_line t"
      by (auto simp: interpreter_main_def split: if_splits option.splits sum.splits)
    have p: "program_ok p" using parse_accepts_well_formed [OF Inr] by blast
    have "is_undefined e \<Longrightarrow> \<exists>st \<in> stmts_of p. s_line t = get_line st \<and> hazard (body st) (s_regfile t)"
      using run_ends_ok [OF p t(1)] by (auto simp: ends_ok_def at_hazard_def)
    moreover have "e = Assertion_failed \<or> (\<exists>msg. e = Runtime_error msg) \<or> is_undefined e"
      using run_program_fault [OF t(1)] by (cases e) simp_all
    ultimately have "e = Assertion_failed \<or> (\<exists>msg. e = Runtime_error msg) \<or>
        (is_undefined e \<and> (\<exists>st \<in> stmts_of p. get_line st = line \<and> (\<exists>rf. hazard (body st) rf)))"
      unfolding t(2) by metis
    with src Inr p show ?thesis by blast
  qed
qed

theorem interpreter_stops_safely_witness:
  "\<exists>line e. interpreter_main always_calloc 1 [''f'' \<mapsto> ''x''] [''sf'', ''f''] [] = Some (Stopped line e) \<and>
     (\<exists>msg. e = Syntax_error msg)"
proof -
  have "\<not> regex_match ''x'' rStartFunction"
    by (auto simp: regex_match_iff rStartFunction_def lang_spaced tStart_def Cons_eq_append_conv is_space_def)
  moreover have "\<not> blank_line ''x''"
    by (auto simp: blank_line_def regex_match_iff rComment_def lang_spaced lang_tESpace Cons_eq_append_conv is_space_def)
  moreover have "lines_of ''x'' = [''x'']" by (simp add: newline_def)
  ultimately have p: "parse ''x'' = Inl (1, Syntax_error ''start of a function expected'')"
    by (simp add: parse_def parse_line_def init_parser_def at_begin_def)
  then have r: "interpreter_main always_calloc 1 [''f'' \<mapsto> ''x''] [''sf'', ''f''] [] =
      Some (Stopped 1 (Syntax_error ''start of a function expected''))"
    by (simp add: interpreter_main_def)
  from interpreter_stops_safely [OF r] r show ?thesis by auto
qed

end
