(* ===== verification/Weird_Arithmetic.thy ===== *)
theory Weird_Arithmetic
  imports Bop
begin

text \<open>
  The strength reduction of the compiler (\<open>src/src/passes/WeirdArithmetic.cpp\<close>). The target
  charges less for a multiplication or division than for an addition or a bitwise operation, so
  the pass replaces the latter by the former where it can.

  A function is the list of its instructions in the order the three nested loops visit them, an
  instruction being named by its position; names past the end of the list are the function's
  arguments. A constant is the zero-extended value of its \<open>ConstantInt\<close>. Only binary
  integer instructions matter to the pass; any other one is \<open>IOther\<close>, and what it computes
  is a parameter of the semantics. Binary instructions have the meaning the interpreter gives
  them (\<open>compute\<close>), on the sizes the interpreter has.
\<close>

datatype opnd = OConst u64 | OVal nat

datatype winst = IBin bop_kind bitsize opnd opnd | IOther

type_synonym wfun = "winst list"

subsection \<open>The pass\<close>

text \<open>\<open>m_Sub(m_ZeroInt(), m_Value(X))\<close>\<close>

fun match_neg :: "winst \<Rightarrow> (bitsize \<times> opnd) option" where
  "match_neg (IBin Sub sz (OConst c) x) = (if c = 0 then Some (sz, x) else None)"
| "match_neg _ = None"

text \<open>\<open>m_c_And(m_Value(X), m_ConstantInt(C))\<close>: the operands as they are, then swapped.\<close>

fun match_c_and :: "winst \<Rightarrow> (bitsize \<times> opnd \<times> u64) option" where
  "match_c_and (IBin And sz x (OConst c)) = Some (sz, x, c)"
| "match_c_and (IBin And sz (OConst c) x) = Some (sz, x, c)"
| "match_c_and _ = None"

text \<open>\<open>dyn_cast<Instruction>(X)\<close> is a \<open>shl\<close> by a constant.\<close>

definition match_shl :: "wfun \<Rightarrow> opnd \<Rightarrow> u64 option" where
  "match_shl F x =
     (case x of
        OConst _ \<Rightarrow> None
      | OVal i \<Rightarrow>
          if i < length F
          then (case F ! i of IBin Shl _ _ (OConst c) \<Rightarrow> Some c | _ \<Rightarrow> None)
          else None)"

definition one_shl :: "u64 \<Rightarrow> u64" where
  "one_shl c = push_bit (unat c) 1"

definition fill_mask :: "wfun \<Rightarrow> opnd \<Rightarrow> u64 \<Rightarrow> u64" where
  "fill_mask F x N = (case match_shl F x of Some c \<Rightarrow> or N (one_shl c - 1) | None \<Rightarrow> N)"

text \<open>\<open>ConstantInt::get\<close> keeps the low bits of the value.\<close>

definition const_get :: "bitsize \<Rightarrow> u64 \<Rightarrow> opnd" where
  "const_get sz v = OConst (get_result sz v)"

definition shift_by_const :: "winst \<Rightarrow> (bop_kind \<times> bitsize \<times> opnd \<times> u64) option" where
  "shift_by_const I =
     (case I of
        IBin k sz x (OConst c) \<Rightarrow> if is_shift_op k then Some (k, sz, x, c) else None
      | _ \<Rightarrow> None)"

definition and_i1 :: "winst \<Rightarrow> (opnd \<times> opnd) option" where
  "and_i1 I = (case I of IBin And Size1 x y \<Rightarrow> Some (x, y) | _ \<Rightarrow> None)"

text \<open>The body of the loop: the instruction \<open>NewI\<close>, if any.\<close>

definition new_inst :: "wfun \<Rightarrow> winst \<Rightarrow> winst option" where
  "new_inst F I =
     (case match_neg I of
        Some (sz, x) \<Rightarrow> Some (IBin Mul sz x (const_get sz (- 1)))
      | None \<Rightarrow>
     (case match_c_and I of
        Some (sz, x, c) \<Rightarrow>
          (let N = fill_mask F x c in
           if and N (N + 1) = 0 then Some (IBin Urem sz x (const_get sz (N + 1))) else None)
      | None \<Rightarrow>
     (case shift_by_const I of
        Some (k, sz, x, c) \<Rightarrow>
          (case k of
             Shl \<Rightarrow> Some (IBin Mul sz x (const_get sz (one_shl c)))
           | Lshr \<Rightarrow> Some (IBin Udiv sz x (const_get sz (one_shl c)))
           | _ \<Rightarrow> None)
      | None \<Rightarrow>
     (case and_i1 I of
        Some (x, y) \<Rightarrow> Some (IBin Mul Size1 x y)
      | None \<Rightarrow> None))))"

definition weird_worklist :: "wfun \<Rightarrow> (nat \<times> winst) list" where
  "weird_worklist F =
     concat (map (\<lambda>i. case new_inst F (F ! i) of Some n \<Rightarrow> [(i, n)] | None \<Rightarrow> []) [0..<length F])"

definition weird_run :: "wfun \<Rightarrow> wfun" where
  "weird_run F = fold (\<lambda>(i, n) G. G[i := n]) (weird_worklist F) F"

subsection \<open>What a function computes\<close>

text \<open>
  The values of instructions and arguments so far; a path is the sequence of the instructions
  control passes through.
\<close>

type_synonym wenv = "nat \<Rightarrow> u64 option"

fun opnd_val :: "wenv \<Rightarrow> opnd \<Rightarrow> u64 result" where
  "opnd_val env (OConst c) = Inr c"
| "opnd_val env (OVal i) =
     (case env i of Some v \<Rightarrow> Inr v | None \<Rightarrow> Inl (Undefined ''value used before its definition''))"

fun winst_value :: "(wenv \<Rightarrow> u64 result) \<Rightarrow> wenv \<Rightarrow> winst \<Rightarrow> u64 result" where
  "winst_value other env (IBin k sz a b) =
     rbind (opnd_val env a) (\<lambda>x. rbind (opnd_val env b) (\<lambda>y. compute k sz x y))"
| "winst_value other env IOther = other env"

fun run_path :: "(nat \<Rightarrow> wenv \<Rightarrow> u64 result) \<Rightarrow> wfun \<Rightarrow> wenv \<Rightarrow> nat list \<Rightarrow> wenv result" where
  "run_path other F env [] = Inr env"
| "run_path other F env (i # is) =
     (if i < length F
      then rbind (winst_value (other i) env (F ! i)) (\<lambda>v. run_path other F (env(i \<mapsto> v)) is)
      else Inl (Undefined ''no such instruction''))"

fun winst_cost :: "winst \<Rightarrow> rat" where
  "winst_cost (IBin k _ _ _) = cost_of k"
| "winst_cost IOther = 0"

definition path_cost :: "wfun \<Rightarrow> nat list \<Rightarrow> rat" where
  "path_cost F is = sum_list (map (\<lambda>i. winst_cost (F ! i)) is)"

text \<open>
  What the pass takes for granted: shift amounts are below the width, as a larger one makes the
  instruction poison; the mask of an \<open>and\<close> is not all ones at its width, which the comment
  in the code attributes to the \<open>instcombine\<close> pass; and a \<open>shl\<close> that is an operand of
  an \<open>and\<close> has its type.
\<close>

definition shl_size :: "wfun \<Rightarrow> opnd \<Rightarrow> bitsize option" where
  "shl_size F x =
     (case x of
        OVal i \<Rightarrow> if i < length F then (case F ! i of IBin Shl sz _ _ \<Rightarrow> Some sz | _ \<Rightarrow> None) else None
      | _ \<Rightarrow> None)"

definition weird_inst_ok :: "wfun \<Rightarrow> winst \<Rightarrow> bool" where
  "weird_inst_ok F I =
     ((case shift_by_const I of Some (k, sz, x, c) \<Rightarrow> unat c < bw_of sz | None \<Rightarrow> True)
      \<and> (case match_c_and I of
           Some (sz, x, c) \<Rightarrow>
             get_result sz (fill_mask F x c + 1) \<noteq> 0
             \<and> (case shl_size F x of Some sz' \<Rightarrow> sz' = sz | None \<Rightarrow> True)
         | None \<Rightarrow> True))"

definition weird_ok :: "wfun \<Rightarrow> bool" where
  "weird_ok F = list_all (weird_inst_ok F) F"


subsection \<open>The rewrites are sound\<close>

lemma unsigned_of_get_result: "unsigned_of (bw_of sz) (get_result sz v) = take_bit (bw_of sz) (uint v)"
  by (simp add: unsigned_of_def uint_get_result)

lemma take_bit_unsigned_of [simp]: "take_bit n (unsigned_of n v) = unsigned_of n v"
  by (simp add: unsigned_of_def)

text \<open>\<open>compute\<close> on the operations the pass removes and introduces.\<close>

lemma compute_total:
  assumes "\<not> is_div_op k"
  shows "compute k sz a b = Inr (word_of_int (take_bit (bw_of sz) (bop_spec k (bw_of sz) a b)))"
  using assms unfolding compute_cases by (auto simp: is_div_op_def)

lemma compute_udiv_urem:
  assumes "k \<in> {Udiv, Urem}" "unsigned_of (bw_of sz) b \<noteq> 0"
  shows "compute k sz a b = Inr (word_of_int (take_bit (bw_of sz) (bop_spec k (bw_of sz) a b)))"
  using assms unfolding compute_cases by auto

lemma uint_one_shl: "unat c < 64 \<Longrightarrow> uint (one_shl c) = 2 ^ unat c"
  by (simp only: one_shl_def unsigned_push_bit_eq) (simp add: push_bit_eq_mult take_bit_of_exp)

lemma unsigned_one_shl:
  assumes "unat c < bw_of sz"
  shows "unsigned_of (bw_of sz) (get_result sz (one_shl c)) = 2 ^ unat c"
proof -
  from assms bw_of_bounds(2) [of sz] have "unat c < 64" by linarith
  with assms show ?thesis
    by (simp only: unsigned_of_get_result uint_one_shl take_bit_of_exp) simp
qed

lemma neg_value: "compute Sub sz 0 x = compute Mul sz x (get_result sz (- 1))"
proof -
  let ?w = "bw_of sz" and ?X = "unsigned_of (bw_of sz) x"
  have "uint (- 1 :: u64) = mask 64" by (simp add: unsigned_minus_1_eq_mask)
  then have m: "unsigned_of ?w (get_result sz (- 1)) = mask ?w"
    using bw_of_bounds(2) [of sz] by (simp only: unsigned_of_get_result take_bit_of_mask min_def) simp
  have "take_bit ?w (?X * take_bit ?w (- 1)) = take_bit ?w (?X * (- 1))"
    unfolding take_bit_eq_mod by (rule mod_mult_right_eq)
  then have "take_bit ?w (?X * mask ?w) = take_bit ?w (- ?X)"
    by (simp only: take_bit_minus_one_eq_mask) simp
  moreover have "unsigned_of ?w 0 = 0" by (simp add: unsigned_of_def)
  ultimately show ?thesis
    by (simp add: compute_total is_div_op_def m)
qed

lemma shl_value: "unat c < bw_of sz \<Longrightarrow> compute Shl sz x c = compute Mul sz x (get_result sz (one_shl c))"
  by (simp add: compute_total is_div_op_def unsigned_one_shl)

lemma lshr_value: "unat c < bw_of sz \<Longrightarrow> compute Lshr sz x c = compute Udiv sz x (get_result sz (one_shl c))"
  by (simp add: compute_total compute_udiv_urem is_div_op_def unsigned_one_shl)

lemma take_bit_1_cases: "take_bit (Suc 0) (i :: int) = 0 \<or> take_bit (Suc 0) i = 1"
  by (simp add: take_bit_eq_mod) presburger

lemma and_i1_value: "compute And Size1 = compute Mul Size1"
proof (intro ext)
  fix x y :: u64
  show "compute And Size1 x y = compute Mul Size1 x y"
    using take_bit_1_cases [of "uint x"] take_bit_1_cases [of "uint y"]
    by (auto simp: compute_total is_div_op_def unsigned_of_def simp del: take_bit_Suc_0)
qed

text \<open>A word that shares no bit with its successor is a mask of low bits.\<close>

lemma nat_and_Suc_mask: "and n (Suc n) = 0 \<Longrightarrow> \<exists>k. n = 2 ^ k - 1"
proof (induction n rule: less_induct)
  case (less n)
  show ?case
  proof (cases "even n")
    case True
    then obtain m where m: "n = 2 * m" by blast
    have "and n (Suc n) = of_bool (odd n \<and> odd (Suc n)) + 2 * (and (n div 2) (Suc n div 2))"
      by (rule and_nat_rec)
    with less.prems m have "m = 0" by simp
    with m have "n = 2 ^ 0 - 1" by simp
    then show ?thesis by blast
  next
    case False
    then obtain m where m: "n = 2 * m + 1" by (blast elim: oddE)
    have "and n (Suc n) = of_bool (odd n \<and> odd (Suc n)) + 2 * (and (n div 2) (Suc n div 2))"
      by (rule and_nat_rec)
    with less.prems m have "and m (Suc m) = 0" by simp
    with less.IH [of m] m obtain k where "m = 2 ^ k - 1" by auto
    then have "n = 2 * (2 ^ k - 1) + 1" using m by simp
    moreover have "(1::nat) \<le> 2 ^ k" by simp
    ultimately have "n = 2 ^ Suc k - 1" unfolding power_Suc by linarith
    then show ?thesis by blast
  qed
qed

lemma word_and_succ_mask:
  fixes N :: u64
  assumes "and N (N + 1) = 0" "N + 1 \<noteq> 0"
  obtains k where "k < 64" "uint N = mask k" "uint (N + 1) = 2 ^ k"
proof -
  have s: "unat (N + 1) = Suc (unat N)" using assms(2) unatSuc [of N] by (metis add.commute)
  have "unat (and N (N + 1)) = and (unat N) (Suc (unat N))"
    by (simp only: unsigned_and_eq s)
  with assms(1) have "and (unat N) (Suc (unat N)) = 0" by simp
  then obtain k where k: "unat N = 2 ^ k - 1" using nat_and_Suc_mask by blast
  have sk: "unat (N + 1) = 2 ^ k" using k s by (metis Suc_diff_1 zero_less_numeral zero_less_power)
  have "(2::nat) ^ k < 2 ^ 64" using sk u64_less_bound [of "N + 1"] by simp
  then have "k < 64" by (rule power_less_imp_less_exp [rotated]) simp
  moreover have "uint N = mask k"
  proof -
    have "uint N = int (2 ^ k - 1)" using k by (metis int_nat_eq uint_nat)
    then show ?thesis by (simp add: mask_eq_exp_minus_1 of_nat_diff)
  qed
  moreover have "uint (N + 1) = 2 ^ k" using sk by (metis of_nat_numeral of_nat_power uint_nat)
  ultimately show ?thesis by (rule that)
qed

text \<open>
  \<open>and x, c\<close> is the remainder by \<open>N + 1\<close> when \<open>N\<close> adds to \<open>c\<close> low bits
  that are zero in \<open>x\<close>.
\<close>

lemma and_value:
  assumes mask: "and N (N + 1) = 0" and nz: "get_result sz (N + 1) \<noteq> 0"
    and same: "and (unsigned_of (bw_of sz) x) (unsigned_of (bw_of sz) c)
      = and (unsigned_of (bw_of sz) x) (unsigned_of (bw_of sz) N)"
  shows "compute And sz x c = compute Urem sz x (get_result sz (N + 1))"
proof -
  let ?w = "bw_of sz" and ?X = "unsigned_of (bw_of sz) x"
  from nz have "N + 1 \<noteq> 0" by (auto simp: get_result_def split: bitsize.splits)
  with mask obtain k where k: "k < 64" "uint N = mask k" "uint (N + 1) = 2 ^ k"
    by (rule word_and_succ_mask)
  have "uint (get_result sz (N + 1)) \<noteq> 0" using nz by (simp only: unsigned_eq_0_iff not_False_eq_True)
  then have "take_bit ?w ((2 :: int) ^ k) \<noteq> 0" unfolding uint_get_result k(3) .
  then have kw: "k < ?w" unfolding take_bit_of_exp by (cases "k < ?w") simp_all
  then have u: "unsigned_of ?w (get_result sz (N + 1)) = 2 ^ k"
    by (simp only: unsigned_of_get_result k) (simp add: take_bit_of_exp)
  have "unsigned_of ?w N = mask k" using kw by (simp add: unsigned_of_def k(2) take_bit_of_mask min_def)
  then have "and ?X (unsigned_of ?w c) = take_bit k ?X" by (simp only: same flip: take_bit_eq_mask)
  then show ?thesis
    by (simp add: compute_total compute_udiv_urem is_div_op_def u take_bit_eq_mod)
qed

subsection \<open>The pass rewrites each instruction on its own\<close>

definition weird_inst :: "wfun \<Rightarrow> winst \<Rightarrow> winst" where
  "weird_inst F I = (case new_inst F I of Some n \<Rightarrow> n | None \<Rightarrow> I)"

lemma replace_worklist:
  assumes "n \<le> length G"
  shows "fold (\<lambda>(i, m) G. G[i := m])
      (concat (map (\<lambda>i. case new_inst F (F ! i) of Some m \<Rightarrow> [(i, m)] | None \<Rightarrow> []) [0..<n])) G
    = map (\<lambda>i. if i < n then (case new_inst F (F ! i) of Some m \<Rightarrow> m | None \<Rightarrow> G ! i) else G ! i)
        [0..<length G]"
  using assms
proof (induction n)
  case (Suc n)
  then show ?case
    by (cases "new_inst F (F ! n)") (auto intro!: nth_equalityI simp: nth_list_update less_Suc_eq)
qed (simp add: map_nth)

lemma weird_run_map: "weird_run F = map (weird_inst F) F"
  unfolding weird_run_def weird_worklist_def
  by (subst replace_worklist) (auto intro!: nth_equalityI simp: weird_inst_def split: option.splits)

lemma length_weird_run [simp]: "length (weird_run F) = length F"
  by (simp add: weird_run_map)

subsection \<open>Values a shift leaves behind\<close>

definition shl_zero :: "wfun \<Rightarrow> wenv \<Rightarrow> bool" where
  "shl_zero F env \<longleftrightarrow>
     (\<forall>i c v. match_shl F (OVal i) = Some c \<and> env i = Some v \<longrightarrow> take_bit (unat c) (uint v) = 0)"

lemma match_shl_Some: "match_shl F x = Some c \<longleftrightarrow>
   (\<exists>i sz y. x = OVal i \<and> i < length F \<and> F ! i = IBin Shl sz y (OConst c))"
  by (auto simp: match_shl_def split: opnd.splits winst.splits bop_kind.splits if_splits)

lemma weird_ok_nth: "\<lbrakk> weird_ok F; i < length F \<rbrakk> \<Longrightarrow> weird_inst_ok F (F ! i)"
  by (simp add: weird_ok_def list_all_length)

lemma shl_amount:
  assumes "weird_ok F" "i < length F" "F ! i = IBin Shl sz x (OConst c)"
  shows "unat c < bw_of sz"
  using weird_ok_nth [OF assms(1,2)] assms(3) by (simp add: weird_inst_ok_def shift_by_const_def)

lemma shl_result_zero:
  assumes "unat c < bw_of sz" "compute Shl sz x c = Inr v"
  shows "take_bit (unat c) (uint v) = 0"
proof -
  let ?w = "bw_of sz"
  have "v = word_of_int (take_bit ?w (unsigned_of ?w x * 2 ^ unat c))"
    using assms by (simp add: compute_total is_div_op_def)
  then have "uint v = take_bit ?w (unsigned_of ?w x * 2 ^ unat c)"
    using bw_of_bounds(2) [of sz] by (simp add: uint_word_of_int_eq min_def)
  then have "take_bit (unat c) (uint v) = take_bit (unat c) (unsigned_of ?w x * 2 ^ unat c)"
    using assms(1) by (simp add: min_def)
  then show ?thesis by (simp add: take_bit_eq_mod)
qed

lemma shl_zero_step:
  assumes ok: "weird_ok F" and i: "i < length F" and z: "shl_zero F env"
    and v: "winst_value o' env (F ! i) = Inr v"
  shows "shl_zero F (env(i \<mapsto> v))"
  unfolding shl_zero_def
proof (intro allI impI)
  fix j c u assume *: "match_shl F (OVal j) = Some c \<and> (env(i \<mapsto> v)) j = Some u"
  show "take_bit (unat c) (uint u) = 0"
  proof (cases "j = i")
    case True
    with * obtain sz y where f: "F ! i = IBin Shl sz y (OConst c)" and u: "u = v"
      by (auto simp: match_shl_Some)
    from v f obtain x where "compute Shl sz x c = Inr v" by (auto simp: result_iff)
    with shl_amount [OF ok i f] u show ?thesis by (simp add: shl_result_zero)
  next
    case False
    with * z show ?thesis by (auto simp: shl_zero_def)
  qed
qed

lemma one_shl_mask: "one_shl c - 1 = mask (unat c)"
  by (simp add: one_shl_def mask_eq_exp_minus_1)

lemma filled_mask_same:
  assumes "take_bit m X = 0"
  shows "and (X :: int) (unsigned_of w c) = and X (unsigned_of w (or c (mask m)))"
proof (rule bit_eqI)
  fix n
  have "\<not> bit X n" if "n < m" using assms that by (metis bit_0_eq bit_take_bit_iff bot_apply bot_bool_def)
  then show "bit (and X (unsigned_of w c)) n = bit (and X (unsigned_of w (or c (mask m)))) n"
    by (auto simp: unsigned_of_def bit_simps)
qed

lemma weird_inst_value:
  assumes ok: "weird_ok F" and i: "i < length F" and z: "shl_zero F env"
  shows "winst_value o' env (weird_inst F (F ! i)) = winst_value o' env (F ! i)"
proof (cases "new_inst F (F ! i)")
  case None
  then show ?thesis by (simp add: weird_inst_def)
next
  case (Some n)
  let ?I = "F ! i"
  have oki: "weird_inst_ok F ?I" by (rule weird_ok_nth) fact+
  have "winst_value o' env n = winst_value o' env ?I"
  proof (cases "match_neg ?I")
    case neg: (Some p)
    then obtain sz x where I: "?I = IBin Sub sz (OConst 0) x" and p: "p = (sz, x)"
      by (cases ?I rule: match_neg.cases) (auto split: if_splits)
    from I Some have n: "n = IBin Mul sz x (const_get sz (- 1))"
      by (simp add: new_inst_def)
    have "winst_value o' env ?I = rbind (opnd_val env x) (\<lambda>v. compute Sub sz 0 v)"
      by (simp only: I winst_value.simps opnd_val.simps rbind_simps)
    also have "\<dots> = winst_value o' env n"
      by (simp only: n const_get_def winst_value.simps opnd_val.simps rbind_simps neg_value)
    finally show ?thesis by (rule sym)
  next
    case no_neg: None
    show ?thesis
    proof (cases "match_c_and ?I")
      case c_and: (Some p)
      then obtain sz x c where p: "p = (sz, x, c)" by (cases p) auto
      define N where "N = fill_mask F x c"
      from Some no_neg c_and p have mask: "and N (N + 1) = 0"
        and n: "n = IBin Urem sz x (const_get sz (N + 1))"
        by (auto simp: new_inst_def N_def Let_def split: if_splits)
      from oki c_and p have nz: "get_result sz (N + 1) \<noteq> 0"
        by (simp add: weird_inst_ok_def N_def)
      have same: "compute And sz v c = compute Urem sz v (get_result sz (N + 1))"
        if v: "opnd_val env x = Inr v" for v
      proof (rule and_value [OF mask nz])
        show "and (unsigned_of (bw_of sz) v) (unsigned_of (bw_of sz) c)
          = and (unsigned_of (bw_of sz) v) (unsigned_of (bw_of sz) N)"
        proof (cases "match_shl F x")
          case None
          then show ?thesis by (simp add: N_def fill_mask_def)
        next
          case (Some m)
          then obtain j sz' y where j: "x = OVal j" "j < length F" "F ! j = IBin Shl sz' y (OConst m)"
            by (auto simp: match_shl_Some)
          from v j(1) have "env j = Some v" by (simp split: option.splits)
          with z Some j(1) have "take_bit (unat m) (uint v) = 0" by (auto simp: shl_zero_def)
          then have "take_bit (unat m) (unsigned_of (bw_of sz) v) = 0"
            unfolding unsigned_of_def by (metis min.commute take_bit_of_0 take_bit_take_bit)
          moreover have "N = or c (mask (unat m))"
            by (simp add: N_def fill_mask_def Some one_shl_mask)
          ultimately show ?thesis using filled_mask_same by metis
        qed
      qed
      have comm: "compute And sz u w = compute And sz w u" for u w
        by (simp add: compute_total is_div_op_def and.commute)
      from c_and p have "?I = IBin And sz x (OConst c) \<or> ?I = IBin And sz (OConst c) x"
        by (cases ?I rule: match_c_and.cases) auto
      then show ?thesis
      proof
        assume "?I = IBin And sz x (OConst c)"
        then show ?thesis by (cases "opnd_val env x") (simp_all add: n const_get_def same)
      next
        assume "?I = IBin And sz (OConst c) x"
        then show ?thesis
          by (cases "opnd_val env x") (simp_all add: n const_get_def same comm [of c])
      qed
    next
      case no_and: None
      show ?thesis
      proof (cases "shift_by_const ?I")
        case shift: (Some p)
        then obtain k sz x c where p: "p = (k, sz, x, c)" by (cases p) auto
        with shift have I: "?I = IBin k sz x (OConst c)"
          by (auto simp: shift_by_const_def split: winst.splits opnd.splits if_splits)
        from oki shift p have "unat c < bw_of sz" by (simp add: weird_inst_ok_def)
        with Some no_neg no_and shift p I show ?thesis
          by (cases k) (auto simp: new_inst_def const_get_def shl_value lshr_value)
      next
        case None
        with Some no_neg no_and obtain x y where "and_i1 ?I = Some (x, y)" "n = IBin Mul Size1 x y"
          by (auto simp: new_inst_def split: option.splits)
        then show ?thesis
          by (auto simp: and_i1_def and_i1_value split: winst.splits bop_kind.splits bitsize.splits)
      qed
    qed
  qed
  with Some show ?thesis by (simp add: weird_inst_def)
qed

lemma run_path_weird:
  assumes ok: "weird_ok F"
  shows "shl_zero F env \<Longrightarrow> run_path other (weird_run F) env is = run_path other F env is"
proof (induction "is" arbitrary: env)
  case (Cons i "is")
  show ?case
  proof (cases "i < length F")
    case True
    then have v: "winst_value (other i) env (weird_run F ! i) = winst_value (other i) env (F ! i)"
      using weird_inst_value [OF ok True Cons.prems] by (simp add: weird_run_map)
    show ?thesis
    proof (cases "winst_value (other i) env (F ! i)")
      case (Inr v)
      from Cons.IH [OF shl_zero_step [OF ok True Cons.prems Inr]] Inr v show ?thesis
        by (simp add: True fun_upd_def)
    qed (simp add: True v)
  qed simp
qed simp

text \<open>
  C26. The strength reduction does not change what a function computes: along any path of
  instructions from the entry, where only the arguments have a value, the rewritten function
  gives every instruction the value, or the run the fault, of the original. This needs the
  facts the pass relies on: shifts stay below the width and no mask is all ones.
\<close>

theorem weird_arithmetic_preserves_values:
  assumes "weird_ok F" and "\<forall>i < length F. args i = None"
  shows "run_path other (weird_run F) args is = run_path other F args is"
  by (rule run_path_weird) (use assms in \<open>auto simp: shl_zero_def match_shl_Some\<close>)

text \<open>\<open>f(a) = ((a << 3) & 0xf8) + (0 - a)\<close> at width 32: the mask is filled to \<open>0xff\<close>.\<close>

definition weird_sample :: wfun where
  "weird_sample = [IBin Shl Size32 (OVal 9) (OConst 3), IBin And Size32 (OVal 0) (OConst 248),
     IBin Sub Size32 (OConst 0) (OVal 9), IBin Add Size32 (OVal 1) (OVal 2)]"

lemma weird_sample_run:
  "weird_run weird_sample = [IBin Mul Size32 (OVal 9) (OConst 8), IBin Urem Size32 (OVal 0) (OConst 256),
     IBin Mul Size32 (OVal 9) (OConst 4294967295), IBin Add Size32 (OVal 1) (OVal 2)]"
  by code_simp

theorem weird_arithmetic_preserves_values_witness:
  "run_path (\<lambda>_ _. Inr 0) (weird_run weird_sample) [9 \<mapsto> 7] [0, 1, 2, 3]
     = run_path (\<lambda>_ _. Inr 0) weird_sample [9 \<mapsto> 7] [0, 1, 2, 3]"
proof (rule weird_arithmetic_preserves_values)
  show "weird_ok weird_sample" by code_simp
  show "\<forall>i<length weird_sample. [9 \<mapsto> 7] i = None" by (simp add: weird_sample_def)
qed

text \<open>What a rewritten instruction costs on the target.\<close>

lemma new_inst_cost: "new_inst F I = Some n \<Longrightarrow> winst_cost n < winst_cost I"
proof -
  assume n: "new_inst F I = Some n"
  show ?thesis
  proof (cases I)
    case IOther
    with n show ?thesis by (simp add: new_inst_def shift_by_const_def and_i1_def)
  next
    case (IBin k sz a b)
    with n show ?thesis
      by (cases k; cases a; cases b)
        (auto simp: new_inst_def shift_by_const_def and_i1_def cost_defs Let_def
          split: if_splits bitsize.splits)
  qed
qed

lemma path_cost_pointwise:
  assumes "\<And>i. i \<in> set is \<Longrightarrow> winst_cost (G ! i) \<le> winst_cost (F ! i)"
  shows "path_cost G is \<le> path_cost F is"
  using assms unfolding path_cost_def by (intro sum_list_mono) simp

text \<open>
  The strength reduction pays: no path becomes more expensive on the target, and one that
  passes through an instruction the pass rewrites becomes strictly cheaper.
\<close>

theorem weird_arithmetic_saves_cost:
  assumes "set is \<subseteq> {..<length F}"
  shows "path_cost (weird_run F) is \<le> path_cost F is
    \<and> ((\<exists>i \<in> set is. weird_run F ! i \<noteq> F ! i) \<longrightarrow> path_cost (weird_run F) is < path_cost F is)"
proof -
  have c: "winst_cost (weird_run F ! i) \<le> winst_cost (F ! i)
      \<and> (weird_run F ! i \<noteq> F ! i \<longrightarrow> winst_cost (weird_run F ! i) < winst_cost (F ! i))"
    if "i \<in> set is" for i
  proof -
    from that assms have "weird_run F ! i = weird_inst F (F ! i)" by (auto simp: weird_run_map)
    with new_inst_cost [of F "F ! i"] show ?thesis
      by (cases "new_inst F (F ! i)") (auto simp: weird_inst_def intro: less_imp_le)
  qed
  have "path_cost (weird_run F) is < path_cost F is"
    if "i \<in> set is" "weird_run F ! i \<noteq> F ! i" for i
  proof -
    from that(1) obtain xs ys where "is": "is = xs @ i # ys" by (meson split_list)
    with c have "path_cost (weird_run F) xs \<le> path_cost F xs"
      "path_cost (weird_run F) ys \<le> path_cost F ys"
      by (auto intro!: path_cost_pointwise)
    moreover have "winst_cost (weird_run F ! i) < winst_cost (F ! i)" using c that by blast
    ultimately show ?thesis by (simp add: "is" path_cost_def)
  qed
  moreover have "path_cost (weird_run F) is \<le> path_cost F is"
    using c by (auto intro: path_cost_pointwise)
  ultimately show ?thesis by blast
qed

theorem weird_arithmetic_saves_cost_witness:
  "path_cost (weird_run weird_sample) [0, 1, 2, 3] < path_cost weird_sample [0, 1, 2, 3]"
proof -
  have "weird_run weird_sample ! 0 \<noteq> weird_sample ! 0"
    unfolding weird_sample_run by (simp add: weird_sample_def)
  with weird_arithmetic_saves_cost [of "[0, 1, 2, 3]" weird_sample] show ?thesis
    by (auto simp: weird_sample_def)
qed

text \<open>
  The assumption on masks is needed: \<open>and x, -1\<close>, if it reaches the pass, becomes a
  remainder by zero.
\<close>

lemma weird_all_ones_divides_by_zero:
  "weird_run [IBin And Size32 (OVal 5) (OConst 4294967295)] = [IBin Urem Size32 (OVal 5) (OConst 0)]
   \<and> run_path (\<lambda>_ _. Inr 0) [IBin Urem Size32 (OVal 5) (OConst 0)] [5 \<mapsto> 7] [0]
     = Inl (Runtime_error ''division by zero'')"
proof
  show "weird_run [IBin And Size32 (OVal 5) (OConst 4294967295)] = [IBin Urem Size32 (OVal 5) (OConst 0)]"
    by code_simp
qed (simp add: compute_cases is_div_op_def unsigned_of_def)

end
