(* ===== verification/Register_Allocator.thy ===== *)
theory Register_Allocator
  imports Prelude "HOL-Library.Multiset"
begin

text \<open>
  The register allocator of the compiler (\<open>src/src/core/RegisterAllocator.cpp\<close>). It hands out
  the sixteen registers to instructions (allocations) and to the code generator (temporary
  registers), and picks the allocation to evict when none is left: the one whose next use is
  the furthest away. Instructions are values of a type variable; a null pointer is
  \<open>None\<close>. A failing \<open>assert\<close> is \<open>Inl\<close> of what it asserts.

  The code keeps its allocations as a heap with \<open>std::make_heap\<close> and
  \<open>std::pop_heap\<close>. The C++ standard fixes what these functions guarantee, not the order
  they leave the elements in, so they are parameters of the model; \<open>heap_laws\<close> states
  what the standard promises.
\<close>



type_synonym 'a checked = "string + 'a"

definition check_that :: "bool \<Rightarrow> string \<Rightarrow> 'a checked \<Rightarrow> 'a checked" where
  "check_that b msg r = (if b then r else Inl msg)"

lemma check_that_Inr [result_iff]: "check_that b msg r = Inr x \<longleftrightarrow> b \<and> r = Inr x"
  by (simp add: check_that_def)

lemma check_that_True [simp]: "check_that True msg r = r"
  by (simp add: check_that_def)

subsection \<open>State\<close>

definition NO_MORE_ADVENT :: u32 where
  "NO_MORE_ADVENT = - 1"

record 'i allocation =
  al_source :: 'i
  al_last :: "'i option"   \<comment> \<open>\<open>LastUser\<close>\<close>
  al_reg :: nat            \<comment> \<open>\<open>RegId\<close>\<close>
  al_next :: u32           \<comment> \<open>\<open>NextAdvent\<close>\<close>

definition new_allocation :: "'i \<Rightarrow> nat \<Rightarrow> 'i allocation" where
  "new_allocation s r = \<lparr> al_source = s, al_last = None, al_reg = r, al_next = 0 \<rparr>"

record 'i ra =
  ra_free :: "nat list"    \<comment> \<open>\<open>FreeRegisters\<close>, the top of the stack first\<close>
  ra_temps :: "nat set"    \<comment> \<open>\<open>TempRegisters\<close>\<close>
  ra_active :: "'i allocation list"  \<comment> \<open>\<open>ActiveSet\<close>\<close>
  ra_user :: "'i option"   \<comment> \<open>\<open>CurrentUser\<close>\<close>

record 'i heap_ops =
  hp_make :: "'i allocation list \<Rightarrow> 'i allocation list"
  hp_pop :: "'i allocation list \<Rightarrow> 'i allocation list"

definition MAX_REG_N :: nat where "MAX_REG_N = 16"
definition MIN_REG_N :: nat where "MIN_REG_N = 1"

subsection \<open>Operations\<close>

definition ra_init :: "'i ra" where
  "ra_init = \<lparr> ra_free = fold (#) (rev [MIN_REG_N..<Suc MAX_REG_N]) [], ra_temps = {},
     ra_active = [], ra_user = None \<rparr>"

definition allocate_new_register :: "'i ra \<Rightarrow> nat \<times> 'i ra" where
  "allocate_new_register s =
     (case ra_free s of [] \<Rightarrow> (0, s) | r # rs \<Rightarrow> (r, s\<lparr>ra_free := rs\<rparr>))"

fun index_of :: "('a \<Rightarrow> bool) \<Rightarrow> 'a list \<Rightarrow> nat option" where
  "index_of P [] = None"
| "index_of P (x # xs) = (if P x then Some 0 else map_option Suc (index_of P xs))"

text \<open>
  The loop of \<open>getVictim\<close>; the argument \<open>n\<close> is the distance of \<open>HeapEnd\<close> from the
  beginning. The result is the rearranged \<open>ActiveSet\<close>, with the victim in front.
\<close>

primrec victim_loop :: "'i heap_ops \<Rightarrow> 'i option \<Rightarrow> nat \<Rightarrow> 'i allocation list
    \<Rightarrow> 'i allocation list checked" where
  "victim_loop H u 0 xs = Inl ''HeapEnd != ActiveSet.begin()''"
| "victim_loop H u (Suc n) xs =
     (if u \<noteq> None \<and> al_last (hd xs) = u
      then let xs' = hp_pop H (take (Suc n) xs) @ drop (Suc n) xs in
        if n = 0 then Inl ''HeapEnd != ActiveSet.begin()'' else victim_loop H u n xs'
      else Inr xs)"

definition get_victim :: "'i heap_ops \<Rightarrow> nat \<Rightarrow> 'i ra \<Rightarrow> ('i allocation list \<times> nat) checked" where
  "get_victim H r s =
     (if r \<noteq> 0
      then (case index_of (\<lambda>a. al_reg a = r) (ra_active s) of
              None \<Rightarrow> Inl ''Victim != ActiveSet.end()''
            | Some i \<Rightarrow> Inr (ra_active s, i))
      else rbind (victim_loop H (ra_user s) (length (ra_active s)) (ra_active s)) (\<lambda>xs. Inr (xs, 0)))"

definition ra_get :: "'i \<Rightarrow> 'i ra \<Rightarrow> nat" where
  "ra_get i s = (case find (\<lambda>a. al_source a = i) (ra_active s) of Some a \<Rightarrow> al_reg a | None \<Rightarrow> 0)"

definition ra_request :: "'i \<Rightarrow> 'i ra \<Rightarrow> (nat \<times> 'i ra) checked" where
  "ra_request i s =
     check_that (\<forall>a \<in> set (ra_active s). al_source a \<noteq> i) ''Requested Source is already allocated.''
       (case allocate_new_register s of
          (r, s') \<Rightarrow>
            Inr (r, if r \<noteq> 0 then s'\<lparr>ra_active := ra_active s' @ [new_allocation i r]\<rparr> else s'))"

definition ra_update :: "'i heap_ops \<Rightarrow> 'i \<Rightarrow> 'i option \<Rightarrow> u32 \<Rightarrow> 'i ra \<Rightarrow> 'i ra checked" where
  "ra_update H i u t s =
     (case index_of (\<lambda>a. al_source a = i) (ra_active s) of
        None \<Rightarrow> Inl ''update is called with an unallocated Source!''
      | Some k \<Rightarrow> Inr (s\<lparr>ra_active := hp_make H
          ((ra_active s)[k := (ra_active s ! k)\<lparr>al_last := u, al_next := t\<rparr>])\<rparr>))"

definition ra_evict :: "'i heap_ops \<Rightarrow> nat \<Rightarrow> 'i ra \<Rightarrow> ('i allocation option \<times> 'i ra) checked" where
  "ra_evict H r s =
     (if ra_active s = [] then Inr (None, s)
      else check_that (r \<noteq> 0 \<longrightarrow> r \<notin> ra_temps s) ''TempRegisters.count(RegId) == 0''
        (rbind (get_victim H r s) (\<lambda>(xs, k).
           Inr (Some (xs ! k),
             s\<lparr>ra_active := hp_make H (take k xs @ drop (Suc k) xs),
               ra_free := al_reg (xs ! k) # ra_free s\<rparr>))))"

definition request_any_temp :: "'i ra \<Rightarrow> nat \<times> 'i ra" where
  "request_any_temp s =
     (case allocate_new_register s of
        (r, s') \<Rightarrow> (r, if r \<noteq> 0 then s'\<lparr>ra_temps := insert r (ra_temps s')\<rparr> else s'))"

text \<open>The two loops of \<open>requestTempRegister(RegId)\<close>: empty the stack, then refill it.\<close>

fun drain_free :: "nat \<Rightarrow> nat list \<Rightarrow> nat list \<Rightarrow> nat \<Rightarrow> nat list \<times> nat" where
  "drain_free r [] temp found = (temp, found)"
| "drain_free r (x # xs) temp found =
     (if x = r then drain_free r xs temp r else drain_free r xs (x # temp) found)"

fun refill_free :: "nat list \<Rightarrow> nat list \<Rightarrow> nat list" where
  "refill_free [] free = free"
| "refill_free (x # xs) free = refill_free xs (x # free)"

definition ra_request_temp :: "nat \<Rightarrow> 'i ra \<Rightarrow> (nat \<times> 'i ra) checked" where
  "ra_request_temp r s =
     check_that (r \<notin> ra_temps s) ''TempRegisters.count(RegId) == 0''
       (if r = 0 then Inr (request_any_temp s)
        else case drain_free r (ra_free s) [] 0 of
          (temp, found) \<Rightarrow>
            let s' = s\<lparr>ra_free := refill_free temp []\<rparr> in
            Inr (found, if found \<noteq> 0 then s'\<lparr>ra_temps := insert found (ra_temps s')\<rparr> else s'))"

definition ra_give_up :: "nat \<Rightarrow> 'i ra \<Rightarrow> 'i ra checked" where
  "ra_give_up r s =
     check_that (r \<in> ra_temps s) ''Cannot give up an unrequested temp register.''
       (Inr (s\<lparr>ra_temps := ra_temps s - {r}, ra_free := r # ra_free s\<rparr>))"

definition ra_report_user :: "'i option \<Rightarrow> 'i ra \<Rightarrow> 'i ra" where
  "ra_report_user u s = s\<lparr>ra_user := u\<rparr>"

subsection \<open>Heaps\<close>

definition heap_ordered :: "'i allocation list \<Rightarrow> bool" where
  "heap_ordered xs \<longleftrightarrow> (\<forall>i < length xs. 0 < i \<longrightarrow> al_next (xs ! i) \<le> al_next (xs ! ((i - 1) div 2)))"

text \<open>
  \<open>make_heap\<close> rearranges a range into a heap; \<open>pop_heap\<close>, on a non-empty heap, moves the
  first element to the end and makes the rest a heap.
\<close>

definition heap_laws :: "'i heap_ops \<Rightarrow> bool" where
  "heap_laws H \<longleftrightarrow>
     (\<forall>xs. mset (hp_make H xs) = mset xs \<and> heap_ordered (hp_make H xs)) \<and>
     (\<forall>xs. xs \<noteq> [] \<and> heap_ordered xs \<longrightarrow>
        mset (hp_pop H xs) = mset xs \<and> last (hp_pop H xs) = hd xs \<and> heap_ordered (butlast (hp_pop H xs)))"

lemma heap_head_max:
  assumes "heap_ordered xs" "i < length xs"
  shows "al_next (xs ! i) \<le> al_next (xs ! 0)"
  using assms(2)
proof (induction i rule: less_induct)
  case (less i)
  show ?case
  proof (cases "i = 0")
    case False
    then have "(i - 1) div 2 < i" "(i - 1) div 2 < length xs" using less.prems by auto
    then have "al_next (xs ! ((i - 1) div 2)) \<le> al_next (xs ! 0)" by (rule less.IH)
    moreover have "al_next (xs ! i) \<le> al_next (xs ! ((i - 1) div 2))"
      using assms(1) less.prems False by (simp add: heap_ordered_def)
    ultimately show ?thesis by (rule order_trans [rotated])
  qed simp
qed

lemma heap_hd_max: "\<lbrakk> heap_ordered xs; a \<in> set xs \<rbrakk> \<Longrightarrow> al_next a \<le> al_next (hd xs)"
  by (metis heap_head_max hd_conv_nth in_set_conv_nth length_pos_if_in_set less_numeral_extra(3) list.size(3))

text \<open>A fresh allocation has the least advent, so appending it keeps a heap.\<close>

lemma heap_ordered_snoc:
  assumes "heap_ordered xs" "al_next a = 0"
  shows "heap_ordered (xs @ [a])"
  unfolding heap_ordered_def
proof (intro allI impI)
  fix i assume i: "i < length (xs @ [a])" "0 < i"
  show "al_next ((xs @ [a]) ! i) \<le> al_next ((xs @ [a]) ! ((i - 1) div 2))"
  proof (cases "i = length xs")
    case True
    then show ?thesis by (simp add: assms(2))
  next
    case False
    with i have "i < length xs" "(i - 1) div 2 < length xs" by auto
    then show ?thesis using assms(1) i(2) by (simp add: heap_ordered_def nth_append)
  qed
qed

end
