(* ===== verification/Register_Allocator_Props.thy ===== *)
theory Register_Allocator_Props
  imports Register_Allocator
begin

text \<open>
  What the register allocator guarantees, for every heap implementation the C++ standard
  allows: its operations keep the sixteen registers apart, a request fails only when every
  register is taken, and eviction is optimal.
\<close>

text \<open>The allocations the current user works with.\<close>

definition needed :: "'i option \<Rightarrow> 'i allocation \<Rightarrow> bool" where
  "needed u a \<longleftrightarrow> u \<noteq> None \<and> al_last a = u"

locale std_heap =
  fixes H :: "'i heap_ops"
  assumes laws: "heap_laws H"
begin

lemma make_mset [simp]: "mset (hp_make H xs) = mset xs"
  using laws by (simp add: heap_laws_def)

lemma make_heap [simp]: "heap_ordered (hp_make H xs)"
  using laws by (simp add: heap_laws_def)

lemma make_set [simp]: "set (hp_make H xs) = set xs"
  by (metis make_mset set_mset_mset)

lemma pop_laws:
  assumes "heap_ordered xs" "xs \<noteq> []"
  shows "mset (hp_pop H xs) = mset xs" "last (hp_pop H xs) = hd xs"
    "heap_ordered (butlast (hp_pop H xs))" "length (hp_pop H xs) = length xs"
proof -
  show m: "mset (hp_pop H xs) = mset xs" and "last (hp_pop H xs) = hd xs"
    and "heap_ordered (butlast (hp_pop H xs))"
    using laws assms unfolding heap_laws_def by blast+
  from m show "length (hp_pop H xs) = length xs" by (rule mset_eq_length)
qed

text \<open>One turn of the loop moves the head of the heap, which the current user needs, behind it.\<close>

lemma victim_turn:
  assumes "heap_ordered (take (Suc n) xs)" "Suc n \<le> length xs"
    and "xs' = hp_pop H (take (Suc n) xs) @ drop (Suc n) xs"
  shows "mset xs' = mset xs" "length xs' = length xs" "heap_ordered (take n xs')"
    "set (drop n xs') = insert (hd xs) (set (drop (Suc n) xs))"
proof -
  let ?h = "take (Suc n) xs"
  have ne: "?h \<noteq> []" using assms(2) by auto
  note p = pop_laws [OF assms(1) ne]
  have len: "length (hp_pop H ?h) = Suc n" using p(4) assms(2) by simp
  then have split: "hp_pop H ?h = butlast (hp_pop H ?h) @ [hd xs]"
    using p(2) ne by (metis append_butlast_last_id hd_take length_0_conv nat.distinct(1) zero_less_Suc)
  have "mset xs = mset ?h + mset (drop (Suc n) xs)" by (metis append_take_drop_id mset_append)
  then show "mset xs' = mset xs" by (simp add: assms(3) p(1))
  show "length xs' = length xs" using len assms by simp
  have lb: "length (butlast (hp_pop H ?h)) = n" using len by simp
  have xs': "xs' = butlast (hp_pop H ?h) @ hd xs # drop (Suc n) xs"
    using split assms(3) by (metis append.assoc append_Cons append_Nil)
  from lb show "heap_ordered (take n xs')" by (simp add: xs' p(3))
  from lb show "set (drop n xs') = insert (hd xs) (set (drop (Suc n) xs))" by (simp add: xs')
qed

lemma victim_loop_result:
  assumes "heap_ordered (take n xs)" "n \<le> length xs" "0 < n" "\<forall>a \<in> set (drop n xs). needed u a"
  shows "case victim_loop H u n xs of
      Inl _ \<Rightarrow> \<forall>a \<in> set xs. needed u a
    | Inr ys \<Rightarrow> mset ys = mset xs \<and> \<not> needed u (hd ys)
        \<and> (\<forall>a \<in> set xs. needed u a \<or> al_next a \<le> al_next (hd ys))"
  using assms
proof (induction n arbitrary: xs)
  case (Suc n)
  show ?case
  proof (cases "needed u (hd xs)")
    case False
    have "al_next a \<le> al_next (hd xs)" if "a \<in> set xs" "\<not> needed u a" for a
    proof -
      have "a \<in> set (take (Suc n) xs)"
        using that Suc.prems(4) by (metis Un_iff append_take_drop_id set_append)
      then show ?thesis using heap_hd_max [OF Suc.prems(1)] by simp
    qed
    with False show ?thesis by (auto simp: needed_def)
  next
    case True
    define xs' where "xs' = hp_pop H (take (Suc n) xs) @ drop (Suc n) xs"
    note t = victim_turn [OF Suc.prems(1,2) xs'_def]
    have set': "set xs' = set xs" using t(1) by (metis set_mset_mset)
    have drop': "\<forall>a \<in> set (drop n xs'). needed u a" using t(4) True Suc.prems(4) by auto
    show ?thesis
    proof (cases "n = 0")
      case True
      with drop' set' \<open>needed u (hd xs)\<close> show ?thesis by (auto simp: needed_def)
    next
      case False
      then have "victim_loop H u (Suc n) xs = victim_loop H u n xs'"
        using \<open>needed u (hd xs)\<close> by (simp add: needed_def xs'_def)
      moreover have "n \<le> length xs'" using t(2) Suc.prems(2) by simp
      ultimately show ?thesis
        using Suc.IH [OF t(3) _ _ drop'] False t(1) set' by (simp split: sum.splits)
    qed
  qed
qed simp

end

subsection \<open>The invariant\<close>

text \<open>Every register is in exactly one of the three places.\<close>

definition all_regs :: "nat list" where
  "all_regs = [1..<17]"

definition ra_regs :: "'i ra \<Rightarrow> nat multiset" where
  "ra_regs s = mset (ra_free s) + mset_set (ra_temps s) + image_mset al_reg (mset (ra_active s))"

definition ra_ok :: "'i ra \<Rightarrow> bool" where
  "ra_ok s \<longleftrightarrow> finite (ra_temps s) \<and> ra_regs s = mset all_regs
     \<and> distinct (map al_source (ra_active s)) \<and> heap_ordered (ra_active s)"

lemma ra_ok_init: "ra_ok ra_init"
proof -
  have "fold (#) (rev [MIN_REG_N..<Suc MAX_REG_N]) [] = all_regs"
    by code_simp
  then show ?thesis by (simp add: ra_ok_def ra_regs_def ra_init_def heap_ordered_def)
qed

text \<open>The multiset is one of distinct elements, so the three places are disjoint.\<close>

lemma ra_ok_partition:
  assumes "ra_ok s"
  shows "distinct (ra_free s)" "distinct (map al_reg (ra_active s))"
    "set (ra_free s) \<inter> ra_temps s = {}" "set (ra_free s) \<inter> al_reg ` set (ra_active s) = {}"
    "ra_temps s \<inter> al_reg ` set (ra_active s) = {}"
    "set (ra_free s) \<union> ra_temps s \<union> al_reg ` set (ra_active s) = {1..16}"
proof -
  obtain ts where ts: "set ts = ra_temps s" "distinct ts"
    using assms finite_distinct_list unfolding ra_ok_def by blast
  then have "mset ts = mset_set (ra_temps s)" by (metis mset_set_set)
  then have m: "mset (ra_free s @ ts @ map al_reg (ra_active s)) = mset all_regs"
    using assms by (simp add: ra_ok_def ra_regs_def add.assoc)
  have "distinct all_regs" by (simp add: all_regs_def)
  with m have d: "distinct (ra_free s @ ts @ map al_reg (ra_active s))"
    by (metis mset_eq_imp_distinct_iff)
  then show "distinct (ra_free s)" "distinct (map al_reg (ra_active s))"
    "set (ra_free s) \<inter> ra_temps s = {}" "set (ra_free s) \<inter> al_reg ` set (ra_active s) = {}"
    "ra_temps s \<inter> al_reg ` set (ra_active s) = {}"
    using ts by auto
  from m have "set (ra_free s @ ts @ map al_reg (ra_active s)) = set all_regs"
    by (metis set_mset_mset)
  then show "set (ra_free s) \<union> ra_temps s \<union> al_reg ` set (ra_active s) = {1..16}"
    using ts atLeastLessThanSuc_atLeastAtMost [of 1 16] by (simp add: all_regs_def Un_assoc)
qed

lemma ra_reg_range:
  assumes "ra_ok s"
  shows "r \<in> set (ra_free s) \<Longrightarrow> 1 \<le> r \<and> r \<le> 16"
    and "r \<in> ra_temps s \<Longrightarrow> 1 \<le> r \<and> r \<le> 16"
    and "a \<in> set (ra_active s) \<Longrightarrow> 1 \<le> al_reg a \<and> al_reg a \<le> 16"
  using ra_ok_partition(6) [OF assms] by (auto simp: set_eq_iff)

subsection \<open>Operations keep the invariant\<close>

lemma drain_free_eq:
  "drain_free r xs temp found = (rev (filter (\<lambda>x. x \<noteq> r) xs) @ temp, if r \<in> set xs then r else found)"
  by (induction xs arbitrary: temp found) auto

lemma refill_free_eq: "refill_free xs free = rev xs @ free"
  by (induction xs arbitrary: free) auto

lemma index_of_Some: "index_of P xs = Some i \<Longrightarrow> i < length xs \<and> P (xs ! i)"
  by (induction xs arbitrary: i) (auto split: if_splits)

lemma index_of_None: "index_of P xs = None \<longleftrightarrow> (\<forall>x \<in> set xs. \<not> P x)"
  by (induction xs) (auto split: if_splits)

lemma mset_remove_nth: "i < length xs \<Longrightarrow> mset (take i xs @ drop (Suc i) xs) = mset xs - {# xs ! i #}"
  by (metis add_mset_remove_trivial id_take_nth_drop mset.simps(2) mset_append union_mset_add_mset_right)

lemma mset_insert_nth: "i < length xs \<Longrightarrow> mset xs = add_mset (xs ! i) (mset (take i xs @ drop (Suc i) xs))"
  by (metis id_take_nth_drop mset.simps(2) mset_append union_mset_add_mset_right)

lemma distinct_map_mset: "mset xs = mset ys \<Longrightarrow> distinct (map f xs) = distinct (map f ys)"
  by (metis mset_eq_imp_distinct_iff mset_map)

lemma mset_filter_neq:
  "\<lbrakk> distinct xs; r \<in> set xs \<rbrakk> \<Longrightarrow> mset xs = add_mset r (mset (filter (\<lambda>x. x \<noteq> r) xs))"
proof (induction xs)
  case (Cons x xs)
  show ?case
  proof (cases "x = r")
    case True
    with Cons.prems(1) have "filter (\<lambda>x. x \<noteq> r) xs = xs" by (auto simp: filter_id_conv)
    with True show ?thesis by (simp del: mset_filter)
  next
    case False
    with Cons show ?thesis by (simp del: mset_filter)
  qed
qed simp

lemma take_register:
  assumes "ra_ok s" "ra_free s = r # rs"
  shows "r \<noteq> 0" "r \<notin> ra_temps s"
  using ra_reg_range(1) [OF assms(1), of r] ra_ok_partition(3) [OF assms(1)] assms(2) by auto

lemma request_keeps:
  assumes ok: "ra_ok s" and res: "ra_request i s = Inr (r, s')"
  shows "ra_ok s'"
proof (cases "ra_free s")
  case Nil
  with res show ?thesis using ok by (auto simp: ra_request_def allocate_new_register_def result_iff)
next
  case (Cons q qs)
  have q: "q \<noteq> 0" by (rule take_register [OF ok Cons])
  with res Cons have s': "s' = s\<lparr>ra_free := qs, ra_active := ra_active s @ [new_allocation i q]\<rparr>"
    and fresh: "\<forall>a \<in> set (ra_active s). al_source a \<noteq> i"
    by (auto simp: ra_request_def allocate_new_register_def result_iff)
  have "heap_ordered (ra_active s @ [new_allocation i q])"
    using ok by (intro heap_ordered_snoc) (auto simp: ra_ok_def new_allocation_def)
  then show ?thesis
    using ok Cons fresh by (auto simp: s' ra_ok_def ra_regs_def new_allocation_def)
qed

lemma request_temp_keeps:
  assumes ok: "ra_ok s" and res: "ra_request_temp r s = Inr (q, s')"
  shows "ra_ok s'"
proof (cases "r = 0")
  case True
  then show ?thesis
  proof (cases "ra_free s")
    case Nil
    with res True ok show ?thesis
      by (auto simp: ra_request_temp_def request_any_temp_def allocate_new_register_def result_iff)
  next
    case (Cons x xs)
    note t = take_register [OF ok Cons]
    with res True Cons have "s' = s\<lparr>ra_free := xs, ra_temps := insert x (ra_temps s)\<rparr>"
      by (auto simp: ra_request_temp_def request_any_temp_def allocate_new_register_def result_iff)
    then show ?thesis using ok Cons t(2) by (auto simp: ra_ok_def ra_regs_def)
  qed
next
  case False
  show ?thesis
  proof (cases "r \<in> set (ra_free s)")
    case True
    note p = ra_ok_partition [OF ok]
    have "s' = s\<lparr>ra_free := filter (\<lambda>x. x \<noteq> r) (ra_free s), ra_temps := insert r (ra_temps s)\<rparr>"
      using res False True
      by (auto simp: ra_request_temp_def drain_free_eq refill_free_eq result_iff)
    moreover have "r \<notin> ra_temps s" using True p(3) by auto
    moreover have "mset (ra_free s) = add_mset r (mset (filter (\<lambda>x. x \<noteq> r) (ra_free s)))"
      using p(1) True by (rule mset_filter_neq)
    ultimately show ?thesis using ok by (simp add: ra_ok_def ra_regs_def del: mset_filter)
  next
    case no: False
    then have "filter (\<lambda>x. x \<noteq> r) (ra_free s) = ra_free s" by (auto simp: filter_id_conv)
    with res False no ok show ?thesis
      by (auto simp: ra_request_temp_def drain_free_eq refill_free_eq result_iff)
  qed
qed

lemma give_up_keeps:
  assumes ok: "ra_ok s" and res: "ra_give_up r s = Inr s'"
  shows "ra_ok s'"
proof -
  from res have r: "r \<in> ra_temps s" and s': "s' = s\<lparr>ra_temps := ra_temps s - {r}, ra_free := r # ra_free s\<rparr>"
    by (auto simp: ra_give_up_def result_iff)
  have "mset_set (ra_temps s) = add_mset r (mset_set (ra_temps s - {r}))"
    using r ok by (simp add: ra_ok_def mset_set.remove)
  then show ?thesis using ok by (auto simp: s' ra_ok_def ra_regs_def)
qed

lemma report_user_keeps: "ra_ok s \<Longrightarrow> ra_ok (ra_report_user u s)"
  by (simp add: ra_ok_def ra_regs_def ra_report_user_def)

context std_heap
begin

lemma update_keeps:
  assumes ok: "ra_ok s" and res: "ra_update H i u t s = Inr s'"
  shows "ra_ok s'"
proof -
  from res obtain k where k: "index_of (\<lambda>a. al_source a = i) (ra_active s) = Some k"
    and s': "s' = s\<lparr>ra_active := hp_make H ((ra_active s)[k := (ra_active s ! k)\<lparr>al_last := u, al_next := t\<rparr>])\<rparr>"
    by (auto simp: ra_update_def split: option.splits)
  let ?xs = "(ra_active s)[k := (ra_active s ! k)\<lparr>al_last := u, al_next := t\<rparr>]"
  have kl: "k < length (ra_active s)" using index_of_Some [OF k] by simp
  have reg: "map al_reg ?xs = map al_reg (ra_active s)"
    using kl by (simp add: map_update list_update_same_conv)
  have src: "map al_source ?xs = map al_source (ra_active s)"
    using kl by (simp add: map_update list_update_same_conv)
  have "distinct (map al_source (hp_make H ?xs))"
    using ok src distinct_map_mset [OF make_mset] by (metis ra_ok_def)
  moreover have "image_mset al_reg (mset ?xs) = image_mset al_reg (mset (ra_active s))"
    using reg by (metis mset_map)
  ultimately show ?thesis using ok by (simp add: s' ra_ok_def ra_regs_def)
qed

text \<open>Eviction removes one allocation and frees its register.\<close>

lemma evict_result:
  assumes ok: "ra_ok s" and res: "ra_evict H r s = Inr (Some a, s')"
  shows "a \<in> set (ra_active s)" "mset (ra_active s') = mset (ra_active s) - {# a #}"
    "ra_free s' = al_reg a # ra_free s" "ra_temps s' = ra_temps s" "ra_user s' = ra_user s"
    "heap_ordered (ra_active s')"
    "r \<noteq> 0 \<Longrightarrow> al_reg a = r"
    "r = 0 \<Longrightarrow> \<not> needed (ra_user s) a
       \<and> (\<forall>b \<in> set (ra_active s). needed (ra_user s) b \<or> al_next b \<le> al_next a)"
proof -
  from res have ne: "ra_active s \<noteq> []" by (auto simp: ra_evict_def)
  from res obtain xs k where v: "get_victim H r s = Inr (xs, k)" and a: "a = xs ! k"
    and s': "s' = s\<lparr>ra_active := hp_make H (take k xs @ drop (Suc k) xs), ra_free := al_reg a # ra_free s\<rparr>"
    by (auto simp: ra_evict_def result_iff split: if_splits)
  have key: "mset xs = mset (ra_active s) \<and> k < length xs
    \<and> (r \<noteq> 0 \<longrightarrow> al_reg a = r)
    \<and> (r = 0 \<longrightarrow> \<not> needed (ra_user s) a
       \<and> (\<forall>b \<in> set (ra_active s). needed (ra_user s) b \<or> al_next b \<le> al_next a))"
  proof (cases "r = 0")
    case True
    with v have k: "k = 0"
      and l: "victim_loop H (ra_user s) (length (ra_active s)) (ra_active s) = Inr xs"
      by (auto simp: get_victim_def result_iff)
    have m: "mset xs = mset (ra_active s)" "\<not> needed (ra_user s) (hd xs)"
        "\<forall>b \<in> set (ra_active s). needed (ra_user s) b \<or> al_next b \<le> al_next (hd xs)"
      using victim_loop_result [of "length (ra_active s)" "ra_active s" "ra_user s"] ok ne l
      by (auto simp: ra_ok_def)
    from m(1) ne have "xs \<noteq> []" by auto
    then show ?thesis using m k True a by (simp add: hd_conv_nth)
  next
    case False
    with v have "index_of (\<lambda>a. al_reg a = r) (ra_active s) = Some k" "xs = ra_active s"
      by (auto simp: get_victim_def split: option.splits)
    with index_of_Some [OF this(1)] a False show ?thesis by simp
  qed
  then show "r \<noteq> 0 \<Longrightarrow> al_reg a = r"
    and "r = 0 \<Longrightarrow> \<not> needed (ra_user s) a
       \<and> (\<forall>b \<in> set (ra_active s). needed (ra_user s) b \<or> al_next b \<le> al_next a)"
    by blast+
  from key a have "a \<in> set xs" by simp
  with key show "a \<in> set (ra_active s)" by (metis set_mset_mset)
  show "mset (ra_active s') = mset (ra_active s) - {# a #}"
    using key a mset_remove_nth [of k xs] by (simp add: s')
  show "ra_free s' = al_reg a # ra_free s" "ra_temps s' = ra_temps s" "ra_user s' = ra_user s"
    "heap_ordered (ra_active s')"
    by (simp_all add: s')
qed

lemma evict_keeps:
  assumes ok: "ra_ok s" and res: "ra_evict H r s = Inr (v, s')"
  shows "ra_ok s'"
proof (cases v)
  case None
  with res have "s' = s" by (auto simp: ra_evict_def result_iff split: if_splits)
  with ok show ?thesis by simp
next
  case (Some a)
  note e = evict_result [OF ok res [unfolded Some]]
  have m: "mset (ra_active s) = add_mset a (mset (ra_active s'))" using e(1,2) by simp
  have regs: "ra_regs s' = ra_regs s" by (simp add: ra_regs_def e(3,4) m)
  have "mset (map al_source (ra_active s)) = mset (al_source a # map al_source (ra_active s'))"
    by (simp add: m)
  then have "distinct (al_source a # map al_source (ra_active s'))"
    using ok by (metis mset_eq_imp_distinct_iff ra_ok_def)
  with ok e(4,6) show ?thesis by (simp add: ra_ok_def regs)
qed

text \<open>Eviction of any register fails only when the current user needs every allocation.\<close>

lemma evict_any_total:
  assumes ok: "ra_ok s" and ne: "ra_active s \<noteq> []" and free: "\<exists>a \<in> set (ra_active s). \<not> needed (ra_user s) a"
  shows "\<exists>a s'. ra_evict H 0 s = Inr (Some a, s')"
proof -
  have "\<exists>xs. victim_loop H (ra_user s) (length (ra_active s)) (ra_active s) = Inr xs"
    using victim_loop_result [of "length (ra_active s)" "ra_active s" "ra_user s"] ok ne free
    by (auto simp: ra_ok_def split: sum.splits)
  then show ?thesis using ne by (auto simp: ra_evict_def get_victim_def)
qed

lemma evict_reg_total:
  assumes ok: "ra_ok s" and r: "r \<in> al_reg ` set (ra_active s)"
  shows "\<exists>a s'. ra_evict H r s = Inr (Some a, s')"
proof -
  from r ra_reg_range(3) [OF ok] have "r \<noteq> 0" by force
  moreover have "r \<notin> ra_temps s" using r ra_ok_partition(5) [OF ok] by blast
  moreover have "index_of (\<lambda>a. al_reg a = r) (ra_active s) \<noteq> None"
    using r by (auto simp: index_of_None)
  ultimately show ?thesis using r by (auto simp: ra_evict_def get_victim_def)
qed

end

subsection \<open>Properties\<close>

text \<open>A client is a sequence of calls; a failing assertion ends it.\<close>

datatype 'i ra_call =
    Request 'i | Update 'i "'i option" u32 | Evict nat | Request_temp nat | Give_up nat
  | Report_user "'i option"

fun do_call :: "'i heap_ops \<Rightarrow> 'i ra_call \<Rightarrow> 'i ra \<Rightarrow> 'i ra checked" where
  "do_call H (Request i) s = rbind (ra_request i s) (\<lambda>(r, s). Inr s)"
| "do_call H (Update i u t) s = ra_update H i u t s"
| "do_call H (Evict r) s = rbind (ra_evict H r s) (\<lambda>(a, s). Inr s)"
| "do_call H (Request_temp r) s = rbind (ra_request_temp r s) (\<lambda>(r, s). Inr s)"
| "do_call H (Give_up r) s = ra_give_up r s"
| "do_call H (Report_user u) s = Inr (ra_report_user u s)"

fun ra_calls :: "'i heap_ops \<Rightarrow> 'i ra_call list \<Rightarrow> 'i ra \<Rightarrow> 'i ra checked" where
  "ra_calls H [] s = Inr s"
| "ra_calls H (c # cs) s = rbind (do_call H c s) (ra_calls H cs)"

context std_heap
begin

lemma call_keeps: "\<lbrakk> ra_ok s; do_call H c s = Inr s' \<rbrakk> \<Longrightarrow> ra_ok s'"
  by (cases c)
    (auto simp: result_iff report_user_keeps
      intro: request_keeps update_keeps evict_keeps request_temp_keeps give_up_keeps)

lemma calls_keep: "\<lbrakk> ra_ok s; ra_calls H cs s = Inr s' \<rbrakk> \<Longrightarrow> ra_ok s'"
  by (induction cs arbitrary: s) (auto simp: result_iff intro: call_keeps)

end

text \<open>A heap implementation: the elements in descending order.\<close>

definition sorted_desc :: "'i allocation list \<Rightarrow> 'i allocation list" where
  "sorted_desc xs = rev (sort_key al_next xs)"

definition sorted_heap_ops :: "'i heap_ops" where
  "sorted_heap_ops = \<lparr> hp_make = sorted_desc, hp_pop = (\<lambda>xs. sorted_desc (tl xs) @ [hd xs]) \<rparr>"

lemma heap_ordered_sorted_desc: "heap_ordered (sorted_desc xs)"
  unfolding heap_ordered_def
proof (intro allI impI)
  fix i assume i: "i < length (sorted_desc xs)" "0 < i"
  let ?ys = "sort_key al_next xs" and ?n = "length xs"
  let ?p = "(i - 1) div 2"
  have "?p < ?n" "i < ?n" "?p \<le> i" using i by (auto simp: sorted_desc_def)
  then have "?n - Suc i \<le> ?n - Suc ?p" "?n - Suc ?p < length (map al_next ?ys)" by auto
  then have "map al_next ?ys ! (?n - Suc i) \<le> map al_next ?ys ! (?n - Suc ?p)"
    by (rule sorted_nth_mono [OF sorted_sort_key])
  with \<open>?p < ?n\<close> \<open>i < ?n\<close> show "al_next (sorted_desc xs ! i) \<le> al_next (sorted_desc xs ! ?p)"
    by (simp add: sorted_desc_def rev_nth)
qed

lemma mset_sorted_desc: "mset (sorted_desc xs) = mset xs"
  by (simp add: sorted_desc_def)

interpretation sorted_heap: std_heap sorted_heap_ops
  by unfold_locales
    (auto simp: heap_laws_def sorted_heap_ops_def heap_ordered_sorted_desc mset_sorted_desc
      neq_Nil_conv butlast_append)

text \<open>
  C24. Whatever a client does, the allocator keeps every register in exactly one of three
  places: free, held as a temporary register, or holding the value of one instruction; and no
  instruction has two registers.
\<close>

theorem registers_stay_apart:
  assumes "heap_laws H" and "ra_calls H cs ra_init = Inr s"
  shows "distinct (ra_free s) \<and> distinct (map al_reg (ra_active s)) \<and> distinct (map al_source (ra_active s))
    \<and> set (ra_free s) \<inter> ra_temps s = {} \<and> set (ra_free s) \<inter> al_reg ` set (ra_active s) = {}
    \<and> ra_temps s \<inter> al_reg ` set (ra_active s) = {}
    \<and> set (ra_free s) \<union> ra_temps s \<union> al_reg ` set (ra_active s) = {1..16}"
proof -
  from assms have ok: "ra_ok s" using std_heap.calls_keep [OF std_heap.intro ra_ok_init] by blast
  then show ?thesis using ra_ok_partition [OF ok] by (simp add: ra_ok_def)
qed

definition sample_calls :: "nat ra_call list" where
  "sample_calls = [Request 7, Update 7 None 4, Request 8, Update 8 (Some 20) 9, Request_temp 16,
     Report_user (Some 20), Evict 0, Give_up 16]"

lemma sample_calls_run:
  "ra_calls sorted_heap_ops sample_calls ra_init = Inr \<lparr> ra_free = [16, 1, 3, 4, 5, 6, 7, 8, 9, 10, 11, 12, 13, 14, 15],
     ra_temps = {}, ra_active = [\<lparr> al_source = 8, al_last = Some 20, al_reg = 2, al_next = 9 \<rparr>], ra_user = Some 20 \<rparr>"
  by code_simp

theorem registers_stay_apart_witness:
  "\<exists>s. ra_calls sorted_heap_ops sample_calls ra_init = Inr s \<and> distinct (ra_free s)
     \<and> length (ra_active s) = 1"
  using registers_stay_apart [OF sorted_heap.laws sample_calls_run] sample_calls_run by force

text \<open>
  C28. Eviction is optimal: from a state the operations reach, asking for any register picks an
  allocation the current user does not need, whose next use is at least as far away as that of
  every other such allocation, and returns its register to the free ones. The assertion in it
  fails only if the current user needs every allocation.
\<close>

theorem evict_is_optimal:
  assumes "heap_laws H" and "ra_ok s" and "ra_active s \<noteq> []"
  shows "case ra_evict H 0 s of
      Inl _ \<Rightarrow> ra_user s \<noteq> None \<and> (\<forall>a \<in> set (ra_active s). al_last a = ra_user s)
    | Inr (v, s') \<Rightarrow> \<exists>a \<in> set (ra_active s). v = Some a
        \<and> (ra_user s = None \<or> al_last a \<noteq> ra_user s)
        \<and> (\<forall>b \<in> set (ra_active s). ra_user s = None \<or> al_last b \<noteq> ra_user s \<longrightarrow> al_next b \<le> al_next a)
        \<and> mset (ra_active s') = mset (ra_active s) - {# a #}
        \<and> ra_free s' = al_reg a # ra_free s \<and> ra_temps s' = ra_temps s"
proof -
  have heap: "std_heap H" using assms(1) by (rule std_heap.intro)
  show ?thesis
  proof (cases "ra_evict H 0 s")
    case (Inl e)
    with std_heap.evict_any_total [OF heap assms(2,3)] assms(3) show ?thesis
      by (fastforce simp: needed_def neq_Nil_conv)
  next
    case (Inr p)
    then obtain a s' where p: "p = (Some a, s')" using assms(3)
      by (cases p) (auto simp: ra_evict_def result_iff)
    note e = std_heap.evict_result [OF heap assms(2) Inr [unfolded p]]
    show ?thesis using e(1-4) e(8) Inr p by (auto simp: needed_def)
  qed
qed

definition sample_state :: "nat ra" where
  "sample_state = \<lparr> ra_free = [3..<17], ra_temps = {},
     ra_active = [\<lparr> al_source = 8, al_last = Some 20, al_reg = 2, al_next = 9 \<rparr>,
       \<lparr> al_source = 7, al_last = None, al_reg = 1, al_next = 4 \<rparr>], ra_user = Some 20 \<rparr>"

lemma sample_state_ok: "ra_ok sample_state"
proof -
  have "ra_calls sorted_heap_ops [Request 7, Request 8, Update 7 None 4, Update 8 (Some 20) 9,
      Report_user (Some 20)] ra_init = Inr sample_state"
    by code_simp
  then show ?thesis by (rule sorted_heap.calls_keep [OF ra_ok_init])
qed

theorem evict_is_optimal_witness:
  "\<exists>s'. ra_evict sorted_heap_ops 0 sample_state
     = Inr (Some \<lparr> al_source = 7, al_last = None, al_reg = 1, al_next = 4 \<rparr>, s')
     \<and> ra_free s' = 1 # ra_free sample_state"
proof -
  have run: "ra_evict sorted_heap_ops 0 sample_state = Inr (Some \<lparr> al_source = 7, al_last = None, al_reg = 1, al_next = 4 \<rparr>,
      \<lparr> ra_free = 1 # [3..<17], ra_temps = {},
     ra_active = [\<lparr> al_source = 8, al_last = Some 20, al_reg = 2, al_next = 9 \<rparr>], ra_user = Some 20 \<rparr>)"
    by code_simp
  have "ra_active sample_state \<noteq> []" by (simp add: sample_state_def)
  from evict_is_optimal [OF sorted_heap.laws sample_state_ok this] run show ?thesis by auto
qed



end
