(* ===== verification/LLVM_IR.thy ===== *)
theory LLVM_IR
  imports Isa Cxx_Strings
begin

text \<open>
  The intermediate representation the compiler passes work on, as far as they look at it. The
  LLVM classes are a library; this theory gives their data the shape in which the sources use
  it. A \<open>Value *\<close> is an argument, a constant or an instruction. An instruction carries a
  number that stands for its address, so that comparing pointers compares numbers, and its
  operands in LLVM's order (a store has the value first and then the pointer, a call its
  arguments without the callee). Successors are named in the opcode. The incoming values of a
  \<open>phi\<close> can refer back to it; no pass modelled here follows them, and they are not part
  of the value.
\<close>

datatype ty = TInt nat | TPtr ty | TArr nat ty | TVoid

datatype const_op = CIntToPtr | CBitCast | COther

datatype opcode =
    OpAlloca ty            \<comment> \<open>the allocated type\<close>
  | OpLoad | OpStore | OpBin bop_kind | OpICmp bop_kind | OpSelect | OpGEP
  | OpZExt | OpSExt | OpTrunc | OpBitCast | OpPtrToInt | OpIntToPtr
  | OpCall string          \<comment> \<open>the name of the called function\<close>
  | OpRet
  | OpBr "string list"     \<comment> \<open>one or two successors\<close>
  | OpSwitch "(u64 \<times> string) list" string
  | OpPhi | OpUnreachable | OpOther

datatype val_ir =
    VArg string ty
  | VInt nat u64           \<comment> \<open>\<open>ConstantInt\<close>: its width and its zero-extended value\<close>
  | VNull ty | VUndef ty | VGlobal string ty
  | VConstExpr const_op "val_ir list" ty
  | VInst inst
and inst = Inst (iid: nat) (iop: opcode) (iname: string) (ity: ty) (iops: "val_ir list")

type_synonym ir_block = "string \<times> inst list"

record ir_function =
  fn_ir_name :: string
  fn_ir_args :: "(string \<times> ty) list"
  fn_ir_blocks :: "ir_block list"   \<comment> \<open>a declaration has none\<close>

fun val_ty :: "val_ir \<Rightarrow> ty" where
  "val_ty (VArg _ t) = t"
| "val_ty (VInt w _) = TInt w"
| "val_ty (VNull t) = t"
| "val_ty (VUndef t) = t"
| "val_ty (VGlobal _ t) = t"
| "val_ty (VConstExpr _ _ t) = t"
| "val_ty (VInst i) = ity i"

definition is_int_ty :: "ty \<Rightarrow> bool" where
  "is_int_ty t = (case t of TInt _ \<Rightarrow> True | _ \<Rightarrow> False)"

definition is_ptr_ty :: "ty \<Rightarrow> bool" where
  "is_ptr_ty t = (case t of TPtr _ \<Rightarrow> True | _ \<Rightarrow> False)"

text \<open>\<open>getAccessSize\<close> (\<open>Backend.cpp\<close>); \<open>None\<close> is its failing assertion.\<close>

fun get_access_size :: "ty \<Rightarrow> u32 option" where
  "get_access_size (TPtr _) = Some 8"
| "get_access_size (TInt w) = Some (if w = 1 then 1 else of_nat (w div 8))"
| "get_access_size (TArr n t) = map_option (\<lambda>s. s * of_nat n) (get_access_size t)"
| "get_access_size TVoid = None"

end
