(* ===== verification/Reset_Pointer.thy ===== *)
theory Reset_Pointer
  imports LLVM_IR Memory_Model
begin

text \<open>
  The last pass before emission (\<open>src/src/passes/ResetPointer.cpp\<close>). A memory access costs
  the distance the head travels, and the stack and the heap are far apart; the target can move
  the head to the top of the stack or the bottom of the heap at a flat price. The pass
  classifies the loads and stores of a block and inserts such a reset between an access to one
  region and the next access, when that is to the other.
\<close>

datatype alloc_type = STACK | HEAP | UNKNOWN | CALL | NOEFFECT

subsection \<open>Classification\<close>

text \<open>\<open>isMallocCall\<close>, \<open>isAllocaByteCall\<close> and \<open>isFreeCall\<close> (\<open>ReorderMemAccess.cpp\<close>), on the name of the callee.\<close>

definition is_malloc_call :: "string \<Rightarrow> bool" where
  "is_malloc_call f = (f = ''malloc'')"

definition is_alloca_byte_call :: "string \<Rightarrow> bool" where
  "is_alloca_byte_call f = (f = ''__alloca_bytes__'')"

definition is_free_call :: "string \<Rightarrow> bool" where
  "is_free_call f = (f = ''free'')"

text \<open>\<open>getOpType\<close>: the region a pointer is derived from.\<close>

fun get_op_type :: "val_ir \<Rightarrow> alloc_type" where
  "get_op_type (VConstExpr CIntToPtr (VInt w address # vs) t) = (if 20480 \<le> address then HEAP else STACK)"
| "get_op_type (VConstExpr c vs t) = UNKNOWN"
| "get_op_type (VInst (Inst n (OpCall f) nm t vs)) =
     (if is_malloc_call f then HEAP else if is_alloca_byte_call f then STACK else UNKNOWN)"
| "get_op_type (VInst (Inst n (OpAlloca a) nm t vs)) = STACK"
| "get_op_type (VInst (Inst n OpBitCast nm t (v # vs))) = get_op_type v"
| "get_op_type (VInst (Inst n OpGEP nm t (v # vs))) = get_op_type v"
| "get_op_type (VInst (Inst n (OpBin k) nm t (v # v' # vs))) =
     (if get_op_type v \<noteq> UNKNOWN then get_op_type v else get_op_type v')"
| "get_op_type _ = UNKNOWN"

text \<open>The pointer operand of a load is its first operand, that of a store its second.\<close>

fun get_access_type :: "inst \<Rightarrow> alloc_type" where
  "get_access_type (Inst n (OpCall f) nm t vs) =
     (if is_malloc_call f then NOEFFECT else if is_free_call f then NOEFFECT
      else if is_alloca_byte_call f then NOEFFECT else CALL)"
| "get_access_type (Inst n OpLoad nm t (p # vs)) = get_op_type p"
| "get_access_type (Inst n OpStore nm t (v # p # vs)) = get_op_type p"
| "get_access_type _ = NOEFFECT"

subsection \<open>The pass\<close>

text \<open>The loop over a block; \<open>s\<close> and \<open>h\<close> are its two vectors.\<close>

fun reset_scan :: "inst list \<Rightarrow> alloc_type \<Rightarrow> inst list \<Rightarrow> inst list \<Rightarrow> inst list \<times> inst list" where
  "reset_scan [] state s h = (s, h)"
| "reset_scan (itr # bb) state s h =
     (let cur = get_access_type itr in
      if cur = NOEFFECT then reset_scan bb state s h
      else if cur = CALL \<or> cur = UNKNOWN then reset_scan bb UNKNOWN s h
      else if cur = STACK then reset_scan bb STACK (if state = HEAP then s @ [itr] else s) h
      else reset_scan bb HEAP s (if state = STACK then h @ [itr] else h))"

definition ResetStackName :: string where "ResetStackName = ''__reset_stack__''"
definition ResetHeapName :: string where "ResetHeapName = ''__reset_heap__''"

text \<open>\<open>CallInst::Create\<close> makes a new, nameless instruction; the number is its address.\<close>

definition call_inst :: "nat \<Rightarrow> string \<Rightarrow> val_ir list \<Rightarrow> inst" where
  "call_inst n f vs = Inst n (OpCall f) [] TVoid vs"

fun insert_before :: "inst \<Rightarrow> inst \<Rightarrow> inst list \<Rightarrow> inst list" where
  "insert_before new target [] = []"
| "insert_before new target (i # bb) =
     (if iid i = iid target then new # i # bb else i # insert_before new target bb)"

text \<open>The two insertion loops. Fresh instructions are numbered from \<open>n\<close> on.\<close>

fun insert_calls :: "string \<Rightarrow> inst list \<Rightarrow> nat \<times> inst list \<Rightarrow> nat \<times> inst list" where
  "insert_calls f [] (n, bb) = (n, bb)"
| "insert_calls f (iptr # ts) (n, bb) = insert_calls f ts (Suc n, insert_before (call_inst n f []) iptr bb)"

definition reset_block :: "nat \<Rightarrow> inst list \<Rightarrow> nat \<times> inst list" where
  "reset_block n bb =
     (let (s, h) = reset_scan bb UNKNOWN [] [] in
      if s = [] \<and> h = [] then (n, bb)
      else insert_calls ResetHeapName h (insert_calls ResetStackName s (n, bb)))"

fun reset_blocks :: "nat \<Rightarrow> ir_block list \<Rightarrow> nat \<times> ir_block list" where
  "reset_blocks n [] = (n, [])"
| "reset_blocks n ((name, bb) # bbs) =
     (let (n', bb') = reset_block n bb; (n'', bbs') = reset_blocks n' bbs in (n'', (name, bb') # bbs'))"

fun reset_functions :: "nat \<Rightarrow> ir_function list \<Rightarrow> nat \<times> ir_function list" where
  "reset_functions n [] = (n, [])"
| "reset_functions n (F # Fs) =
     (let (n', bbs) = reset_blocks n (fn_ir_blocks F); (n'', Fs') = reset_functions n' Fs
      in (n'', F\<lparr>fn_ir_blocks := bbs\<rparr> # Fs'))"

text \<open>The pass first declares the two functions it calls.\<close>

definition ResetPointer :: "nat \<Rightarrow> ir_function list \<Rightarrow> ir_function list" where
  "ResetPointer n M = snd (reset_functions n (M @
     [\<lparr> fn_ir_name = ResetStackName, fn_ir_args = [], fn_ir_blocks = [] \<rparr>,
      \<lparr> fn_ir_name = ResetHeapName, fn_ir_args = [], fn_ir_blocks = [] \<rparr>]))"

subsection \<open>Where resets go\<close>

text \<open>
  A reference definition: one walk over the block that carries the region of the last access,
  and puts a reset before an access to the other region.
\<close>

definition next_state :: "alloc_type \<Rightarrow> alloc_type \<Rightarrow> alloc_type" where
  "next_state state cur = (if cur = NOEFFECT then state else if cur = CALL then UNKNOWN else cur)"

definition reset_needed :: "alloc_type \<Rightarrow> alloc_type \<Rightarrow> string option" where
  "reset_needed state cur =
     (if state = HEAP \<and> cur = STACK then Some ResetStackName
      else if state = STACK \<and> cur = HEAP then Some ResetHeapName else None)"

fun resets_spec :: "alloc_type \<Rightarrow> inst list \<Rightarrow> (string option \<times> inst) list" where
  "resets_spec state [] = []"
| "resets_spec state (i # bb) =
     (reset_needed state (get_access_type i), i) # resets_spec (next_state state (get_access_type i)) bb"

definition is_reset :: "inst \<Rightarrow> bool" where
  "is_reset i = (case iop i of OpCall f \<Rightarrow> f = ResetStackName \<or> f = ResetHeapName | _ \<Rightarrow> False)"

text \<open>Resets are told apart by their numbers only; forget those.\<close>

definition anonymous :: "inst \<Rightarrow> inst" where
  "anonymous i = (if is_reset i then (case iop i of OpCall f \<Rightarrow> call_inst 0 f [] | _ \<Rightarrow> i) else i)"

fun with_reset :: "string option \<times> inst \<Rightarrow> inst list" where
  "with_reset (None, i) = [i]"
| "with_reset (Some f, i) = [call_inst 0 f [], i]"

text \<open>The blocks the pass is meant for: instructions have numbers of their own, below
  \<open>n\<close>, and none is a reset yet.\<close>

definition fresh_block :: "nat \<Rightarrow> inst list \<Rightarrow> bool" where
  "fresh_block n bb \<longleftrightarrow> distinct (map iid bb) \<and> (\<forall>i \<in> set bb. iid i < n \<and> \<not> is_reset i)"

text \<open>A call in front of the instructions for which \<open>g\<close> has a number.\<close>

definition marks :: "string \<Rightarrow> (nat \<Rightarrow> nat option) \<Rightarrow> inst list \<Rightarrow> inst list" where
  "marks f g bb = concat (map (\<lambda>i. case g (iid i) of Some k \<Rightarrow> [call_inst k f [], i] | None \<Rightarrow> [i]) bb)"

lemma iid_call_inst [simp]: "iid (call_inst n f vs) = n" "iop (call_inst n f vs) = OpCall f"
  by (simp_all add: call_inst_def)

lemma marks_simps [simp]:
  "marks f g [] = []"
  "marks f g (i # bb) = (case g (iid i) of Some k \<Rightarrow> [call_inst k f [], i] | None \<Rightarrow> [i]) @ marks f g bb"
  by (simp_all add: marks_def)

lemma marks_None: "(\<forall>i \<in> set bb. g (iid i) = None) \<Longrightarrow> marks f g bb = bb"
  by (induction bb) auto

lemma insert_before_marks:
  assumes "distinct (map iid bb)"
  shows "insert_before (call_inst n f []) t bb = marks f [iid t \<mapsto> n] bb"
  using assms
proof (induction bb)
  case (Cons i bb)
  show ?case
  proof (cases "iid i = iid t")
    case True
    then have "\<forall>j \<in> set bb. [iid t \<mapsto> n] (iid j) = None"
      using Cons.prems by (auto simp: image_iff)
    then show ?thesis using True by (simp add: marks_None)
  next
    case False
    then show ?thesis using Cons by simp
  qed
qed simp

lemma marks_ids: "iid ` set (marks f g bb) = iid ` set bb \<union> {k. \<exists>i \<in> set bb. g (iid i) = Some k}"
  by (induction bb) (auto split: option.splits)

lemma distinct_marks_one:
  assumes "distinct (map iid bb)" "n \<notin> iid ` set bb"
  shows "distinct (map iid (marks f [t \<mapsto> n] bb))"
  using assms
proof (induction bb)
  case (Cons i bb)
  show ?case
  proof (cases "iid i = t")
    case True
    then have "marks f [t \<mapsto> n] bb = bb" using Cons.prems(1) by (auto intro!: marks_None simp: image_iff)
    with True Cons.prems show ?thesis by (auto simp del: fun_upd_apply simp: fun_upd_same)
  next
    case False
    have "iid i \<notin> iid ` set (marks f [t \<mapsto> n] bb)"
      using Cons.prems by (auto simp: marks_ids split: if_splits)
    with False Cons show ?thesis by (auto simp del: fun_upd_apply simp: fun_upd_other)
  qed
qed simp

text \<open>A call is put only before instructions that were there, so marks compose.\<close>

lemma marks_marks_same:
  assumes "g n = None" "g t = None"
  shows "marks f g (marks f [t \<mapsto> n] bb) = marks f (g(t \<mapsto> n)) bb"
  using assms by (induction bb) auto

lemma insert_before_fresh:
  assumes "distinct (map iid bb)" "\<forall>i \<in> set bb. iid i < n"
  shows "distinct (map iid (insert_before (call_inst n f []) t bb))"
    "\<forall>i \<in> set (insert_before (call_inst n f []) t bb). iid i < Suc n"
proof -
  have "n \<notin> iid ` set bb" using assms(2) by auto
  with assms(1) show "distinct (map iid (insert_before (call_inst n f []) t bb))"
    unfolding insert_before_marks [OF assms(1)] by (rule distinct_marks_one)
  have "iid ` set (marks f [iid t \<mapsto> n] bb) \<subseteq> insert n (iid ` set bb)"
    unfolding marks_ids by (auto split: if_splits)
  then show "\<forall>i \<in> set (insert_before (call_inst n f []) t bb). iid i < Suc n"
    unfolding insert_before_marks [OF assms(1)] using assms(2) by (fastforce simp: less_Suc_eq)
qed

lemma insert_calls_fresh:
  "\<lbrakk> insert_calls f ts (n, bb) = (n', bb'); distinct (map iid bb); \<forall>i \<in> set bb. iid i < n \<rbrakk>
   \<Longrightarrow> distinct (map iid bb') \<and> (\<forall>i \<in> set bb'. iid i < n')"
proof (induction ts arbitrary: n bb)
  case (Cons t ts)
  from Cons.prems(1) have "insert_calls f ts (Suc n, insert_before (call_inst n f []) t bb) = (n', bb')"
    by simp
  then show ?case by (rule Cons.IH) (rule insert_before_fresh [OF Cons.prems(2,3)])+
qed auto

lemma insert_calls_marks:
  assumes "distinct (map iid bb)" "\<forall>i \<in> set bb. iid i < n" "distinct (map iid ts)" "\<forall>t \<in> set ts. iid t < n"
  shows "insert_calls f ts (n, bb) = (n + length ts, marks f (map_of (zip (map iid ts) [n..<n + length ts])) bb)"
  using assms
proof (induction ts arbitrary: n bb)
  case Nil
  then show ?case by (simp add: marks_None)
next
  case (Cons t ts)
  let ?bb = "marks f [iid t \<mapsto> n] bb"
  let ?g = "map_of (zip (map iid ts) [Suc n..<Suc n + length ts])"
  have new: "n \<notin> iid ` set bb" using Cons.prems(2) by auto
  have d: "distinct (map iid ?bb)" using Cons.prems(1) new by (rule distinct_marks_one)
  have "iid ` set ?bb \<subseteq> insert n (iid ` set bb)"
    unfolding marks_ids by (auto split: if_splits)
  then have b: "\<forall>i \<in> set ?bb. iid i < Suc n" using Cons.prems(2) by (fastforce simp: less_Suc_eq)
  have "map fst (zip (map iid ts) [Suc n..<Suc n + length ts]) = map iid ts"
    by (rule map_fst_zip) (simp only: length_map length_upt diff_add_inverse)
  then have keys: "fst ` set (zip (map iid ts) [Suc n..<Suc n + length ts]) = iid ` set ts"
    by (metis image_set)
  have gn: "?g n = None" unfolding map_of_eq_None_iff keys using Cons.prems(4) by auto
  have gt: "?g (iid t) = None" unfolding map_of_eq_None_iff keys using Cons.prems(3) by auto
  have "insert_calls f (t # ts) (n, bb) = insert_calls f ts (Suc n, ?bb)"
    by (simp only: insert_calls.simps insert_before_marks [OF Cons.prems(1)])
  also have "\<dots> = (Suc n + length ts, marks f ?g ?bb)"
  proof (rule Cons.IH [OF d b])
    show "distinct (map iid ts)" using Cons.prems(3) by simp
    show "\<forall>t \<in> set ts. iid t < Suc n" using Cons.prems(4) by (simp add: less_Suc_eq)
  qed
  also have "marks f ?g ?bb = marks f (?g(iid t \<mapsto> n)) bb"
    using gn gt by (rule marks_marks_same)
  also have "?g(iid t \<mapsto> n) = map_of (zip (map iid (t # ts)) [n..<n + length (t # ts)])"
    by (simp only: zip_Cons_Cons upt_conv_Cons list.map map_of.simps fst_conv snd_conv list.size
      add_Suc_right add_Suc less_Suc_eq_le le_add1 add_0_right)
  finally show ?case by (simp only: list.size add_Suc add_Suc_right One_nat_def add_0_right)
qed

subsection \<open>The pass implements the reference\<close>

text \<open>What the scan collects.\<close>

definition wants :: "string \<Rightarrow> (string option \<times> inst) list \<Rightarrow> inst list" where
  "wants f ps = map snd (filter (\<lambda>p. fst p = Some f) ps)"

lemma reset_names [simp]: "ResetStackName \<noteq> ResetHeapName" "ResetHeapName \<noteq> ResetStackName"
  by (simp_all add: ResetStackName_def ResetHeapName_def)

lemma reset_scan_spec:
  "state \<noteq> CALL \<Longrightarrow> reset_scan bb state s h
    = (s @ wants ResetStackName (resets_spec state bb), h @ wants ResetHeapName (resets_spec state bb))"
proof (induction bb arbitrary: state s h)
  case (Cons i bb)
  then show ?case
    by (cases "get_access_type i")
      (auto simp: wants_def next_state_def reset_needed_def Let_def)
qed (simp add: wants_def)

lemma map_snd_resets_spec: "map snd (resets_spec state bb) = bb"
  by (induction bb arbitrary: state) simp_all

lemma map_iid_resets_spec: "map (\<lambda>p. iid (snd p)) (resets_spec state bb) = map iid bb"
  by (induction bb arbitrary: state) simp_all

lemma wants_subset: "set (wants f (resets_spec state bb)) \<subseteq> set bb"
proof -
  have "set (wants f (resets_spec state bb)) \<subseteq> set (map snd (resets_spec state bb))"
    by (auto simp: wants_def)
  then show ?thesis by (simp only: map_snd_resets_spec)
qed

lemma distinct_wants:
  assumes "distinct (map iid bb)"
  shows "distinct (map iid (wants f (resets_spec state bb)))"
proof -
  have "distinct (map (\<lambda>p. iid (snd p)) (filter P (resets_spec state bb)))" for P
    using assms by (intro distinct_map_filter) (simp only: map_iid_resets_spec)
  then show ?thesis by (simp add: wants_def comp_def)
qed

text \<open>An instruction is in the list of a reset exactly when its entry asks for that reset.\<close>

lemma wants_iff:
  assumes "distinct (map iid bb)" "(r, i) \<in> set (resets_spec state bb)"
  shows "iid i \<in> iid ` set (wants f (resets_spec state bb)) \<longleftrightarrow> r = Some f"
proof
  assume "iid i \<in> iid ` set (wants f (resets_spec state bb))"
  then obtain j where j: "(Some f, j) \<in> set (resets_spec state bb)" "iid j = iid i"
    by (auto simp: wants_def)
  have "distinct (map (\<lambda>p. iid (snd p)) (resets_spec state bb))"
    using assms(1) by (simp only: map_iid_resets_spec)
  with j assms(2) show "r = Some f"
    unfolding distinct_map inj_on_def by fastforce
next
  assume "r = Some f"
  with assms(2) show "iid i \<in> iid ` set (wants f (resets_spec state bb))"
    by (force simp: wants_def)
qed

definition number_of :: "inst list \<Rightarrow> nat \<Rightarrow> nat \<Rightarrow> nat option" where
  "number_of ts n = map_of (zip (map iid ts) [n..<n + length ts])"

lemma number_of_None: "number_of ts n k = None \<longleftrightarrow> k \<notin> iid ` set ts"
proof -
  have "map fst (zip (map iid ts) [n..<n + length ts]) = map iid ts"
    by (rule map_fst_zip) (simp only: length_map length_upt diff_add_inverse)
  then have "fst ` set (zip (map iid ts) [n..<n + length ts]) = iid ` set ts"
    by (metis image_set)
  then show ?thesis by (simp add: number_of_def map_of_eq_None_iff)
qed

lemma marks_marks:
  assumes "\<And>k m. g k = Some m \<Longrightarrow> g' m = None"
  shows "marks f' g' (marks f g bb)
    = concat (map (\<lambda>i. (case g (iid i) of Some k \<Rightarrow> [call_inst k f []] | None \<Rightarrow> [])
        @ (case g' (iid i) of Some k \<Rightarrow> [call_inst k f' []] | None \<Rightarrow> []) @ [i]) bb)"
  using assms by (induction bb) (auto split: option.splits)

lemma reset_block_marks:
  assumes "fresh_block n bb"
  defines "ps \<equiv> resets_spec UNKNOWN bb"
  defines "s \<equiv> wants ResetStackName ps" and "h \<equiv> wants ResetHeapName ps"
  shows "reset_block n bb = (n + length s + length h,
    marks ResetHeapName (number_of h (n + length s)) (marks ResetStackName (number_of s n) bb))"
proof -
  note d = assms(1) [unfolded fresh_block_def]
  have sub: "set s \<subseteq> set bb" "set h \<subseteq> set bb" by (simp_all add: s_def h_def ps_def wants_subset)
  have dist: "distinct (map iid s)" "distinct (map iid h)"
    using d by (simp_all add: s_def h_def ps_def distinct_wants)
  have 1: "insert_calls ResetStackName s (n, bb) = (n + length s, marks ResetStackName (number_of s n) bb)"
    unfolding number_of_def using d sub dist by (intro insert_calls_marks) auto
  let ?bb = "marks ResetStackName (number_of s n) bb"
  have range: "n \<le> k \<and> k < n + length s" if "number_of s n i = Some k" for i k
  proof -
    from that have "(i, k) \<in> set (zip (map iid s) [n..<n + length s])"
      unfolding number_of_def by (rule map_of_SomeD)
    from set_zip_rightD [OF this] show ?thesis by simp
  qed
  have 2: "insert_calls ResetHeapName h (n + length s, ?bb)
      = (n + length s + length h, marks ResetHeapName (number_of h (n + length s)) ?bb)"
    unfolding number_of_def [of h]
  proof (rule insert_calls_marks [OF _ _ dist(2)])
    show "\<forall>i \<in> set ?bb. iid i < n + length s" "distinct (map iid ?bb)"
      using insert_calls_fresh [OF 1] d by auto
    show "\<forall>t \<in> set h. iid t < n + length s" using sub(2) d by fastforce
  qed
  show ?thesis
    using 1 2 marks_None
    by (auto simp: reset_block_def reset_scan_spec simp flip: s_def h_def ps_def)
qed

lemma number_of_range: "number_of s n i = Some k \<Longrightarrow> n \<le> k \<and> k < n + length s"
proof -
  assume "number_of s n i = Some k"
  then have "(i, k) \<in> set (zip (map iid s) [n..<n + length s])"
    unfolding number_of_def by (rule map_of_SomeD)
  from set_zip_rightD [OF this] show ?thesis by simp
qed

lemma concat_map_cong: "(\<And>x. x \<in> set xs \<Longrightarrow> f x = g x) \<Longrightarrow> concat (map f xs) = concat (map g xs)"
  by (metis map_cong)

lemma resets_spec_names:
  "(r, i) \<in> set (resets_spec state bb) \<Longrightarrow> r = None \<or> r = Some ResetStackName \<or> r = Some ResetHeapName"
  by (induction bb arbitrary: state) (auto simp: reset_needed_def split: if_splits)

lemma reset_block_shape:
  assumes fresh: "fresh_block n bb"
  shows "map anonymous (snd (reset_block n bb)) = concat (map with_reset (resets_spec UNKNOWN bb))"
    and "filter (\<lambda>i. iid i < n) (snd (reset_block n bb)) = bb"
proof -
  define ps where "ps = resets_spec UNKNOWN bb"
  define s where "s = wants ResetStackName ps"
  define h where "h = wants ResetHeapName ps"
  note d = fresh [unfolded fresh_block_def]
  let ?gs = "number_of s n" and ?gh = "number_of h (n + length s)"
  let ?part = "\<lambda>i. (case ?gs (iid i) of Some k \<Rightarrow> [call_inst k ResetStackName []] | None \<Rightarrow> [])
        @ (case ?gh (iid i) of Some k \<Rightarrow> [call_inst k ResetHeapName []] | None \<Rightarrow> []) @ [i]"
  have apart: "?gh m = None" if "?gs k = Some m" for k m
  proof -
    from number_of_range [OF that] have "n \<le> m" by simp
    moreover have "set h \<subseteq> set bb" by (simp add: h_def ps_def wants_subset)
    ultimately have "m \<notin> iid ` set h" using d by fastforce
    then show ?thesis by (simp add: number_of_None)
  qed
  have block: "snd (reset_block n bb) = concat (map ?part bb)"
    using reset_block_marks [OF fresh] marks_marks [OF apart]
    by (simp add: s_def h_def ps_def)
  also have "map ?part bb = map (\<lambda>p. ?part (snd p)) ps"
    by (metis (no_types, lifting) list.map_comp comp_apply map_eq_conv map_snd_resets_spec ps_def)
  finally have block': "snd (reset_block n bb) = concat (map (\<lambda>p. ?part (snd p)) ps)" .
  have "map anonymous (?part i) = with_reset (r, i)" if p: "(r, i) \<in> set ps" for r i
  proof -
    have "i \<in> set bb" using p by (metis image_eqI list.set_map map_snd_resets_spec ps_def snd_conv)
    then have i: "anonymous i = i" using d by (simp add: anonymous_def)
    have w: "\<And>f. iid i \<in> iid ` set (wants f ps) \<longleftrightarrow> r = Some f"
      using wants_iff d p unfolding ps_def by blast
    have gs: "?gs (iid i) = None \<longleftrightarrow> r \<noteq> Some ResetStackName"
      and gh: "?gh (iid i) = None \<longleftrightarrow> r \<noteq> Some ResetHeapName"
      by (simp_all add: number_of_None w s_def h_def)
    have "r = None \<or> r = Some ResetStackName \<or> r = Some ResetHeapName"
      using p unfolding ps_def by (rule resets_spec_names)
    then show ?thesis
      using gs gh i by (auto simp: anonymous_def is_reset_def)
  qed
  then have "concat (map (\<lambda>p. map anonymous (?part (snd p))) ps) = concat (map with_reset ps)"
    by (intro concat_map_cong) (simp only: prod.collapse split_paired_all snd_conv)
  moreover have "map anonymous (snd (reset_block n bb)) = concat (map (\<lambda>p. map anonymous (?part (snd p))) ps)"
    unfolding block' map_concat map_map comp_def ..
  ultimately show "map anonymous (snd (reset_block n bb)) = concat (map with_reset (resets_spec UNKNOWN bb))"
    by (simp only: ps_def)
  have "filter (\<lambda>i. iid i < n) (?part i) = [i]" if "i \<in> set bb" for i
  proof -
    have "\<not> k < n" if "?gs (iid i) = Some k" for k using number_of_range [OF that] by simp
    moreover have "\<not> k < n" if "?gh (iid i) = Some k" for k using number_of_range [OF that] by simp
    moreover have "iid i < n" using that d by blast
    ultimately show ?thesis by (simp split: option.splits)
  qed
  then have "concat (map (\<lambda>i. filter (\<lambda>i. iid i < n) (?part i)) bb) = concat (map (\<lambda>i. [i]) bb)"
    by (rule concat_map_cong)
  then show "filter (\<lambda>i. iid i < n) (snd (reset_block n bb)) = bb"
    unfolding block by (simp add: filter_concat comp_def)
qed

subsection \<open>What a block costs\<close>

text \<open>
  The cost of the memory accesses of a block and of its resets on the target, with the address
  each access goes to given by \<open>addr\<close>; what other instructions do to cost and head is a
  parameter.
\<close>

definition is_access :: "inst \<Rightarrow> bool" where
  "is_access i \<longleftrightarrow> iop i = OpLoad \<or> iop i = OpStore"

definition walk_inst :: "(inst \<Rightarrow> u64) \<Rightarrow> (inst \<Rightarrow> u64 \<Rightarrow> rat \<times> u64) \<Rightarrow> inst \<Rightarrow> memory \<Rightarrow> rat \<times> memory" where
  "walk_inst addr other i m =
     (if iop i = OpCall ResetStackName then exec_reset_stack m
      else if iop i = OpCall ResetHeapName then exec_reset_heap m
      else if is_access i
      then (access_cost (if addr i < STACK_MAX then COST_STACK else COST_HEAP) (addr i) m, m\<lparr>head := addr i\<rparr>)
      else let (c, h) = other i (head m) in (c, m\<lparr>head := h\<rparr>))"

fun walk_block :: "(inst \<Rightarrow> u64) \<Rightarrow> (inst \<Rightarrow> u64 \<Rightarrow> rat \<times> u64) \<Rightarrow> inst list \<Rightarrow> memory \<Rightarrow> rat \<times> memory" where
  "walk_block addr other [] m = (0, m)"
| "walk_block addr other (i # bb) m =
     (let (c, m') = walk_inst addr other i m; (c', m'') = walk_block addr other bb m' in (c + c', m''))"

text \<open>The addresses agree with the regions the pass finds, and only accesses and calls move the head.\<close>

definition addresses_ok :: "(inst \<Rightarrow> u64) \<Rightarrow> (inst \<Rightarrow> u64 \<Rightarrow> rat \<times> u64) \<Rightarrow> inst \<Rightarrow> bool" where
  "addresses_ok addr other i \<longleftrightarrow>
     (get_access_type i = STACK \<longrightarrow> addr i < STACK_MAX) \<and>
     (get_access_type i = HEAP \<longrightarrow> HEAP_MIN \<le> addr i \<and> addr i < HEAP_MAX) \<and>
     (get_access_type i = NOEFFECT \<longrightarrow> \<not> is_access i \<and> (\<forall>h. snd (other i h) = h))"

definition head_in :: "alloc_type \<Rightarrow> memory \<Rightarrow> bool" where
  "head_in state m \<longleftrightarrow> (state = STACK \<longrightarrow> head m < STACK_MAX) \<and>
     (state = HEAP \<longrightarrow> HEAP_MIN \<le> head m \<and> head m < HEAP_MAX)"

lemma access_type_is_access: "get_access_type i \<in> {STACK, HEAP} \<Longrightarrow> is_access i"
  by (cases i rule: get_access_type.cases) (auto simp: is_access_def split: if_splits)

lemma access_not_reset: "is_access i \<Longrightarrow> \<not> is_reset i"
  by (auto simp: is_access_def is_reset_def)

lemma walk_reset:
  "walk_inst addr other (call_inst k ResetStackName []) m = (COST_RESET, m\<lparr>head := STACK_MAX\<rparr>)"
  "walk_inst addr other (call_inst k ResetHeapName []) m = (COST_RESET, m\<lparr>head := HEAP_MIN\<rparr>)"
  by (simp_all add: walk_inst_def exec_reset_stack_def exec_reset_heap_def)

lemma walk_access: "is_access i \<Longrightarrow> walk_inst addr other i m =
   (access_cost (if addr i < STACK_MAX then COST_STACK else COST_HEAP) (addr i) m, m\<lparr>head := addr i\<rparr>)"
  by (auto simp: walk_inst_def is_access_def)

text \<open>Moving the head in the other region takes more than a reset does.\<close>

lemma distance_rat:
  "(of_nat (unat (head_distance a h)) :: rat)
    = (if unat h < unat a then of_nat (unat a) - of_nat (unat h) else of_nat (unat h) - of_nat (unat a))"
  by (auto simp: head_distance_def word_less_nat_alt unat_sub_if_size of_nat_diff simp del: of_nat_unat)

lemma max_word_unat: "unat (- 1 :: u64) = 18446744073709551615"
  by (simp add: unsigned_minus_1_eq_mask mask_eq_exp_minus_1)

lemma reset_pays:
  assumes "reset_needed state (get_access_type i) = Some f" "head_in state m" "addresses_ok addr other i"
  shows "fst (walk_inst addr other (call_inst k f []) m)
      + fst (walk_inst addr other i (snd (walk_inst addr other (call_inst k f []) m))) + 2096 / 1000
      \<le> fst (walk_inst addr other i m)"
    and "snd (walk_inst addr other i (snd (walk_inst addr other (call_inst k f []) m)))
      = snd (walk_inst addr other i m)"
proof -
  have acc: "is_access i"
    using assms(1) by (intro access_type_is_access) (auto simp: reset_needed_def split: if_splits)
  consider (stack) "state = HEAP" "get_access_type i = STACK" "f = ResetStackName"
    | (heap) "state = STACK" "get_access_type i = HEAP" "f = ResetHeapName"
    using assms(1) by (auto simp: reset_needed_def split: if_splits)
  then show "fst (walk_inst addr other (call_inst k f []) m)
      + fst (walk_inst addr other i (snd (walk_inst addr other (call_inst k f []) m))) + 2096 / 1000
      \<le> fst (walk_inst addr other i m)"
  proof cases
    case stack
    then have a: "unat (addr i) < 10240" and h: "20480 \<le> unat (head m)" "unat (head m) < 18446744073709551608"
      using assms(2,3) by (simp_all add: addresses_ok_def head_in_def word_less_nat_alt word_le_nat_alt
        heap_limits)
    have "addr i < STACK_MAX" "head m \<noteq> - 1"
      using a h max_word_unat by (auto simp: word_less_nat_alt heap_limits)
    moreover have "unat STACK_MAX = 10240" by (simp add: heap_limits)
    moreover have "STACK_MAX \<noteq> - 1" by (simp add: heap_limits)
    moreover have "(of_nat (unat (addr i)) :: rat) < 10240" "(20480 :: rat) \<le> of_nat (unat (head m))"
      using a h by (simp_all del: of_nat_unat)
    ultimately show ?thesis
      using acc stack(3) a h(1)
      by (simp add: walk_reset walk_access access_cost_def cost_defs distance_rat field_simps del: of_nat_unat)
  next
    case heap
    then have a: "20480 \<le> unat (addr i)" and h: "unat (head m) < 10240"
      using assms(2,3) by (simp_all add: addresses_ok_def head_in_def word_less_nat_alt word_le_nat_alt
        heap_limits)
    have "\<not> addr i < STACK_MAX" "head m \<noteq> - 1"
      using a h max_word_unat by (auto simp: word_less_nat_alt heap_limits)
    moreover have "unat HEAP_MIN = 20480" by (simp add: heap_limits)
    moreover have "HEAP_MIN \<noteq> - 1" by (simp add: heap_limits)
    moreover have "(of_nat (unat (head m)) :: rat) \<le> 10239"
    proof -
      have "unat (head m) \<le> 10239" using h by simp
      then show ?thesis by (metis of_nat_le_iff of_nat_numeral)
    qed
    moreover have "(20480 :: rat) \<le> of_nat (unat (addr i))" using a by (simp del: of_nat_unat)
    ultimately show ?thesis
      using acc heap(3) a h
      by (simp add: walk_reset walk_access access_cost_def cost_defs distance_rat field_simps del: of_nat_unat)
  qed
  from assms(1) show "snd (walk_inst addr other i (snd (walk_inst addr other (call_inst k f []) m)))
      = snd (walk_inst addr other i m)"
    using acc by (auto simp: reset_needed_def walk_reset walk_access split: if_splits)
qed

text \<open>Along a block the head is where the reference says the last access was.\<close>

lemma head_in_next:
  assumes "head_in state m" "addresses_ok addr other i" "\<not> is_reset i"
  shows "head_in (next_state state (get_access_type i)) (snd (walk_inst addr other i m))"
proof (cases "get_access_type i = NOEFFECT")
  case True
  then have "snd (walk_inst addr other i m) = m\<lparr>head := head m\<rparr>"
    using assms(2,3) by (auto simp: walk_inst_def is_reset_def addresses_ok_def case_prod_beta)
  with True assms(1) show ?thesis by (simp add: next_state_def head_in_def)
next
  case False
  show ?thesis
  proof (cases "get_access_type i \<in> {STACK, HEAP}")
    case True
    with assms(2) show ?thesis
      by (auto simp: next_state_def head_in_def addresses_ok_def walk_access access_type_is_access)
  next
    case no: False
    with False show ?thesis by (auto simp: next_state_def head_in_def)
  qed
qed

lemma walk_anonymous: "walk_block addr other (map anonymous bb) m = walk_block addr other bb m"
proof (induction bb arbitrary: m)
  case (Cons i bb)
  have "walk_inst addr other (anonymous i) m = walk_inst addr other i m" for m
    by (auto simp: anonymous_def is_reset_def walk_inst_def split: opcode.splits)
  with Cons show ?case by simp
qed simp

definition resets_in :: "(string option \<times> inst) list \<Rightarrow> nat" where
  "resets_in ps = length (filter (\<lambda>p. fst p \<noteq> None) ps)"

lemma resets_in_simps [simp]:
  "resets_in [] = 0"
  "resets_in ((None, i) # ps) = resets_in ps"
  "resets_in ((Some f, i) # ps) = Suc (resets_in ps)"
  by (simp_all add: resets_in_def)

lemma walk_with_resets:
  assumes "\<forall>i \<in> set bb. addresses_ok addr other i \<and> \<not> is_reset i" "head_in state m"
  shows "snd (walk_block addr other (concat (map with_reset (resets_spec state bb))) m)
      = snd (walk_block addr other bb m)
    \<and> fst (walk_block addr other (concat (map with_reset (resets_spec state bb))) m)
      + 2096 / 1000 * of_nat (resets_in (resets_spec state bb)) \<le> fst (walk_block addr other bb m)"
  using assms
proof (induction bb arbitrary: state m)
  case (Cons i bb)
  let ?next = "next_state state (get_access_type i)"
  let ?m = "snd (walk_inst addr other i m)"
  have ih: "snd (walk_block addr other (concat (map with_reset (resets_spec ?next bb))) ?m)
      = snd (walk_block addr other bb ?m)
    \<and> fst (walk_block addr other (concat (map with_reset (resets_spec ?next bb))) ?m)
      + 2096 / 1000 * of_nat (resets_in (resets_spec ?next bb)) \<le> fst (walk_block addr other bb ?m)"
    using Cons.prems by (intro Cons.IH head_in_next) auto
  show ?case
  proof (cases "reset_needed state (get_access_type i)")
    case None
    with ih show ?thesis by (simp add: case_prod_beta)
  next
    case (Some f)
    have a: "addresses_ok addr other i" using Cons.prems by simp
    note pays = reset_pays [OF Some Cons.prems(2) a, of 0]
    from ih Some show ?thesis
      using pays(1) by (simp add: case_prod_beta pays(2) add_divide_distrib ring_distribs)
  qed
qed simp

subsection \<open>Properties\<close>

text \<open>
  C25. The pass only inserts resets, and puts them where they belong: without the inserted calls
  the block is the one it was, and the calls stand exactly in front of the accesses to one
  region whose preceding access in the block, with no call or unknown access between, was to
  the other region.
\<close>

theorem resets_inserted_between_regions:
  assumes "fresh_block n bb"
  shows "filter (\<lambda>i. iid i < n) (snd (reset_block n bb)) = bb
    \<and> map anonymous (snd (reset_block n bb)) = concat (map with_reset (resets_spec UNKNOWN bb))"
  using reset_block_shape [OF assms] by blast

definition reset_sample :: "inst list" where
  "reset_sample =
     (let p = Inst 1 (OpCall ''malloc'') ''__r1__'' (TPtr (TInt 8)) [VInt 64 8];
          q = Inst 2 (OpAlloca (TInt 64)) ''__r2__'' (TPtr (TInt 64)) [];
          x = Inst 3 OpLoad ''__r3__'' (TInt 64) [VInst p];
          y = Inst 4 OpStore [] TVoid [VInst x, VInst q];
          z = Inst 5 OpStore [] TVoid [VInst x, VInst p]
      in [p, q, x, y, z, Inst 6 OpRet [] TVoid [VInst x]])"

lemma reset_sample_fresh: "fresh_block 7 reset_sample"
  by code_simp

theorem resets_inserted_between_regions_witness:
  "map iid (snd (reset_block 7 reset_sample)) = [1, 2, 3, 7, 4, 8, 5, 6]
   \<and> filter (\<lambda>i. iid i < 7) (snd (reset_block 7 reset_sample)) = reset_sample"
  using resets_inserted_between_regions [OF reset_sample_fresh]
  by (intro conjI) (code_simp, blast)

text \<open>
  C31. The resets pay: when the addresses of the accesses lie in the regions the pass derives,
  the block with resets leaves the head of the target's memory where the original leaves it,
  and each reset saves more than two units of cost.
\<close>

theorem resets_save_cost:
  assumes "fresh_block n bb" and "\<forall>i \<in> set bb. addresses_ok addr other i"
  shows "snd (walk_block addr other (snd (reset_block n bb)) m) = snd (walk_block addr other bb m)
    \<and> fst (walk_block addr other (snd (reset_block n bb)) m)
      + 2096 / 1000 * of_nat (resets_in (resets_spec UNKNOWN bb)) \<le> fst (walk_block addr other bb m)"
proof -
  have "\<forall>i \<in> set bb. addresses_ok addr other i \<and> \<not> is_reset i"
    using assms by (simp add: fresh_block_def)
  moreover have "head_in UNKNOWN m" by (simp add: head_in_def)
  ultimately have "snd (walk_block addr other (map anonymous (snd (reset_block n bb))) m)
      = snd (walk_block addr other bb m)
    \<and> fst (walk_block addr other (map anonymous (snd (reset_block n bb))) m)
      + 2096 / 1000 * of_nat (resets_in (resets_spec UNKNOWN bb)) \<le> fst (walk_block addr other bb m)"
    unfolding reset_block_shape(1) [OF assms(1)] by (rule walk_with_resets)
  then show ?thesis by (simp only: walk_anonymous)
qed

definition sample_addr :: "inst \<Rightarrow> u64" where
  "sample_addr i = (if get_access_type i = STACK then 10232 else 20480)"

theorem resets_save_cost_witness:
  "fst (walk_block sample_addr (\<lambda>_ h. (0, h)) (snd (reset_block 7 reset_sample)) init_memory)
     < fst (walk_block sample_addr (\<lambda>_ h. (0, h)) reset_sample init_memory)"
proof -
  have ok: "\<forall>i \<in> set reset_sample. addresses_ok sample_addr (\<lambda>_ h. (0, h)) i"
    by (auto simp: addresses_ok_def sample_addr_def reset_sample_def is_access_def heap_limits
      is_malloc_call_def Let_def)
  have "resets_in (resets_spec UNKNOWN reset_sample) = 2" by code_simp
  with resets_save_cost [OF reset_sample_fresh ok, of init_memory] show ?thesis by simp
qed

end
