(* ===== verification/Reorder.thy ===== *)
theory Reorder
  imports Reset_Pointer "HOL-Library.Multiset"
begin

text \<open>
  The scheduler of the compiler (\<open>src/src/passes/ReorderMemAccess.cpp\<close>). Within a block it
  moves accesses to the stack together and accesses to the heap together, so that the head of
  the target's memory travels less: it emits every instruction that is ready and does not
  belong to the blocked region, and alternates the blocked region. \<open>checkDom\<close> says which
  instructions must stay in order.
\<close>

subsection \<open>Classification\<close>

fun get_block_type :: "val_ir \<Rightarrow> alloc_type" where
  "get_block_type (VInst (Inst n (OpCall f) nm t vs)) =
     (if is_malloc_call f then HEAP else if is_free_call f then HEAP
      else if is_alloca_byte_call f then STACK else CALL)"
| "get_block_type (VInst (Inst n (OpAlloca a) nm t vs)) = STACK"
| "get_block_type (VInst (Inst n OpBitCast nm t (v # vs))) = get_block_type v"
| "get_block_type (VInst (Inst n OpGEP nm t (p # vs))) = get_block_type p"
| "get_block_type (VInst (Inst n OpLoad nm t (p # vs))) = get_block_type p"
| "get_block_type (VInst (Inst n OpStore nm t (v # p # vs))) = get_block_type p"
| "get_block_type (VGlobal g t) = HEAP"
| "get_block_type (VConstExpr CBitCast (v # vs) t) = get_block_type v"
| "get_block_type _ = UNKNOWN"

fun get_op_type_reorder :: "val_ir \<Rightarrow> alloc_type" where
  "get_op_type_reorder (VInst (Inst n (OpCall f) nm t vs)) =
     (if is_malloc_call f then HEAP else if is_free_call f then HEAP
      else if is_alloca_byte_call f then STACK else UNKNOWN)"
| "get_op_type_reorder (VInst (Inst n (OpAlloca a) nm t vs)) = STACK"
| "get_op_type_reorder (VInst (Inst n OpBitCast nm t (v # vs))) = get_op_type_reorder v"
| "get_op_type_reorder (VInst (Inst n OpGEP nm t (p # vs))) = get_op_type_reorder p"
| "get_op_type_reorder (VConstExpr CBitCast (v # vs) t) = get_op_type_reorder v"
| "get_op_type_reorder (VGlobal g t) = HEAP"
| "get_op_type_reorder (VInst (Inst n (OpBin k) nm t (v # v' # vs))) =
     (if get_op_type_reorder v \<noteq> UNKNOWN then get_op_type_reorder v else get_op_type_reorder v')"
| "get_op_type_reorder _ = UNKNOWN"

fun get_access_type_reorder :: "inst \<Rightarrow> alloc_type" where
  "get_access_type_reorder (Inst n (OpCall f) nm t vs) =
     (if is_malloc_call f then NOEFFECT else if is_free_call f then NOEFFECT
      else if is_alloca_byte_call f then NOEFFECT else CALL)"
| "get_access_type_reorder (Inst n OpLoad nm t (p # vs)) = get_op_type_reorder p"
| "get_access_type_reorder (Inst n OpStore nm t (v # p # vs)) = get_op_type_reorder p"
| "get_access_type_reorder _ = NOEFFECT"

definition is_operand :: "inst \<Rightarrow> inst \<Rightarrow> bool" where
  "is_operand I J = list_ex (\<lambda>v. case v of VInst K \<Rightarrow> iid K = iid I | _ \<Rightarrow> False) (iops J)"

definition check_dom :: "inst \<Rightarrow> inst \<Rightarrow> bool" where
  "check_dom I J =
     (if is_operand I J then True
      else let Itype = get_access_type_reorder I; Jtype = get_access_type_reorder J in
        if Itype = NOEFFECT \<or> Jtype = NOEFFECT then False
        else if Itype = CALL \<or> Jtype = CALL then True
        else if Itype \<noteq> NOEFFECT \<and> Itype = Jtype \<and> Itype \<noteq> UNKNOWN then True
        else if Itype \<noteq> NOEFFECT \<and> Jtype = UNKNOWN then True
        else False)"

subsection \<open>The scheduler\<close>

text \<open>\<open>sc_dom\<close> and \<open>sc_type\<close> do not change; the rest is the state of the loops.\<close>

record graph =
  sc_dom :: "nat list list"
  sc_type :: "alloc_type list"

record sched =
  sc_cnt :: "nat list"
  sc_used :: "bool list"
  sc_lft :: nat
  sc_flag :: bool
  sc_new :: "nat list"   \<comment> \<open>\<open>newInsts\<close>, by index into \<open>Insts\<close>\<close>

definition dom_of :: "inst list \<Rightarrow> nat \<Rightarrow> nat list" where
  "dom_of insts i = filter (\<lambda>j. check_dom (insts ! i) (insts ! j)) [Suc i..<length insts]"

definition graph_of :: "inst list \<Rightarrow> graph" where
  "graph_of insts =
     \<lparr> sc_dom = map (dom_of insts) [0..<length insts],
       sc_type = map (\<lambda>I. get_block_type (VInst I)) insts \<rparr>"

definition incr :: "nat list \<Rightarrow> nat \<Rightarrow> nat list" where
  "incr c j = c[j := Suc (c ! j)]"

definition decr :: "nat list \<Rightarrow> nat \<Rightarrow> nat list" where
  "decr c j = c[j := c ! j - 1]"

definition init_sched :: "inst list \<Rightarrow> sched" where
  "init_sched insts =
     \<lparr> sc_cnt = foldl (foldl incr) (replicate (length insts) 0) (sc_dom (graph_of insts)),
       sc_used = replicate (length insts) False, sc_lft = length insts, sc_flag = True, sc_new = [] \<rparr>"

text \<open>The body of the innermost loop.\<close>

definition sched_visit :: "graph \<Rightarrow> alloc_type \<Rightarrow> nat \<Rightarrow> sched \<Rightarrow> sched" where
  "sched_visit G block i st =
     (if sc_used st ! i \<or> sc_type G ! i = block then st
      else if sc_cnt st ! i = 0
      then st\<lparr>sc_flag := True, sc_cnt := foldl decr (sc_cnt st) (sc_dom G ! i),
              sc_used := (sc_used st)[i := True], sc_lft := sc_lft st - 1, sc_new := sc_new st @ [i]\<rparr>
      else st)"

definition sched_for :: "graph \<Rightarrow> alloc_type \<Rightarrow> sched \<Rightarrow> sched" where
  "sched_for G block st = fold (sched_visit G block) [0..<length (sc_type G)] st"

text \<open>\<open>while (flag)\<close>, entered with the flag set.\<close>

partial_function (option) sched_inner :: "graph \<Rightarrow> alloc_type \<Rightarrow> sched \<Rightarrow> sched option" where
  "sched_inner G block st =
     (let st' = sched_for G block (st\<lparr>sc_flag := False\<rparr>)
      in if sc_flag st' then sched_inner G block st' else Some st')"

text \<open>\<open>STACK + HEAP - block\<close>\<close>

definition other_block :: "alloc_type \<Rightarrow> alloc_type" where
  "other_block b = (if b = HEAP then STACK else HEAP)"

text \<open>\<open>while (lft)\<close>\<close>

partial_function (option) sched_outer :: "graph \<Rightarrow> alloc_type \<Rightarrow> sched \<Rightarrow> sched option" where
  "sched_outer G block st =
     (if sc_lft st = 0 then Some st
      else Option.bind (sched_inner G block st) (\<lambda>st'. sched_outer G (other_block block) st'))"

declare sched_inner.simps [code] sched_outer.simps [code]

text \<open>
  One block. The last instruction is set aside as the terminator; \<open>None\<close> is a run that does
  not end, or a block without instructions, for which \<open>Insts.back()\<close> is undefined.
\<close>

definition reorder_block :: "inst list \<Rightarrow> inst list option" where
  "reorder_block bb =
     (if bb = [] then None
      else let insts = butlast bb in
        map_option (\<lambda>st. map (\<lambda>i. insts ! i) (sc_new st) @ [last bb])
          (sched_outer (graph_of insts) HEAP (init_sched insts)))"

fun reorder_blocks :: "ir_block list \<Rightarrow> ir_block list option" where
  "reorder_blocks [] = Some []"
| "reorder_blocks ((name, bb) # bbs) =
     Option.bind (reorder_block bb) (\<lambda>bb'. map_option ((#) (name, bb')) (reorder_blocks bbs))"

fun reorder_run :: "ir_function list \<Rightarrow> ir_function list option" where
  "reorder_run [] = Some []"
| "reorder_run (F # Fs) =
     Option.bind (reorder_blocks (fn_ir_blocks F)) (\<lambda>bbs.
       map_option ((#) (F\<lparr>fn_ir_blocks := bbs\<rparr>)) (reorder_run Fs))"

subsection \<open>The state of the loops\<close>

definition comes_before :: "nat \<Rightarrow> nat \<Rightarrow> nat list \<Rightarrow> bool" where
  "comes_before i j xs \<longleftrightarrow> i \<in> set (takeWhile (\<lambda>k. k \<noteq> j) xs)"

text \<open>The edges go forward, and there are \<open>n\<close> nodes.\<close>

definition graph_ok :: "nat \<Rightarrow> graph \<Rightarrow> bool" where
  "graph_ok n G \<longleftrightarrow> length (sc_dom G) = n \<and> length (sc_type G) = n
     \<and> (\<forall>i < n. distinct (sc_dom G ! i) \<and> (\<forall>j \<in> set (sc_dom G ! i). i < j \<and> j < n))"

definition waiting :: "graph \<Rightarrow> nat list \<Rightarrow> nat \<Rightarrow> nat \<Rightarrow> nat set" where
  "waiting G new n j = {i. i < n \<and> i \<notin> set new \<and> j \<in> set (sc_dom G ! i)}"

definition sched_ok :: "nat \<Rightarrow> graph \<Rightarrow> sched \<Rightarrow> bool" where
  "sched_ok n G st \<longleftrightarrow>
     length (sc_cnt st) = n \<and> length (sc_used st) = n
     \<and> distinct (sc_new st) \<and> set (sc_new st) \<subseteq> {..<n} \<and> sc_lft st + length (sc_new st) = n
     \<and> (\<forall>i < n. sc_used st ! i \<longleftrightarrow> i \<in> set (sc_new st))
     \<and> (\<forall>j < n. sc_cnt st ! j = card (waiting G (sc_new st) n j))
     \<and> (\<forall>i < n. \<forall>j \<in> set (sc_dom G ! i). j \<in> set (sc_new st) \<longrightarrow> comes_before i j (sc_new st))"

lemma graph_okD:
  assumes "graph_ok n G"
  shows "length (sc_dom G) = n" "length (sc_type G) = n"
    "i < n \<Longrightarrow> distinct (sc_dom G ! i)" "\<lbrakk> i < n; j \<in> set (sc_dom G ! i) \<rbrakk> \<Longrightarrow> i < j \<and> j < n"
  using assms unfolding graph_ok_def by blast+

lemma foldl_decr:
  "\<lbrakk> distinct js; \<forall>j \<in> set js. j < length c \<rbrakk> \<Longrightarrow>
   length (foldl decr c js) = length c \<and>
   (\<forall>j < length c. foldl decr c js ! j = (if j \<in> set js then c ! j - 1 else c ! j))"
  by (induction js arbitrary: c) (auto simp: decr_def nth_list_update)

lemma foldl_incr:
  "\<lbrakk> distinct js; \<forall>j \<in> set js. j < length c \<rbrakk> \<Longrightarrow>
   length (foldl incr c js) = length c \<and>
   (\<forall>j < length c. foldl incr c js ! j = (if j \<in> set js then Suc (c ! j) else c ! j))"
  by (induction js arbitrary: c) (auto simp: incr_def nth_list_update)

lemma foldl_incr_all:
  "\<lbrakk> \<forall>js \<in> set jss. distinct js \<and> (\<forall>j \<in> set js. j < length c) \<rbrakk> \<Longrightarrow>
   length (foldl (foldl incr) c jss) = length c \<and>
   (\<forall>j < length c. foldl (foldl incr) c jss ! j = c ! j + length (filter (\<lambda>js. j \<in> set js) jss))"
proof (induction jss arbitrary: c)
  case (Cons js jss)
  have js: "distinct js" "\<forall>j \<in> set js. j < length c" using Cons.prems by auto
  from foldl_incr [OF this] have len: "length (foldl incr c js) = length c"
    and val: "\<And>j. j < length c \<Longrightarrow> foldl incr c js ! j = (if j \<in> set js then Suc (c ! j) else c ! j)"
    by blast+
  have "\<forall>js \<in> set jss. distinct js \<and> (\<forall>j \<in> set js. j < length (foldl incr c js'))"
    if "length (foldl incr c js') = length c" for js'
    unfolding that using Cons.prems by auto
  from Cons.IH [OF this [OF len]]
  have ih: "length (foldl (foldl incr) (foldl incr c js) jss) = length c"
    "\<And>j. j < length c \<Longrightarrow> foldl (foldl incr) (foldl incr c js) jss ! j
      = foldl incr c js ! j + length (filter (\<lambda>js. j \<in> set js) jss)"
    by (simp_all only: len)
  show ?case
    by (intro conjI allI impI) (simp_all only: foldl_Cons ih val filter.simps, simp)
qed simp

lemma graph_of_ok: "graph_ok (length insts) (graph_of insts)"
  by (auto simp: graph_ok_def graph_of_def dom_of_def)

lemma init_sched_ok: "sched_ok (length insts) (graph_of insts) (init_sched insts)"
proof -
  let ?n = "length insts" and ?G = "graph_of insts"
  note g = graph_okD [OF graph_of_ok [of insts]]
  have "\<forall>js \<in> set (sc_dom ?G). distinct js \<and> (\<forall>j \<in> set js. j < length (replicate ?n (0::nat)))"
  proof
    fix js assume "js \<in> set (sc_dom ?G)"
    then obtain i where "i < length (sc_dom ?G)" "js = sc_dom ?G ! i" by (metis in_set_conv_nth)
    then have "distinct js" "\<forall>j \<in> set js. j < ?n" unfolding g(1) using g(3,4) by blast+
    then show "distinct js \<and> (\<forall>j \<in> set js. j < length (replicate ?n (0::nat)))" by simp
  qed
  note c = foldl_incr_all [OF this]
  have "length (filter (\<lambda>js. j \<in> set js) (sc_dom ?G)) = card (waiting ?G [] ?n j)" for j
    by (simp add: length_filter_conv_card waiting_def g(1))
  with c show ?thesis by (simp add: sched_ok_def init_sched_def)
qed

subsection \<open>Each step keeps the state consistent\<close>

lemma comes_before_snoc: "j \<notin> set xs \<Longrightarrow> comes_before i j (xs @ [k]) \<longleftrightarrow> i \<in> set xs \<or> (i = k \<and> k \<noteq> j)"
proof -
  assume "j \<notin> set xs"
  then have "\<forall>x \<in> set xs. x \<noteq> j" by auto
  then have "takeWhile (\<lambda>k. k \<noteq> j) (xs @ [k]) = xs @ takeWhile (\<lambda>k. k \<noteq> j) [k]"
    by (simp add: takeWhile_append)
  then show ?thesis by (auto simp: comes_before_def)
qed

lemma comes_before_append: "comes_before i j xs \<Longrightarrow> j \<in> set xs \<Longrightarrow> comes_before i j (xs @ ys)"
  by (auto simp: comes_before_def takeWhile_append)

lemma comes_before_mem: "comes_before i j xs \<Longrightarrow> i \<in> set xs"
  by (auto simp: comes_before_def dest: set_takeWhileD)

definition emits :: "graph \<Rightarrow> alloc_type \<Rightarrow> sched \<Rightarrow> nat \<Rightarrow> bool" where
  "emits G block st i \<longleftrightarrow> \<not> sc_used st ! i \<and> sc_type G ! i \<noteq> block \<and> sc_cnt st ! i = 0"

definition emit :: "graph \<Rightarrow> nat \<Rightarrow> sched \<Rightarrow> sched" where
  "emit G i st = st\<lparr>sc_flag := True, sc_cnt := foldl decr (sc_cnt st) (sc_dom G ! i),
     sc_used := (sc_used st)[i := True], sc_lft := sc_lft st - 1, sc_new := sc_new st @ [i]\<rparr>"

lemma emit_simps:
  "sc_cnt (emit G i st) = foldl decr (sc_cnt st) (sc_dom G ! i)"
  "sc_used (emit G i st) = (sc_used st)[i := True]"
  "sc_lft (emit G i st) = sc_lft st - 1"
  "sc_flag (emit G i st)"
  "sc_new (emit G i st) = sc_new st @ [i]"
  by (simp_all add: emit_def)

lemma sched_visit_eq: "sched_visit G block i st = (if emits G block st i then emit G i st else st)"
  by (simp add: sched_visit_def emits_def emit_def)

lemma sched_ok_flag [simp]: "sched_ok n G (st\<lparr>sc_flag := b\<rparr>) = sched_ok n G st"
  by (simp add: sched_ok_def)

lemma emit_keeps:
  assumes G: "graph_ok n G" and ok: "sched_ok n G st" and i: "i < n" and e: "emits G block st i"
  shows "sched_ok n G (emit G i st)" "sc_lft (emit G i st) < sc_lft st"
proof -
  note o = ok [unfolded sched_ok_def]
  have new: "i \<notin> set (sc_new st)" using e i o by (simp add: emits_def)
  have fin: "finite (waiting G (sc_new st) n j)" for j by (simp add: waiting_def)
  have "waiting G (sc_new st) n i = {}" using e i o fin by (simp add: emits_def)
  then have ready: "\<And>k. k < n \<Longrightarrow> i \<in> set (sc_dom G ! k) \<Longrightarrow> k \<in> set (sc_new st)"
    by (auto simp: waiting_def)
  have dom: "distinct (sc_dom G ! i)" "\<forall>j \<in> set (sc_dom G ! i). j < length (sc_cnt st)"
    using graph_okD(3,4) [OF G i] conjunct1 [OF o] by blast+
  note c = foldl_decr [OF dom]
  have wait: "waiting G (sc_new st @ [i]) n j = waiting G (sc_new st) n j - {i}" for j
    by (auto simp: waiting_def)
  have cnt: "foldl decr (sc_cnt st) (sc_dom G ! i) ! j = card (waiting G (sc_new st @ [i]) n j)" if "j < n" for j
  proof (cases "j \<in> set (sc_dom G ! i)")
    case True
    then have "i \<in> waiting G (sc_new st) n j" using i new by (simp add: waiting_def)
    then show ?thesis using c that o True fin by (simp add: wait card_Diff_singleton)
  next
    case False
    then have "i \<notin> waiting G (sc_new st) n j" by (simp add: waiting_def)
    then show ?thesis using c that o False by (simp add: wait)
  qed
  have len: "length (sc_new st) < n"
  proof -
    have "set (i # sc_new st) \<subseteq> {..<n}" "distinct (i # sc_new st)" using o i new by auto
    then have "length (i # sc_new st) \<le> n" by (metis card_lessThan card_mono distinct_card finite_lessThan)
    then show ?thesis by simp
  qed
  then show "sc_lft (emit G i st) < sc_lft st" using o by (simp add: emit_def)
  have used: "(sc_used st)[i := True] ! k \<longleftrightarrow> k \<in> set (sc_new st @ [i])" if "k < n" for k
    using that o i by (auto simp: nth_list_update)
  have order: "comes_before k j (sc_new st @ [i])"
    if k: "k < n" "j \<in> set (sc_dom G ! k)" and j: "j \<in> set (sc_new st @ [i])" for k j
  proof (cases "j \<in> set (sc_new st)")
    case True
    then show ?thesis using o k by (blast intro: comes_before_append)
  next
    case False
    then have "j = i" using j by simp
    with ready k new show ?thesis by (simp add: comes_before_snoc)
  qed
  show "sched_ok n G (emit G i st)"
    unfolding sched_ok_def emit_simps
  proof (intro conjI allI impI ballI)
    show "length (foldl decr (sc_cnt st) (sc_dom G ! i)) = n" using c o by blast
    show "length ((sc_used st)[i := True]) = n" using o by simp
    show "distinct (sc_new st @ [i])" using o new by simp
    show "set (sc_new st @ [i]) \<subseteq> {..<n}" using o i by simp
    show "sc_lft st - 1 + length (sc_new st @ [i]) = n" using o len by simp
  qed (fact used cnt order)+
qed

subsection \<open>The loops end\<close>

lemma visit_keeps:
  assumes "graph_ok n G" "sched_ok n G st" "i < n"
  shows "sched_ok n G (sched_visit G block i st)"
    "sc_lft (sched_visit G block i st) \<le> sc_lft st"
    "sc_flag (sched_visit G block i st) \<or> sched_visit G block i st = st"
    "sc_lft st = sc_lft (sched_visit G block i st) \<longrightarrow> sched_visit G block i st = st"
  using emit_keeps [OF assms(1,2,3), of block] assms(2)
  by (auto simp: sched_visit_eq emit_simps)

text \<open>A pass either emits something, and sets the flag, or finds nothing to emit.\<close>

lemma for_loop:
  assumes G: "graph_ok n G" and ix: "\<forall>i \<in> set xs. i < n"
  shows "sched_ok n G st \<Longrightarrow> sched_ok n G (fold (sched_visit G block) xs st)
    \<and> sc_lft (fold (sched_visit G block) xs st) \<le> sc_lft st
    \<and> (sc_lft (fold (sched_visit G block) xs st) < sc_lft st \<and> sc_flag (fold (sched_visit G block) xs st)
       \<or> fold (sched_visit G block) xs st = st \<and> (\<forall>i \<in> set xs. \<not> emits G block st i))"
  using ix
proof (induction xs arbitrary: st)
  case (Cons i xs)
  let ?st = "sched_visit G block i st"
  have i: "i < n" "\<forall>i \<in> set xs. i < n" using Cons.prems(2) by auto
  note v = visit_keeps [OF G Cons.prems(1) i(1), of block]
  note ih = Cons.IH [OF v(1) i(2)]
  show ?case
  proof (cases "emits G block st i")
    case True
    then have lt: "sc_lft ?st < sc_lft st" and fl: "sc_flag ?st"
      using emit_keeps(2) [OF G Cons.prems(1) i(1) True] by (simp_all add: sched_visit_eq emit_simps)
    with ih show ?thesis by (auto intro: le_less_trans)
  next
    case False
    then have "?st = st" by (simp add: sched_visit_eq)
    with ih False show ?thesis by simp
  qed
qed simp

lemma sched_for_result:
  fixes block :: alloc_type
  assumes G: "graph_ok n G" and ok: "sched_ok n G st"
  defines "st' \<equiv> sched_for G block (st\<lparr>sc_flag := False\<rparr>)"
  shows "sched_ok n G st'" "sc_flag st' \<Longrightarrow> sc_lft st' < sc_lft st"
    "\<not> sc_flag st' \<Longrightarrow> st' = st\<lparr>sc_flag := False\<rparr> \<and> (\<forall>i < n. \<not> emits G block st i)"
proof -
  have n: "length (sc_type G) = n" using G by (rule graph_okD)
  have e: "emits G block (st\<lparr>sc_flag := False\<rparr>) i = emits G block st i" for i
    by (simp add: emits_def)
  have "sched_ok n G (st\<lparr>sc_flag := False\<rparr>)" using ok by simp
  note r = for_loop [OF G _ this, where xs = "[0..<n]" and block = block, simplified e]
  from r show "sched_ok n G st'" by (simp add: st'_def sched_for_def n)
  from r show "sc_flag st' \<Longrightarrow> sc_lft st' < sc_lft st"
    by (auto simp: st'_def sched_for_def n)
  from r show "\<not> sc_flag st' \<Longrightarrow> st' = st\<lparr>sc_flag := False\<rparr> \<and> (\<forall>i < n. \<not> emits G block st i)"
    by (auto simp: st'_def sched_for_def n)
qed

lemma sched_inner_ends:
  assumes G: "graph_ok n G"
  shows "sched_ok n G st \<Longrightarrow> \<exists>st'. sched_inner G block st = Some st' \<and> sched_ok n G st'
    \<and> sc_lft st' \<le> sc_lft st \<and> (\<forall>i < n. \<not> emits G block st' i)"
proof (induction "sc_lft st" arbitrary: st rule: less_induct)
  case less
  let ?st = "sched_for G block (st\<lparr>sc_flag := False\<rparr>)"
  note r = sched_for_result [OF G less.prems, of block]
  show ?case
  proof (cases "sc_flag ?st")
    case True
    with less.hyps [OF r(2) [OF True] r(1)] r(2) [OF True] show ?thesis
      by (subst sched_inner.simps) (auto simp: Let_def)
  next
    case False
    with r(3) [OF False] less.prems show ?thesis
      by (subst sched_inner.simps) (auto simp: emits_def)
  qed
qed

text \<open>
  While instructions are left, the first of them in program order waits for none. It is emitted
  in the round in which its region is not blocked, so two rounds emit something.
\<close>

lemma first_left:
  assumes G: "graph_ok n G" and ok: "sched_ok n G st" and left: "0 < sc_lft st"
  obtains k where "k < n" "\<not> sc_used st ! k" "sc_cnt st ! k = 0"
proof -
  note o = ok [unfolded sched_ok_def]
  have "length (sc_new st) < n" using o left by linarith
  then have "card (set (sc_new st)) < card {..<n}" using o by (simp add: distinct_card)
  then have "\<not> {..<n} \<subseteq> set (sc_new st)" using card_mono [OF finite_set] by (metis leD)
  then obtain j where "j < n" "j \<notin> set (sc_new st)" by auto
  define k where "k = (LEAST j. j < n \<and> j \<notin> set (sc_new st))"
  have k: "k < n" "k \<notin> set (sc_new st)"
    using LeastI [of "\<lambda>j. j < n \<and> j \<notin> set (sc_new st)" j] \<open>j < n\<close> \<open>j \<notin> _\<close> by (auto simp: k_def)
  have least: "i \<in> set (sc_new st)" if "i < k" for i
    using not_less_Least [OF that [unfolded k_def]] that k(1) by auto
  have "waiting G (sc_new st) n k = {}"
  proof -
    have False if i: "i < n" "i \<notin> set (sc_new st)" "k \<in> set (sc_dom G ! i)" for i
      using least graph_okD(4) [OF G i(1,3)] i(2) by blast
    then show ?thesis by (auto simp: waiting_def)
  qed
  then have "sc_cnt st ! k = 0" using o k(1) by simp
  with k o show ?thesis by (intro that) auto
qed

lemma sched_outer_ends:
  assumes G: "graph_ok n G"
  shows "sched_ok n G st \<Longrightarrow> \<exists>st'. sched_outer G block st = Some st' \<and> sched_ok n G st' \<and> sc_lft st' = 0"
proof (induction "2 * sc_lft st + (if \<exists>i < n. emits G block st i then 0 else 1)"
    arbitrary: st block rule: less_induct)
  case less
  show ?case
  proof (cases "sc_lft st = 0")
    case True
    with less.prems show ?thesis by (subst sched_outer.simps) simp
  next
    case False
    obtain st' where st': "sched_inner G block st = Some st'" "sched_ok n G st'"
        "sc_lft st' \<le> sc_lft st" "\<forall>i < n. \<not> emits G block st' i"
      using sched_inner_ends [OF G less.prems] by blast
    have dec: "sc_lft st' < sc_lft st" if "\<exists>i < n. emits G block st i"
    proof -
      note r = sched_for_result [OF G less.prems, of block]
      let ?st = "sched_for G block (st\<lparr>sc_flag := False\<rparr>)"
      have fl: "sc_flag ?st" using r(3) that by blast
      then have "sched_inner G block ?st = Some st'"
        using st'(1) by (subst (asm) sched_inner.simps) simp
      with sched_inner_ends [OF G r(1), of block] have "sc_lft st' \<le> sc_lft ?st" by auto
      with r(2) [OF fl] show ?thesis by linarith
    qed
    show ?thesis
    proof (cases "sc_lft st' = 0")
      case True
      with False st' show ?thesis by (subst sched_outer.simps) (simp add: sched_outer.simps)
    next
      case left: False
      then obtain k where k: "k < n" "\<not> sc_used st' ! k" "sc_cnt st' ! k = 0"
        using first_left [OF G st'(2)] by blast
      then have "sc_type G ! k = block" using st'(4) by (auto simp: emits_def)
      with k have "\<exists>i < n. emits G (other_block block) st' i"
        by (auto simp: emits_def other_block_def)
      with dec st'(3) have "2 * sc_lft st' + (if \<exists>i < n. emits G (other_block block) st' i then 0 else 1)
          < 2 * sc_lft st + (if \<exists>i < n. emits G block st i then 0 else 1)"
        by (auto split: if_splits)
      from less.hyps [OF this st'(2)] False st'(1) show ?thesis
        by (subst sched_outer.simps) auto
    qed
  qed
qed

subsection \<open>What the schedule is\<close>

lemma schedule_exists:
  assumes "bb \<noteq> []"
  obtains p where "reorder_block bb = Some (map (\<lambda>i. bb ! i) p @ [last bb])"
    "distinct p" "set p = {..<length bb - 1}"
    "\<And>i j. \<lbrakk> i < j; j < length bb - 1; check_dom (bb ! i) (bb ! j) \<rbrakk> \<Longrightarrow> comes_before i j p"
proof -
  let ?is = "butlast bb" and ?n = "length bb - 1"
  let ?G = "graph_of ?is"
  have len: "length ?is = ?n" by simp
  obtain st where st: "sched_outer ?G HEAP (init_sched ?is) = Some st" "sched_ok ?n ?G st" "sc_lft st = 0"
    using sched_outer_ends [OF graph_of_ok init_sched_ok, of ?is HEAP] by auto
  note o = st(2) [unfolded sched_ok_def]
  have d: "distinct (sc_new st)" using o by blast
  have "length (sc_new st) = ?n" "set (sc_new st) \<subseteq> {..<?n}" using o st(3) by auto
  then have s: "set (sc_new st) = {..<?n}"
    using d by (intro card_subset_eq) (simp_all add: distinct_card)
  have m: "map (\<lambda>i. ?is ! i) (sc_new st) = map (\<lambda>i. bb ! i) (sc_new st)"
    using s by (auto simp: nth_butlast)
  have r: "reorder_block bb = Some (map (\<lambda>i. bb ! i) (sc_new st) @ [last bb])"
    using assms st(1) m by (simp add: reorder_block_def)
  have b: "comes_before i j (sc_new st)" if "i < j" "j < ?n" "check_dom (bb ! i) (bb ! j)" for i j
  proof -
    have "j \<in> set (sc_dom ?G ! i)"
      using that by (simp add: graph_of_def dom_of_def nth_butlast)
    moreover have "j \<in> set (sc_new st)" using s that by simp
    ultimately show ?thesis using o that by (meson less_trans)
  qed
  show ?thesis by (rule that [OF r d s b])
qed

end
