(* ===== verification/Reorder_Theorems.thy ===== *)
theory Reorder_Theorems
  imports Reorder
begin

text \<open>
  What the scheduler guarantees: it ends, it permutes the block below its terminator, it keeps
  the pairs \<open>checkDom\<close> orders in their order, and so it preserves what the block does
  whenever the other pairs commute. The last section shows two kinds of pairs that
  \<open>checkDom\<close> leaves free although they do not commute.
\<close>

text \<open>Two sequences of the same elements do the same when the elements whose order differs commute.\<close>

lemma comes_before_Cons: "comes_before i j (x # xs) \<longleftrightarrow> x \<noteq> j \<and> (i = x \<or> comes_before i j xs)"
  unfolding comes_before_def by (cases "x = j") simp_all

lemma comes_before_Nil [simp]: "\<not> comes_before i j []"
  by (simp add: comes_before_def)

lemma comes_before_total:
  "\<lbrakk> i \<in> set xs; i \<noteq> j; \<not> comes_before i j xs \<rbrakk> \<Longrightarrow> comes_before j i xs"
  by (induction xs) (auto simp: comes_before_Cons)

lemma comes_before_asym: "comes_before i j xs \<Longrightarrow> \<not> comes_before j i xs"
  by (induction xs) (auto simp: comes_before_Cons)

lemma fold_move_front:
  assumes "\<And>u. u \<in> set us \<Longrightarrow> f u \<circ> f x = f x \<circ> f u"
  shows "fold f (us @ x # vs) s = fold f (x # us @ vs) s"
  using assms
proof (induction us arbitrary: s)
  case (Cons u us)
  have "fold f us (f x (f u s)) = fold f us (f u (f x s))"
    using Cons.prems [of u] by (metis comp_apply list.set_intros(1))
  with Cons show ?case by simp
qed simp

lemma fold_same_order:
  assumes "distinct xs" "distinct ys" "set xs = set ys"
    and "\<And>i j. \<lbrakk> i \<in> set xs; j \<in> set xs; comes_before i j xs; comes_before j i ys \<rbrakk> \<Longrightarrow> f i \<circ> f j = f j \<circ> f i"
  shows "fold f xs s = fold f ys s"
  using assms
proof (induction xs arbitrary: ys s)
  case (Cons x xs)
  then obtain us vs where ys: "ys = us @ x # vs" by (metis list.set_intros(1) split_list)
  have d: "x \<notin> set us" "x \<notin> set vs" "distinct (us @ vs)" using Cons.prems(2) ys by auto
  have s: "set xs = set (us @ vs)" using Cons.prems(1,3) ys d by auto
  have in_us: "f u \<circ> f x = f x \<circ> f u" if u: "u \<in> set us" for u
  proof -
    have "u \<in> set xs" using u s by simp
    moreover have "comes_before u x ys"
      using u d(1) ys by (auto simp: comes_before_def takeWhile_append)
    moreover have "comes_before x u (x # xs)" using u d(1) by (auto simp: comes_before_Cons)
    ultimately have "f x \<circ> f u = f u \<circ> f x" by (intro Cons.prems(4)) simp_all
    then show ?thesis by (rule sym)
  qed
  have "fold f xs (f x s) = fold f (us @ vs) (f x s)"
  proof (rule Cons.IH [OF _ d(3) s])
    show "distinct xs" using Cons.prems(1) by simp
    fix i j assume ij: "i \<in> set xs" "j \<in> set xs" "comes_before i j xs" "comes_before j i (us @ vs)"
    have "x \<noteq> i" "x \<noteq> j" using Cons.prems(1) ij by auto
    then have "comes_before i j (x # xs)" using ij by (simp add: comes_before_Cons)
    moreover have "comes_before j i ys"
      using ij(4) \<open>x \<noteq> i\<close> ys by (auto simp: comes_before_def takeWhile_append split: if_splits)
    ultimately show "f i \<circ> f j = f j \<circ> f i" using ij by (intro Cons.prems(4)) simp_all
  qed
  moreover have "fold f ys s = fold f (us @ vs) (f x s)"
    using fold_move_front [where f = f and us = us and x = x] in_us by (simp add: ys)
  ultimately show ?case by simp
qed simp

lemma comes_before_upt: "i < j \<Longrightarrow> j < n \<Longrightarrow> comes_before i j [0..<n]"
proof (induction n)
  case (Suc n)
  show ?case
  proof (cases "j = n")
    case True
    then show ?thesis using Suc.prems by (simp add: comes_before_snoc)
  next
    case False
    with Suc show ?thesis by (simp add: comes_before_append)
  qed
qed simp

lemma upt_not_comes_before: "comes_before i j [0..<n] \<Longrightarrow> j < n \<Longrightarrow> i < j"
  by (metis atLeastLessThan_iff comes_before_asym comes_before_mem comes_before_def comes_before_upt
    linorder_neqE_nat set_upt set_takeWhileD)

subsection \<open>Properties\<close>


definition reorder_sample :: "inst list" where
  "reorder_sample =
     (let p = Inst 1 (OpCall ''malloc'') ''p'' (TPtr (TInt 64)) [VInt 64 8];
          q = Inst 2 (OpAlloca (TInt 64)) ''q'' (TPtr (TInt 64)) [];
          x = Inst 3 OpLoad ''x'' (TInt 64) [VInst p];
          y = Inst 4 OpLoad ''y'' (TInt 64) [VInst q];
          z = Inst 5 (OpBin Add) ''z'' (TInt 64) [VInst x, VInst y]
      in [p, q, x, y, z, Inst 6 OpRet [] TVoid [VInst z]])"

lemma reorder_sample_nonempty: "reorder_sample \<noteq> []"
  by (simp add: reorder_sample_def Let_def)


text \<open>
  C29. The schedule is a permutation of the block that keeps the terminator last and keeps the
  order of every two instructions that \<open>checkDom\<close> orders; in particular every value is
  computed before the instructions that use it.
\<close>

theorem schedule_respects_order:
  assumes "bb \<noteq> []" and "reorder_block bb = Some bb'"
  shows "mset bb' = mset bb \<and> last bb' = last bb
    \<and> (\<exists>p. bb' = map (\<lambda>i. bb ! i) p @ [last bb] \<and> distinct p \<and> set p = {..<length bb - 1}
         \<and> (\<forall>i j. i < j \<and> j < length bb - 1 \<and> check_dom (bb ! i) (bb ! j) \<longrightarrow> comes_before i j p))"
proof -
  from schedule_exists [OF assms(1)] assms(2) obtain p where
    p: "bb' = map (\<lambda>i. bb ! i) p @ [last bb]" "distinct p" "set p = {..<length bb - 1}"
      "\<And>i j. \<lbrakk> i < j; j < length bb - 1; check_dom (bb ! i) (bb ! j) \<rbrakk> \<Longrightarrow> comes_before i j p"
    by (metis option.inject)
  have "mset p = mset [0..<length bb - 1]"
    using p(2,3) by (metis atLeast0LessThan distinct_upt mset_set_set set_upt)
  then have "mset (map (\<lambda>i. bb ! i) p) = mset (map (\<lambda>i. bb ! i) [0..<length bb - 1])"
    by (metis mset_map)
  also have "map (\<lambda>i. bb ! i) [0..<length bb - 1] = butlast bb"
    by (rule nth_equalityI) (simp_all add: nth_butlast)
  finally have "mset bb' = mset (butlast bb @ [last bb])" by (simp add: p(1))
  then have "mset bb' = mset bb" using assms(1) by simp
  moreover have "last bb' = last bb" by (simp add: p(1))
  ultimately show ?thesis using p by blast
qed

lemma reorder_sample_run: "map_option (map iid) (reorder_block reorder_sample) = Some [2, 4, 1, 3, 5, 6]"
  by code_simp

theorem schedule_respects_order_witness:
  "\<exists>bb'. reorder_block reorder_sample = Some bb' \<and> map iid bb' = [2, 4, 1, 3, 5, 6]
     \<and> mset bb' = mset reorder_sample"
proof -
  from reorder_sample_run obtain bb' where r: "reorder_block reorder_sample = Some bb'" "map iid bb' = [2, 4, 1, 3, 5, 6]"
    by auto
  have "mset bb' = mset reorder_sample"
    by (rule conjunct1 [OF schedule_respects_order [OF reorder_sample_nonempty r(1)]])
  with r show ?thesis by (intro exI [of _ bb']) simp
qed

text \<open>
  C19. Whatever the instructions do to the state of the program, the reordered block does the
  same as the block, provided that every two instructions \<open>checkDom\<close> leaves unordered
  commute.
\<close>

theorem schedule_preserves_effect:
  assumes "bb \<noteq> []" and "reorder_block bb = Some bb'"
    and "\<forall>i j. i < j \<and> j < length bb - 1 \<and> \<not> check_dom (bb ! i) (bb ! j)
      \<longrightarrow> run (bb ! i) \<circ> run (bb ! j) = run (bb ! j) \<circ> run (bb ! i)"
  shows "fold run bb' s = fold run bb s"
proof -
  let ?n = "length bb - 1"
  obtain p where e: "reorder_block bb = Some (map (\<lambda>i. bb ! i) p @ [last bb])"
    and p: "distinct p" "set p = {..<?n}"
      "\<And>i j. \<lbrakk> i < j; j < ?n; check_dom (bb ! i) (bb ! j) \<rbrakk> \<Longrightarrow> comes_before i j p"
    by (rule schedule_exists [OF assms(1)]) blast
  have bb': "bb' = map (\<lambda>i. bb ! i) p @ [last bb]" using e assms(2) by simp
  have b: "bb = map (\<lambda>i. bb ! i) [0..<?n] @ [last bb]"
  proof -
    have "map (\<lambda>i. bb ! i) [0..<?n] = butlast bb"
      by (rule nth_equalityI) (simp_all add: nth_butlast)
    then show ?thesis using assms(1) by simp
  qed
  have "fold (\<lambda>i. run (bb ! i)) [0..<?n] s = fold (\<lambda>i. run (bb ! i)) p s"
  proof (rule fold_same_order)
    show "set [0..<?n] = set p" by (simp only: set_upt p(2) atLeast0LessThan)
    fix i j assume ij: "i \<in> set [0..<?n]" "j \<in> set [0..<?n]" "comes_before i j [0..<?n]" "comes_before j i p"
    then have "j < ?n" by simp
    with ij(3) have "i < j" by (rule upt_not_comes_before)
    have "\<not> check_dom (bb ! i) (bb ! j)"
      using p(3) [OF \<open>i < j\<close> \<open>j < ?n\<close>] comes_before_asym [OF ij(4)] by blast
    then show "run (bb ! i) \<circ> run (bb ! j) = run (bb ! j) \<circ> run (bb ! i)"
      using assms(3) \<open>i < j\<close> \<open>j < ?n\<close> by blast
  qed (use p(1) in simp_all)
  then have "fold run (map (\<lambda>i. bb ! i) [0..<?n]) s = fold run (map (\<lambda>i. bb ! i) p) s"
    by (simp only: fold_map comp_def)
  then have "fold run (map (\<lambda>i. bb ! i) [0..<?n] @ [last bb]) s = fold run (map (\<lambda>i. bb ! i) p @ [last bb]) s"
    by (simp only: fold_append comp_apply)
  then show ?thesis unfolding bb' b [symmetric] by (rule sym)
qed

text \<open>A state that keeps the value each instruction computed from its operands.\<close>

definition number_run :: "inst \<Rightarrow> (nat \<Rightarrow> nat) \<Rightarrow> nat \<Rightarrow> nat" where
  "number_run I s = s(iid I := Suc (sum_list (map (\<lambda>v. case v of VInst K \<Rightarrow> s (iid K) | _ \<Rightarrow> 0) (iops I))))"

theorem schedule_preserves_effect_witness:
  "\<exists>bb'. reorder_block reorder_sample = Some bb' \<and> fold number_run bb' (\<lambda>_. 0) 5 = fold number_run reorder_sample (\<lambda>_. 0) 5
     \<and> bb' \<noteq> reorder_sample"
proof -
  from reorder_sample_run obtain bb' where r: "reorder_block reorder_sample = Some bb'" "map iid bb' = [2, 4, 1, 3, 5, 6]"
    by auto
  have "length reorder_sample - 1 = 5" by code_simp
  have c: "number_run (reorder_sample ! i) \<circ> number_run (reorder_sample ! j) = number_run (reorder_sample ! j) \<circ> number_run (reorder_sample ! i)"
    if "i < j" "j < length reorder_sample - 1" "\<not> check_dom (reorder_sample ! i) (reorder_sample ! j)" for i j
    using that
    by (auto simp: reorder_sample_def Let_def numeral_nat less_Suc_eq number_run_def check_dom_def is_operand_def fun_eq_iff)
  have "map iid reorder_sample = [1, 2, 3, 4, 5, 6]" by code_simp
  then have "bb' \<noteq> reorder_sample" using r(2) by (metis list.inject numeral_eq_one_iff semiring_norm(85))
  then show ?thesis
    using schedule_preserves_effect [OF reorder_sample_nonempty r(1), of number_run "\<lambda>_. 0"] c r(1) by metis
qed

subsection \<open>Pairs left free that do not commute\<close>

text \<open>
  \<open>checkDom\<close> orders an access through an unknown pointer after earlier accesses, but not
  before later accesses to the stack or the heap. In this block the load \<open>y\<close> from the stack
  slot \<open>q\<close> follows a store through the argument \<open>p\<close>, which may point to \<open>q\<close>; the
  scheduler moves the load in front of the store.
\<close>

definition alias_block :: "inst list" where
  "alias_block =
     (let q = Inst 1 (OpAlloca (TInt 64)) ''q'' (TPtr (TInt 64)) [];
          x = Inst 2 OpLoad ''x'' (TInt 64) [VGlobal ''g'' (TPtr (TInt 64))];
          st = Inst 3 OpStore [] TVoid [VInst x, VArg ''p'' (TPtr (TInt 64))];
          y = Inst 4 OpLoad ''y'' (TInt 64) [VInst q]
      in [q, x, st, y, Inst 5 OpRet [] TVoid [VInst y]])"

lemma unknown_store_not_ordered:
  "\<not> check_dom (alias_block ! 2) (alias_block ! 3)
   \<and> map_option (map iid) (reorder_block alias_block) = Some [1, 4, 2, 3, 5]"
  by code_simp

text \<open>
  A call of \<open>free\<close> has no effect for \<open>checkDom\<close>: it waits only for its operand. Here the
  load \<open>v\<close> of the freed block waits for a stack access and is moved behind the call.
\<close>

definition free_block :: "inst list" where
  "free_block =
     (let p = Inst 1 (OpCall ''malloc'') ''p'' (TPtr (TInt 64)) [VInt 64 16];
          a = Inst 2 (OpAlloca (TArr 2 (TInt 64))) ''a'' (TPtr (TArr 2 (TInt 64))) [];
          h = Inst 3 OpLoad ''h'' (TInt 64) [VInst p];
          s = Inst 4 OpGEP ''s'' (TPtr (TInt 64)) [VInst a, VInst h];
          w = Inst 5 OpLoad ''w'' (TInt 64) [VInst s];
          e = Inst 6 OpGEP ''e'' (TPtr (TInt 64)) [VInst p, VInst w];
          v = Inst 7 OpLoad ''v'' (TInt 64) [VInst e];
          f = Inst 8 (OpCall ''free'') [] TVoid [VInst p]
      in [p, a, h, s, w, e, v, f, Inst 9 OpRet [] TVoid [VInst v]])"

lemma free_not_ordered_with_loads:
  "map_option (map iid) (reorder_block free_block) = Some [2, 1, 3, 8, 4, 5, 6, 7, 9]"
  by code_simp

end
