(* ===== verification/Emitter.thy ===== *)
theory Emitter
  imports Reset_Pointer Grammar Register_Allocator
begin

text \<open>
  The assembly emitter (\<open>src/src/core/AssemblyEmitter.cpp\<close>). It runs on the depromoted
  module, where the name of an instruction says which register holds its value, and writes the
  text the interpreter reads. A raised error, a failing assertion and an exception of
  \<open>std::stoi\<close> all end the compiler; they are \<open>Inl\<close> of a message.
\<close>

definition AllocaBytesName :: string where "AllocaBytesName = ''__alloca_bytes__''"
definition FreeBytesName :: string where "FreeBytesName = ''__free_bytes__''"
definition GetSPName :: string where "GetSPName = ''__get_stack_pointer__''"
definition SetRefName :: string where "SetRefName = ''__set_ref__''"
definition SpillRefName :: string where "SpillRefName = ''__spill_ref__''"
definition RefSP :: string where "RefSP = ''r16''"

lemmas special_names = AllocaBytesName_def FreeBytesName_def GetSPName_def SetRefName_def
  SpillRefName_def ResetStackName_def ResetHeapName_def

subsection \<open>Names\<close>

definition u32_to_string :: "u32 \<Rightarrow> string" where
  "u32_to_string w = nat_to_string (unat w)"

definition int_to_string :: "int \<Rightarrow> string" where
  "int_to_string i = (if i < 0 then CHR ''-'' # nat_to_string (nat (- i)) else nat_to_string (nat i))"

definition get_access_size_str :: "ty \<Rightarrow> string checked" where
  "get_access_size_str t =
     (case get_access_size t of Some s \<Rightarrow> Inr (u32_to_string s) | None \<Rightarrow> Inl ''Unsupported access size type!'')"

definition ends_with :: "string \<Rightarrow> string \<Rightarrow> bool" where
  "ends_with a suffix =
     (if length a < length suffix then False else drop (length a - length suffix) a = suffix)"

definition valid_int_bitwidth :: "nat \<Rightarrow> bool" where
  "valid_int_bitwidth w \<longleftrightarrow> w \<in> {1, 8, 16, 32, 64}"

definition raise_if :: "bool \<Rightarrow> string \<Rightarrow> unit checked" where
  "raise_if cond msg = (if cond then Inl msg else Inr ())"

lemma raise_if_Inr [result_iff]: "raise_if c msg = Inr u \<longleftrightarrow> \<not> c"
  by (simp add: raise_if_def)

definition check_register_type :: "inst \<Rightarrow> unit checked" where
  "check_register_type I =
     rbind (raise_if (iname I = []) ''the instruction does not have a name'') (\<lambda>_.
     rbind (raise_if (\<not> is_int_ty (ity I) \<and> \<not> is_ptr_ty (ity I)) ''unknown register type'') (\<lambda>_.
       let name = iname I; bw = (case ity I of TInt w \<Rightarrow> w | _ \<Rightarrow> 64) in
       if ends_with name ''after_trunc__'' \<or> ends_with name ''before_zext__''
       then raise_if (\<not> valid_int_bitwidth bw \<or> bw = 64) ''register should be non-64 bits''
       else if ends_with name ''to_i1__'' then raise_if (bw \<noteq> 1) ''register is not i1''
       else raise_if (bw \<noteq> 64) ''register is not 64 bits''))"

text \<open>\<open>regex_match(name.c_str(), m, re)\<close> for a pattern with one group of digits between two
  fixed texts, and the group.\<close>

definition c_str :: "string \<Rightarrow> string" where
  "c_str s = takeWhile (\<lambda>c. of_char c \<noteq> (0 :: nat)) s"

definition match_number :: "string \<Rightarrow> string \<Rightarrow> string \<Rightarrow> string option" where
  "match_number pre post name =
     (let s = c_str name in
      if regex_match s (seq [lit pre, plus (Chr is_digit), lit post]) \<and> length s = length name
      then Some (take (length s - length pre - length post) (drop (length pre) s)) else None)"

text \<open>The number of a register or argument; \<open>stoi\<close> throws when it does not fit.\<close>

definition register_number :: "string \<Rightarrow> string \<Rightarrow> int checked" where
  "register_number digits msg =
     (case stoi digits of
        None \<Rightarrow> Inl ''std::out_of_range''
      | Some regid \<Rightarrow> if regid \<le> 0 \<or> 16 < regid then Inl msg else Inr regid)"

definition get_register_name_from_argument :: "string \<Rightarrow> string checked" where
  "get_register_name_from_argument name =
     (let msg = ''incorrect argument name'' in
      rbind (raise_if (name = []) msg) (\<lambda>_.
      case match_number ''__arg'' ''__'' name of
        None \<Rightarrow> Inl msg
      | Some d \<Rightarrow> rbind (register_number d msg) (\<lambda>regid. Inr (''arg'' @ int_to_string regid))))"

definition strip_trailing_digits :: "string \<Rightarrow> string" where
  "strip_trailing_digits name = take (length name - length (takeWhile is_digit (rev name))) name"

definition strip_suffix :: "string \<Rightarrow> string \<Rightarrow> string" where
  "strip_suffix suffix name = take (length name - length suffix) name"

definition leave_assembly_register_name_only :: "string \<Rightarrow> bool \<Rightarrow> string" where
  "leave_assembly_register_name_only name stripCasts =
     (let name = strip_trailing_digits name in
      if \<not> stripCasts then name
      else if ends_with name ''after_trunc__'' then strip_suffix ''after_trunc__'' name
      else if ends_with name ''before_zext__'' then strip_suffix ''before_zext__'' name
      else if ends_with name ''to_i1__'' then strip_suffix ''to_i1__'' name
      else name)"

definition should_be_mapped :: "inst \<Rightarrow> bool" where
  "should_be_mapped I =
     (match_number ''__r'' ''__'' (leave_assembly_register_name_only (iname I) True) \<noteq> None)"

definition get_register_name_from_instruction :: "inst \<Rightarrow> bool \<Rightarrow> string checked" where
  "get_register_name_from_instruction I stripCasts =
     (let msg = ''incorrect instruction name'' in
      rbind (raise_if (iname I = []) msg) (\<lambda>_.
      case match_number ''__r'' ''__'' (leave_assembly_register_name_only (iname I) stripCasts) of
        None \<Rightarrow> Inl msg
      | Some d \<Rightarrow> rbind (register_number d msg) (\<lambda>regid. Inr (''r'' @ int_to_string regid))))"

subsection \<open>State\<close>

record emitter =
  em_body :: "string list"           \<comment> \<open>\<open>FnBody\<close>\<close>
  em_offset :: "nat \<Rightarrow> u32 option"   \<comment> \<open>\<open>AllocaStackOffset\<close>, by the number of the instruction\<close>
  em_used :: u32                     \<comment> \<open>\<open>UsedStackSize\<close>\<close>
  em_ref_spilled :: bool
  em_sp :: string                    \<comment> \<open>\<open>CurrentSP\<close>\<close>

definition add_alloca :: "inst \<Rightarrow> ty \<Rightarrow> emitter \<Rightarrow> emitter checked" where
  "add_alloca I t e =
     check_that (em_offset e (iid I) = None) ''!AllocaStackOffset.count(I)''
       (case get_access_size t of
          None \<Rightarrow> Inl ''Unsupported access size type!''
        | Some sz \<Rightarrow> Inr (e\<lparr>em_offset := (em_offset e)(iid I \<mapsto> em_used e),
                          em_used := em_used e + (sz + 7) div 8 * 8\<rparr>))"

definition get_stack_offset :: "inst \<Rightarrow> emitter \<Rightarrow> u32 checked" where
  "get_stack_offset I e =
     (case em_offset e (iid I) of Some ofs \<Rightarrow> Inr ofs | None \<Rightarrow> Inl ''Itr != AllocaStackOffset.end()'')"

definition assembly_body :: "string \<Rightarrow> string list \<Rightarrow> string" where
  "assembly_body cmd ops = cmd @ concat (map (\<lambda>p. '' '' @ p) ops)"

definition emit_line :: "string \<Rightarrow> emitter \<Rightarrow> emitter" where
  "emit_line l e = e\<lparr>em_body := em_body e @ [l]\<rparr>"

definition emit_assign :: "string \<Rightarrow> string \<Rightarrow> string list \<Rightarrow> emitter \<Rightarrow> emitter" where
  "emit_assign dest cmd ops = emit_line (dest @ '' = '' @ assembly_body cmd ops)"

definition emit_cmd :: "string \<Rightarrow> string list \<Rightarrow> emitter \<Rightarrow> emitter" where
  "emit_cmd cmd ops = emit_line (assembly_body cmd ops)"

definition emit_copy :: "string \<Rightarrow> string \<Rightarrow> emitter \<Rightarrow> emitter" where
  "emit_copy dest v e = (if dest \<noteq> v then emit_assign dest ''mul'' [v, ''1'', ''64''] e else e)"

definition emit_basic_block_start :: "string \<Rightarrow> emitter \<Rightarrow> emitter" where
  "emit_basic_block_start name = emit_line (name @ '':'')"

text \<open>\<open>getOperand\<close>: the text of a register or constant with \<open>-1\<close>, or the offset of a stack slot.\<close>

fun get_operand :: "emitter \<Rightarrow> val_ir \<Rightarrow> bool \<Rightarrow> (string \<times> int) checked" where
  "get_operand e (VArg name t) noslot =
     rbind (raise_if (\<not> (t = TInt 64 \<or> is_ptr_ty t)) ''unknown argument type'') (\<lambda>_.
     rbind (get_register_name_from_argument name) (\<lambda>s. Inr (s, - 1)))"
| "get_operand e (VInt w c) noslot = Inr (u64_to_string c, - 1)"
| "get_operand e (VNull t) noslot = Inr (''0'', - 1)"
| "get_operand e (VUndef t) noslot = Inr (''r1'', - 1)"
| "get_operand e (VConstExpr c vs t) noslot =
     (case c of
        CIntToPtr \<Rightarrow> (case vs of VInt w k # _ \<Rightarrow> Inr (u64_to_string k, - 1) | _ \<Rightarrow> Inl ''Unknown inttoptr form'')
      | _ \<Rightarrow> Inl ''Unknown constantexpr'')"
| "get_operand e (VInst (Inst n op nm t vs)) noslot =
     (let I = Inst n op nm t vs in
      if op = OpTrunc
      then (case vs of v # _ \<Rightarrow> get_operand e v noslot | [] \<Rightarrow> Inl ''malformed trunc'')
      else if should_be_mapped I
      then rbind (check_register_type I) (\<lambda>_.
           rbind (get_register_name_from_instruction I True) (\<lambda>s. Inr (s, - 1)))
      else case op of
        OpAlloca a \<Rightarrow>
          rbind (raise_if noslot ''alloca cannot come here'') (\<lambda>_.
          rbind (raise_if (nm = []) ''alloca does not have name!'') (\<lambda>_.
          rbind (get_stack_offset I e) (\<lambda>ofs. Inr ([], sint ofs))))
      | _ \<Rightarrow> Inl ''Unknown instruction type!'')"
| "get_operand e (VGlobal g t) noslot = Inl ''Unknown value type!''"

text \<open>\<open>getOperand(V).first\<close>\<close>

definition operand_text :: "emitter \<Rightarrow> val_ir \<Rightarrow> string checked" where
  "operand_text e v = rbind (get_operand e v True) (\<lambda>p. Inr (fst p))"

subsection \<open>Instructions\<close>

definition visit_alloca :: "inst \<Rightarrow> ty \<Rightarrow> emitter \<Rightarrow> emitter checked" where
  "visit_alloca I t e =
     (if ends_with (iname I) ''_garbage'' then Inr e
      else rbind (add_alloca I t e) (\<lambda>e.
        if should_be_mapped I
        then rbind (get_stack_offset I e) (\<lambda>ofs.
             rbind (get_register_name_from_instruction I False) (\<lambda>dest.
               Inr (emit_assign dest ''add'' [em_sp e, u32_to_string ofs, ''64''] e)))
        else Inr e))"

definition visit_load :: "inst \<Rightarrow> val_ir \<Rightarrow> emitter \<Rightarrow> emitter checked" where
  "visit_load I p e =
     rbind (get_operand e p False) (\<lambda>(ptr, ofs).
     rbind (get_register_name_from_instruction I True) (\<lambda>dest.
     rbind (get_access_size_str (ity I)) (\<lambda>sz.
       Inr (if ofs \<noteq> - 1 then emit_assign dest ''load'' [sz, em_sp e, int_to_string ofs] e
            else emit_assign dest ''load'' [sz, ptr, ''0''] e))))"

definition visit_store :: "val_ir \<Rightarrow> val_ir \<Rightarrow> emitter \<Rightarrow> emitter checked" where
  "visit_store v p e =
     rbind (operand_text e v) (\<lambda>val.
     rbind (get_operand e p False) (\<lambda>(ptr, ofs).
     rbind (get_access_size_str (val_ty v)) (\<lambda>sz.
       Inr (if ofs \<noteq> - 1 then emit_cmd ''store'' [sz, val, em_sp e, int_to_string ofs] e
            else emit_cmd ''store'' [sz, val, ptr, ''0''] e))))"

fun bop_cmd :: "bop_kind \<Rightarrow> string checked" where
  "bop_cmd Udiv = Inr ''udiv''" | "bop_cmd Sdiv = Inr ''sdiv''" | "bop_cmd Urem = Inr ''urem''"
| "bop_cmd Srem = Inr ''srem''" | "bop_cmd Mul = Inr ''mul''" | "bop_cmd Shl = Inr ''shl''"
| "bop_cmd Ashr = Inr ''ashr''" | "bop_cmd Lshr = Inr ''lshr''" | "bop_cmd And = Inr ''and''"
| "bop_cmd Or = Inr ''or''" | "bop_cmd Xor = Inr ''xor''" | "bop_cmd Add = Inr ''add''"
| "bop_cmd Sub = Inr ''sub''"
| "bop_cmd _ = Inl ''Unsupported Instruction''"

definition int_width :: "ty \<Rightarrow> nat checked" where
  "int_width t = (case t of TInt w \<Rightarrow> Inr w | _ \<Rightarrow> Inl ''not an integer type'')"

definition visit_binary_operator :: "inst \<Rightarrow> bop_kind \<Rightarrow> val_ir \<Rightarrow> val_ir \<Rightarrow> emitter \<Rightarrow> emitter checked" where
  "visit_binary_operator I k a b e =
     rbind (operand_text e a) (\<lambda>op1.
     rbind (operand_text e b) (\<lambda>op2.
     rbind (get_register_name_from_instruction I True) (\<lambda>dest.
     rbind (int_width (ity I)) (\<lambda>w.
     rbind (bop_cmd k) (\<lambda>cmd.
       Inr (emit_assign dest cmd [op1, op2, nat_to_string w] e))))))"

text \<open>\<open>ICmpInst::getPredicateName\<close>\<close>

fun predicate_name :: "bop_kind \<Rightarrow> string" where
  "predicate_name Eq = ''eq''" | "predicate_name Ne = ''ne''" | "predicate_name Ugt = ''ugt''"
| "predicate_name Uge = ''uge''" | "predicate_name Ult = ''ult''" | "predicate_name Ule = ''ule''"
| "predicate_name Sgt = ''sgt''" | "predicate_name Sge = ''sge''" | "predicate_name Slt = ''slt''"
| "predicate_name Sle = ''sle''"
| "predicate_name _ = ''unknown''"

definition visit_icmp :: "inst \<Rightarrow> bop_kind \<Rightarrow> val_ir \<Rightarrow> val_ir \<Rightarrow> emitter \<Rightarrow> emitter checked" where
  "visit_icmp I k a b e =
     (if ends_with (strip_trailing_digits (iname I)) ''to_i1__'' then Inr e
      else rbind (operand_text e a) (\<lambda>op1.
           rbind (operand_text e b) (\<lambda>op2.
           rbind (get_register_name_from_instruction I True) (\<lambda>dest.
           rbind (if is_ptr_ty (val_ty a) then Inr 64 else int_width (val_ty a)) (\<lambda>w.
             Inr (emit_assign dest ''icmp'' [predicate_name k, op1, op2, nat_to_string w] e))))))"

definition visit_select :: "inst \<Rightarrow> val_ir \<Rightarrow> val_ir \<Rightarrow> val_ir \<Rightarrow> emitter \<Rightarrow> emitter checked" where
  "visit_select I a b c e =
     rbind (operand_text e a) (\<lambda>op1.
     rbind (operand_text e b) (\<lambda>op2.
     rbind (operand_text e c) (\<lambda>op3.
     rbind (get_register_name_from_instruction I False) (\<lambda>dest.
       Inr (emit_assign dest ''select'' [op1, op2, op3] e)))))"

definition visit_gep :: "inst \<Rightarrow> val_ir list \<Rightarrow> emitter \<Rightarrow> emitter checked" where
  "visit_gep I vs e =
     (case vs of
        [p, i] \<Rightarrow>
          (case val_ty p of
             TPtr (TInt w) \<Rightarrow>
               rbind (raise_if (w \<noteq> 8) ''Unsupported pointer type'') (\<lambda>_.
               rbind (operand_text e p) (\<lambda>op1.
               rbind (operand_text e i) (\<lambda>op2.
               rbind (get_register_name_from_instruction I False) (\<lambda>dest.
                 Inr (emit_assign dest ''add'' [op1, op2, ''64''] e)))))
           | _ \<Rightarrow> Inl ''Unsupported pointer type'')
      | _ \<Rightarrow> Inl ''Too many indices'')"

definition visit_zext :: "inst \<Rightarrow> emitter \<Rightarrow> emitter checked" where
  "visit_zext I e = rbind (get_register_name_from_instruction I False) (\<lambda>_. Inr e)"

definition visit_trunc :: "val_ir \<Rightarrow> emitter \<Rightarrow> emitter checked" where
  "visit_trunc v e =
     (case v of VInst I \<Rightarrow> rbind (get_register_name_from_instruction I False) (\<lambda>_. Inr e) | _ \<Rightarrow> Inr e)"

text \<open>\<open>visitBitCastInst\<close>, \<open>visitPtrToIntInst\<close> and \<open>visitIntToPtrInst\<close> have the same body.\<close>

definition visit_cast :: "inst \<Rightarrow> val_ir \<Rightarrow> emitter \<Rightarrow> emitter checked" where
  "visit_cast I v e =
     rbind (operand_text e v) (\<lambda>op1.
     rbind (get_register_name_from_instruction I False) (\<lambda>dest. Inr (emit_copy dest op1 e)))"

fun operand_texts :: "emitter \<Rightarrow> val_ir list \<Rightarrow> string list checked" where
  "operand_texts e [] = Inr []"
| "operand_texts e (v # vs) = rbind (operand_text e v) (\<lambda>s. rbind (operand_texts e vs) (\<lambda>ss. Inr (s # ss)))"

definition first_arg :: "emitter \<Rightarrow> val_ir list \<Rightarrow> string checked" where
  "first_arg e vs = (case vs of [] \<Rightarrow> Inl ''no argument'' | v # _ \<Rightarrow> operand_text e v)"

text \<open>The ordinary case of \<open>visitCallInst\<close>, from the construction of \<open>Args\<close> on.\<close>

definition emit_call :: "inst \<Rightarrow> string \<Rightarrow> val_ir list \<Rightarrow> emitter \<Rightarrow> emitter checked" where
  "emit_call I f vs e =
     (let mf = (f = ''malloc'' \<or> f = ''free''); cmd = (if mf then f else ''call'') in
      rbind (operand_texts e vs) (\<lambda>ops.
      let args = (if mf then ops else f # ops);
          e = (if em_ref_spilled e
               then emit_assign ''sp'' ''sub'' [''sp'', ''8'', ''64''] (emit_cmd '';'' [''spill ref sp - step 2''] e)
               else e)
      in rbind (if iname I \<noteq> []
                then rbind (get_register_name_from_instruction I False) (\<lambda>dest. Inr (emit_assign dest cmd args e))
                else Inr (emit_cmd cmd args e)) (\<lambda>e.
         Inr (if em_ref_spilled e
              then (emit_assign ''sp'' ''add'' [''sp'', ''8'', ''64'']
                     (emit_assign RefSP ''load'' [''8'', ''sp'', ''0'']
                       (emit_cmd '';'' [''spill ref sp - step 3''] e)))\<lparr>em_ref_spilled := False\<rparr>
              else e))))"

definition visit_call :: "inst \<Rightarrow> string \<Rightarrow> val_ir list \<Rightarrow> emitter \<Rightarrow> emitter checked" where
  "visit_call I f vs e =
     (if f = SetRefName
      then check_that (em_sp e = ''sp'') ''set_ref will be called only once.''
        (Inr ((emit_copy RefSP ''sp'' (emit_cmd '';'' [''set ref sp''] e))\<lparr>em_sp := RefSP\<rparr>))
      else if f = SpillRefName
      then check_that (em_sp e = RefSP) ''spill_ref should be called after set_ref.''
        (check_that (\<not> em_ref_spilled e) ''the reference sp is already spilled.''
          (Inr ((emit_assign ''sp'' ''add'' [''sp'', ''8'', ''64'']
                  (emit_cmd ''store'' [''8'', RefSP, ''sp'', ''0'']
                    (emit_assign ''sp'' ''sub'' [''sp'', ''8'', ''64'']
                      (emit_cmd '';'' [''spill ref sp - step 1''] e))))\<lparr>em_ref_spilled := True\<rparr>)))
      else if f = AllocaBytesName
      then (if iname I \<noteq> []
            then rbind (get_register_name_from_instruction I False) (\<lambda>dest.
                 rbind (first_arg e vs) (\<lambda>size.
                   Inr (emit_copy dest ''sp'' (emit_assign ''sp'' ''sub'' [''sp'', size, ''64'']
                     (emit_cmd '';'' [AllocaBytesName, size] e)))))
            else Inr e)
      else if f = ResetStackName then Inr (emit_cmd ''reset'' [''stack''] e)
      else if f = ResetHeapName then Inr (emit_cmd ''reset'' [''heap''] e)
      else if f = FreeBytesName
      then rbind (first_arg e vs) (\<lambda>size.
             Inr (emit_assign ''sp'' ''add'' [''sp'', size, ''64''] (emit_cmd '';'' [FreeBytesName, size] e)))
      else if f = GetSPName
      then rbind (get_register_name_from_instruction I False) (\<lambda>dest.
             Inr (emit_copy dest ''sp'' (emit_cmd '';'' [GetSPName] e)))
      else emit_call I f vs e)"

definition visit_return :: "val_ir list \<Rightarrow> emitter \<Rightarrow> emitter checked" where
  "visit_return vs e =
     (case vs of
        [] \<Rightarrow> Inl ''ret should have value''
      | v # _ \<Rightarrow> rbind (operand_text e v) (\<lambda>s. Inr (emit_cmd ''ret'' [s] e)))"

definition branch_condition :: "emitter \<Rightarrow> val_ir \<Rightarrow> string checked" where
  "branch_condition e c =
     (let msg = ''Branch condition should be icmp ne'' in
      case c of
        VInst I \<Rightarrow>
          (case (iop I, iops I) of
             (OpICmp k, a # b # _) \<Rightarrow>
               if k \<noteq> Ne then Inl msg
               else (case b of VInt w z \<Rightarrow> if z \<noteq> 0 then Inl msg else operand_text e a | _ \<Rightarrow> Inl msg)
           | _ \<Rightarrow> Inl msg)
      | VArg _ _ \<Rightarrow> Inl msg
      | _ \<Rightarrow> operand_text e c)"

definition visit_branch :: "string list \<Rightarrow> val_ir list \<Rightarrow> emitter \<Rightarrow> emitter checked" where
  "visit_branch succs vs e =
     (case succs of
        [bb] \<Rightarrow> Inr (emit_cmd ''br'' [bb] e)
      | [t, f] \<Rightarrow>
          (case vs of
             c # _ \<Rightarrow> rbind (branch_condition e c) (\<lambda>cond. Inr (emit_cmd ''br'' [cond, t, f] e))
           | _ \<Rightarrow> Inl ''malformed branch'')
      | _ \<Rightarrow> Inl ''malformed branch'')"

definition visit_switch :: "(u64 \<times> string) list \<Rightarrow> string \<Rightarrow> val_ir list \<Rightarrow> emitter \<Rightarrow> emitter checked" where
  "visit_switch cases dflt vs e =
     (case vs of
        c # _ \<Rightarrow> rbind (operand_text e c) (\<lambda>cond.
          Inr (emit_cmd ''switch'' ([cond] @ concat (map (\<lambda>(v, bb). [u64_to_string v, bb]) cases) @ [dflt]) e))
      | _ \<Rightarrow> Inl ''malformed switch'')"

text \<open>The dispatch of \<open>InstVisitor\<close>; what no visit function handles is unsupported.\<close>

fun visit_inst :: "inst \<Rightarrow> emitter \<Rightarrow> emitter checked" where
  "visit_inst (Inst n op nm t vs) e =
     (let I = Inst n op nm t vs; bad = Inl ''Unsupported Instruction'' in
      case op of
        OpAlloca a \<Rightarrow> visit_alloca I a e
      | OpLoad \<Rightarrow> (case vs of p # _ \<Rightarrow> visit_load I p e | _ \<Rightarrow> bad)
      | OpStore \<Rightarrow> (case vs of v # p # _ \<Rightarrow> visit_store v p e | _ \<Rightarrow> bad)
      | OpBin k \<Rightarrow> (case vs of a # b # _ \<Rightarrow> visit_binary_operator I k a b e | _ \<Rightarrow> bad)
      | OpICmp k \<Rightarrow> (case vs of a # b # _ \<Rightarrow> visit_icmp I k a b e | _ \<Rightarrow> bad)
      | OpSelect \<Rightarrow> (case vs of a # b # c # _ \<Rightarrow> visit_select I a b c e | _ \<Rightarrow> bad)
      | OpGEP \<Rightarrow> visit_gep I vs e
      | OpZExt \<Rightarrow> visit_zext I e
      | OpTrunc \<Rightarrow> (case vs of v # _ \<Rightarrow> visit_trunc v e | _ \<Rightarrow> bad)
      | OpBitCast \<Rightarrow> (case vs of v # _ \<Rightarrow> visit_cast I v e | _ \<Rightarrow> bad)
      | OpPtrToInt \<Rightarrow> (case vs of v # _ \<Rightarrow> visit_cast I v e | _ \<Rightarrow> bad)
      | OpIntToPtr \<Rightarrow> (case vs of v # _ \<Rightarrow> visit_cast I v e | _ \<Rightarrow> bad)
      | OpCall f \<Rightarrow> visit_call I f vs e
      | OpRet \<Rightarrow> visit_return vs e
      | OpBr succs \<Rightarrow> visit_branch succs vs e
      | OpSwitch cases d \<Rightarrow> visit_switch cases d vs e
      | OpSExt \<Rightarrow> bad | OpPhi \<Rightarrow> bad | OpUnreachable \<Rightarrow> bad | OpOther \<Rightarrow> bad)"

fun visit_insts :: "inst list \<Rightarrow> emitter \<Rightarrow> emitter checked" where
  "visit_insts [] e = Inr e"
| "visit_insts (I # Is) e = rbind (visit_inst I e) (visit_insts Is)"

definition visit_basic_block :: "ir_block \<Rightarrow> emitter \<Rightarrow> emitter checked" where
  "visit_basic_block bb e =
     rbind (raise_if (fst bb = []) ''This basic block does not have name: '') (\<lambda>_.
       visit_insts (snd bb) (emit_basic_block_start (fst bb) e))"

fun visit_basic_blocks :: "ir_block list \<Rightarrow> emitter \<Rightarrow> emitter checked" where
  "visit_basic_blocks [] e = Inr e"
| "visit_basic_blocks (bb # bbs) e = rbind (visit_basic_block bb e) (visit_basic_blocks bbs)"

text \<open>\<open>visitFunction\<close> resets the state.\<close>

definition visit_function_start :: emitter where
  "visit_function_start = \<lparr> em_body = [], em_offset = Map.empty, em_used = 0, em_ref_spilled = False, em_sp = ''sp'' \<rparr>"

definition visit_function :: "ir_function \<Rightarrow> emitter checked" where
  "visit_function F = visit_basic_blocks (fn_ir_blocks F) visit_function_start"

subsection \<open>Functions\<close>

definition is_declaration :: "ir_function \<Rightarrow> bool" where
  "is_declaration F \<longleftrightarrow> fn_ir_blocks F = []"

definition atoi :: "string \<Rightarrow> u32" where
  "atoi s = (case stoi s of Some i \<Rightarrow> word_of_int i | None \<Rightarrow> 0)"

definition gv_stack_usage :: "ir_function list \<Rightarrow> u32" where
  "gv_stack_usage M = foldl (\<lambda>u F.
     if is_declaration F \<and> take 19 (fn_ir_name F) = ''__set_global_stack_''
     then atoi (drop 19 (fn_ir_name F)) else u) 0 M"

definition body_line :: "string \<Rightarrow> string list" where
  "body_line l = (if hd l = CHR ''.'' then [[], ''  '' @ l] else [''    '' @ l])"

definition function_text :: "ir_function \<Rightarrow> emitter \<Rightarrow> string list" where
  "function_text F e =
     [[], ''; Function '' @ fn_ir_name F,
      ''start '' @ fn_ir_name F @ '' '' @ nat_to_string (length (fn_ir_args F)) @ '':'',
      ''  '' @ hd (em_body e)]
     @ (if 0 < em_used e then [''    ; init sp!'', ''    sp = sub sp '' @ u32_to_string (em_used e) @ '' 64''] else [])
     @ concat (map body_line (tl (em_body e)))
     @ [''end '' @ fn_ir_name F]"

text \<open>One turn of the loop over functions, with \<open>TotalStackUsage\<close>; the result are the lines written.\<close>

definition run_function :: "u32 \<Rightarrow> ir_function \<Rightarrow> u32 \<Rightarrow> (u32 \<times> string list) checked" where
  "run_function gv F usage =
     (if is_declaration F \<or> fn_ir_name F = GetSPName then Inr (usage, [])
      else rbind (visit_function F) (\<lambda>e.
        let e = (if fn_ir_name F = ''main'' then e\<lparr>em_used := em_used e + gv\<rparr> else e) in
        check_that (0 < length (em_body e)) ''Em.FnBody.size() > 0''
        (rbind (raise_if (10240 \<le> em_used e) ''Stack usage is larger than STACK_MAX!'') (\<lambda>_.
          let usage = usage + em_used e in
          rbind (raise_if (10240 \<le> usage) ''Stack usage is larger than STACK_MAX!'') (\<lambda>_.
          check_that (\<forall>l \<in> set (tl (em_body e)). l \<noteq> []) ''Em.FnBody[i].size() > 0''
            (Inr (usage, function_text F e)))))))"

fun run_functions :: "u32 \<Rightarrow> ir_function list \<Rightarrow> u32 \<Rightarrow> string list checked" where
  "run_functions gv [] usage = Inr []"
| "run_functions gv (F # Fs) usage =
     rbind (run_function gv F usage) (\<lambda>(usage, ls).
     rbind (run_functions gv Fs usage) (\<lambda>ls'. Inr (ls @ ls')))"

definition emitter_run :: "ir_function list \<Rightarrow> string list checked" where
  "emitter_run M = run_functions (gv_stack_usage M) M 0"

end
