(* ===== verification/Parser_Layout.thy ===== *)
theory Parser_Layout
  imports Roundtrip_Program
begin

text \<open>
  What the parser makes of the layout of a text: indentation, blank lines and comments change
  only the line numbers of statements.
\<close>

subsection \<open>Indentation\<close>

definition solid_start :: "rexp \<Rightarrow> bool" where
  "solid_start r \<longleftrightarrow> (\<forall>x \<in> lang r. x = [] \<or> \<not> is_space (hd x))"

lemma spaced_indent:
  assumes "solid_start r" "is_space c"
  shows "regex_match (c # s) (spaced r) = regex_match s (spaced r)"
  unfolding regex_match_iff
proof
  assume "s \<in> lang (spaced r)"
  then obtain a x b where s: "s = a @ x @ b" "x \<in> lang r" "\<forall>c \<in> set a. is_space c" "\<forall>c \<in> set b. is_space c"
    by (auto simp: lang_spaced)
  then have "c # s = (c # a) @ x @ b" "\<forall>d \<in> set (c # a). is_space d" using assms(2) by auto
  with s(2,4) show "c # s \<in> lang (spaced r)" unfolding lang_spaced by blast
next
  assume "c # s \<in> lang (spaced r)"
  then obtain a x b where s: "c # s = a @ x @ b" "x \<in> lang r" "\<forall>c \<in> set a. is_space c" "\<forall>c \<in> set b. is_space c"
    by (auto simp: lang_spaced)
  consider (a) a' where "a = c # a'" "s = a' @ x @ b" | (b) b' where "a = []" "x = []" "b = c # b'" "s = b'"
    | (x) x' where "a = []" "x = c # x'"
    using s(1) by (cases a; cases x) (auto simp: Cons_eq_append_conv)
  then show "s \<in> lang (spaced r)"
  proof cases
    case a
    with s show ?thesis unfolding lang_spaced by (metis insert_iff list.set(2))
  next
    case b
    with s have "s = [] @ x @ b'" "\<forall>c \<in> set b'. is_space c" by auto
    with s(2) show ?thesis unfolding lang_spaced by (metis empty_iff list.set(1))
  next
    case x
    with s(2) assms show ?thesis by (auto simp: solid_start_def)
  qed
qed

text \<open>None of the patterns starts with white space after its own \<open>tESpace\<close>.\<close>

fun startless :: "rexp \<Rightarrow> bool" where
  "startless Never = True"
| "startless Eps = True"
| "startless (Chr P) = (\<forall>c. P c \<longrightarrow> \<not> is_space c)"
| "startless (Alt r s) = (startless r \<and> startless s)"
| "startless (Cat r s) = (startless r \<and> (nullable r \<longrightarrow> startless s))"
| "startless (Rep r) = startless r"

lemma solid_reps:
  "\<lbrakk> x \<in> reps L; \<forall>y \<in> L. y = [] \<or> \<not> is_space (hd y) \<rbrakk> \<Longrightarrow> x = [] \<or> \<not> is_space (hd x)"
  by (induction rule: reps.induct) (auto simp: hd_append)

lemma solid_lang: "startless r \<Longrightarrow> \<forall>x \<in> lang r. x = [] \<or> \<not> is_space (hd x)"
proof (induction r)
  case (Cat r s)
  show ?case
  proof
    fix z assume "z \<in> lang (Cat r s)"
    then obtain x y where z: "z = x @ y" "x \<in> lang r" "y \<in> lang s" by auto
    show "z = [] \<or> \<not> is_space (hd z)"
    proof (cases "x = []")
      case True
      then have "startless s" using z(2) Cat.prems by (simp add: nullable_iff)
      with True z Cat.IH(2) show ?thesis by simp
    next
      case False
      with z Cat show ?thesis by (auto simp: hd_append)
    qed
  qed
next
  case (Rep r)
  then show ?case using solid_reps by auto
qed auto

lemma solid_start: "startless r \<Longrightarrow> solid_start r"
  using solid_lang by (simp add: solid_start_def)

lemmas pattern_defs = rStartFunction_def rEndFunction_def rBBStart_def rMalloc_def rFree_def rLoad_def
  rStore_def rResetStack_def rResetHeap_def rRet_def rRetVal_def rBrUncond_def rBrCond_def rSwitch_def
  rBop_def rIcmp_def rSelect_def rRead_def rWrite_def rCall_def rAssert_def rComment_def

lemmas first_defs = tStart_def tEnd_def tBBName_def tReg_def tFree_def tStore_def tRet_def tBr_def
  tSwitch_def rAssign_def tCall_def tAssert_def opt_def

lemma pattern_indent:
  assumes "is_space c"
  shows "\<forall>r \<in> {rStartFunction, rEndFunction, rBBStart, rMalloc, rFree, rLoad, rStore, rResetStack,
      rResetHeap, rRet, rRetVal, rBrUncond, rBrCond, rSwitch, rBop, rIcmp, rSelect, rRead, rWrite,
      rCall, rAssert, rComment}. regex_match (c # s) r = regex_match s r"
  unfolding pattern_defs
  by (simp add: spaced_indent [OF solid_start assms] first_defs lit_def seq_def is_space_def)

lemmas line_defs = parse_malloc_def parse_free_def parse_load_def parse_store_def parse_ret_def
  parse_br_uncond_def parse_br_cond_def parse_switch_def parse_bop_def parse_icmp_def parse_select_def
  parse_call_def parse_assert_def parse_read_def parse_write_def parse_start_function_def
  parse_end_function_def parse_bbname_def

lemma parse_stmt_indent:
  assumes "is_space c"
  shows "parse_normal_stmt n (c # s) = parse_normal_stmt n s"
    and "parse_terminator n (c # s) = parse_terminator n s"
  using pattern_indent [OF assms, of s] assms
  by (simp_all add: parse_normal_stmt_def parse_terminator_def line_defs)

lemma blank_indent: "is_space c \<Longrightarrow> blank_line (c # s) = blank_line s"
  using pattern_indent [of c s]
  by (simp add: blank_line_def regex_match_iff lang_tESpace)

lemma at_stmt_indent:
  assumes "is_space c"
  shows "at_start_bb n (c # s) p = at_start_bb n s p" and "at_normal n (c # s) p = at_normal n s p"
  unfolding at_start_bb_def at_normal_def parse_stmt_indent [OF assms] by (rule refl)+

lemma parse_line_indent: "is_space c \<Longrightarrow> parse_line n (c # s) p = parse_line n s p"
  using pattern_indent [of c s]
  by (cases "ps p")
    (simp_all add: parse_line_def blank_indent at_stmt_indent at_begin_def at_start_function_def
      at_end_bb_def at_end_function_def line_defs)

definition unindent :: "string \<Rightarrow> string" where
  "unindent s = dropWhile is_space s"

lemma parse_line_unindent: "parse_line n (unindent s) p = parse_line n s p"
  by (induction s) (simp_all add: unindent_def parse_line_indent)

lemma blank_unindent: "blank_line (unindent s) = blank_line s"
  by (induction s) (simp_all add: unindent_def blank_indent)

subsection \<open>Line numbers\<close>

definition erase_stmt :: "stmt \<Rightarrow> stmt" where
  "erase_stmt st = st\<lparr>get_line := 0\<rparr>"

definition erase_func :: "func \<Rightarrow> func" where
  "erase_func f = f\<lparr>bb_map := map_option (map erase_stmt) \<circ> bb_map f\<rparr>"

definition erase_program :: "program \<Rightarrow> program" where
  "erase_program P = map_option erase_func \<circ> P"

definition erase_parser :: "parser \<Rightarrow> parser" where
  "erase_parser p = p\<lparr>ps_program := erase_program (ps_program p)\<rparr>"

definition similar :: "parser \<Rightarrow> parser \<Rightarrow> bool" where
  "similar p q \<longleftrightarrow> erase_parser p = erase_parser q"

lemma erase_program_upd: "erase_program (P(k \<mapsto> f)) = (erase_program P)(k \<mapsto> erase_func f)"
  by (simp add: erase_program_def fun_eq_iff)

lemma erase_program_None: "erase_program P k = None \<longleftrightarrow> P k = None"
  by (simp add: erase_program_def)

lemma similar_fields:
  assumes "similar p q"
  shows "ps p = ps q" "ps_function p = ps_function q" "ps_bb p = ps_bb q"
    "erase_program (ps_program p) = erase_program (ps_program q)"
  using assms unfolding similar_def erase_parser_def by (cases p; cases q; simp)+

lemma similarI:
  "\<lbrakk> ps p = ps q; ps_function p = ps_function q; ps_bb p = ps_bb q;
     erase_program (ps_program p) = erase_program (ps_program q) \<rbrakk> \<Longrightarrow> similar p q"
  unfolding similar_def erase_parser_def by (cases p; cases q; simp)

lemma same_domain:
  assumes "erase_program P = erase_program Q"
  shows "(P k = None) = (Q k = None)"
  using fun_cong [OF assms, of k] by (cases "P k"; cases "Q k") (simp_all add: erase_program_def)

lemma similar_current:
  assumes "similar p q"
  shows "erase_func (curr_function p) = erase_func (curr_function q)"
proof -
  have "map_option erase_func (ps_program p (ps_function p)) = map_option erase_func (ps_program q (ps_function p))"
    using fun_cong [OF similar_fields(4) [OF assms], of "ps_function p"] by (simp add: erase_program_def)
  then show ?thesis
    unfolding curr_function_def similar_fields(2) [OF assms]
    by (cases "ps_program p (ps_function q)"; cases "ps_program q (ps_function q)")
      (simp_all add: similar_fields(2) [OF assms])
qed

lemma erase_func_fields:
  assumes "erase_func f = erase_func g"
  shows "fname f = fname g" "fn_nargs f = fn_nargs g" "first_bb f = first_bb g"
    "map_option (map erase_stmt) (bb_map f b) = map_option (map erase_stmt) (bb_map g b)"
    "(bb_map f b = None) = (bb_map g b = None)"
proof -
  have *: "map_option (map erase_stmt) (bb_map f b) = map_option (map erase_stmt) (bb_map g b)"
    using assms unfolding erase_func_def by (cases f; cases g) (auto simp: fun_eq_iff)
  then show "map_option (map erase_stmt) (bb_map f b) = map_option (map erase_stmt) (bb_map g b)" .
  from * show "(bb_map f b = None) = (bb_map g b = None)" by (metis option.map_disc_iff)
qed (use assms in \<open>cases f; cases g; simp add: erase_func_def\<close>)+

lemma erase_func_put:
  assumes "erase_func f = erase_func g" "map erase_stmt b = map erase_stmt b'"
  shows "erase_func (f\<lparr>bb_map := (bb_map f)(k \<mapsto> b)\<rparr>) = erase_func (g\<lparr>bb_map := (bb_map g)(k \<mapsto> b')\<rparr>)"
  using assms erase_func_fields [OF assms(1)] unfolding erase_func_def
  by (cases f; cases g) (auto simp: fun_eq_iff)

lemma erase_func_first:
  "erase_func f = erase_func g \<Longrightarrow> erase_func (set_first_bb bb f) = erase_func (set_first_bb bb g)"
  using erase_func_fields [of f g] unfolding erase_func_def set_first_bb_def
  by (cases f; cases g) (auto simp: fun_eq_iff)

lemma similar_put:
  assumes "similar p q" "erase_func f = erase_func g"
  shows "similar ((put_function f p)\<lparr>ps_bb := bb, ps := st\<rparr>) ((put_function g q)\<lparr>ps_bb := bb, ps := st\<rparr>)"
    and "similar ((put_function f p)\<lparr>ps := st\<rparr>) ((put_function g q)\<lparr>ps := st\<rparr>)"
  using assms similar_fields [OF assms(1)]
  by (auto intro!: similarI simp: put_function_def erase_program_upd)

text \<open>Two results that agree up to line numbers.\<close>

definition similar_result :: "parser result \<Rightarrow> parser result \<Rightarrow> bool" where
  "similar_result r r' \<longleftrightarrow> map_sum id erase_parser r = map_sum id erase_parser r'"

lemma similar_result_simps [simp]:
  "similar_result (Inl e) (Inl e') \<longleftrightarrow> e = e'"
  "similar_result (Inr p) (Inr q) \<longleftrightarrow> similar p q"
  "\<not> similar_result (Inl e) (Inr q)" "\<not> similar_result (Inr p) (Inl e)"
  by (simp_all add: similar_result_def similar_def)

definition similar_stmt :: "stmt option result \<Rightarrow> stmt option result \<Rightarrow> bool" where
  "similar_stmt r r' \<longleftrightarrow> map_sum id (map_option erase_stmt) r = map_sum id (map_option erase_stmt) r'"

lemma similar_stmt_make: "similar_stmt (make_stmt n r) (make_stmt m r)"
  by (cases r) (auto simp: similar_stmt_def make_stmt_def erase_stmt_def)

lemma similar_stmt_parse:
  "similar_stmt (parse_normal_stmt n s) (parse_normal_stmt m s)"
  "similar_stmt (parse_terminator n s) (parse_terminator m s)"
  using similar_stmt_make by (simp_all add: parse_normal_stmt_def parse_terminator_def similar_stmt_def [of "Inr None"])

lemma similar_stmtE:
  assumes "similar_stmt r r'"
  obtains (Inl) e where "r = Inl e" "r' = Inl e"
    | (None) "r = Inr None" "r' = Inr None"
    | (Some) st st' where "r = Inr (Some st)" "r' = Inr (Some st')" "erase_stmt st = erase_stmt st'"
  using assms unfolding similar_stmt_def
  by (cases r; cases r') (auto simp: map_option_case split: option.splits)

lemma similar_append:
  assumes "similar p q" "erase_stmt st = erase_stmt st'"
  shows "similar ((append_stmt st p)\<lparr>ps := x\<rparr>) ((append_stmt st' q)\<lparr>ps := x\<rparr>)"
proof -
  let ?f = "curr_function p" and ?g = "curr_function q"
  have e: "erase_func ?f = erase_func ?g" by (rule similar_current [OF assms(1)])
  have bb: "ps_bb p = ps_bb q" by (rule similar_fields(3) [OF assms(1)])
  have "map erase_stmt (the (bb_map ?f (ps_bb p))) = map erase_stmt (the (bb_map ?g (ps_bb p)))"
    using erase_func_fields(4) [OF e, of "ps_bb p"]
    by (cases "bb_map ?f (ps_bb p)"; cases "bb_map ?g (ps_bb p)") simp_all
  then have "erase_func (?f\<lparr>bb_map := (bb_map ?f)(ps_bb p \<mapsto> the (bb_map ?f (ps_bb p)) @ [st])\<rparr>) =
      erase_func (?g\<lparr>bb_map := (bb_map ?g)(ps_bb p \<mapsto> the (bb_map ?g (ps_bb p)) @ [st'])\<rparr>)"
    using assms(2) by (intro erase_func_put [OF e]) simp
  from similar_put(2) [OF assms(1) this] show ?thesis by (simp add: append_stmt_def Let_def bb)
qed

lemma similar_start_bb:
  assumes "similar p q"
  shows "similar_result (at_start_bb n s p) (at_start_bb m s q)"
proof -
  have e: "erase_func (curr_function p) = erase_func (curr_function q)" by (rule similar_current [OF assms])
  have bb: "ps_bb p = ps_bb q" by (rule similar_fields(3) [OF assms])
  have put: "erase_func (fst (set_bb (ps_bb p) [st] (curr_function p))) = erase_func (fst (set_bb (ps_bb q) [st'] (curr_function q)))"
    "snd (set_bb (ps_bb p) [st] (curr_function p)) = snd (set_bb (ps_bb q) [st'] (curr_function q))"
    if "erase_stmt st = erase_stmt st'" for st st'
    using that e erase_func_fields(5) [OF e, of "ps_bb q"] erase_func_put [OF e, of "[st]" "[st']" "ps_bb q"]
    by (auto simp: set_bb_def bb)
  show ?thesis
    using similar_stmt_parse(1) [of n s m]
  proof (cases rule: similar_stmtE)
    case (Some st st')
    then show ?thesis
      using put [of st st'] similar_put(2) [OF assms] by (auto simp: at_start_bb_def split: prod.splits)
  next
    case None
    show ?thesis
      using similar_stmt_parse(2) [of n s m] None put similar_put(2) [OF assms]
      by (cases rule: similar_stmtE) (auto simp: at_start_bb_def)
  qed (simp add: at_start_bb_def)
qed

lemma similar_normal:
  assumes "similar p q"
  shows "similar_result (at_normal n s p) (at_normal m s q)"
  using similar_stmt_parse(1) [of n s m]
proof (cases rule: similar_stmtE)
  case None
  show ?thesis
    using similar_stmt_parse(2) [of n s m] None similar_append [OF assms]
    by (cases rule: similar_stmtE) (auto simp: at_normal_def)
qed (use similar_append [OF assms] in \<open>auto simp: at_normal_def\<close>)

lemma similar_new_function:
  assumes "similar p q"
  shows "similar (p\<lparr>ps_program := fst (set_function nm f (ps_program p)), ps_function := g, ps := x\<rparr>)
      (q\<lparr>ps_program := fst (set_function nm f (ps_program q)), ps_function := g, ps := x\<rparr>)"
    and "snd (set_function nm f (ps_program p)) = snd (set_function nm f (ps_program q))"
  using assms similar_fields [OF assms] same_domain [OF similar_fields(4) [OF assms], of nm]
  by (auto simp: set_function_def erase_program_upd intro!: similarI)

lemma similar_line:
  assumes "similar p q"
  shows "similar_result (parse_line n s p) (parse_line m s q)"
proof -
  note f = similar_fields [OF assms] and new = similar_new_function [OF assms]
  have e: "erase_func (curr_function p) = erase_func (curr_function q)" by (rule similar_current [OF assms])
  have move: "similar (p\<lparr>ps := x\<rparr>) (q\<lparr>ps := x\<rparr>)" "similar (p\<lparr>ps_bb := b, ps := x\<rparr>) (q\<lparr>ps_bb := b, ps := x\<rparr>)" for b x
    using f by (auto intro!: similarI)
  have "similar_result (at_begin s p) (at_begin s q)"
    using new by (cases "parse_start_function s") (simp_all add: at_begin_def)
  moreover have "similar_result (at_start_function s p) (at_start_function s q)"
    using similar_put(1) [OF assms erase_func_first [OF e]] by (simp add: at_start_function_def Let_def)
  moreover have "similar_result (at_end_bb s p) (at_end_bb s q)"
    using move erase_func_fields(1) [OF e] by (simp add: at_end_bb_def)
  moreover have "similar_result (at_end_function s p) (at_end_function s q)"
    using new by (cases "parse_start_function s") (simp_all add: at_end_function_def)
  ultimately show ?thesis
    using similar_start_bb [OF assms, of n s m] similar_normal [OF assms, of n s m] assms f(1)
    by (cases "ps q") (simp_all add: parse_line_def)
qed

subsection \<open>Texts with the same lines\<close>

definition clean :: "string list \<Rightarrow> string list" where
  "clean ls = filter (\<lambda>l. \<not> blank_line l) (map unindent ls)"

definition lines_result :: "(int \<times> fault + int \<times> parser) \<Rightarrow> fault + parser" where
  "lines_result r = map_sum snd (erase_parser \<circ> snd) r"

lemma lines_result_step:
  assumes "similar_result (parse_line (n + 1) l p) (parse_line (m + 1) l' q)"
    and "\<And>p' q'. similar p' q' \<Longrightarrow>
      lines_result (parse_lines (n + 1) ls p') = lines_result (parse_lines (m + 1) ls' q')"
  shows "lines_result (parse_lines n (l # ls) p) = lines_result (parse_lines m (l' # ls') q)"
  using assms by (cases "parse_line (n + 1) l p"; cases "parse_line (m + 1) l' q")
    (auto simp: lines_result_def)

lemma parse_lines_clean:
  "similar p q \<Longrightarrow> lines_result (parse_lines n ls p) = lines_result (parse_lines m (clean ls) q)"
proof (induction ls arbitrary: n m p q)
  case Nil
  then show ?case by (simp add: clean_def lines_result_def similar_def)
next
  case (Cons l ls)
  show ?case
  proof (cases "blank_line l")
    case True
    then show ?thesis using Cons by (simp add: clean_def blank_unindent parse_line_def)
  next
    case False
    have "similar_result (parse_line (n + 1) l p) (parse_line (m + 1) (unindent l) q)"
      unfolding parse_line_unindent by (rule similar_line [OF Cons.prems])
    moreover have "clean (l # ls) = unindent l # clean ls"
      using False by (simp add: clean_def blank_unindent)
    ultimately show ?thesis using Cons.IH by (simp only:) (rule lines_result_step)
  qed
qed

definition parse_result :: "string \<Rightarrow> fault + program" where
  "parse_result s = map_sum snd erase_program (parse s)"

text \<open>What \<open>parse\<close> does with the state after the last line.\<close>

definition finish :: "parser \<Rightarrow> fault + program" where
  "finish p =
     (if ps p \<noteq> PSEndFunction then Inl (Syntax_error ''function not ended'')
      else case ps_program p ''main'' of
        None \<Rightarrow> Inl (Syntax_error ''missing main function'')
      | Some f \<Rightarrow> if fn_nargs f \<noteq> 0 then Inl (Syntax_error ''main function should take 0 arguments'')
                  else Inr (erase_program (ps_program p)))"

lemma erase_idem: "erase_stmt (erase_stmt st) = erase_stmt st" "erase_func (erase_func f) = erase_func f"
proof -
  have *: "erase_stmt \<circ> erase_stmt = erase_stmt" by (simp add: erase_stmt_def fun_eq_iff)
  then show "erase_stmt (erase_stmt st) = erase_stmt st" by (simp add: fun_eq_iff)
  show "erase_func (erase_func f) = erase_func f"
    using * unfolding erase_func_def by (cases f) (simp add: fun_eq_iff option.map_comp comp_def)
qed

lemma similar_erase: "similar p (erase_parser p)"
  by (cases p) (simp add: similar_def erase_parser_def erase_program_def fun_eq_iff option.map_comp comp_def erase_idem)

lemma finish_similar:
  assumes "similar p q"
  shows "finish p = finish q"
proof -
  note f = similar_fields [OF assms]
  show ?thesis
  proof (cases "ps_program p ''main''")
    case None
    then have "ps_program q ''main'' = None" using same_domain [OF f(4)] by blast
    with None f(1) show ?thesis by (simp add: finish_def)
  next
    case (Some h)
    then obtain g where g: "ps_program q ''main'' = Some g"
      using same_domain [OF f(4), of "''main''"] by (cases "ps_program q ''main''") simp_all
    have "erase_func h = erase_func g" using fun_cong [OF f(4), of "''main''"] Some g by (simp add: erase_program_def)
    then have "fn_nargs h = fn_nargs g" by (rule erase_func_fields(2))
    with Some g f show ?thesis by (simp add: finish_def)
  qed
qed

lemma parse_result_lines:
  "parse_result s = rbind (lines_result (parse_lines 0 (lines_of s) init_parser)) finish"
proof (cases "parse_lines 0 (lines_of s) init_parser")
  case (Inl r)
  then show ?thesis by (cases r) (simp add: parse_result_def parse_def lines_result_def)
next
  case (Inr r)
  obtain line p where r: "r = (line, p)" by (cases r)
  have "parse_result s = finish p"
    using Inr r by (cases "ps_program p ''main''") (simp_all add: parse_result_def parse_def finish_def get_function_def)
  also have "\<dots> = finish (erase_parser p)" by (rule finish_similar [OF similar_erase])
  finally show ?thesis using Inr r by (simp add: lines_result_def)
qed

lemma parse_result_clean:
  assumes "clean (lines_of s) = clean (lines_of t)"
  shows "parse_result s = parse_result t"
proof -
  have r: "similar p p" for p by (simp add: similar_def)
  have "lines_result (parse_lines 0 (lines_of s) init_parser) = lines_result (parse_lines 0 (lines_of t) init_parser)"
    using parse_lines_clean [OF r, of 0 "lines_of s" init_parser 0]
      parse_lines_clean [OF r, of 0 "lines_of t" init_parser 0] assms by simp
  then show ?thesis by (simp add: parse_result_lines)
qed

end
