(* ===== verification/Emitter_Props.thy ===== *)
theory Emitter_Props
  imports Emitter Parser_Layout
begin

text \<open>
  What the emitter writes, in the terms of the reader: every register name, operand and
  constant it prints is the printed form of a value of the interpreter, and every line is a
  comment or a printed statement.
\<close>

subsection \<open>Registers and constants\<close>

lemma unat_widen: "unat (ucast (w :: u32) :: u64) = unat w"
  by transfer (simp add: take_bit_take_bit min_def)

lemma sint_small:
  fixes w :: u32
  assumes "unat w < 2 ^ 31"
  shows "sint w = int (unat w)"
proof -
  have "int (unat w) < int (2 ^ 31)" using assms by (simp only: of_nat_less_iff)
  then have "uint w < 2 ^ 31" by simp
  moreover have "0 \<le> uint w" by simp
  ultimately have "signed_take_bit 31 (uint w) = uint w" by (intro signed_take_bit_int_eq_self) linarith+
  moreover have "sint w = signed_take_bit 31 (uint w)" by (simp add: sint_uint)
  ultimately show ?thesis by simp
qed

lemma u32_to_string_u64: "u32_to_string w = u64_to_string (ucast w)"
  by (simp add: u32_to_string_def u64_to_string_def unat_widen)

lemma int_to_string_sint:
  fixes w :: u32
  assumes "unat w < 2 ^ 31"
  shows "int_to_string (sint w) = u64_to_string (ucast w)" "sint w \<noteq> - 1"
proof -
  have "0 \<le> int (unat w)" "int (unat w) \<noteq> - 1" by linarith+
  then show "int_to_string (sint w) = u64_to_string (ucast w)" "sint w \<noteq> - 1"
    unfolding sint_small [OF assms] u64_to_string_def unat_widen int_to_string_def
    by (simp_all del: of_nat_unat)
qed

lemma register_number_Inr:
  assumes "register_number d msg = Inr i"
  obtains r where "r \<le> R16" "i = int (r + 1)"
proof -
  from assms have i: "1 \<le> i" "i \<le> 16" by (auto simp: register_number_def split: option.splits if_splits)
  show thesis by (rule that [of "nat i - 1"]) (use i in \<open>simp_all add: reg_numbers nat_le_iff\<close>)
qed

lemma instruction_name:
  assumes "get_register_name_from_instruction I b = Inr d"
  obtains r where "r \<le> R16" "d = show_reg r"
proof -
  from assms obtain n i where "register_number n ''incorrect instruction name'' = Inr i" "d = ''r'' @ int_to_string i"
    by (auto simp: get_register_name_from_instruction_def Let_def result_iff split: option.splits)
  moreover from register_number_Inr [OF this(1)] obtain r where "r \<le> R16" "i = int (r + 1)" .
  ultimately show thesis by (intro that [of r]) (simp_all add: show_reg_def int_to_string_def nat_add_distrib)
qed

lemma argument_name:
  assumes "get_register_name_from_argument a = Inr d"
  obtains r where "r \<le> RegSp" "d = show_reg r"
proof -
  from assms obtain n i where "register_number n ''incorrect argument name'' = Inr i" "d = ''arg'' @ int_to_string i"
    by (auto simp: get_register_name_from_argument_def Let_def result_iff split: option.splits)
  moreover from register_number_Inr [OF this(1)] obtain r where "r \<le> R16" "i = int (r + 1)" .
  ultimately show thesis
    by (intro that [of "r + 16"]) (auto simp: show_reg_def int_to_string_def reg_numbers nat_add_distrib)
qed

text \<open>The text of an operand is the text of a value.\<close>

definition value_text :: "string \<Rightarrow> val \<Rightarrow> bool" where
  "value_text s v \<longleftrightarrow> val_ok v \<and> s = show_val v"

lemma value_text_reg: "r \<le> RegSp \<Longrightarrow> value_text (show_reg r) (VReg r)"
  by (simp add: value_text_def reg_numbers)

lemma value_text_lit: "value_text (u64_to_string w) (VLit w)"
  by (simp add: value_text_def)

text \<open>Every offset in the frame fits a non-negative \<open>int\<close>.\<close>

definition offsets_ok :: "emitter \<Rightarrow> bool" where
  "offsets_ok e \<longleftrightarrow> (\<forall>i ofs. em_offset e i = Some ofs \<longrightarrow> unat ofs < 2 ^ 31)"

lemma get_operand_cases:
  assumes "get_operand e v noslot = Inr (s, ofs)" "offsets_ok e"
  shows "(ofs = - 1 \<and> (\<exists>w. value_text s w)) \<or>
    (\<not> noslot \<and> ofs \<noteq> - 1 \<and> (\<exists>w. int_to_string ofs = u64_to_string w))"
  using assms
proof (induction e v noslot arbitrary: s ofs rule: get_operand.induct)
  case (1 e name t noslot)
  then show ?case by (auto simp: result_iff elim!: argument_name intro: value_text_reg)
next
  case (3 e t noslot)
  have "u64_to_string 0 = ''0''" by code_simp
  with 3 show ?case using value_text_lit [of 0] by auto
next
  case (4 e t noslot)
  have "''r1'' = show_reg 0" by code_simp
  with 4 show ?case using value_text_reg [of 0] by (auto simp: reg_numbers)
next
  case (5 e c vs t noslot)
  then show ?case
    using value_text_lit by (auto split: const_op.splits list.splits val_ir.splits)
next
  case (6 e n op nm t vs noslot)
  let ?I = "Inst n op nm t vs"
  consider (trunc) v vs' where "op = OpTrunc" "vs = v # vs'" "get_operand e v noslot = Inr (s, ofs)"
    | (reg) "get_register_name_from_instruction ?I True = Inr s" "ofs = - 1"
    | (slot) w where "em_offset e n = Some w" "ofs = sint w" "\<not> noslot"
    using "6.prems"(1)
    by (cases op)
      (auto simp: Let_def result_iff get_stack_offset_def split: list.splits if_splits option.splits)
  then show ?case
  proof cases
    case trunc
    with "6.IH" [OF refl, of v vs'] "6.prems" show ?thesis by auto
  next
    case reg
    from reg(1) obtain r where "r \<le> R16" "s = show_reg r" by (rule instruction_name)
    with reg(2) value_text_reg [of r] show ?thesis by (auto simp: reg_numbers)
  next
    case slot
    with "6.prems"(2) have "unat w < 2 ^ 31" by (auto simp: offsets_ok_def)
    with slot show ?thesis using int_to_string_sint [of w] by auto
  qed
qed (auto intro: value_text_lit)

lemma operand_text_value:
  assumes "operand_text e v = Inr s" "offsets_ok e"
  obtains w where "value_text s w"
  using assms get_operand_cases [of e v True s] by (auto simp: operand_text_def result_iff)

lemma operand_texts_values:
  "\<lbrakk> operand_texts e vs = Inr ss; offsets_ok e \<rbrakk> \<Longrightarrow>
   \<exists>ws. length ws = length vs \<and> ss = map show_val ws \<and> (\<forall>w \<in> set ws. val_ok w)"
proof (induction vs arbitrary: ss)
  case (Cons v vs)
  then obtain s ss' where s: "ss = s # ss'" "operand_text e v = Inr s" "operand_texts e vs = Inr ss'"
    by (auto simp: result_iff)
  obtain w where "value_text s w" using s(2) Cons.prems(2) by (rule operand_text_value)
  moreover obtain ws where "length ws = length vs" "ss' = map show_val ws" "\<forall>w \<in> set ws. val_ok w"
    using Cons.IH [OF s(3) Cons.prems(2)] by blast
  ultimately show ?case using s(1) by (intro exI [of _ "w # ws"]) (simp add: value_text_def)
qed simp

subsection \<open>Lines\<close>

definition plain :: "string \<Rightarrow> bool" where
  "plain l \<longleftrightarrow> l \<noteq> [] \<and> hd l \<noteq> CHR ''.'' \<and> \<not> is_space (hd l) \<and> newline \<notin> set l"

text \<open>A line that is a comment or one printed statement, and the statements it stands for.\<close>

definition writes :: "string \<Rightarrow> (reg \<times> stmt_body) list \<Rightarrow> bool" where
  "writes l ss \<longleftrightarrow> plain l \<and> clean [l] = show_lines ss \<and> (\<forall>(lhs, b) \<in> set ss. printable lhs b)"

definition writes_all :: "string list \<Rightarrow> (reg \<times> stmt_body) list \<Rightarrow> bool" where
  "writes_all ls ss \<longleftrightarrow> (\<forall>l \<in> set ls. plain l) \<and> clean ls = show_lines ss \<and> (\<forall>(lhs, b) \<in> set ss. printable lhs b)"

lemma clean_append [simp]: "clean (xs @ ys) = clean xs @ clean ys"
  by (simp add: clean_def)

lemma clean_Nil [simp]: "clean [] = []"
  by (simp add: clean_def)

lemma writes_all_Nil [simp]: "writes_all [] []"
  by (simp add: writes_all_def)

lemma writes_all_append: "\<lbrakk> writes_all ls ss; writes_all ls' ss' \<rbrakk> \<Longrightarrow> writes_all (ls @ ls') (ss @ ss')"
  by (auto simp: writes_all_def)

lemma writes_all_single: "writes_all [l] ss \<longleftrightarrow> writes l ss"
  by (simp add: writes_all_def writes_def)

lemma unindent_solid: "\<lbrakk> l \<noteq> []; \<not> is_space (hd l) \<rbrakk> \<Longrightarrow> unindent l = l"
  by (cases l) (simp_all add: unindent_def)

lemma comment_blank:
  assumes "\<forall>c \<in> set s. \<not> line_end c"
  shows "blank_line (CHR '';'' # s)"
proof -
  have "s \<in> lang (Rep (Chr (\<lambda>c. \<not> line_end c)))" using assms by (simp add: reps_Chr)
  then have "CHR '';'' # s \<in> lang (seq [lit '';'', Rep (Chr (\<lambda>c. \<not> line_end c))])"
    unfolding lang_seq_Cons by (auto intro: exI [of _ "'';''"])
  then have "regex_match (CHR '';'' # s) rComment" unfolding rComment_def by (rule match_spaced)
  then show ?thesis by (simp add: blank_line_def regex_match_iff)
qed

lemma writes_comment:
  assumes "\<forall>c \<in> set s. \<not> line_end c"
  shows "writes (CHR '';'' # s) []"
proof -
  have "newline \<notin> set s" using assms by (auto simp: newline_def line_end_def)
  then show ?thesis
    using comment_blank [OF assms] by (simp add: writes_def plain_def clean_def unindent_def is_space_def newline_def)
qed

lemma hd_show_reg: "show_reg r \<noteq> [] \<and> hd (show_reg r) \<noteq> CHR ''.'' \<and> \<not> is_space (hd (show_reg r))"
  by (simp add: show_reg_def is_space_def)

lemma hd_body_tokens:
  "body_tokens b \<noteq> [] \<and> hd (body_tokens b) \<noteq> [] \<and> hd (hd (body_tokens b)) \<noteq> CHR ''.'' \<and> \<not> is_space (hd (hd (body_tokens b)))"
proof (cases b)
  case (SBop k)
  then show ?thesis by (cases k) (simp_all add: is_space_def)
qed (simp_all add: is_space_def)

lemma hd_unwords: "\<lbrakk> ws \<noteq> []; hd ws \<noteq> [] \<rbrakk> \<Longrightarrow> unwords ws \<noteq> [] \<and> hd (unwords ws) = hd (hd ws)"
  by (cases ws) (simp_all add: unwords_Cons)

lemma writes_stmt:
  assumes "printable lhs b"
  shows "writes (show_stmt lhs b) [(lhs, b)]"
proof -
  have "show_stmt lhs b \<noteq> [] \<and> hd (show_stmt lhs b) \<noteq> CHR ''.'' \<and> \<not> is_space (hd (show_stmt lhs b))"
    using hd_show_reg [of lhs] hd_body_tokens [of b] hd_unwords [of "body_tokens b"] by (simp add: show_stmt_def)
  then show ?thesis
    using show_stmt_not_blank [OF assms] show_stmt_no_newline [OF assms] assms
    by (simp add: writes_def plain_def clean_def unindent_solid)
qed

subsection \<open>Emitting\<close>

lemma assembly_body_unwords: "assembly_body cmd ops = unwords (cmd # ops)"
  unfolding unwords_Cons assembly_body_def by (induction ops) simp_all

definition emits :: "emitter \<Rightarrow> emitter \<Rightarrow> (reg \<times> stmt_body) list \<Rightarrow> bool" where
  "emits e e' ss \<longleftrightarrow> (\<exists>ls. em_body e' = em_body e @ ls \<and> writes_all ls ss)"

lemma emits_refl: "em_body e' = em_body e \<Longrightarrow> emits e e' []"
  by (simp add: emits_def)

lemma emits_trans: "\<lbrakk> emits e e' ss; emits e' e'' ss' \<rbrakk> \<Longrightarrow> emits e e'' (ss @ ss')"
  unfolding emits_def by (metis append.assoc writes_all_append)

lemma emits_line: "\<lbrakk> emits e e' ss; writes l ss' \<rbrakk> \<Longrightarrow> emits e (emit_line l e') (ss @ ss')"
  by (rule emits_trans, assumption) (simp add: emits_def emit_line_def writes_all_single)

lemma emits_updates [simp]:
  "emits e (e'\<lparr>em_ref_spilled := b\<rparr>) ss = emits e e' ss"
  "emits e (e'\<lparr>em_sp := s\<rparr>) ss = emits e e' ss"
  by (simp_all add: emits_def)

lemma emits_assign:
  assumes "emits e e' ss" "dest = show_reg r" "r \<le> RegSp" "printable r b" "cmd # ops = body_tokens b"
  shows "emits e (emit_assign dest cmd ops e') (ss @ [(r, b)])"
proof -
  have "show_stmt r b = dest @ '' = '' @ assembly_body cmd ops"
    using assms(2,3,5) by (auto simp: show_stmt_def assembly_body_unwords reg_numbers)
  with writes_stmt [OF assms(4)] emits_line [OF assms(1)] show ?thesis by (simp add: emit_assign_def)
qed

lemma emits_cmd:
  assumes "emits e e' ss" "printable RegNone b" "cmd # ops = body_tokens b"
  shows "emits e (emit_cmd cmd ops e') (ss @ [(RegNone, b)])"
proof -
  have "show_stmt RegNone b = assembly_body cmd ops"
    using assms(3) by (simp add: show_stmt_def assembly_body_unwords)
  with writes_stmt [OF assms(2)] emits_line [OF assms(1)] show ?thesis by (simp add: emit_cmd_def)
qed

lemma emits_comment:
  assumes "emits e e' ss" "\<forall>w \<in> set ops. \<forall>c \<in> set w. \<not> line_end c"
  shows "emits e (emit_cmd '';'' ops e') ss"
proof -
  have "\<forall>c \<in> set (concat (map (\<lambda>p. '' '' @ p) ops)). \<not> line_end c" using assms(2) by (auto simp: line_end_def)
  from emits_line [OF assms(1) writes_comment [OF this]] show ?thesis
    by (simp add: emit_cmd_def assembly_body_def)
qed

end
