(* ===== verification/Emitter_Steps.thy ===== *)
theory Emitter_Steps
  imports Emitter_Props
begin

text \<open>
  The visit functions of the emitter: on an instruction the interpreter can express, each of
  them appends comments and printed statements, a terminator exactly one at the end of a block.
\<close>

subsection \<open>Instructions the target can express\<close>

fun size_bytes :: "ty \<Rightarrow> nat" where
  "size_bytes (TPtr _) = 8"
| "size_bytes (TInt w) = (if w = 1 then 1 else w div 8)"
| "size_bytes (TArr n t) = size_bytes t * n"
| "size_bytes TVoid = 0"

lemma get_access_size_bytes: "get_access_size t = Some s \<Longrightarrow> s = of_nat (size_bytes t)"
  by (induction t arbitrary: s) (auto split: if_splits)

definition access_ok :: "ty \<Rightarrow> bool" where
  "access_ok t \<longleftrightarrow> size_bytes t \<in> {1, 2, 4, 8}"

definition width_ok :: "ty \<Rightarrow> bool" where
  "width_ok t = (case t of TInt w \<Rightarrow> valid_int_bitwidth w | _ \<Rightarrow> True)"

definition special_call :: "string \<Rightarrow> bool" where
  "special_call f \<longleftrightarrow> f \<in> {SetRefName, SpillRefName, AllocaBytesName, ResetStackName, ResetHeapName,
     FreeBytesName, GetSPName}"

text \<open>A call the parser reads as what it is meant to be.\<close>

definition call_ok :: "string \<Rightarrow> string \<Rightarrow> nat \<Rightarrow> bool" where
  "call_ok nm f n \<longleftrightarrow> special_call f \<or>
     (if f = ''malloc'' then nm \<noteq> [] \<and> n = 1
      else if f = ''free'' then nm = [] \<and> n = 1
      else if f = ''read'' then n = 0
      else if f = ''write'' then n = 1
      else fn_name f)"

definition inst_ok :: "inst \<Rightarrow> bool" where
  "inst_ok I =
     (case iop I of
        OpLoad \<Rightarrow> access_ok (ity I)
      | OpStore \<Rightarrow> (case iops I of v # _ \<Rightarrow> access_ok (val_ty v) | [] \<Rightarrow> False)
      | OpBin k \<Rightarrow> width_ok (ity I)
      | OpICmp k \<Rightarrow> predicate_name k \<noteq> ''unknown'' \<and> (case iops I of v # _ \<Rightarrow> width_ok (val_ty v) | [] \<Rightarrow> False)
      | OpCall f \<Rightarrow> call_ok (iname I) f (length (iops I))
      | OpBr bbs \<Rightarrow> (\<forall>bb \<in> set bbs. bb_name bb)
      | OpSwitch cases d \<Rightarrow> distinct (map fst cases) \<and> (\<forall>bb \<in> set (d # map snd cases). bb_name bb)
      | _ \<Rightarrow> True)"

definition ir_terminator :: "inst \<Rightarrow> bool" where
  "ir_terminator I = (case iop I of OpRet \<Rightarrow> True | OpBr _ \<Rightarrow> True | OpSwitch _ _ \<Rightarrow> True | _ \<Rightarrow> False)"

subsection \<open>Small texts\<close>

lemma small_consts [simp]:
  "u64_to_string 0 = ''0''" "u64_to_string 1 = ''1''" "u64_to_string 8 = ''8''"
  by code_simp+

lemma show_special_regs [simp]: "show_reg RegSp = ''sp''" "show_reg R16 = RefSP"
  by code_simp+

lemma access_str:
  assumes "get_access_size_str t = Inr s" "access_ok t"
  obtains sz where "s = show_msize sz"
proof -
  from assms(1) obtain w where w: "get_access_size t = Some w" "s = u32_to_string w"
    by (auto simp: get_access_size_str_def split: option.splits)
  have "u32_to_string 1 = show_msize MSize1" "u32_to_string 2 = show_msize MSize2"
    "u32_to_string 4 = show_msize MSize4" "u32_to_string 8 = show_msize MSize8" by code_simp+
  then have "\<forall>n \<in> {1, 2, 4, 8 :: nat}. u32_to_string (of_nat n) \<in> range show_msize"
    by (auto simp del: show_msize.simps)
  then have "\<exists>sz. s = show_msize sz"
    using assms(2) w(2) unfolding access_ok_def get_access_size_bytes [OF w(1)] by blast
  then show thesis using that by blast
qed

lemma width_str:
  assumes "valid_int_bitwidth w"
  obtains sz where "nat_to_string w = show_size sz"
proof -
  have "nat_to_string 1 = show_size Size1" "nat_to_string 8 = show_size Size8"
    "nat_to_string 16 = show_size Size16" "nat_to_string 32 = show_size Size32"
    "nat_to_string 64 = show_size Size64" by code_simp+
  then have "\<forall>n \<in> {1, 8, 16, 32, 64}. nat_to_string n \<in> range show_size"
    by (auto simp del: show_size.simps)
  with assms have "\<exists>sz. nat_to_string w = show_size sz" unfolding valid_int_bitwidth_def by blast
  then show thesis using that by blast
qed

lemma value_no_line_end: "value_text s v \<Longrightarrow> \<forall>c \<in> set s. \<not> line_end c"
  using good_tValue [of v] by (auto simp: value_text_def good_def word_char_def line_end_def is_space_def)

subsection \<open>Steps of the emitter\<close>

definition straight :: "(reg \<times> stmt_body) list \<Rightarrow> bool" where
  "straight ss \<longleftrightarrow> (\<forall>(lhs, b) \<in> set ss. \<not> is_terminator b)"

definition emits_straight :: "emitter \<Rightarrow> emitter \<Rightarrow> bool" where
  "emits_straight e e' \<longleftrightarrow> (\<exists>ss. emits e e' ss \<and> straight ss)"

definition keeps :: "emitter \<Rightarrow> emitter \<Rightarrow> bool" where
  "keeps e e' \<longleftrightarrow> em_offset e' = em_offset e \<and> em_used e' = em_used e \<and> em_sp e' \<in> {''sp'', RefSP}"

definition emitter_ok :: "emitter \<Rightarrow> bool" where
  "emitter_ok e \<longleftrightarrow> offsets_ok e \<and> em_sp e \<in> {''sp'', RefSP}"

lemma emits_straight_refl [simp]: "emits_straight e e"
  unfolding emits_straight_def straight_def by (intro exI [of _ "[]"]) (simp add: emits_refl)

lemma emits_straight_updates [simp]:
  "emits_straight e (e'\<lparr>em_ref_spilled := b\<rparr>) = emits_straight e e'"
  "emits_straight e (e'\<lparr>em_sp := s\<rparr>) = emits_straight e e'"
  by (simp_all add: emits_straight_def)

lemma emits_straight_slots:
  "emits_straight e (e'\<lparr>em_offset := f, em_used := u\<rparr>) = emits_straight e e'"
  by (simp add: emits_straight_def emits_def)

lemma straight_assign:
  assumes "emits_straight e e'" "dest = show_reg r" "r \<le> RegSp" "printable r b" "cmd # ops = body_tokens b"
    "\<not> is_terminator b"
  shows "emits_straight e (emit_assign dest cmd ops e')"
proof -
  from assms(1) obtain ss where "emits e e' ss" "straight ss" by (auto simp: emits_straight_def)
  with emits_assign [OF this(1) assms(2-5)] assms(6) show ?thesis
    unfolding emits_straight_def by (intro exI [of _ "ss @ [(r, b)]"]) (simp add: straight_def)
qed

lemma straight_cmd:
  assumes "emits_straight e e'" "printable RegNone b" "cmd # ops = body_tokens b" "\<not> is_terminator b"
  shows "emits_straight e (emit_cmd cmd ops e')"
proof -
  from assms(1) obtain ss where "emits e e' ss" "straight ss" by (auto simp: emits_straight_def)
  with emits_cmd [OF this(1) assms(2,3)] assms(4) show ?thesis
    unfolding emits_straight_def by (intro exI [of _ "ss @ [(RegNone, b)]"]) (simp add: straight_def)
qed

lemma straight_comment:
  assumes "emits_straight e e'" "\<forall>w \<in> set ops. \<forall>c \<in> set w. \<not> line_end c"
  shows "emits_straight e (emit_cmd '';'' ops e')"
  using assms emits_comment unfolding emits_straight_def by blast

lemma emit_fields [simp]:
  "em_offset (emit_line l e) = em_offset e" "em_used (emit_line l e) = em_used e" "em_sp (emit_line l e) = em_sp e"
  "em_ref_spilled (emit_line l e) = em_ref_spilled e"
  by (simp_all add: emit_line_def)

lemma emit_fields' [simp]:
  "em_offset (emit_assign d c ops e) = em_offset e" "em_used (emit_assign d c ops e) = em_used e"
  "em_sp (emit_assign d c ops e) = em_sp e" "em_ref_spilled (emit_assign d c ops e) = em_ref_spilled e"
  "em_offset (emit_cmd c ops e) = em_offset e" "em_used (emit_cmd c ops e) = em_used e"
  "em_sp (emit_cmd c ops e) = em_sp e" "em_ref_spilled (emit_cmd c ops e) = em_ref_spilled e"
  "em_offset (emit_copy d v e) = em_offset e" "em_used (emit_copy d v e) = em_used e"
  "em_sp (emit_copy d v e) = em_sp e" "em_ref_spilled (emit_copy d v e) = em_ref_spilled e"
  by (simp_all add: emit_assign_def emit_cmd_def emit_copy_def)

text \<open>An arithmetic instruction on the texts of two values.\<close>

lemma straight_bop:
  assumes "emits_straight e e'" "dest = show_reg r" "r \<le> RegSp" "value_text s v" "value_text s' v'"
    "show_bop k = [cmd]" "sz = show_size w"
  shows "emits_straight e (emit_assign dest cmd [s, s', sz] e')"
  using assms by (intro straight_assign [of e e' dest r "SBop k v v' w"])
    (auto simp: printable_def value_text_def)

lemma straight_copy:
  assumes "emits_straight e e'" "dest = show_reg r" "r \<le> RegSp" "value_text s v"
  shows "emits_straight e (emit_copy dest s e')"
  using straight_bop [OF assms value_text_lit [of 1], of Mul "''mul''" "''64''" Size64] assms(1)
  by (simp add: emit_copy_def)

lemma sp_values: "value_text ''sp'' (VReg RegSp)" "value_text RefSP (VReg R16)" "value_text ''8'' (VLit 8)"
  "value_text ''1'' (VLit 1)" "value_text ''0'' (VLit 0)"
proof -
  have "RegSp \<le> RegSp" "R16 \<le> RegSp" by (simp_all add: reg_numbers)
  then show "value_text ''sp'' (VReg RegSp)" "value_text RefSP (VReg R16)"
    using value_text_reg [of RegSp] value_text_reg [of R16] by simp_all
qed (use value_text_lit [of 8] value_text_lit [of 1] value_text_lit [of 0] in simp_all)

lemma straight_sp:
  assumes "emits_straight e e'" "value_text s v" "cmd = ''add'' \<and> k = Add \<or> cmd = ''sub'' \<and> k = Sub"
  shows "emits_straight e (emit_assign ''sp'' cmd [''sp'', s, ''64''] e')"
  using straight_bop [OF assms(1) _ _ sp_values(1) assms(2), of "''sp''" RegSp k cmd "''64''" Size64] assms(3)
  by auto

lemmas straight_add_sub = straight_sp [where cmd = "''add''" and k = Add, simplified]
  straight_sp [where cmd = "''sub''" and k = Sub, simplified]

subsection \<open>The visit functions\<close>

definition step_ok :: "emitter \<Rightarrow> emitter \<Rightarrow> bool" where
  "step_ok e e' \<longleftrightarrow> emits_straight e e' \<and> keeps e e'"

lemma reg_le: "r \<le> R16 \<Longrightarrow> r \<le> RegSp"
  by (simp add: reg_numbers)

text \<open>The memory operand of a load or store.\<close>

lemma slot_operand:
  assumes "get_operand e p False = Inr (ptr, ofs)" "emitter_ok e"
  obtains w c where "value_text (if ofs \<noteq> - 1 then em_sp e else ptr) w"
    "(if ofs \<noteq> - 1 then int_to_string ofs else ''0'') = u64_to_string c"
proof (cases "ofs = - 1")
  case True
  then obtain w where "value_text ptr w"
    using get_operand_cases [OF assms(1)] assms(2) by (auto simp: emitter_ok_def)
  with True that [of w 0] show thesis by simp
next
  case False
  then obtain c where "int_to_string ofs = u64_to_string c"
    using get_operand_cases [OF assms(1)] assms(2) by (auto simp: emitter_ok_def)
  moreover obtain w where "value_text (em_sp e) w"
    using assms(2) sp_values(1,2) by (auto simp: emitter_ok_def)
  ultimately show thesis using False that by simp
qed

lemma visit_load_ok:
  assumes "visit_load I p e = Inr e'" "emitter_ok e" "access_ok (ity I)"
  shows "step_ok e e'"
proof -
  obtain ptr ofs dest sz where g: "get_operand e p False = Inr (ptr, ofs)"
    "get_register_name_from_instruction I True = Inr dest" "get_access_size_str (ity I) = Inr sz"
    and e': "e' = emit_assign dest ''load''
      [sz, if ofs \<noteq> - 1 then em_sp e else ptr, if ofs \<noteq> - 1 then int_to_string ofs else ''0''] e"
    using assms(1) by (auto simp: visit_load_def result_iff)
  obtain r where r: "r \<le> R16" "dest = show_reg r" using g(2) by (rule instruction_name)
  obtain m where m: "sz = show_msize m" using g(3) assms(3) by (rule access_str)
  obtain w c where "value_text (if ofs \<noteq> - 1 then em_sp e else ptr) w"
    "(if ofs \<noteq> - 1 then int_to_string ofs else ''0'') = u64_to_string c"
    using g(1) assms(2) by (rule slot_operand)
  then show ?thesis
    using r m assms(2) unfolding e' step_ok_def keeps_def
    by (auto simp: emitter_ok_def printable_def value_text_def reg_le
      intro!: straight_assign [where r = r and b = "SLoad m w c"])
qed

lemma visit_store_ok:
  assumes "visit_store v p e = Inr e'" "emitter_ok e" "access_ok (val_ty v)"
  shows "step_ok e e'"
proof -
  obtain val ptr ofs sz where g: "operand_text e v = Inr val" "get_operand e p False = Inr (ptr, ofs)"
    "get_access_size_str (val_ty v) = Inr sz"
    and e': "e' = emit_cmd ''store''
      [sz, val, if ofs \<noteq> - 1 then em_sp e else ptr, if ofs \<noteq> - 1 then int_to_string ofs else ''0''] e"
    using assms(1) by (auto simp: visit_store_def result_iff)
  obtain x where x: "value_text val x" using g(1) assms(2) by (auto simp: emitter_ok_def elim: operand_text_value)
  obtain m where m: "sz = show_msize m" using g(3) assms(3) by (rule access_str)
  obtain w c where "value_text (if ofs \<noteq> - 1 then em_sp e else ptr) w"
    "(if ofs \<noteq> - 1 then int_to_string ofs else ''0'') = u64_to_string c"
    using g(2) assms(2) by (rule slot_operand)
  then show ?thesis
    using x m assms(2) unfolding e' step_ok_def keeps_def
    by (auto simp: emitter_ok_def printable_def value_text_def intro!: straight_cmd [of e e "SStore m x w c"])
qed

lemma operand_value:
  assumes "operand_text e v = Inr s" "emitter_ok e"
  obtains w where "value_text s w"
  using assms by (auto simp: emitter_ok_def elim: operand_text_value)

lemma keeps_refl: "emitter_ok e \<Longrightarrow> keeps e e"
  by (simp add: emitter_ok_def keeps_def)

lemma keeps_emit [simp]:
  "keeps e (emit_assign d c ops e') = keeps e e'" "keeps e (emit_cmd c ops e') = keeps e e'"
  "keeps e (emit_copy d v e') = keeps e e'"
  "keeps e (e'\<lparr>em_ref_spilled := b\<rparr>) = keeps e e'"
  by (simp_all add: keeps_def)

lemma visit_binary_ok:
  assumes "visit_binary_operator I k a b e = Inr e'" "emitter_ok e" "width_ok (ity I)"
  shows "step_ok e e'"
proof -
  obtain s1 s2 dest w cmd where g: "operand_text e a = Inr s1" "operand_text e b = Inr s2"
    "get_register_name_from_instruction I True = Inr dest" "int_width (ity I) = Inr w" "bop_cmd k = Inr cmd"
    and e': "e' = emit_assign dest cmd [s1, s2, nat_to_string w] e"
    using assms(1) by (auto simp: visit_binary_operator_def result_iff)
  obtain v1 v2 where v: "value_text s1 v1" "value_text s2 v2" using g(1,2) assms(2) operand_value by metis
  obtain r where r: "r \<le> R16" "dest = show_reg r" using g(3) by (rule instruction_name)
  have "valid_int_bitwidth w" using assms(3) g(4) by (auto simp: width_ok_def int_width_def split: ty.splits)
  then obtain sz where "nat_to_string w = show_size sz" by (rule width_str)
  moreover have "show_bop k = [cmd]" using g(5) by (cases k) auto
  ultimately show ?thesis
    unfolding e' step_ok_def using r v assms(2) by (auto intro!: straight_bop reg_le keeps_refl)
qed

lemma visit_icmp_ok:
  assumes "visit_icmp I k a b e = Inr e'" "emitter_ok e" "predicate_name k \<noteq> ''unknown''" "width_ok (val_ty a)"
  shows "step_ok e e'"
proof (cases "ends_with (strip_trailing_digits (iname I)) ''to_i1__''")
  case True
  with assms show ?thesis by (simp add: visit_icmp_def step_ok_def keeps_refl)
next
  case False
  then obtain s1 s2 dest w where g: "operand_text e a = Inr s1" "operand_text e b = Inr s2"
    "get_register_name_from_instruction I True = Inr dest"
    "(if is_ptr_ty (val_ty a) then Inr 64 else int_width (val_ty a)) = Inr w"
    and e': "e' = emit_assign dest ''icmp'' [predicate_name k, s1, s2, nat_to_string w] e"
    using assms(1) by (auto simp: visit_icmp_def result_iff)
  obtain v1 v2 where v: "value_text s1 v1" "value_text s2 v2" using g(1,2) assms(2) operand_value by metis
  obtain r where r: "r \<le> R16" "dest = show_reg r" using g(3) by (rule instruction_name)
  have "valid_int_bitwidth w"
    using assms(4) g(4) by (auto simp: width_ok_def int_width_def valid_int_bitwidth_def split: ty.splits if_splits)
  then obtain sz where sz: "nat_to_string w = show_size sz" by (rule width_str)
  have "show_bop k = [''icmp'', predicate_name k]" using assms(3) by (cases k) simp_all
  then show ?thesis
    unfolding e' step_ok_def using r v sz assms(2)
    by (auto intro!: straight_assign [where r = r and b = "SBop k v1 v2 sz"] reg_le keeps_refl
      simp: printable_def value_text_def)
qed

lemma visit_select_ok:
  assumes "visit_select I a b c e = Inr e'" "emitter_ok e"
  shows "step_ok e e'"
proof -
  obtain s1 s2 s3 dest where g: "operand_text e a = Inr s1" "operand_text e b = Inr s2" "operand_text e c = Inr s3"
    "get_register_name_from_instruction I False = Inr dest"
    and e': "e' = emit_assign dest ''select'' [s1, s2, s3] e"
    using assms(1) by (auto simp: visit_select_def result_iff)
  obtain v1 v2 v3 where v: "value_text s1 v1" "value_text s2 v2" "value_text s3 v3"
    using g(1,2,3) assms(2) operand_value by metis
  obtain r where r: "r \<le> R16" "dest = show_reg r" using g(4) by (rule instruction_name)
  show ?thesis
    unfolding e' step_ok_def using r v assms(2)
    by (auto intro!: straight_assign [where r = r and b = "SSelect v1 v2 v3"] reg_le keeps_refl
      simp: printable_def value_text_def)
qed

lemma visit_gep_ok:
  assumes "visit_gep I vs e = Inr e'" "emitter_ok e"
  shows "step_ok e e'"
proof -
  obtain p i s1 s2 dest where g: "operand_text e p = Inr s1" "operand_text e i = Inr s2"
    "get_register_name_from_instruction I False = Inr dest"
    and e': "e' = emit_assign dest ''add'' [s1, s2, ''64''] e"
    using assms(1) by (auto simp: visit_gep_def result_iff split: list.splits ty.splits)
  obtain v1 v2 where v: "value_text s1 v1" "value_text s2 v2" using g(1,2) assms(2) operand_value by metis
  obtain r where r: "r \<le> R16" "dest = show_reg r" using g(3) by (rule instruction_name)
  have "emits_straight e e'"
    unfolding e' by (rule straight_bop [where k = Add and w = Size64]) (use r v in \<open>auto intro: reg_le\<close>)
  then show ?thesis unfolding step_ok_def e' using assms(2) by (auto intro: keeps_refl)
qed

lemma visit_cast_ok:
  assumes "visit_cast I v e = Inr e'" "emitter_ok e"
  shows "step_ok e e'"
proof -
  obtain s dest where g: "operand_text e v = Inr s" "get_register_name_from_instruction I False = Inr dest"
    and e': "e' = emit_copy dest s e"
    using assms(1) by (auto simp: visit_cast_def result_iff)
  obtain x where "value_text s x" using g(1) assms(2) by (rule operand_value)
  moreover obtain r where "r \<le> R16" "dest = show_reg r" using g(2) by (rule instruction_name)
  ultimately show ?thesis
    unfolding e' step_ok_def using assms(2) by (auto intro!: straight_copy reg_le keeps_refl)
qed

subsection \<open>Calls\<close>

lemma call_stmt:
  assumes "call_ok nm f (length ws)" "\<not> special_call f" "\<forall>w \<in> set ws. val_ok w"
  obtains b where
    "(if f = ''malloc'' \<or> f = ''free'' then f else ''call'') #
      (if f = ''malloc'' \<or> f = ''free'' then map show_val ws else f # map show_val ws) = body_tokens b"
    "\<not> is_terminator b" "nm \<noteq> [] \<Longrightarrow> r \<le> R16 \<Longrightarrow> printable r b" "nm = [] \<Longrightarrow> printable RegNone b"
proof -
  note c = assms(1,2) [unfolded call_ok_def, simplified]
  have le: "r \<le> R16 \<Longrightarrow> r \<le> RegSp \<and> r \<le> RegNone" by (simp add: reg_numbers)
  consider (malloc) w where "f = ''malloc''" "ws = [w]" "nm \<noteq> []" | (free) w where "f = ''free''" "ws = [w]" "nm = []"
    | (input) "f = ''read''" "ws = []" | (print) w where "f = ''write''" "ws = [w]"
    | (call) "f \<noteq> ''malloc''" "f \<noteq> ''free''" "f \<noteq> ''read''" "f \<noteq> ''write''" "fn_name f"
    using c by (auto simp: length_Suc_conv split: if_splits)
  then show thesis
  proof cases
    case malloc
    with assms(3) le show thesis by (intro that [of "SMalloc w"]) (auto simp: printable_def)
  next
    case free
    with assms(3) le show thesis by (intro that [of "SFree w"]) (auto simp: printable_def)
  next
    case input
    with le show thesis by (intro that [of SRead]) (auto simp: printable_def)
  next
    case print
    with assms(3) le show thesis by (intro that [of "SWrite w"]) (auto simp: printable_def)
  next
    case call
    with assms(3) le show thesis by (intro that [of "SCall f ws"]) (auto simp: printable_def)
  qed
qed

lemma emit_call_ok:
  assumes "emit_call I f vs e = Inr e'" "emitter_ok e" "call_ok (iname I) f (length vs)" "\<not> special_call f"
  shows "step_ok e e'"
proof -
  let ?mf = "f = ''malloc'' \<or> f = ''free''"
  let ?e1 = "if em_ref_spilled e
     then emit_assign ''sp'' ''sub'' [''sp'', ''8'', ''64''] (emit_cmd '';'' [''spill ref sp - step 2''] e) else e"
  let ?cmd = "if ?mf then f else ''call''"
  obtain ops e2 where ops: "operand_texts e vs = Inr ops"
    and e2: "(if iname I \<noteq> []
        then rbind (get_register_name_from_instruction I False) (\<lambda>dest.
          Inr (emit_assign dest ?cmd (if ?mf then ops else f # ops) ?e1))
        else Inr (emit_cmd ?cmd (if ?mf then ops else f # ops) ?e1)) = Inr e2"
    and e': "e' = (if em_ref_spilled e2
        then (emit_assign ''sp'' ''add'' [''sp'', ''8'', ''64'']
               (emit_assign RefSP ''load'' [''8'', ''sp'', ''0'']
                 (emit_cmd '';'' [''spill ref sp - step 3''] e2)))\<lparr>em_ref_spilled := False\<rparr>
        else e2)"
    using assms(1) unfolding emit_call_def by (auto simp: Let_def result_iff)
  obtain ws where ws: "length ws = length vs" "ops = map show_val ws" "\<forall>w \<in> set ws. val_ok w"
    using operand_texts_values [OF ops] assms(2) by (auto simp: emitter_ok_def)
  have 1: "emits_straight e ?e1 \<and> keeps e ?e1"
    using assms(2) by (auto intro!: straight_add_sub straight_comment sp_values keeps_refl simp: line_end_def)
  have 2: "emits_straight e e2 \<and> keeps e e2"
  proof (cases "iname I = []")
    case True
    obtain b where b: "?cmd # (if ?mf then ops else f # ops) = body_tokens b" "\<not> is_terminator b" "printable RegNone b"
      using call_stmt [of "iname I" f ws 0] assms(3,4) ws True by (auto split: if_splits)
    with 1 e2 True show ?thesis by (auto intro: straight_cmd)
  next
    case False
    then obtain dest where d: "get_register_name_from_instruction I False = Inr dest"
      "e2 = emit_assign dest ?cmd (if ?mf then ops else f # ops) ?e1"
      using e2 by (auto simp: result_iff)
    obtain r where r: "r \<le> R16" "dest = show_reg r" using d(1) by (rule instruction_name)
    obtain b where b: "?cmd # (if ?mf then ops else f # ops) = body_tokens b" "\<not> is_terminator b" "printable r b"
      using call_stmt [of "iname I" f ws r] assms(3,4) ws r(1) False by (auto split: if_splits)
    have "emits_straight e e2"
      unfolding d(2) by (rule straight_assign [OF _ r(2) reg_le [OF r(1)] b(3) b(1) b(2)]) (use 1 in blast)
    with 1 show ?thesis unfolding d(2) by simp
  qed
  have load: "emits_straight e (emit_assign RefSP ''load'' [''8'', ''sp'', ''0''] e3)" if "emits_straight e e3" for e3
    using that by (intro straight_assign [where r = R16 and b = "SLoad MSize8 (VReg RegSp) 0"])
      (simp_all add: printable_def reg_le)
  have "emits_straight e e'"
    using 2 unfolding e' by (auto intro!: straight_add_sub load straight_comment sp_values simp: line_end_def)
  moreover have "keeps e e'" using 2 unfolding e' by simp
  ultimately show ?thesis by (simp add: step_ok_def)
qed

lemma first_arg_value:
  assumes "first_arg e vs = Inr s" "emitter_ok e"
  obtains w where "value_text s w"
  using assms by (cases vs) (auto simp: first_arg_def elim: operand_value)

lemma names_no_line_end [simp]:
  "\<forall>c \<in> set AllocaBytesName. \<not> line_end c" "\<forall>c \<in> set FreeBytesName. \<not> line_end c"
  "\<forall>c \<in> set GetSPName. \<not> line_end c"
  by (simp_all add: special_names line_end_def)

lemma visit_call_ok:
  assumes "visit_call I f vs e = Inr e'" "emitter_ok e" "call_ok (iname I) f (length vs)"
  shows "step_ok e e'"
proof -
  have k: "keeps e e" using assms(2) by (rule keeps_refl)
  have reset: "emits_straight e (emit_cmd ''reset'' [''stack''] e)" "emits_straight e (emit_cmd ''reset'' [''heap''] e)"
    by (rule straight_cmd [where b = SResetStack] straight_cmd [where b = SResetHeap]; simp add: printable_def)+
  have store: "emits_straight e (emit_cmd ''store'' [''8'', RefSP, ''sp'', ''0''] e3)" if "emits_straight e e3" for e3
    using that by (intro straight_cmd [where b = "SStore MSize8 (VReg R16) (VReg RegSp) 0"])
      (simp_all add: printable_def reg_le)
  have ref: "emits_straight e (emit_copy RefSP ''sp'' e3)" if "emits_straight e e3" for e3
    by (rule straight_copy [OF that _ _ sp_values(1), of _ R16]) (simp_all add: reg_le)
  have copy: "emits_straight e (emit_copy dest ''sp'' e3)"
    if d: "get_register_name_from_instruction I False = Inr dest" and e3: "emits_straight e e3" for dest e3
  proof -
    obtain r where r: "r \<le> R16" "dest = show_reg r" using d by (rule instruction_name)
    show ?thesis by (rule straight_copy [OF e3 r(2) reg_le [OF r(1)] sp_values(1)])
  qed
  have note_size: "emits_straight e (emit_assign ''sp'' cmd [''sp'', size, ''64''] (emit_cmd '';'' [nm, size] e))"
    if a: "first_arg e vs = Inr size" and b: "cmd = ''add'' \<or> cmd = ''sub''" "\<forall>c \<in> set nm. \<not> line_end c" for size cmd nm
  proof -
    obtain w where w: "value_text size w" using a assms(2) by (rule first_arg_value)
    from b value_no_line_end [OF w] show ?thesis
      by (auto intro!: straight_add_sub [OF _ w] straight_comment)
  qed
  consider (set) "f = SetRefName" | (spill) "f = SpillRefName" | (alloca) "f = AllocaBytesName"
    | (rs) "f = ResetStackName" | (rh) "f = ResetHeapName" | (free) "f = FreeBytesName" | (sp) "f = GetSPName"
    | (call) "\<not> special_call f" by (auto simp: special_call_def)
  then show ?thesis
  proof cases
    case set
    with assms(1) k show ?thesis
      by (auto simp: visit_call_def special_names result_iff step_ok_def keeps_def line_end_def
        intro!: ref straight_comment)
  next
    case spill
    with assms(1) k show ?thesis
      by (auto simp: visit_call_def special_names result_iff step_ok_def line_end_def
        intro!: straight_add_sub store straight_comment sp_values)
  next
    case alloca
    with assms(1) k show ?thesis
      by (auto simp: visit_call_def special_names result_iff step_ok_def copy note_size
        split: if_splits)
  next
    case free
    with assms(1) k show ?thesis
      by (auto simp: visit_call_def special_names result_iff step_ok_def note_size)
  next
    case sp
    with assms(1) k show ?thesis
      by (auto simp: visit_call_def special_names result_iff step_ok_def line_end_def intro!: copy straight_comment)
  next
    case call
    then have "visit_call I f vs e = emit_call I f vs e" by (simp add: visit_call_def special_call_def)
    with assms call show ?thesis using emit_call_ok by simp
  qed (use assms(1) k reset in \<open>auto simp: visit_call_def special_names step_ok_def\<close>)
qed

subsection \<open>The stack frame\<close>

definition slot_bytes :: "ty \<Rightarrow> nat" where
  "slot_bytes t = (size_bytes t + 7) div 8 * 8"

definition garbage :: "inst \<Rightarrow> bool" where
  "garbage I = ends_with (iname I) ''_garbage''"

text \<open>What an instruction adds to the frame.\<close>

definition inst_bytes :: "inst \<Rightarrow> nat" where
  "inst_bytes I = (case iop I of OpAlloca t \<Rightarrow> if garbage I then 0 else slot_bytes t | _ \<Rightarrow> 0)"

lemma of_nat_div8:
  assumes "n < 2 ^ 32"
  shows "(of_nat n :: u32) div 8 = of_nat (n div 8)"
proof -
  have "unat (of_nat n :: u32) = n" "unat (of_nat (n div 8) :: u32) = n div 8"
    using assms by (simp_all add: unat_of_nat take_bit_nat_eq_self_iff less_imp_diff_less)
  then have "unat ((of_nat n :: u32) div 8) = unat (of_nat (n div 8) :: u32)" by (simp add: unat_div)
  then show ?thesis by (simp only: word_unat_eq_iff)
qed

lemma slot_word:
  assumes "slot_bytes t < 2 ^ 31"
  shows "(of_nat (size_bytes t) + 7 :: u32) div 8 * 8 = of_nat (slot_bytes t)"
proof -
  have "size_bytes t + 7 < slot_bytes t + 8" unfolding slot_bytes_def by (simp add: div_mult_mod_eq [symmetric])
  then have "size_bytes t + 7 < 2 ^ 32" using assms by simp
  then have "(of_nat (size_bytes t + 7) :: u32) div 8 = of_nat ((size_bytes t + 7) div 8)" by (rule of_nat_div8)
  then show ?thesis by (simp add: slot_bytes_def)
qed

lemma used_after_slot:
  assumes "unat u + slot_bytes t < 2 ^ 31"
  shows "unat (u + (of_nat (size_bytes t) + 7) div 8 * 8 :: u32) = unat u + slot_bytes t"
proof -
  have "u + (of_nat (size_bytes t) + 7) div 8 * 8 = (of_nat (unat u + slot_bytes t) :: u32)"
    using assms slot_word [of t] by simp
  moreover have "unat u + slot_bytes t < 2 ^ 32" using assms by simp
  ultimately show ?thesis by (simp add: unat_of_nat take_bit_nat_eq_self_iff del: of_nat_add)
qed

lemma add_alloca_Inr:
  assumes "add_alloca I t e = Inr e'" "unat (em_used e) + slot_bytes t < 2 ^ 31"
  shows "em_offset e (iid I) = None" "em_offset e' = (em_offset e)(iid I \<mapsto> em_used e)"
    "unat (em_used e') = unat (em_used e) + slot_bytes t"
    "em_body e' = em_body e" "em_sp e' = em_sp e"
proof -
  from assms(1) obtain w where w: "get_access_size t = Some w" "em_offset e (iid I) = None"
    "e' = e\<lparr>em_offset := (em_offset e)(iid I \<mapsto> em_used e), em_used := em_used e + (w + 7) div 8 * 8\<rparr>"
    by (auto simp: add_alloca_def result_iff split: option.splits)
  with used_after_slot [OF assms(2)] get_access_size_bytes [OF w(1)]
  show "em_offset e (iid I) = None" "em_offset e' = (em_offset e)(iid I \<mapsto> em_used e)"
    "unat (em_used e') = unat (em_used e) + slot_bytes t"
    "em_body e' = em_body e" "em_sp e' = em_sp e" by simp_all
qed

lemma visit_alloca_ok:
  assumes "visit_alloca I t e = Inr e'" "emitter_ok e" "unat (em_used e) + slot_bytes t < 2 ^ 31" "\<not> garbage I"
  shows "emits_straight e e'" "em_offset e (iid I) = None"
    "em_offset e' = (em_offset e)(iid I \<mapsto> em_used e)"
    "unat (em_used e') = unat (em_used e) + slot_bytes t" "emitter_ok e'"
proof -
  obtain e1 where e1: "add_alloca I t e = Inr e1"
    and e': "(if should_be_mapped I
        then rbind (get_stack_offset I e1) (\<lambda>ofs.
             rbind (get_register_name_from_instruction I False) (\<lambda>dest.
               Inr (emit_assign dest ''add'' [em_sp e1, u32_to_string ofs, ''64''] e1)))
        else Inr e1) = Inr e'"
    using assms(1,4) by (auto simp: visit_alloca_def garbage_def result_iff)
  note a = add_alloca_Inr [OF e1 assms(3)]
  have es: "emits_straight e e1"
    using a(4) by (auto simp: emits_straight_def straight_def intro!: exI [of _ "[]"] emits_refl)
  consider "e' = e1" | dest ofs where "get_register_name_from_instruction I False = Inr dest"
      "e' = emit_assign dest ''add'' [em_sp e1, u32_to_string ofs, ''64''] e1"
    using e' by (auto simp: result_iff split: if_splits)
  then have "emits_straight e e' \<and> em_offset e' = em_offset e1 \<and> em_used e' = em_used e1 \<and> em_sp e' = em_sp e1"
  proof cases
    case 1
    with es show ?thesis by simp
  next
    case 2
    obtain r where r: "r \<le> R16" "dest = show_reg r" using 2(1) by (rule instruction_name)
    obtain w where w: "value_text (em_sp e1) w"
      using a(5) assms(2) sp_values(1,2) by (auto simp: emitter_ok_def)
    have "emits_straight e e'"
      unfolding 2(2) u32_to_string_u64
      by (rule straight_bop [OF es r(2) reg_le [OF r(1)] w value_text_lit, where k = Add and w = Size64]) simp_all
    with 2(2) show ?thesis by simp
  qed
  then show "emits_straight e e'" "em_offset e (iid I) = None"
    "em_offset e' = (em_offset e)(iid I \<mapsto> em_used e)"
    "unat (em_used e') = unat (em_used e) + slot_bytes t" "emitter_ok e'"
    using a assms(2,3) by (simp_all add: emitter_ok_def offsets_ok_def)
qed

subsection \<open>Terminators\<close>

definition emits_end :: "emitter \<Rightarrow> emitter \<Rightarrow> bool" where
  "emits_end e e' \<longleftrightarrow> (\<exists>b. emits e e' [(RegNone, b)] \<and> is_terminator b)"

lemma end_cmd:
  assumes "printable RegNone b" "cmd # ops = body_tokens b" "is_terminator b"
  shows "emits_end e (emit_cmd cmd ops e)"
  using emits_cmd [OF emits_refl assms(1,2), of e e] assms(3) by (auto simp: emits_end_def)

lemma visit_return_ok:
  assumes "visit_return vs e = Inr e'" "emitter_ok e"
  shows "emits_end e e' \<and> keeps e e'"
proof -
  obtain v s where v: "operand_text e v = Inr s" and e': "e' = emit_cmd ''ret'' [s] e"
    using assms(1) by (auto simp: visit_return_def result_iff split: list.splits)
  obtain w where "value_text s w" using v assms(2) by (rule operand_value)
  then show ?thesis
    unfolding e' using keeps_refl [OF assms(2)]
    by (auto intro!: end_cmd [where b = "SRet w"] simp: printable_def value_text_def)
qed

lemma branch_condition_text:
  assumes "branch_condition e c = Inr s"
  obtains v where "operand_text e v = Inr s"
  using assms
  by (cases c) (auto simp: branch_condition_def Let_def split: opcode.splits list.splits if_splits val_ir.splits)

lemma visit_branch_ok:
  assumes "visit_branch bbs vs e = Inr e'" "emitter_ok e" "\<forall>bb \<in> set bbs. bb_name bb"
  shows "emits_end e e' \<and> keeps e e'"
proof -
  consider (one) t where "bbs = [t]" "e' = emit_cmd ''br'' [t] e"
    | (two) t f c s where "bbs = [t, f]" "branch_condition e c = Inr s" "e' = emit_cmd ''br'' [s, t, f] e"
    using assms(1) by (auto simp: visit_branch_def result_iff split: list.splits)
  then show ?thesis
  proof cases
    case one
    with assms(2,3) show ?thesis
      by (auto intro!: end_cmd [where b = "SBrUncond t"] keeps_refl simp: printable_def)
  next
    case two
    from two(2) obtain v where "operand_text e v = Inr s" by (rule branch_condition_text)
    then obtain w where "value_text s w" using assms(2) by (rule operand_value)
    with two assms(2,3) show ?thesis
      by (auto intro!: end_cmd [where b = "SBrCond w t f"] keeps_refl simp: printable_def value_text_def)
  qed
qed

lemma visit_switch_ok:
  assumes "visit_switch cases d vs e = Inr e'" "emitter_ok e" "distinct (map fst cases)"
    "\<forall>bb \<in> set (d # map snd cases). bb_name bb"
  shows "emits_end e e' \<and> keeps e e'"
proof -
  obtain c s where c: "operand_text e c = Inr s"
    and e': "e' = emit_cmd ''switch'' ([s] @ concat (map (\<lambda>(v, bb). [u64_to_string v, bb]) cases) @ [d]) e"
    using assms(1) by (auto simp: visit_switch_def result_iff split: list.splits)
  obtain w where "value_text s w" using c assms(2) by (rule operand_value)
  moreover have "\<forall>(v, bb) \<in> set cases. bb_name bb" using assms(4) by fastforce
  ultimately show ?thesis
    unfolding e' using assms(2-4)
    by (auto intro!: end_cmd [where b = "SSwitch w cases d"] keeps_refl simp: printable_def value_text_def)
qed

subsection \<open>One instruction\<close>

lemma visit_zext_ok: "\<lbrakk> visit_zext I e = Inr e'; emitter_ok e \<rbrakk> \<Longrightarrow> step_ok e e'"
  by (auto simp: visit_zext_def result_iff step_ok_def intro: keeps_refl)

lemma visit_trunc_ok: "\<lbrakk> visit_trunc v e = Inr e'; emitter_ok e \<rbrakk> \<Longrightarrow> step_ok e e'"
  by (auto simp: visit_trunc_def result_iff step_ok_def intro: keeps_refl split: val_ir.splits)

lemmas visit_oks = visit_load_ok visit_store_ok visit_binary_ok visit_icmp_ok visit_select_ok visit_gep_ok
  visit_zext_ok visit_trunc_ok visit_cast_ok visit_call_ok

lemma visit_plain_ok:
  assumes "visit_inst I e = Inr e'" "emitter_ok e" "inst_ok I" "\<not> ir_terminator I" "\<forall>t. iop I \<noteq> OpAlloca t"
  shows "step_ok e e'"
proof -
  obtain n op nm t vs where I: "I = Inst n op nm t vs" by (cases I)
  show ?thesis
    using assms unfolding I
    by (cases op) (auto simp: Let_def inst_ok_def ir_terminator_def intro: visit_oks split: list.splits)
qed

lemma visit_end_ok:
  assumes "visit_inst I e = Inr e'" "emitter_ok e" "inst_ok I" "ir_terminator I"
  shows "emits_end e e' \<and> keeps e e'"
proof -
  obtain n op nm t vs where I: "I = Inst n op nm t vs" by (cases I)
  show ?thesis
    using assms visit_return_ok [of vs e e'] visit_switch_ok [of _ _ vs e e'] unfolding I
    by (cases op) (auto simp: Let_def inst_ok_def ir_terminator_def dest: visit_branch_ok)
qed

lemma visit_inst_ok:
  assumes v: "visit_inst I e = Inr e'" and ok: "emitter_ok e" "inst_ok I"
    and b: "unat (em_used e) + inst_bytes I < 2 ^ 31"
  shows "(if ir_terminator I then emits_end e e' else emits_straight e e') \<and>
    unat (em_used e') = unat (em_used e) + inst_bytes I \<and> emitter_ok e'"
proof (cases "\<exists>t. iop I = OpAlloca t")
  case True
  then obtain a n nm t vs where I: "I = Inst n (OpAlloca a) nm t vs" by (cases I) auto
  show ?thesis
  proof (cases "garbage I")
    case True
    with v ok show ?thesis by (simp add: I visit_alloca_def garbage_def inst_bytes_def ir_terminator_def)
  next
    case False
    then have "unat (em_used e) + slot_bytes a < 2 ^ 31" using b by (simp add: I inst_bytes_def)
    with visit_alloca_ok [of I a e e'] v ok(1) False show ?thesis by (simp add: I inst_bytes_def ir_terminator_def)
  qed
next
  case False
  then have "inst_bytes I = 0" by (auto simp: inst_bytes_def split: opcode.splits)
  moreover have "keeps e e'" "if ir_terminator I then emits_end e e' else emits_straight e e'"
    using visit_end_ok [OF v ok] visit_plain_ok [OF v ok] False by (auto simp: step_ok_def)
  ultimately show ?thesis using ok(1) by (simp add: keeps_def emitter_ok_def offsets_ok_def)
qed

end
