(* ===== verification/Emitter_Theorems.thy ===== *)
theory Emitter_Theorems
  imports Emitter_Steps
begin

text \<open>
  Whole functions and modules: the frame of a function keeps its slots apart, and the text of a
  module the target can express is a program of the interpreter with the same functions, blocks
  and arities.
\<close>

subsection \<open>Blocks\<close>

fun ir_block_ok :: "inst list \<Rightarrow> bool" where
  "ir_block_ok [] = False"
| "ir_block_ok (I # Is) = (inst_ok I \<and> (if ir_terminator I then Is = [] else ir_block_ok Is))"

definition insts_bytes :: "inst list \<Rightarrow> nat" where
  "insts_bytes Is = sum_list (map inst_bytes Is)"

lemma insts_bytes_simps [simp]:
  "insts_bytes [] = 0" "insts_bytes (I # Is) = inst_bytes I + insts_bytes Is"
  "insts_bytes (Is @ Js) = insts_bytes Is + insts_bytes Js"
  by (simp_all add: insts_bytes_def)

lemma emits_printable: "emits e e' ss \<Longrightarrow> \<forall>(lhs, b) \<in> set ss. printable lhs b"
  by (auto simp: emits_def writes_all_def)

lemma src_block_straight:
  "\<lbrakk> straight ss; \<forall>(lhs, b) \<in> set ss. printable lhs b; src_block_ok ss' \<rbrakk> \<Longrightarrow> src_block_ok (ss @ ss')"
  by (induction ss) (auto simp: straight_def)

lemma visit_insts_ok:
  "\<lbrakk> visit_insts Is e = Inr e'; ir_block_ok Is; emitter_ok e; unat (em_used e) + insts_bytes Is < 2 ^ 31 \<rbrakk> \<Longrightarrow>
   (\<exists>ss. emits e e' ss \<and> src_block_ok ss) \<and> unat (em_used e') = unat (em_used e) + insts_bytes Is \<and> emitter_ok e'"
proof (induction Is arbitrary: e)
  case (Cons I Is)
  obtain e1 where e1: "visit_inst I e = Inr e1" "visit_insts Is e1 = Inr e'" using Cons.prems(1) by (auto simp: result_iff)
  have I: "(if ir_terminator I then emits_end e e1 else emits_straight e e1) \<and>
    unat (em_used e1) = unat (em_used e) + inst_bytes I \<and> emitter_ok e1"
    using Cons.prems by (intro visit_inst_ok [OF e1(1)]) auto
  show ?case
  proof (cases "ir_terminator I")
    case True
    then obtain b where b: "emits e e1 [(RegNone, b)]" "is_terminator b" using I by (auto simp: emits_end_def)
    moreover have "src_block_ok [(RegNone, b)]" using b emits_printable [OF b(1)] by simp
    moreover have "Is = []" "e' = e1" using True Cons.prems(2) e1(2) by auto
    ultimately show ?thesis using I by auto
  next
    case False
    then obtain ss where ss: "emits e e1 ss" "straight ss" using I by (auto simp: emits_straight_def)
    obtain ss' where ss': "emits e1 e' ss'" "src_block_ok ss'"
        "unat (em_used e') = unat (em_used e1) + insts_bytes Is" "emitter_ok e'"
      using Cons.IH [OF e1(2)] False I Cons.prems by auto
    have "src_block_ok (ss @ ss')" using ss(2) emits_printable [OF ss(1)] ss'(2) by (rule src_block_straight)
    with emits_trans [OF ss(1) ss'(1)] I ss' show ?thesis by auto
  qed
qed simp

text \<open>The blocks of a function: label, lines, and the statements the lines stand for.\<close>

type_synonym written_block = "string \<times> string list \<times> (reg \<times> stmt_body) list"

definition written_ok :: "written_block \<Rightarrow> bool" where
  "written_ok d = (case d of (nm, ls, ss) \<Rightarrow> bb_name nm \<and> writes_all ls ss \<and> src_block_ok ss)"

definition written_lines :: "written_block \<Rightarrow> string list" where
  "written_lines d = (case d of (nm, ls, ss) \<Rightarrow> (nm @ '':'') # ls)"

definition written_src :: "written_block \<Rightarrow> src_block" where
  "written_src d = (case d of (nm, ls, ss) \<Rightarrow> (nm, ss))"

definition blocks_bytes :: "ir_block list \<Rightarrow> nat" where
  "blocks_bytes bbs = sum_list (map (insts_bytes \<circ> snd) bbs)"

lemma visit_blocks_ok:
  "\<lbrakk> visit_basic_blocks bbs e = Inr e'; \<forall>(nm, Is) \<in> set bbs. bb_name nm \<and> ir_block_ok Is; emitter_ok e;
     unat (em_used e) + blocks_bytes bbs < 2 ^ 31 \<rbrakk> \<Longrightarrow>
   (\<exists>ds. em_body e' = em_body e @ concat (map written_lines ds) \<and> map fst ds = map fst bbs \<and>
      (\<forall>d \<in> set ds. written_ok d)) \<and>
   unat (em_used e') = unat (em_used e) + blocks_bytes bbs \<and> emitter_ok e'"
proof (induction bbs arbitrary: e)
  case (Cons bb bbs)
  obtain nm Is where bb: "bb = (nm, Is)" by (cases bb)
  let ?e0 = "emit_basic_block_start nm e"
  obtain e1 where e1: "visit_insts Is ?e0 = Inr e1" "visit_basic_blocks bbs e1 = Inr e'"
    using Cons.prems(1) by (auto simp: bb visit_basic_block_def result_iff)
  have e0: "emitter_ok ?e0" "em_used ?e0 = em_used e" "em_body ?e0 = em_body e @ [nm @ '':'']"
    using Cons.prems(3) by (simp_all add: emit_basic_block_start_def emitter_ok_def offsets_ok_def, simp add: emit_line_def)
  obtain ss where ss: "emits ?e0 e1 ss" "src_block_ok ss"
    and u: "unat (em_used e1) = unat (em_used e) + insts_bytes Is" "emitter_ok e1"
    using visit_insts_ok [OF e1(1)] Cons.prems e0 by (auto simp: bb blocks_bytes_def)
  from ss(1) obtain ls where ls: "em_body e1 = em_body e @ [nm @ '':''] @ ls" "writes_all ls ss"
    using e0(3) by (auto simp: emits_def)
  obtain ds where ds: "em_body e' = em_body e1 @ concat (map written_lines ds)" "map fst ds = map fst bbs"
      "\<forall>d \<in> set ds. written_ok d"
    and u': "unat (em_used e') = unat (em_used e1) + blocks_bytes bbs" "emitter_ok e'"
    using Cons.IH [OF e1(2)] Cons.prems u by (auto simp: bb blocks_bytes_def)
  have "written_ok (nm, ls, ss)" using ls(2) ss(2) Cons.prems(2) by (simp add: written_ok_def bb)
  with ds ls have "em_body e' = em_body e @ concat (map written_lines ((nm, ls, ss) # ds)) \<and>
      map fst ((nm, ls, ss) # ds) = map fst (bb # bbs) \<and> (\<forall>d \<in> set ((nm, ls, ss) # ds). written_ok d)"
    by (simp add: written_lines_def bb)
  with u u' show ?case by (intro conjI exI [of _ "(nm, ls, ss) # ds"]) (simp_all add: blocks_bytes_def bb)
qed (simp add: blocks_bytes_def)

subsection \<open>The text of a function\<close>

lemma clean_plain:
  assumes "plain l"
  shows "clean (body_line l) = clean [l]" "\<forall>x \<in> set (body_line l). newline \<notin> set x"
  using assms by (auto simp: plain_def body_line_def clean_def unindent_def is_space_def newline_def)

lemma label_starts: "bb_name nm \<Longrightarrow> nm \<noteq> [] \<and> hd nm = CHR ''.''"
  by (auto simp: bb_name_def regex_match_iff tBBName_def)

lemma clean_label:
  assumes "bb_name nm"
  shows "clean [nm @ '':''] = [nm @ '':'']" "clean (body_line (nm @ '':'')) = [nm @ '':'']"
    "\<forall>x \<in> set (body_line (nm @ '':'')). newline \<notin> set x" "clean [''  '' @ nm @ '':''] = [nm @ '':'']"
proof -
  note l = label_starts [OF assms] bb_line [OF assms]
  have h: "hd (nm @ '':'') = CHR ''.''" using l by simp
  have ns: "\<not> is_space (CHR ''.'')" by (simp add: is_space_def)
  have u: "unindent (nm @ '':'') = nm @ '':''" using h ns by (intro unindent_solid) simp_all
  have sp: "unindent (CHR '' '' # s) = unindent s" for s by (simp add: unindent_def is_space_def)
  show "clean [nm @ '':''] = [nm @ '':'']" "clean [''  '' @ nm @ '':''] = [nm @ '':'']"
    using u sp l by (simp_all add: clean_def)
  have b: "blank_line []" by (simp add: blank_line_def regex_match_iff lang_tESpace)
  show "clean (body_line (nm @ '':'')) = [nm @ '':'']" "\<forall>x \<in> set (body_line (nm @ '':'')). newline \<notin> set x"
    using u sp l h b by (auto simp: body_line_def clean_def unindent_def newline_def)
qed

lemma clean_lines:
  assumes "\<forall>l \<in> set ls. plain l"
  shows "clean (concat (map body_line ls)) = clean ls" "\<forall>x \<in> set (concat (map body_line ls)). newline \<notin> set x"
proof -
  have "clean (concat (map body_line ls)) = clean ls"
    if "\<forall>l \<in> set ls. plain l" for ls
    using that
  proof (induction ls)
    case (Cons l ls)
    then have "clean (l # ls) = clean [l] @ clean ls" by (simp flip: clean_append)
    with Cons show ?case using clean_plain(1) [of l] by simp
  qed simp
  then show "clean (concat (map body_line ls)) = clean ls" using assms .
  show "\<forall>x \<in> set (concat (map body_line ls)). newline \<notin> set x" using assms clean_plain(2) by auto
qed

lemma clean_Cons: "clean (l # ls) = clean [l] @ clean ls"
  by (simp flip: clean_append)

lemma clean_written:
  assumes "\<forall>d \<in> set ds. written_ok d"
  shows "clean (concat (map body_line (concat (map written_lines ds)))) = concat (map (show_block \<circ> written_src) ds)"
    and "\<forall>x \<in> set (concat (map body_line (concat (map written_lines ds)))). newline \<notin> set x"
proof -
  have *: "clean (concat (map body_line (written_lines d))) = show_block (written_src d) \<and>
      (\<forall>x \<in> set (concat (map body_line (written_lines d))). newline \<notin> set x)" if "written_ok d" for d
  proof -
    obtain nm ls ss where d: "d = (nm, ls, ss)" by (cases d)
    have w: "bb_name nm" "\<forall>l \<in> set ls. plain l" "clean ls = show_lines ss"
      using that by (auto simp: written_ok_def d writes_all_def)
    then show ?thesis
      using clean_label(2,3) [OF w(1)] clean_lines [OF w(2)]
      by (auto simp: d written_lines_def written_src_def show_block_def)
  qed
  show "clean (concat (map body_line (concat (map written_lines ds)))) = concat (map (show_block \<circ> written_src) ds)"
    using assms * by (induction ds) simp_all
  show "\<forall>x \<in> set (concat (map body_line (concat (map written_lines ds)))). newline \<notin> set x"
    using assms * by (induction ds) auto
qed

text \<open>The statement that reserves the frame.\<close>

definition prologue :: "u32 \<Rightarrow> (reg \<times> stmt_body) list" where
  "prologue used = (if 0 < used then [(RegSp, SBop Sub (VReg RegSp) (VLit (ucast used)) Size64)] else [])"

lemma RegSp_not_RegNone: "RegSp \<noteq> RegNone"
  by (simp add: reg_numbers)

lemma prologue_ok:
  fixes used :: u32
  defines "ls \<equiv> (if 0 < used then [''    ; init sp!'', ''    sp = sub sp '' @ u32_to_string used @ '' 64''] else [])"
  shows "clean ls = show_lines (prologue used)" "\<forall>x \<in> set ls. newline \<notin> set x"
    "straight (prologue used)" "\<forall>(lhs, b) \<in> set (prologue used). printable lhs b"
proof -
  let ?b = "SBop Sub (VReg RegSp) (VLit (ucast used)) Size64"
  have p: "printable RegSp ?b" by (simp add: printable_def)
  have line: "show_stmt RegSp ?b = ''sp = sub sp '' @ u32_to_string used @ '' 64''"
    using RegSp_not_RegNone by (simp add: show_stmt_def u32_to_string_u64)
  have w: "writes (show_stmt RegSp ?b) [(RegSp, ?b)]" by (rule writes_stmt [OF p])
  have c: "writes ''; init sp!'' []" using writes_comment [of "'' init sp!''"] by (simp add: line_end_def)
  have pl: "plain (show_stmt RegSp ?b)" "plain ''; init sp!''" using w c by (simp_all add: writes_def)
  have ls: "ls = (if 0 < used then body_line ''; init sp!'' @ body_line (show_stmt RegSp ?b) else [])"
    using pl by (simp add: ls_def body_line_def line plain_def)
  show "clean ls = show_lines (prologue used)"
    using w c clean_plain(1) [OF pl(1)] clean_plain(1) [OF pl(2)] by (simp add: ls prologue_def writes_def)
  show "\<forall>x \<in> set ls. newline \<notin> set x"
    using clean_plain(2) [OF pl(1)] clean_plain(2) [OF pl(2)] by (auto simp: ls)
  show "straight (prologue used)" "\<forall>(lhs, b) \<in> set (prologue used). printable lhs b"
    using p by (simp_all add: prologue_def straight_def)
qed

definition src_of :: "ir_function \<Rightarrow> u32 \<Rightarrow> written_block list \<Rightarrow> src_func" where
  "src_of F used ds =
     \<lparr> sf_name = fn_ir_name F, sf_nargs = length (fn_ir_args F),
       sf_blocks = (fst (hd ds), prologue used @ snd (written_src (hd ds))) # map written_src (tl ds) \<rparr>"

lemma function_text_ok:
  assumes "em_body e = concat (map written_lines ds)" "ds \<noteq> []" "\<forall>d \<in> set ds. written_ok d"
    "fn_name (fn_ir_name F)" "length (fn_ir_args F) \<le> 16"
  shows "clean (function_text F e) = show_func (src_of F (em_used e) ds)"
    and "\<forall>x \<in> set (function_text F e). newline \<notin> set x"
proof -
  obtain nm ls ss ds' where ds: "ds = (nm, ls, ss) # ds'" using assms(2) by (cases ds) auto
  have d: "bb_name nm" "\<forall>l \<in> set ls. plain l" "clean ls = show_lines ss" "\<forall>d \<in> set ds'. written_ok d"
    using assms(3) by (auto simp: ds written_ok_def writes_all_def)
  let ?pro = "if 0 < em_used e then [''    ; init sp!'', ''    sp = sub sp '' @ u32_to_string (em_used e) @ '' 64''] else []"
  let ?f = "src_of F (em_used e) ds"
  have good: "good (fn_ir_name F)" by (rule good_fn [OF assms(4)])
  have le: "\<forall>c \<in> set ('' Function '' @ fn_ir_name F). \<not> line_end c"
    using good by (auto simp: good_def word_char_def line_end_def is_space_def)
  have c1: "clean [''; Function '' @ fn_ir_name F] = []"
    using writes_comment [OF le] by (simp add: writes_def)
  have hdr: "show_header ?f = ''start '' @ fn_ir_name F @ '' '' @ nat_to_string (length (fn_ir_args F)) @ '':''"
    by (simp add: show_header_def src_of_def)
  have "\<not> blank_line (show_header ?f)"
    using not_blank [OF header_tokens] assms(4) by (simp add: src_of_def)
  then have c2: "clean [show_header ?f] = [show_header ?f]"
    by (simp add: clean_def unindent_def hdr is_space_def)
  have c3: "clean [''end '' @ fn_ir_name F] = [''end '' @ fn_ir_name F]"
    using end_line(4) [OF assms(4)] by (simp add: clean_def unindent_def is_space_def)
  have c0: "clean [[]] = []" by (simp add: clean_def unindent_def blank_line_def regex_match_iff lang_tESpace)
  have b: "em_body e = (nm @ '':'') # ls @ concat (map written_lines ds')" using assms(1) by (simp add: ds written_lines_def)
  have ft: "function_text F e = [[]] @ [''; Function '' @ fn_ir_name F] @ [show_header ?f] @ [''  '' @ nm @ '':''] @ ?pro
      @ concat (map body_line ls) @ concat (map body_line (concat (map written_lines ds'))) @ [''end '' @ fn_ir_name F]"
    by (simp add: function_text_def hdr b)
  have sf: "show_func ?f = show_header ?f # (nm @ '':'') # show_lines (prologue (em_used e)) @ show_lines ss @
      concat (map (show_block \<circ> written_src) ds') @ [''end '' @ fn_ir_name F]"
    by (simp add: show_func_def src_of_def ds show_block_def written_src_def comp_def)
  show "clean (function_text F e) = show_func ?f"
    unfolding ft sf clean_append c0 c1 c2 c3 clean_label(4) [OF d(1)] prologue_ok(1) clean_lines(1) [OF d(2)]
      clean_written(1) [OF d(4)] d(3) by simp
  have "newline \<notin> set (''; Function '' @ fn_ir_name F)" "newline \<notin> set (show_header ?f)" "newline \<notin> set (''end '' @ fn_ir_name F)"
    using good_no_newline [OF good] good_no_newline [OF good_nat] by (auto simp: newline_def hdr)
  moreover have "newline \<notin> set (''  '' @ nm @ '':'')" using bb_line(4) [OF d(1)] by (simp add: newline_def)
  ultimately show "\<forall>x \<in> set (function_text F e). newline \<notin> set x"
    unfolding ft using prologue_ok(2) [of "em_used e"] clean_lines(2) [OF d(2)] clean_written(2) [OF d(4)] by auto
qed

subsection \<open>Modules\<close>

definition defined :: "ir_function \<Rightarrow> bool" where
  "defined F \<longleftrightarrow> \<not> is_declaration F \<and> fn_ir_name F \<noteq> GetSPName"

text \<open>A function the target can express, with a frame that fits the \<open>int\<close> offsets.\<close>

definition function_ok :: "ir_function \<Rightarrow> bool" where
  "function_ok F \<longleftrightarrow> fn_name (fn_ir_name F) \<and> fn_ir_name F \<notin> {''read'', ''write''} \<and>
     length (fn_ir_args F) \<le> 16 \<and> distinct (map fst (fn_ir_blocks F)) \<and>
     (\<forall>(nm, Is) \<in> set (fn_ir_blocks F). bb_name nm \<and> ir_block_ok Is) \<and>
     blocks_bytes (fn_ir_blocks F) < 2 ^ 31"

definition module_ok :: "ir_function list \<Rightarrow> bool" where
  "module_ok M \<longleftrightarrow> (\<forall>F \<in> set M. defined F \<longrightarrow> function_ok F) \<and>
     distinct (map fn_ir_name (filter defined M)) \<and>
     (\<exists>F \<in> set M. defined F \<and> fn_ir_name F = ''main'' \<and> fn_ir_args F = [])"

text \<open>A source function with the interface of a function of the module.\<close>

definition implements :: "src_func \<Rightarrow> ir_function \<Rightarrow> bool" where
  "implements f F \<longleftrightarrow> src_func_ok f \<and> sf_name f = fn_ir_name F \<and> sf_nargs f = length (fn_ir_args F) \<and>
     map fst (sf_blocks f) = map fst (fn_ir_blocks F)"

lemma start_ok: "emitter_ok visit_function_start" "em_used visit_function_start = 0" "em_body visit_function_start = []"
  by (simp_all add: visit_function_start_def emitter_ok_def offsets_ok_def)

lemma visit_function_ok:
  assumes "visit_function F = Inr e" "function_ok F"
  obtains ds where "em_body e = concat (map written_lines ds)" "map fst ds = map fst (fn_ir_blocks F)"
    "\<forall>d \<in> set ds. written_ok d" "unat (em_used e) = blocks_bytes (fn_ir_blocks F)"
  using visit_blocks_ok [of "fn_ir_blocks F" visit_function_start e] assms start_ok
  by (auto simp: visit_function_def function_ok_def)

lemma src_of_implements:
  assumes "function_ok F" "map fst ds = map fst (fn_ir_blocks F)" "\<forall>d \<in> set ds. written_ok d" "ds \<noteq> []"
  shows "implements (src_of F used ds) F"
proof -
  obtain nm ls ss ds' where ds: "ds = (nm, ls, ss) # ds'" using assms(4) by (cases ds) auto
  have names: "map fst (sf_blocks (src_of F used ds)) = map fst (fn_ir_blocks F)"
    unfolding assms(2) [symmetric] by (simp add: src_of_def ds written_src_def comp_def case_prod_beta)
  have "src_block_ok (prologue used @ ss)"
    using assms(3) prologue_ok(3,4) by (intro src_block_straight) (auto simp: ds written_ok_def)
  then have "\<forall>(bb, b) \<in> set (sf_blocks (src_of F used ds)). bb_name bb \<and> src_block_ok b"
    using assms(3) by (auto simp: src_of_def ds written_src_def written_ok_def)
  then show ?thesis
    using assms(1) names unfolding implements_def src_func_ok_def function_ok_def
    by (auto simp: src_of_def)
qed

lemma run_function_ok:
  assumes "run_function gv F u = Inr (u', ls)" "defined F" "function_ok F"
  obtains f where "implements f F" "clean ls = show_func f" "\<forall>x \<in> set ls. newline \<notin> set x"
proof -
  obtain e0 where e0: "visit_function F = Inr e0"
    and ls: "0 < length (em_body e0)"
      "ls = function_text F (if fn_ir_name F = ''main'' then e0\<lparr>em_used := em_used e0 + gv\<rparr> else e0)"
    using assms(1,2) by (auto simp: run_function_def defined_def result_iff Let_def split: if_splits)
  obtain ds where ds: "em_body e0 = concat (map written_lines ds)" "map fst ds = map fst (fn_ir_blocks F)"
      "\<forall>d \<in> set ds. written_ok d"
    using visit_function_ok [OF e0 assms(3)] by metis
  let ?e = "if fn_ir_name F = ''main'' then e0\<lparr>em_used := em_used e0 + gv\<rparr> else e0"
  have "em_body ?e = concat (map written_lines ds)" "ds \<noteq> []" using ds(1) ls(1) by auto
  moreover have "fn_name (fn_ir_name F)" "length (fn_ir_args F) \<le> 16" using assms(3) by (simp_all add: function_ok_def)
  ultimately have "clean ls = show_func (src_of F (em_used ?e) ds)" "\<forall>x \<in> set ls. newline \<notin> set x"
    unfolding ls(2) using function_text_ok [of ?e ds F] ds(3) by auto
  with src_of_implements [OF assms(3) ds(2,3) \<open>ds \<noteq> []\<close>] show thesis by (rule that)
qed

lemma run_functions_ok:
  "\<lbrakk> run_functions gv M u = Inr ls; \<forall>F \<in> set M. defined F \<longrightarrow> function_ok F \<rbrakk> \<Longrightarrow>
   \<exists>fs. list_all2 implements fs (filter defined M) \<and> clean ls = show_program fs \<and> (\<forall>x \<in> set ls. newline \<notin> set x)"
proof (induction M arbitrary: u ls)
  case Nil
  then show ?case by (auto simp: show_program_def)
next
  case (Cons F M)
  obtain u' l1 l2 where r: "run_function gv F u = Inr (u', l1)" "run_functions gv M u' = Inr l2" "ls = l1 @ l2"
    using Cons.prems(1) by (auto simp: result_iff)
  obtain fs where fs: "list_all2 implements fs (filter defined M)" "clean l2 = show_program fs" "\<forall>x \<in> set l2. newline \<notin> set x"
    using Cons.IH [OF r(2)] Cons.prems(2) by auto
  show ?case
  proof (cases "defined F")
    case True
    obtain f where "implements f F" "clean l1 = show_func f" "\<forall>x \<in> set l1. newline \<notin> set x"
      using run_function_ok [OF r(1) True] Cons.prems(2) True by auto
    with fs r(3) True show ?thesis by (intro exI [of _ "f # fs"]) (auto simp: show_program_def)
  next
    case False
    then have "l1 = []" using r(1) by (auto simp: run_function_def defined_def)
    with fs r(3) False show ?thesis by auto
  qed
qed

lemma clean_idem: "clean (clean ls) = clean ls"
proof -
  have "unindent (unindent l) = unindent l" for l by (induction l) (simp_all add: unindent_def)
  then show ?thesis by (induction ls) (simp_all add: clean_def blank_unindent)
qed

lemma implements_names:
  "list_all2 implements fs Fs \<Longrightarrow> map sf_name fs = map fn_ir_name Fs \<and> (\<forall>f \<in> set fs. src_func_ok f)"
  by (induction rule: list_all2_induct) (auto simp: implements_def)

lemma emitted_program:
  assumes "emitter_run M = Inr ls" "module_ok M"
  obtains fs p where "list_all2 implements fs (filter defined M)" "parse (unlines ls) = Inr p"
    "erase_program p = erase_program (map_of (number_program 0 fs))"
proof -
  obtain fs where fs: "list_all2 implements fs (filter defined M)" "clean ls = show_program fs" "\<forall>x \<in> set ls. newline \<notin> set x"
    using run_functions_ok [of "gv_stack_usage M" M 0 ls] assms by (auto simp: emitter_run_def module_ok_def)
  have names: "map sf_name fs = map fn_ir_name (filter defined M)" "\<forall>f \<in> set fs. src_func_ok f"
    using implements_names [OF fs(1)] by simp_all
  then have ok: "src_ok fs" using assms(2) by (auto simp: src_ok_def module_ok_def)
  obtain F where F: "F \<in> set (filter defined M)" "fn_ir_name F = ''main''" "fn_ir_args F = []"
    using assms(2) by (auto simp: module_ok_def)
  then obtain i where "i < length (filter defined M)" "filter defined M ! i = F" unfolding in_set_conv_nth by blast
  then obtain f where "f \<in> set fs" "implements f F"
    using list_all2_nthD2 [OF fs(1)] list_all2_lengthD [OF fs(1)] nth_mem by metis
  with F have "\<exists>f \<in> set fs. sf_name f = ''main'' \<and> sf_nargs f = 0" by (auto simp: implements_def)
  from parse_printed [OF ok this] have p: "parse (unlines (show_program fs)) = Inr (map_of (number_program 0 fs))" .
  have nl: "\<forall>l \<in> set (show_program fs). newline \<notin> set l"
    using show_func_no_newline names(2) by (auto simp: show_program_def)
  have "clean (lines_of (unlines ls)) = clean (lines_of (unlines (show_program fs)))"
    unfolding lines_of_unlines [OF fs(3)] lines_of_unlines [OF nl] using fs(2) clean_idem [of ls] by simp
  from parse_result_clean [OF this] p
  have "parse_result (unlines ls) = Inr (erase_program (map_of (number_program 0 fs)))" by (simp add: parse_result_def)
  then obtain q where "parse (unlines ls) = Inr q" "erase_program q = erase_program (map_of (number_program 0 fs))"
    by (cases "parse (unlines ls)") (auto simp: parse_result_def)
  with fs(1) show thesis by (rule that)
qed

subsection \<open>The interface of the parsed program\<close>

lemma number_program_dom: "dom (map_of (number_program n fs)) = sf_name ` set fs"
  by (induction fs arbitrary: n) auto

lemma number_program_entry:
  "\<lbrakk> f \<in> set fs; distinct (map sf_name fs) \<rbrakk> \<Longrightarrow> \<exists>m. map_of (number_program n fs) (sf_name f) = Some (number_func m f)"
proof (induction fs arbitrary: n)
  case (Cons h fs)
  show ?case
  proof (cases "f = h")
    case False
    with Cons.prems have "f \<in> set fs" "sf_name f \<noteq> sf_name h" by (auto simp: image_iff)
    with Cons show ?thesis by simp
  qed auto
qed simp

lemma erased_entry:
  assumes "erase_program p = erase_program q" "q k = Some g"
  obtains f where "p k = Some f" "erase_func f = erase_func g"
  using fun_cong [OF assms(1), of k] assms(2) by (cases "p k") (auto simp: erase_program_def)

lemma number_func_interface:
  assumes "erase_func g = erase_func (number_func m f)"
  shows "fn_nargs g = int (sf_nargs f)" "first_bb g = fst (hd (sf_blocks f))"
    "dom (bb_map g) = fst ` set (sf_blocks f)"
proof -
  note e = erase_func_fields [OF assms]
  show "fn_nargs g = int (sf_nargs f)" "first_bb g = fst (hd (sf_blocks f))"
    using e(2,3) by (simp_all add: number_func_def)
  have "dom (bb_map g) = dom (bb_map (number_func m f))" using e(5) by (auto simp: dom_def)
  also have "\<dots> = set (map fst (number_blocks (m + 1) (sf_blocks f)))"
    by (simp only: number_func_def func.simps dom_map_of_conv_image_fst set_map)
  finally show "dom (bb_map g) = fst ` set (sf_blocks f)" unfolding number_blocks_fst by simp
qed

definition same_interface :: "func \<Rightarrow> ir_function \<Rightarrow> bool" where
  "same_interface f F \<longleftrightarrow> fn_nargs f = int (length (fn_ir_args F)) \<and> first_bb f = fst (hd (fn_ir_blocks F)) \<and>
     dom (bb_map f) = fst ` set (fn_ir_blocks F)"

lemma implements_interface:
  assumes "implements f F" "erase_func g = erase_func (number_func m f)"
  shows "same_interface g F"
proof -
  have b: "map fst (sf_blocks f) = map fst (fn_ir_blocks F)" "sf_blocks f \<noteq> []" "sf_nargs f = length (fn_ir_args F)"
    using assms(1) by (auto simp: implements_def src_func_ok_def)
  then have "fst (hd (sf_blocks f)) = fst (hd (fn_ir_blocks F))" by (metis list.map_sel(1) map_is_Nil_conv)
  moreover have "fst ` set (sf_blocks f) = fst ` set (fn_ir_blocks F)" using b(1) by (metis list.set_map)
  ultimately show ?thesis using number_func_interface [OF assms(2)] b(3) by (simp add: same_interface_def)
qed

lemma emitted_interface:
  assumes "emitter_run M = Inr ls" "module_ok M"
  shows "\<exists>p. parse (unlines ls) = Inr p \<and> program_ok p \<and> dom p = fn_ir_name ` {F \<in> set M. defined F} \<and>
    (\<forall>F \<in> set M. defined F \<longrightarrow> (\<exists>f. p (fn_ir_name F) = Some f \<and> same_interface f F))"
proof -
  obtain fs p where fs: "list_all2 implements fs (filter defined M)" and p: "parse (unlines ls) = Inr p"
    and e: "erase_program p = erase_program (map_of (number_program 0 fs))"
    using assms by (rule emitted_program)
  have names: "map sf_name fs = map fn_ir_name (filter defined M)" using implements_names [OF fs] by simp
  have "dom p = dom (map_of (number_program 0 fs))" using same_domain [OF e] by (auto simp: dom_def)
  also have "\<dots> = set (map sf_name fs)" by (simp add: number_program_dom)
  also have "\<dots> = fn_ir_name ` {F \<in> set M. defined F}" by (simp add: names)
  finally have dom: "dom p = fn_ir_name ` {F \<in> set M. defined F}" .
  have "\<exists>f. p (fn_ir_name F) = Some f \<and> same_interface f F" if "F \<in> set (filter defined M)" for F
  proof -
    obtain i where "i < length (filter defined M)" "filter defined M ! i = F" using \<open>F \<in> _\<close> unfolding in_set_conv_nth by blast
    then obtain f where f: "f \<in> set fs" "implements f F"
      using list_all2_nthD2 [OF fs] list_all2_lengthD [OF fs] nth_mem by metis
    have "distinct (map sf_name fs)" using assms(2) names by (simp add: module_ok_def)
    then obtain m where "map_of (number_program 0 fs) (sf_name f) = Some (number_func m f)"
      using number_program_entry [OF f(1)] by blast
    with e obtain g where "p (sf_name f) = Some g" "erase_func g = erase_func (number_func m f)" by (rule erased_entry)
    with implements_interface [OF f(2)] f(2) show ?thesis by (auto simp: implements_def)
  qed
  then show ?thesis using p parse_accepts_well_formed [OF p] dom by auto
qed

subsection \<open>The frame\<close>

text \<open>The slots of a function in the order of its instructions.\<close>

definition slots :: "inst list \<Rightarrow> (nat \<times> ty) list" where
  "slots Is = concat (map (\<lambda>I. case iop I of OpAlloca t \<Rightarrow> if garbage I then [] else [(iid I, t)] | _ \<Rightarrow> []) Is)"

definition function_slots :: "ir_function \<Rightarrow> (nat \<times> ty) list" where
  "function_slots F = slots (concat (map snd (fn_ir_blocks F)))"

definition slots_bytes :: "(nat \<times> ty) list \<Rightarrow> nat" where
  "slots_bytes L = sum_list (map (slot_bytes \<circ> snd) L)"

text \<open>The slots so far lie one behind the other.\<close>

definition laid_out :: "(nat \<times> ty) list \<Rightarrow> emitter \<Rightarrow> bool" where
  "laid_out L e \<longleftrightarrow> distinct (map fst L) \<and> dom (em_offset e) = fst ` set L \<and>
     unat (em_used e) = slots_bytes L \<and>
     (\<forall>k < length L. \<exists>ofs. em_offset e (fst (L ! k)) = Some ofs \<and> unat ofs = slots_bytes (take k L))"

lemma laid_out_add:
  assumes "laid_out L e" "em_offset e i = None" "em_offset e' = (em_offset e)(i \<mapsto> em_used e)"
    "unat (em_used e') = unat (em_used e) + slot_bytes t"
  shows "laid_out (L @ [(i, t)]) e'"
proof -
  have i: "i \<notin> fst ` set L" using assms(1,2) by (auto simp: laid_out_def domIff)
  have "\<exists>ofs. em_offset e' (fst ((L @ [(i, t)]) ! k)) = Some ofs \<and> unat ofs = slots_bytes (take k (L @ [(i, t)]))"
    if "k < length (L @ [(i, t)])" for k
  proof (cases "k < length L")
    case True
    then have "fst (L ! k) \<noteq> i" using i nth_mem [OF True] by auto
    moreover obtain ofs where "em_offset e (fst (L ! k)) = Some ofs" "unat ofs = slots_bytes (take k L)"
      using assms(1) True unfolding laid_out_def by blast
    ultimately show ?thesis using True assms(3) by (simp add: nth_append)
  next
    case False
    then have "k = length L" using that by simp
    then show ?thesis using assms(1,3) by (simp add: laid_out_def)
  qed
  moreover have "dom (em_offset e') = insert i (fst ` set L)" using assms(1,3) by (auto simp: laid_out_def)
  ultimately show ?thesis using assms i by (auto simp: laid_out_def slots_bytes_def)
qed

lemma laid_out_keeps: "\<lbrakk> laid_out L e; em_offset e' = em_offset e; em_used e' = em_used e \<rbrakk> \<Longrightarrow> laid_out L e'"
  by (simp add: laid_out_def)

lemma slots_append [simp]: "slots (Is @ Js) = slots Is @ slots Js" "slots [] = []"
  by (simp_all add: slots_def)

lemma visit_inst_laid_out:
  assumes v: "visit_inst I e = Inr e'" and ok: "emitter_ok e" "inst_ok I"
    and b: "unat (em_used e) + inst_bytes I < 2 ^ 31" and l: "laid_out L e"
  shows "laid_out (L @ slots [I]) e'"
proof (cases "\<exists>t. iop I = OpAlloca t")
  case True
  then obtain a n nm t vs where I: "I = Inst n (OpAlloca a) nm t vs" by (cases I) auto
  show ?thesis
  proof (cases "garbage I")
    case True
    with v l show ?thesis by (simp add: I visit_alloca_def garbage_def slots_def)
  next
    case False
    then have "unat (em_used e) + slot_bytes a < 2 ^ 31" using b by (simp add: I inst_bytes_def)
    note a = visit_alloca_ok [OF _ ok(1) this False]
    have "laid_out (L @ [(iid I, a)]) e'"
      using v by (intro laid_out_add [OF l a(2-4)]) (simp_all add: I)
    with False show ?thesis by (simp add: I slots_def)
  qed
next
  case False
  then have "keeps e e'"
    using visit_end_ok [OF v ok] visit_plain_ok [OF v ok] by (auto simp: step_ok_def)
  then have "laid_out L e'" using l by (auto simp: keeps_def intro: laid_out_keeps)
  moreover have "slots [I] = []" using False by (auto simp: slots_def split: opcode.splits)
  ultimately show ?thesis by simp
qed

lemma visit_insts_laid_out:
  "\<lbrakk> visit_insts Is e = Inr e'; ir_block_ok Is; emitter_ok e; unat (em_used e) + insts_bytes Is < 2 ^ 31; laid_out L e \<rbrakk> \<Longrightarrow>
   laid_out (L @ slots Is) e'"
proof (induction Is arbitrary: e L)
  case (Cons I Is)
  obtain e1 where e1: "visit_inst I e = Inr e1" "visit_insts Is e1 = Inr e'" using Cons.prems(1) by (auto simp: result_iff)
  have I: "inst_ok I" "unat (em_used e) + inst_bytes I < 2 ^ 31" using Cons.prems by auto
  have l: "laid_out (L @ slots [I]) e1" using e1(1) Cons.prems(3) I Cons.prems(5) by (rule visit_inst_laid_out)
  have u: "unat (em_used e1) = unat (em_used e) + inst_bytes I" "emitter_ok e1"
    using visit_inst_ok [OF e1(1) Cons.prems(3) I] by auto
  have eq: "(L @ slots [I]) @ slots Is = L @ slots (I # Is)" by (simp add: slots_def)
  show ?case
  proof (cases "ir_terminator I")
    case True
    then have "Is = []" using Cons.prems(2) by simp
    with e1(2) l show ?thesis by simp
  next
    case False
    then show ?thesis using Cons.IH [OF e1(2) _ u(2) _ l] Cons.prems u(1) unfolding eq by simp
  qed
qed simp

lemma visit_blocks_laid_out:
  "\<lbrakk> visit_basic_blocks bbs e = Inr e'; \<forall>(nm, Is) \<in> set bbs. bb_name nm \<and> ir_block_ok Is; emitter_ok e;
     unat (em_used e) + blocks_bytes bbs < 2 ^ 31; laid_out L e \<rbrakk> \<Longrightarrow>
   laid_out (L @ slots (concat (map snd bbs))) e'"
proof (induction bbs arbitrary: e L)
  case (Cons bb bbs)
  obtain nm Is where bb: "bb = (nm, Is)" by (cases bb)
  let ?e0 = "emit_basic_block_start nm e"
  obtain e1 where e1: "visit_insts Is ?e0 = Inr e1" "visit_basic_blocks bbs e1 = Inr e'"
    using Cons.prems(1) by (auto simp: bb visit_basic_block_def result_iff)
  have e0: "emitter_ok ?e0" "em_used ?e0 = em_used e" "laid_out L ?e0"
    using Cons.prems(3,5) by (simp_all add: emit_basic_block_start_def emitter_ok_def offsets_ok_def laid_out_def)
  have ok: "ir_block_ok Is" "unat (em_used ?e0) + insts_bytes Is < 2 ^ 31"
    using Cons.prems e0 by (auto simp: bb blocks_bytes_def)
  have l: "laid_out (L @ slots Is) e1" using e1(1) ok(1) e0(1) ok(2) e0(3) by (rule visit_insts_laid_out)
  have "unat (em_used e1) = unat (em_used e) + insts_bytes Is" "emitter_ok e1"
    using visit_insts_ok [OF e1(1) ok(1) e0(1) ok(2)] e0(2) by auto
  with Cons.IH [OF e1(2) _ _ _ l] Cons.prems show ?case by (simp add: bb blocks_bytes_def)
qed simp

lemma slots_bytes_take_le:
  assumes "j < k" "k \<le> length L"
  shows "slots_bytes (take j L) + slot_bytes (snd (L ! j)) \<le> slots_bytes (take k L)"
proof -
  have "take k L = take (Suc j) L @ take (k - Suc j) (drop (Suc j) L)"
    using assms by (metis Suc_leI le_add_diff_inverse take_add)
  moreover have "take (Suc j) L = take j L @ [L ! j]" using assms by (simp add: take_Suc_conv_app_nth)
  ultimately show ?thesis by (simp add: slots_bytes_def)
qed

lemma slot_bytes_ge: "size_bytes t \<le> slot_bytes t" "8 dvd slot_bytes t"
  unfolding slot_bytes_def by (auto simp: div_mult_mod_eq [symmetric]) 

lemma slots_bytes_dvd: "8 dvd slots_bytes L"
  by (induction L) (auto simp: slots_bytes_def intro: dvd_add slot_bytes_ge(2))

subsection \<open>The properties\<close>

text \<open>A small module: two stack slots, arithmetic, a call and a branch.\<close>

definition slot_a :: inst where "slot_a = Inst 1 (OpAlloca (TInt 32)) ''a'' (TPtr (TInt 32)) []"
definition slot_b :: inst where "slot_b = Inst 2 (OpAlloca (TArr 3 (TInt 64))) ''b'' (TPtr (TInt 64)) []"
definition load_a :: inst where "load_a = Inst 4 OpLoad ''__r1__before_zext__'' (TInt 32) [VInst slot_a]"
definition wide_a :: inst where "wide_a = Inst 5 OpZExt ''__r1__'' (TInt 64) [VInst load_a]"
definition call_f :: inst where "call_f = Inst 6 (OpCall ''f'') ''__r2__'' (TInt 64) [VInst wide_a]"

definition sample_module :: "ir_function list" where
  "sample_module =
     [\<lparr> fn_ir_name = ''f'', fn_ir_args = [(''__arg1__'', TInt 64)],
        fn_ir_blocks = [(''.e'', [Inst 0 OpRet [] TVoid [VArg ''__arg1__'' (TInt 64)]])] \<rparr>,
      \<lparr> fn_ir_name = ''main'', fn_ir_args = [],
        fn_ir_blocks =
          [(''.e'', [slot_a, slot_b, Inst 3 OpStore [] TVoid [VInt 32 5, VInst slot_a], load_a, wide_a, call_f,
                   Inst 7 (OpBr [''.x'']) [] TVoid []]),
           (''.x'', [Inst 8 OpRet [] TVoid [VInst call_f]])] \<rparr>]"

lemmas sample_insts = slot_a_def slot_b_def load_a_def wide_a_def call_f_def

lemma sample_names: "bb_name ''.e''" "bb_name ''.x''" "fn_name ''main''" "fn_name ''f''"
proof -
  have "regex_match ''f'' tName" by code_simp
  then show "fn_name ''f''" by (simp add: fn_name_def)
qed (rule names_in_lang)+

lemma sample_module_ok: "module_ok sample_module"
  by (simp add: module_ok_def sample_module_def function_ok_def defined_def is_declaration_def GetSPName_def
    sample_names sample_insts inst_ok_def ir_terminator_def access_ok_def call_ok_def special_call_def
    special_names blocks_bytes_def inst_bytes_def slot_bytes_def garbage_def ends_with_def)

lemma sample_module_text:
  "emitter_run sample_module = Inr
     [[], ''; Function f'', ''start f 1:'', ''  .e:'', ''    ret arg1'', ''end f'',
      [], ''; Function main'', ''start main 0:'', ''  .e:'', ''    ; init sp!'', ''    sp = sub sp 32 64'',
      ''    store 4 5 sp 0'', ''    r1 = load 4 sp 0'', ''    r2 = call f r1'', ''    br .x'',
      [], ''  .x:'', ''    ret r2'', ''end main'']"
  by code_simp

text \<open>
  C3. The interpreter accepts what the compiler writes. When the emitter writes a module whose
  names, widths and calls the target can express, the parser reads the text without an error as
  a well-formed program; the program has exactly the defined functions of the module, each with
  the same number of arguments, the same first block and the same block names.
\<close>

theorem compiled_code_is_accepted:
  assumes "emitter_run M = Inr ls" "module_ok M"
  shows "\<exists>p. parse (unlines ls) = Inr p \<and> program_ok p \<and> dom p = fn_ir_name ` {F \<in> set M. defined F} \<and>
    (\<forall>F \<in> set M. defined F \<longrightarrow> (\<exists>f. p (fn_ir_name F) = Some f \<and> same_interface f F))"
  using assms by (rule emitted_interface)

theorem compiled_code_is_accepted_witness:
  "\<exists>ls p. emitter_run sample_module = Inr ls \<and> length ls = 20 \<and> parse (unlines ls) = Inr p \<and> dom p = {''f'', ''main''}"
proof -
  have "fn_ir_name ` {F \<in> set sample_module. defined F} = set (map fn_ir_name (filter defined sample_module))" by auto
  also have "\<dots> = {''f'', ''main''}" by (simp add: sample_module_def defined_def is_declaration_def GetSPName_def)
  finally have "fn_ir_name ` {F \<in> set sample_module. defined F} = {''f'', ''main''}" .
  moreover note compiled_code_is_accepted [OF sample_module_text sample_module_ok]
  ultimately show ?thesis using sample_module_text by fastforce
qed

text \<open>
  C32. Every local variable of a function gets its own slot of the frame: the slots lie in the
  order of the \<open>alloca\<close> instructions, each starts at a multiple of eight behind the end of
  the previous one and ends inside the frame that the prologue reserves.
\<close>

theorem stack_slots_disjoint:
  assumes "visit_function F = Inr e" "function_ok F" "k < length (function_slots F)"
  shows "\<exists>ofs. em_offset e (fst (function_slots F ! k)) = Some ofs \<and>
    unat ofs = slots_bytes (take k (function_slots F)) \<and> 8 dvd unat ofs \<and>
    unat ofs + size_bytes (snd (function_slots F ! k)) \<le> unat (em_used e) \<and>
    (\<forall>j < k. \<exists>ofs'. em_offset e (fst (function_slots F ! j)) = Some ofs' \<and>
       unat ofs' + size_bytes (snd (function_slots F ! j)) \<le> unat ofs)"
proof -
  let ?L = "function_slots F"
  have "laid_out [] visit_function_start" by (simp add: laid_out_def visit_function_start_def slots_bytes_def)
  then have l: "laid_out ?L e"
    using visit_blocks_laid_out [of "fn_ir_blocks F" visit_function_start e "[]"] assms(1,2) start_ok
    by (simp add: visit_function_def function_ok_def function_slots_def)
  have at: "\<exists>ofs. em_offset e (fst (?L ! i)) = Some ofs \<and> unat ofs = slots_bytes (take i ?L)" if "i < length ?L" for i
    using l that unfolding laid_out_def by blast
  have le: "slots_bytes (take j ?L) + size_bytes (snd (?L ! j)) \<le> slots_bytes (take i ?L)" if "j < i" "i \<le> length ?L" for i j
    using slots_bytes_take_le [OF that] slot_bytes_ge(1) [of "snd (?L ! j)"] by linarith
  have "unat (em_used e) = slots_bytes (take (length ?L) ?L)" using l by (simp add: laid_out_def)
  then have "slots_bytes (take k ?L) + size_bytes (snd (?L ! k)) \<le> unat (em_used e)"
    using le [OF assms(3) order_refl] by simp
  moreover have "\<exists>ofs'. em_offset e (fst (?L ! j)) = Some ofs' \<and>
      unat ofs' + size_bytes (snd (?L ! j)) \<le> slots_bytes (take k ?L)" if "j < k" for j
    using at [of j] le [OF that] assms(3) that by auto
  ultimately show ?thesis using at [OF assms(3)] slots_bytes_dvd [of "take k ?L"] by auto
qed

theorem stack_slots_disjoint_witness:
  "\<exists>e ofs. visit_function (sample_module ! 1) = Inr e \<and> em_offset e 2 = Some ofs \<and> unat ofs = 8 \<and> 32 \<le> unat (em_used e)"
proof -
  let ?F = "sample_module ! 1"
  have s: "function_slots ?F = [(1, TInt 32), (2, TArr 3 (TInt 64))]" by code_simp
  have "case visit_function ?F of Inr e \<Rightarrow> True | Inl m \<Rightarrow> False" by code_simp
  then obtain e where e: "visit_function ?F = Inr e" by (cases "visit_function ?F") auto
  have "defined ?F" "?F \<in> set sample_module" by (simp_all add: sample_module_def defined_def is_declaration_def GetSPName_def)
  then have "function_ok ?F" using sample_module_ok unfolding module_ok_def by blast
  from stack_slots_disjoint [OF e this, of 1, unfolded s] e show ?thesis
    by (auto simp: slots_bytes_def slot_bytes_def)
qed

end
