(* ===== verification/Depromote.thy ===== *)
theory Depromote
  imports LLVM_IR Register_Allocator Emitter
begin

text \<open>
  The state of \<open>DepromoteRegisters\<close> (\<open>src/src/core/Backend.cpp\<close>) and its actions on
  the register allocator. The class rewrites a function block by block: it keeps the values of
  the block in registers as long as the allocator lets it, stores a value to its stack slot
  when the allocator evicts it and loads it back when it is used again.

  A source instruction is its number. What does not change while a function is rewritten is the
  context: the parents of the instructions, the sets \<open>FinalUses\<close>, the maps of arguments
  and globals, the phi nodes of each block with their incoming values, and the two libraries
  the code calls, the heap functions of the allocator and the constant folding of
  \<open>IRBuilder\<close>: \<open>cx_fold\<close> gives the value \<open>Create...\<close> returns when it does not
  insert an instruction. A failing assertion is \<open>Inl\<close> of what it asserts.
\<close>

type_synonym block_id = "string \<times> string"   \<comment> \<open>function and block\<close>

record fn_context =
  cx_parent :: "nat \<Rightarrow> block_id option"
  cx_final :: "block_id \<Rightarrow> nat set"
  cx_args :: "string \<Rightarrow> val_ir option"
  cx_globals :: "string \<Rightarrow> val_ir option"
  cx_phis :: "string \<Rightarrow> (inst \<times> (string \<Rightarrow> val_ir)) list"
  cx_functions :: "string list"
  cx_heap :: "nat heap_ops"
  cx_fold :: "opcode \<Rightarrow> ty \<Rightarrow> val_ir list \<Rightarrow> val_ir option"

record depromote =
  dp_ra :: "nat ra"
  dp_advent :: "nat \<Rightarrow> nat list"           \<comment> \<open>\<open>AdventMap\<close>\<close>
  dp_source :: "nat \<Rightarrow> val_ir option"      \<comment> \<open>\<open>SourceToEmitMap\<close>\<close>
  dp_slot :: "nat \<Rightarrow> inst option"          \<comment> \<open>\<open>RegToAllocaMap\<close>\<close>
  dp_phi_slot :: "nat \<Rightarrow> inst option"      \<comment> \<open>\<open>PhiToTempAllocaMap\<close>\<close>
  dp_ref_set :: bool
  dp_ref_spilled :: bool
  dp_block :: block_id                     \<comment> \<open>\<open>CurrentBlock\<close>\<close>
  dp_out :: "inst list"                    \<comment> \<open>the instructions of \<open>BBToEmit\<close>\<close>
  dp_number :: nat                         \<comment> \<open>the number of the next instruction created\<close>

definition RefSPId :: nat where "RefSPId = 16"

subsection \<open>Sequencing\<close>

type_synonym 'a action = "depromote \<Rightarrow> ('a \<times> depromote) checked"

definition ret :: "'a \<Rightarrow> 'a action" where
  "ret x = (\<lambda>s. Inr (x, s))"

definition bindm :: "'a action \<Rightarrow> ('a \<Rightarrow> 'b action) \<Rightarrow> 'b action" where
  "bindm m f = (\<lambda>s. rbind (m s) (\<lambda>(x, s'). f x s'))"

definition assert_that :: "bool \<Rightarrow> string \<Rightarrow> unit action" where
  "assert_that b msg = (\<lambda>s. check_that b msg (Inr ((), s)))"

definition gets :: "(depromote \<Rightarrow> 'a) \<Rightarrow> 'a action" where
  "gets f = (\<lambda>s. Inr (f s, s))"

definition update :: "(depromote \<Rightarrow> depromote) \<Rightarrow> unit action" where
  "update f = (\<lambda>s. Inr ((), f s))"

definition the_or :: "'a option \<Rightarrow> string \<Rightarrow> 'a action" where
  "the_or x msg = (\<lambda>s. case x of None \<Rightarrow> Inl msg | Some y \<Rightarrow> Inr (y, s))"

text \<open>A call of the register allocator.\<close>

definition with_ra :: "(nat ra \<Rightarrow> ('a \<times> nat ra) checked) \<Rightarrow> 'a action" where
  "with_ra f = (\<lambda>s. rbind (f (dp_ra s)) (\<lambda>(x, r). Inr (x, s\<lparr>dp_ra := r\<rparr>)))"

definition with_ra_unit :: "(nat ra \<Rightarrow> nat ra checked) \<Rightarrow> unit action" where
  "with_ra_unit f = with_ra (\<lambda>r. rbind (f r) (\<lambda>r'. Inr ((), r')))"

subsection \<open>Types and names\<close>

definition src_to_tgt_type :: "ty \<Rightarrow> ty checked" where
  "src_to_tgt_type t = (if is_int_ty t then Inr (TInt 64) else if is_ptr_ty t then Inr t else Inl ''isa<PointerType>(SrcTy)'')"

fun check_src_type :: "ty \<Rightarrow> bool" where
  "check_src_type (TInt bw) = (bw = 1 \<or> bw = 8 \<or> bw = 16 \<or> bw = 32 \<or> bw = 64)"
| "check_src_type (TArr n t) = check_src_type t"
| "check_src_type (TPtr t) = True"
| "check_src_type TVoid = False"

fun check_tgt_type :: "ty \<Rightarrow> bool" where
  "check_tgt_type (TInt bw) = (bw = 64)"
| "check_tgt_type (TPtr t) = True"
| "check_tgt_type _ = False"

definition assembly_register_name :: "nat \<Rightarrow> string" where
  "assembly_register_name n = ''__r'' @ nat_to_string n @ ''__''"

text \<open>\<open>assemblyRegisterName\<close> with its assertion.\<close>

definition register_name :: "nat \<Rightarrow> string action" where
  "register_name n = bindm (assert_that (n \<le> 16) ''0 <= registerId && registerId <= 16'') (\<lambda>_. ret (assembly_register_name n))"

subsection \<open>Building instructions\<close>

text \<open>\<open>Create...\<close> of \<open>IRBuilder\<close>: fold, or insert an instruction at the end of the block.\<close>

definition insert_inst :: "opcode \<Rightarrow> string \<Rightarrow> ty \<Rightarrow> val_ir list \<Rightarrow> val_ir action" where
  "insert_inst c nm t vs = (\<lambda>s.
     let I = Inst (dp_number s) c nm t vs
     in Inr (VInst I, s\<lparr>dp_out := dp_out s @ [I], dp_number := Suc (dp_number s)\<rparr>))"

definition build :: "fn_context \<Rightarrow> opcode \<Rightarrow> string \<Rightarrow> ty \<Rightarrow> val_ir list \<Rightarrow> val_ir action" where
  "build cx c nm t vs = (case cx_fold cx c t vs of Some v \<Rightarrow> ret v | None \<Rightarrow> insert_inst c nm t vs)"

definition emit_load_from_src_register :: "nat \<Rightarrow> nat \<Rightarrow> val_ir action" where
  "emit_load_from_src_register i r =
     bindm (gets (\<lambda>s. dp_slot s i)) (\<lambda>sl.
     bindm (the_or sl ''RegToAllocaMap.count(I)'') (\<lambda>slot.
     bindm (assert_that (1 \<le> r \<and> r \<le> 16) ''r1 ~ r16 are available only!'') (\<lambda>_.
     bindm (register_name r) (\<lambda>nm.
       (case ity slot of
          TPtr t \<Rightarrow>
            bindm (insert_inst OpLoad nm t [VInst slot]) (\<lambda>v.
            bindm (assert_that (check_tgt_type t) ''checkTgtType'') (\<lambda>_. ret v))
        | _ \<Rightarrow> (\<lambda>s. Inl ''not a pointer''))))))"

definition starts_with :: "string \<Rightarrow> string \<Rightarrow> bool" where
  "starts_with p s = (take (length p) s = p)"

definition emit_store_to_src_register :: "val_ir option \<Rightarrow> nat \<Rightarrow> unit action" where
  "emit_store_to_src_register v i =
     bindm (gets (\<lambda>s. dp_slot s i)) (\<lambda>sl.
     bindm (the_or sl ''RegToAllocaMap.count(I)'') (\<lambda>slot.
     bindm (the_or v ''null value'') (\<lambda>v.
     bindm (assert_that (check_tgt_type (val_ty v)) ''checkTgtType'') (\<lambda>_.
     bindm (assert_that (case v of VInst I \<Rightarrow> iname I = [] \<or> starts_with ''__r'' (iname I) | _ \<Rightarrow> True)
              ''I->getName().startswith(__r)'') (\<lambda>_.
     bindm (insert_inst OpStore [] TVoid [v, VInst slot]) (\<lambda>_. ret ()))))))"

subsection \<open>Actions on the allocator\<close>

text \<open>\<open>reportUse\<close>; the last argument says whether the front of the queue is popped.\<close>

definition report_use :: "fn_context \<Rightarrow> nat \<Rightarrow> nat option \<Rightarrow> bool \<Rightarrow> unit action" where
  "report_use cx i user pop =
     bindm (gets (\<lambda>s. dp_advent s i)) (\<lambda>q.
     bindm (assert_that (pop \<longrightarrow> q \<noteq> []) ''pop of an empty queue'') (\<lambda>_.
     let q' = (if pop then tl q else q)
     in bindm (update (\<lambda>s. s\<lparr>dp_advent := (dp_advent s)(i := q')\<rparr>)) (\<lambda>_.
        with_ra_unit (ra_update (cx_heap cx) i user (if q' = [] then NO_MORE_ADVENT else of_nat (hd q'))))))"

definition must_spill :: "fn_context \<Rightarrow> depromote \<Rightarrow> nat allocation \<Rightarrow> bool" where
  "must_spill cx s a \<longleftrightarrow>
     cx_parent cx (al_source a) = Some (dp_block s) \<and>
     (dp_advent s (al_source a) \<noteq> [] \<or>
      (case al_last a of
         None \<Rightarrow> True
       | Some u \<Rightarrow> (case cx_parent cx u of None \<Rightarrow> True | Some b \<Rightarrow> al_source a \<notin> cx_final cx b)))"

text \<open>\<open>evict\<close>, on the allocation the allocator gave up; \<open>None\<close> is a null pointer.\<close>

definition dp_evict :: "fn_context \<Rightarrow> nat allocation option \<Rightarrow> unit action" where
  "dp_evict cx alloc =
     bindm (the_or alloc ''null allocation'') (\<lambda>a.
     bindm (gets (\<lambda>s. (must_spill cx s a, dp_source s (al_source a)))) (\<lambda>(spill, v).
       if spill then emit_store_to_src_register v (al_source a) else ret ()))"

text \<open>The body of \<open>requestRegister\<close> up to its assertion.\<close>

definition request_or_evict :: "fn_context \<Rightarrow> nat \<Rightarrow> nat action" where
  "request_or_evict cx i =
     bindm (with_ra (ra_request i)) (\<lambda>r.
       if r = 0
       then bindm (with_ra (ra_evict (cx_heap cx) 0)) (\<lambda>alloc.
            bindm (dp_evict cx alloc) (\<lambda>_.
            bindm (with_ra (ra_request i)) (\<lambda>r'.
            bindm (assert_that (r' \<noteq> 0) ''request after an eviction should work!'') (\<lambda>_. ret r'))))
       else ret r)"

definition request_register :: "fn_context \<Rightarrow> nat \<Rightarrow> nat action" where
  "request_register cx i =
     bindm (request_or_evict cx i) (\<lambda>r.
     bindm (report_use cx i None False) (\<lambda>_. ret r))"

definition get_register :: "fn_context \<Rightarrow> nat \<Rightarrow> nat action" where
  "get_register cx i =
     bindm (gets (\<lambda>s. ra_get i (dp_ra s))) (\<lambda>r.
       if r = 0
       then bindm (request_register cx i) (\<lambda>r.
            bindm (emit_load_from_src_register i r) (\<lambda>v.
            bindm (update (\<lambda>s. s\<lparr>dp_source := (dp_source s)(i \<mapsto> v)\<rparr>)) (\<lambda>_. ret r)))
       else ret r)"

definition request_temp_register :: "fn_context \<Rightarrow> nat \<Rightarrow> nat action" where
  "request_temp_register cx target =
     bindm (with_ra (ra_request_temp target)) (\<lambda>r.
       if r = 0
       then bindm (with_ra (ra_evict (cx_heap cx) target)) (\<lambda>alloc.
            bindm (dp_evict cx alloc) (\<lambda>_.
            bindm (with_ra (ra_request_temp target)) (\<lambda>r'.
            bindm (assert_that (r' \<noteq> 0) ''request tempreg after an eviction did not work!'') (\<lambda>_. ret r'))))
       else ret r)"

definition report_user :: "nat option \<Rightarrow> unit action" where
  "report_user u = update (\<lambda>s. s\<lparr>dp_ra := ra_report_user u (dp_ra s)\<rparr>)"

definition give_up_temp :: "nat \<Rightarrow> unit action" where
  "give_up_temp r = with_ra_unit (ra_give_up r)"

text \<open>The loop of \<open>clearRA\<close>; each turn removes an allocation, so their number bounds it.\<close>

fun clear_loop :: "nat \<Rightarrow> fn_context \<Rightarrow> unit action" where
  "clear_loop n cx =
     bindm (with_ra (ra_evict (cx_heap cx) 0)) (\<lambda>alloc. case alloc of
         None \<Rightarrow> ret ()
       | Some a \<Rightarrow>
           (case n of
              0 \<Rightarrow> (\<lambda>s. Inl ''bound'')
            | Suc m \<Rightarrow> bindm (dp_evict cx (Some a)) (\<lambda>_. clear_loop m cx)))"

definition clear_ra :: "fn_context \<Rightarrow> unit action" where
  "clear_ra cx = bindm (gets (\<lambda>s. length (ra_active (dp_ra s)))) (\<lambda>n. clear_loop n cx)"

subsection \<open>Operands\<close>

text \<open>
  \<open>translateSrcOperandToTgt\<close>: the value in the target and the register it is in, zero
  where the code leaves \<open>AllocId\<close> alone.
\<close>

definition translate_operand :: "fn_context \<Rightarrow> nat \<Rightarrow> val_ir \<Rightarrow> (val_ir \<times> nat) action" where
  "translate_operand cx user v =
     bindm (assert_that (check_src_type (val_ty v)) ''checkSrcType'') (\<lambda>_.
       (case v of
          VArg nm t \<Rightarrow> bindm (the_or (cx_args cx nm) ''ArgMap.count(A)'') (\<lambda>w. ret (w, 0))
        | VInt w c \<Rightarrow> ret (VInt 64 c, 0)
        | VNull t \<Rightarrow> ret (v, 0)
        | VUndef t \<Rightarrow> ret (VUndef (TInt 64), 0)
        | VGlobal g t \<Rightarrow> bindm (the_or (cx_globals cx g) ''GVMap.count(GV)'') (\<lambda>w. ret (w, 0))
        | VInst I \<Rightarrow>
            bindm (get_register cx (iid I)) (\<lambda>r.
            bindm (report_use cx (iid I) (Some user) True) (\<lambda>_.
            bindm (gets (\<lambda>s. dp_source s (iid I))) (\<lambda>w.
            bindm (the_or w ''null value'') (\<lambda>w. ret (w, r)))))
        | VConstExpr c vs t \<Rightarrow> (\<lambda>s. Inl ''Unknown instruction type!'')))"

fun translate_operands :: "fn_context \<Rightarrow> nat \<Rightarrow> val_ir list \<Rightarrow> val_ir list action" where
  "translate_operands cx user [] = ret []"
| "translate_operands cx user (v # vs) =
     bindm (translate_operand cx user v) (\<lambda>(w, r).
     bindm (translate_operands cx user vs) (\<lambda>ws. ret (w # ws)))"

end
