(* ===== verification/Depromote_Visit.thy ===== *)
theory Depromote_Visit
  imports Depromote
begin

text \<open>
  The visit functions of \<open>DepromoteRegisters\<close> (\<open>src/src/core/Backend.cpp\<close>): one
  definition per instruction class, with the calls of the allocator and of the builder in the
  order of the code, then blocks, functions and the dispatch of \<open>InstVisitor\<close>.
\<close>

definition unsupported :: "unit action" where
  "unsupported = (\<lambda>s. Inl ''DepromoteRegisters: Unsupported Instruction'')"

definition set_source :: "nat \<Rightarrow> val_ir \<Rightarrow> unit action" where
  "set_source i v = update (\<lambda>s. s\<lparr>dp_source := (dp_source s)(i \<mapsto> v)\<rparr>)"

text \<open>\<open>assemblyRegisterName(requestRegister(&I))\<close>\<close>

definition request_name :: "fn_context \<Rightarrow> nat \<Rightarrow> string action" where
  "request_name cx i = bindm (request_register cx i) register_name"

definition lift_checked :: "'a checked \<Rightarrow> 'a action" where
  "lift_checked r = (\<lambda>s. rbind r (\<lambda>x. Inr (x, s)))"

subsection \<open>Memory\<close>

definition dp_visit_alloca :: "fn_context \<Rightarrow> bool \<Rightarrow> inst \<Rightarrow> ty \<Rightarrow> unit action" where
  "dp_visit_alloca cx entry I t =
     bindm (assert_that entry ''Alloca is not in the entry block'') (\<lambda>_.
     bindm (assert_that (check_src_type t) ''checkSrcType'') (\<lambda>_.
     bindm (request_name cx (iid I)) (\<lambda>nm.
     bindm (insert_inst (OpAlloca t) nm (TPtr t) (iops I)) (\<lambda>v. set_source (iid I) v))))"

definition dp_visit_load :: "fn_context \<Rightarrow> inst \<Rightarrow> val_ir \<Rightarrow> unit action" where
  "dp_visit_load cx I p =
     bindm (assert_that (check_src_type (ity I)) ''checkSrcType'') (\<lambda>_.
     bindm (translate_operand cx (iid I) p) (\<lambda>(ptr, _).
       (case val_ty ptr of
          TPtr loaded \<Rightarrow>
            bindm (request_name cx (iid I)) (\<lambda>reg.
            bindm (if (case loaded of TInt w \<Rightarrow> w < 64 | _ \<Rightarrow> False)
                   then bindm (insert_inst OpLoad (reg @ ''before_zext__'') loaded [ptr]) (\<lambda>v.
                          build cx OpZExt reg (TInt 64) [v])
                   else insert_inst OpLoad reg loaded [ptr]) (\<lambda>v.
            bindm (assert_that (check_tgt_type (val_ty v)) ''checkTgtType'') (\<lambda>_.
              set_source (iid I) v)))
        | _ \<Rightarrow> (\<lambda>s. Inl ''not a pointer''))))"

definition dp_visit_store :: "fn_context \<Rightarrow> inst \<Rightarrow> val_ir \<Rightarrow> val_ir \<Rightarrow> unit action" where
  "dp_visit_store cx I v p =
     (let t = val_ty v in
      bindm (assert_that (check_src_type t) ''checkSrcType'') (\<lambda>_.
      bindm (report_user (Some (iid I))) (\<lambda>_.
      bindm (translate_operand cx (iid I) v) (\<lambda>(val, r).
      bindm (assert_that (check_tgt_type (val_ty val)) ''checkTgtType'') (\<lambda>_.
      bindm (if val_ty val \<noteq> t
             then bindm (register_name r) (\<lambda>nm.
                  bindm (assert_that (is_int_ty t \<and> is_int_ty (val_ty val)) ''Ty->isIntegerTy()'') (\<lambda>_.
                    build cx OpTrunc (nm @ ''after_trunc__'') t [val]))
             else ret val) (\<lambda>val.
      bindm (translate_operand cx (iid I) p) (\<lambda>(ptr, _).
      bindm (insert_inst OpStore [] TVoid [val, ptr]) (\<lambda>_. report_user None))))))))"

subsection \<open>Arithmetic\<close>

text \<open>\<open>CreateBitCast\<close>: nothing to do when the type is right.\<close>

definition create_bitcast :: "fn_context \<Rightarrow> val_ir \<Rightarrow> ty \<Rightarrow> string \<Rightarrow> val_ir action" where
  "create_bitcast cx v t nm = (if val_ty v = t then ret v else build cx OpBitCast nm t [v])"

text \<open>\<open>CreateTruncOrBitCast\<close>: nothing to do when the type is right.\<close>

definition trunc_or_bitcast :: "fn_context \<Rightarrow> val_ir \<Rightarrow> ty \<Rightarrow> string \<Rightarrow> val_ir action" where
  "trunc_or_bitcast cx v t nm =
     (if val_ty v = t then ret v
      else build cx (if is_int_ty (val_ty v) \<and> is_int_ty t then OpTrunc else OpBitCast) nm t [v])"

text \<open>Both operands of a binary operator or comparison, truncated to the type of the operation.\<close>

definition two_operands :: "fn_context \<Rightarrow> nat \<Rightarrow> ty \<Rightarrow> val_ir \<Rightarrow> val_ir \<Rightarrow> (val_ir \<times> val_ir) action" where
  "two_operands cx i t a b =
     bindm (report_user (Some i)) (\<lambda>_.
     bindm (translate_operand cx i a) (\<lambda>(op1, r1).
     bindm (translate_operand cx i b) (\<lambda>(op2, r2).
     bindm (register_name r1) (\<lambda>n1.
     bindm (trunc_or_bitcast cx op1 t (n1 @ ''after_trunc__'')) (\<lambda>t1.
     bindm (register_name r2) (\<lambda>n2.
     bindm (trunc_or_bitcast cx op2 t (n2 @ ''after_trunc__'')) (\<lambda>t2.
     bindm (report_user None) (\<lambda>_. ret (t1, t2)))))))))"

definition dp_visit_binary :: "fn_context \<Rightarrow> inst \<Rightarrow> bop_kind \<Rightarrow> val_ir \<Rightarrow> val_ir \<Rightarrow> unit action" where
  "dp_visit_binary cx I k a b =
     bindm (assert_that (check_src_type (ity I)) ''checkSrcType'') (\<lambda>_.
     bindm (two_operands cx (iid I) (ity I) a b) (\<lambda>(t1, t2).
     bindm (request_name cx (iid I)) (\<lambda>reg.
     bindm (if ity I \<noteq> TInt 64
            then bindm (build cx (OpBin k) (reg @ ''before_zext__'') (ity I) [t1, t2]) (\<lambda>v.
                   build cx OpZExt reg (TInt 64) [v])
            else build cx (OpBin k) reg (ity I) [t1, t2]) (\<lambda>v.
       set_source (iid I) v))))"

definition dp_visit_icmp :: "fn_context \<Rightarrow> inst \<Rightarrow> bop_kind \<Rightarrow> val_ir \<Rightarrow> val_ir \<Rightarrow> unit action" where
  "dp_visit_icmp cx I k a b =
     (let t = val_ty a in
      bindm (assert_that (check_src_type (ity I) \<and> check_src_type t) ''checkSrcType'') (\<lambda>_.
      bindm (two_operands cx (iid I) t a b) (\<lambda>(t1, t2).
      bindm (request_name cx (iid I)) (\<lambda>reg.
      bindm (build cx (OpICmp k) (reg @ ''before_zext__'') (TInt 1) [t1, t2]) (\<lambda>c.
      bindm (build cx OpZExt reg (TInt 64) [c]) (\<lambda>v. set_source (iid I) v))))))"

definition dp_visit_select :: "fn_context \<Rightarrow> inst \<Rightarrow> val_ir \<Rightarrow> val_ir \<Rightarrow> val_ir \<Rightarrow> unit action" where
  "dp_visit_select cx I c a b =
     bindm (report_user (Some (iid I))) (\<lambda>_.
     bindm (translate_operand cx (iid I) c) (\<lambda>(cond, r).
     bindm (assert_that (val_ty cond = TInt 64) ''OpCond->getType() == I64Ty'') (\<lambda>_.
     bindm (register_name r) (\<lambda>nm.
     bindm (build cx OpTrunc (nm @ ''after_trunc__'') (TInt 1) [cond]) (\<lambda>cond.
     bindm (translate_operand cx (iid I) a) (\<lambda>(left, _).
     bindm (translate_operand cx (iid I) b) (\<lambda>(right, _).
     bindm (report_user None) (\<lambda>_.
     bindm (request_name cx (iid I)) (\<lambda>reg.
     bindm (build cx OpSelect reg (val_ty left) [cond, left, right]) (\<lambda>v. set_source (iid I) v))))))))))"

text \<open>
  The loop of \<open>visitGetElementPtrInst\<close> over the indices: the pointer so far, the type it
  points to, and \<open>r\<close> the register that holds it.
\<close>

fun gep_loop :: "fn_context \<Rightarrow> nat \<Rightarrow> nat \<Rightarrow> ty \<Rightarrow> val_ir \<Rightarrow> val_ir list \<Rightarrow> val_ir action" where
  "gep_loop cx i r t ptr [] = ret ptr"
| "gep_loop cx i r t ptr (idx # rest) =
     bindm (assert_that (val_ty idx = TInt 64) ''We only accept getelementptr with indices of 64 bits.'') (\<lambda>_.
     bindm (translate_operand cx i idx) (\<lambda>(v, vr).
     bindm (the_or (get_access_size t) ''Unsupported access size type!'') (\<lambda>sz.
     bindm (if sz \<noteq> 1
            then bindm (assert_that (sz \<noteq> 0) ''sz != 0'') (\<lambda>_.
                 bindm (if vr \<noteq> 0
                        then bindm (request_temp_register cx 0) (\<lambda>q. bindm (give_up_temp q) (\<lambda>_. ret q))
                        else ret vr) (\<lambda>q.
                 bindm (register_name q) (\<lambda>nm.
                   build cx (OpBin Mul) nm (TInt 64) [v, VInt 64 (ucast sz)])))
            else ret v) (\<lambda>v.
     bindm (if (case v of VInt w c \<Rightarrow> c = 0 | _ \<Rightarrow> False) then ret ptr
            else bindm (register_name r) (\<lambda>nm. build cx OpGEP nm (TPtr (TInt 8)) [ptr, v])) (\<lambda>ptr.
       (case t of
          TArr n t' \<Rightarrow> gep_loop cx i r t' ptr rest
        | _ \<Rightarrow> bindm (assert_that (rest = []) ''Idx == GEPI.getNumIndices()'') (\<lambda>_. ret ptr)))))))"

definition dp_visit_gep :: "fn_context \<Rightarrow> inst \<Rightarrow> val_ir \<Rightarrow> val_ir list \<Rightarrow> unit action" where
  "dp_visit_gep cx I p idxs =
     bindm (report_user (Some (iid I))) (\<lambda>_.
     bindm (translate_operand cx (iid I) p) (\<lambda>(ptr, _).
     bindm (request_temp_register cx 0) (\<lambda>r.
     bindm (register_name r) (\<lambda>nm.
     bindm (create_bitcast cx ptr (TPtr (TInt 8)) nm) (\<lambda>base.
       (case val_ty p of
          TPtr t \<Rightarrow>
            bindm (gep_loop cx (iid I) r t base idxs) (\<lambda>addr.
            bindm (report_user None) (\<lambda>_.
            bindm (give_up_temp r) (\<lambda>_.
            bindm (request_name cx (iid I)) (\<lambda>reg.
            bindm (create_bitcast cx addr (ity I) reg) (\<lambda>v. set_source (iid I) v)))))
        | _ \<Rightarrow> (\<lambda>s. Inl ''not a pointer'')))))))"

subsection \<open>Casts\<close>

definition dp_visit_bitcast :: "fn_context \<Rightarrow> inst \<Rightarrow> val_ir \<Rightarrow> unit action" where
  "dp_visit_bitcast cx I v =
     bindm (translate_operand cx (iid I) v) (\<lambda>(w, _).
     bindm (request_name cx (iid I)) (\<lambda>reg.
     bindm (create_bitcast cx w (ity I) reg) (\<lambda>u. set_source (iid I) u)))"

text \<open>The multiplier and the shift of \<open>visitSExtInst\<close>, the divisor of \<open>visitTruncInst\<close>.\<close>

definition sext_factor :: "nat \<Rightarrow> u64" where
  "sext_factor bw = push_bit (64 - bw) 1"

definition sext_shift :: "nat \<Rightarrow> u64" where
  "sext_shift bw = of_nat (64 - bw)"

definition trunc_divisor :: "nat \<Rightarrow> u64" where
  "trunc_divisor bw = push_bit bw 1"

definition dp_visit_sext :: "fn_context \<Rightarrow> inst \<Rightarrow> val_ir \<Rightarrow> unit action" where
  "dp_visit_sext cx I v =
     (case val_ty v of
        TInt bw \<Rightarrow>
          bindm (translate_operand cx (iid I) v) (\<lambda>(w, _).
          bindm (request_name cx (iid I)) (\<lambda>reg.
          bindm (if bw < 64
                 then bindm (build cx (OpBin Mul) reg (TInt 64) [w, VInt 64 (sext_factor bw)]) (\<lambda>u.
                        build cx (OpBin Ashr) reg (TInt 64) [u, VInt 64 (sext_shift bw)])
                 else build cx (OpBin Mul) reg (TInt 64) [w, VInt 64 1]) (\<lambda>u.
            set_source (iid I) u)))
      | _ \<Rightarrow> (\<lambda>s. Inl ''not an integer type''))"

definition dp_visit_zext :: "fn_context \<Rightarrow> inst \<Rightarrow> val_ir \<Rightarrow> unit action" where
  "dp_visit_zext cx I v =
     bindm (translate_operand cx (iid I) v) (\<lambda>(w, _).
     bindm (request_name cx (iid I)) (\<lambda>reg.
     bindm (build cx (OpBin Mul) reg (TInt 64) [w, VInt 64 1]) (\<lambda>u. set_source (iid I) u)))"

definition dp_visit_trunc :: "fn_context \<Rightarrow> inst \<Rightarrow> val_ir \<Rightarrow> unit action" where
  "dp_visit_trunc cx I v =
     bindm (translate_operand cx (iid I) v) (\<lambda>(w, _).
       (case ity I of
          TInt bw \<Rightarrow>
            bindm (request_name cx (iid I)) (\<lambda>reg.
            bindm (build cx (OpBin Urem) reg (TInt 64) [w, VInt 64 (trunc_divisor bw)]) (\<lambda>u. set_source (iid I) u))
        | _ \<Rightarrow> (\<lambda>s. Inl ''not an integer type'')))"

text \<open>\<open>visitPtrToIntInst\<close> (to \<open>i64\<close>) and \<open>visitIntToPtrInst\<close>.\<close>

definition dp_visit_ptr_cast :: "fn_context \<Rightarrow> opcode \<Rightarrow> ty \<Rightarrow> inst \<Rightarrow> val_ir \<Rightarrow> unit action" where
  "dp_visit_ptr_cast cx c t I v =
     bindm (translate_operand cx (iid I) v) (\<lambda>(w, _).
     bindm (request_name cx (iid I)) (\<lambda>reg.
     bindm (if val_ty w = t then ret w else build cx c reg t [w]) (\<lambda>u. set_source (iid I) u)))"

subsection \<open>Calls\<close>

definition call_type :: "ty \<Rightarrow> ty checked" where
  "call_type t = (if t = TVoid then Inr (TInt 64) else src_to_tgt_type t)"

text \<open>What a call does to the reference stack pointer before its arguments are translated.\<close>

definition before_call :: "fn_context \<Rightarrow> string \<Rightarrow> unit action" where
  "before_call cx f =
     bindm (gets (\<lambda>s. (dp_ref_set s, dp_ref_spilled s))) (\<lambda>(ref_set, ref_spilled).
       if \<not> ref_set \<and> f = SetRefName
       then bindm (update (\<lambda>s. s\<lparr>dp_ref_set := True\<rparr>)) (\<lambda>_.
            bindm (request_temp_register cx RefSPId) (\<lambda>_. ret ()))
       else if ref_set \<and> f = SpillRefName then update (\<lambda>s. s\<lparr>dp_ref_spilled := True\<rparr>)
       else if ref_spilled then give_up_temp RefSPId
       else ret ())"

definition after_call :: "fn_context \<Rightarrow> string \<Rightarrow> unit action" where
  "after_call cx f =
     bindm (gets dp_ref_spilled) (\<lambda>ref_spilled.
       if ref_spilled \<and> f \<noteq> SpillRefName
       then bindm (request_temp_register cx RefSPId) (\<lambda>_. update (\<lambda>s. s\<lparr>dp_ref_spilled := False\<rparr>))
       else ret ())"

definition dp_visit_call :: "fn_context \<Rightarrow> inst \<Rightarrow> string \<Rightarrow> val_ir list \<Rightarrow> unit action" where
  "dp_visit_call cx I f vs =
     bindm (assert_that (f \<in> set (cx_functions cx)) ''FuncMap.count(CalledF)'') (\<lambda>_.
     bindm (before_call cx f) (\<lambda>_.
     bindm (translate_operands cx (iid I) vs) (\<lambda>args.
     bindm (lift_checked (call_type (ity I))) (\<lambda>t.
     bindm (if iname I \<noteq> []
            then bindm (request_name cx (iid I)) (\<lambda>reg.
                 bindm (insert_inst (OpCall f) reg t args) (\<lambda>v. set_source (iid I) v))
            else bindm (insert_inst (OpCall f) [] t args) (\<lambda>_. ret ())) (\<lambda>_.
       after_call cx f)))))"

subsection \<open>Terminators\<close>

definition dp_visit_return :: "fn_context \<Rightarrow> inst \<Rightarrow> val_ir list \<Rightarrow> unit action" where
  "dp_visit_return cx I vs =
     (case vs of
        v # _ \<Rightarrow> bindm (translate_operand cx (iid I) v) (\<lambda>(w, _). bindm (insert_inst OpRet [] TVoid [w]) (\<lambda>_. ret ()))
      | [] \<Rightarrow> bindm (insert_inst OpRet [] TVoid [VInt 64 0]) (\<lambda>_. ret ()))"

text \<open>\<open>processPHIsInSuccessor\<close>: its loop over the phi nodes of a block.\<close>

fun process_phis :: "fn_context \<Rightarrow> string \<Rightarrow> nat \<Rightarrow> (inst \<times> (string \<Rightarrow> val_ir)) list \<Rightarrow> unit action" where
  "process_phis cx from user [] = ret ()"
| "process_phis cx from user ((phi, incoming) # phis) =
     bindm (translate_operand cx user (incoming from)) (\<lambda>(v, _).
     bindm (assert_that (check_tgt_type (val_ty v)) ''checkTgtType'') (\<lambda>_.
     bindm (assert_that (case v of VInst I \<Rightarrow> iname I = [] \<or> starts_with ''__r'' (iname I) | _ \<Rightarrow> True)
              ''V->getName().startswith(__r)'') (\<lambda>_.
     bindm (gets (\<lambda>s. dp_phi_slot s (iid phi))) (\<lambda>sl.
     bindm (the_or sl ''PhiToTempAllocaMap.count(&PHI)'') (\<lambda>slot.
     bindm (insert_inst OpStore [] TVoid [v, VInst slot]) (\<lambda>_. process_phis cx from user phis))))))"

fun process_successors :: "fn_context \<Rightarrow> string \<Rightarrow> nat \<Rightarrow> string list \<Rightarrow> unit action" where
  "process_successors cx from user [] = ret ()"
| "process_successors cx from user (succ # succs) =
     bindm (process_phis cx from user (cx_phis cx succ)) (\<lambda>_. process_successors cx from user succs)"

definition block_label :: "string \<Rightarrow> string" where
  "block_label bb = CHR ''.'' # bb"

definition dp_visit_branch :: "fn_context \<Rightarrow> string \<Rightarrow> inst \<Rightarrow> string list \<Rightarrow> val_ir list \<Rightarrow> unit action" where
  "dp_visit_branch cx from I succs vs =
     bindm (process_successors cx from (iid I) succs) (\<lambda>_.
       (case (succs, vs) of
          ([bb], _) \<Rightarrow>
            bindm (clear_ra cx) (\<lambda>_. bindm (insert_inst (OpBr [block_label bb]) [] TVoid []) (\<lambda>_. ret ()))
        | ([t, f], c # _) \<Rightarrow>
            bindm (translate_operand cx (iid I) c) (\<lambda>(cond, r).
            bindm (register_name r) (\<lambda>nm.
            bindm (build cx (OpICmp Ne) (nm @ ''to_i1__'') (TInt 1) [cond, VInt 64 0]) (\<lambda>condi1.
            bindm (clear_ra cx) (\<lambda>_.
            bindm (insert_inst (OpBr [block_label t, block_label f]) [] TVoid [condi1]) (\<lambda>_. ret ())))))
        | _ \<Rightarrow> (\<lambda>s. Inl ''malformed branch'')))"

definition dp_visit_switch :: "fn_context \<Rightarrow> string \<Rightarrow> inst \<Rightarrow> (u64 \<times> string) list \<Rightarrow> string \<Rightarrow> val_ir list \<Rightarrow> unit action" where
  "dp_visit_switch cx from I cases d vs =
     bindm (process_successors cx from (iid I) (d # map snd cases)) (\<lambda>_.
       (case vs of
          c # _ \<Rightarrow>
            bindm (translate_operand cx (iid I) c) (\<lambda>(cond, _).
            bindm (clear_ra cx) (\<lambda>_.
            bindm (insert_inst (OpSwitch (map (\<lambda>(k, bb). (k, block_label bb)) cases) (block_label d)) [] TVoid [cond]) (\<lambda>_.
              ret ())))
        | [] \<Rightarrow> (\<lambda>s. Inl ''malformed switch'')))"

definition dp_visit_phi :: "fn_context \<Rightarrow> inst \<Rightarrow> unit action" where
  "dp_visit_phi cx I =
     bindm (gets (\<lambda>s. (dp_slot s (iid I), dp_phi_slot s (iid I)))) (\<lambda>(sl, psl).
     bindm (the_or sl ''RegToAllocaMap.count(&PN)'') (\<lambda>_.
     bindm (the_or psl ''PhiToTempAllocaMap.count(&PN)'') (\<lambda>slot.
     bindm (request_name cx (iid I)) (\<lambda>reg.
       (case ity slot of
          TPtr t \<Rightarrow> bindm (insert_inst OpLoad reg t [VInst slot]) (\<lambda>v. set_source (iid I) v)
        | _ \<Rightarrow> (\<lambda>s. Inl ''not a pointer''))))))"

subsection \<open>The dispatch\<close>

definition dp_visit_inst :: "fn_context \<Rightarrow> bool \<Rightarrow> string \<Rightarrow> inst \<Rightarrow> unit action" where
  "dp_visit_inst cx entry from I =
     (case (iop I, iops I) of
        (OpAlloca t, _) \<Rightarrow> dp_visit_alloca cx entry I t
      | (OpLoad, p # _) \<Rightarrow> dp_visit_load cx I p
      | (OpStore, v # p # _) \<Rightarrow> dp_visit_store cx I v p
      | (OpBin k, a # b # _) \<Rightarrow> dp_visit_binary cx I k a b
      | (OpICmp k, a # b # _) \<Rightarrow> dp_visit_icmp cx I k a b
      | (OpSelect, c # a # b # _) \<Rightarrow> dp_visit_select cx I c a b
      | (OpGEP, p # idxs) \<Rightarrow> dp_visit_gep cx I p idxs
      | (OpBitCast, v # _) \<Rightarrow> dp_visit_bitcast cx I v
      | (OpSExt, v # _) \<Rightarrow> dp_visit_sext cx I v
      | (OpZExt, v # _) \<Rightarrow> dp_visit_zext cx I v
      | (OpTrunc, v # _) \<Rightarrow> dp_visit_trunc cx I v
      | (OpPtrToInt, v # _) \<Rightarrow> dp_visit_ptr_cast cx OpPtrToInt (TInt 64) I v
      | (OpIntToPtr, v # _) \<Rightarrow> dp_visit_ptr_cast cx OpIntToPtr (ity I) I v
      | (OpCall f, vs) \<Rightarrow> dp_visit_call cx I f vs
      | (OpRet, vs) \<Rightarrow> dp_visit_return cx I vs
      | (OpBr succs, vs) \<Rightarrow> dp_visit_branch cx from I succs vs
      | (OpSwitch cases d, vs) \<Rightarrow> dp_visit_switch cx from I cases d vs
      | (OpPhi, _) \<Rightarrow> dp_visit_phi cx I
      | _ \<Rightarrow> unsupported)"

fun dp_visit_insts :: "fn_context \<Rightarrow> bool \<Rightarrow> string \<Rightarrow> inst list \<Rightarrow> unit action" where
  "dp_visit_insts cx entry from [] = ret ()"
| "dp_visit_insts cx entry from (I # Is) =
     bindm (dp_visit_inst cx entry from I) (\<lambda>_. dp_visit_insts cx entry from Is)"

end
