(* ===== verification/Depromote_Module.thy ===== *)
theory Depromote_Module
  imports Depromote_Visit
begin

text \<open>
  The outer part of \<open>DepromoteRegisters\<close> (\<open>src/src/core/Backend.cpp\<close>): where
  \<open>visitModule\<close> puts the global variables, what \<open>visitFunction\<close> and
  \<open>visitBasicBlock\<close> set up, and the walk over the functions of a module.
\<close>

definition STACK_SAFE_REGION :: u64 where "STACK_SAFE_REGION = 5120"

subsection \<open>Global variables\<close>

record gv_state =
  gv_heap :: u64     \<comment> \<open>\<open>GVHeapOffset\<close>\<close>
  gv_stack :: u64    \<comment> \<open>\<open>GVStackOffset\<close>\<close>
  gv_map :: "(string \<times> val_ir) list"
  gv_locs :: "(u64 \<times> bool \<times> u64) list"   \<comment> \<open>\<open>GVLocs\<close>: address, in the heap, size\<close>

definition gv_init :: gv_state where
  "gv_init = \<lparr> gv_heap = 20480, gv_stack = 10240, gv_map = [], gv_locs = [] \<rparr>"

definition gv_address :: "u64 \<Rightarrow> ty \<Rightarrow> val_ir" where
  "gv_address a t = VConstExpr CIntToPtr [VInt 64 a] (TPtr t)"

text \<open>One global variable with the type of its value. The size is an \<open>unsigned\<close>.\<close>

definition gv_size :: "u32 \<Rightarrow> u32" where
  "gv_size n = (n + 7) div 8 * 8"

definition place_global :: "string \<Rightarrow> ty \<Rightarrow> gv_state \<Rightarrow> gv_state checked" where
  "place_global g t s =
     (case get_access_size t of
        None \<Rightarrow> Inl ''Unsupported access size type!''
      | Some n \<Rightarrow>
          let sz = ucast (gv_size n) :: u64 in
          Inr (if STACK_SAFE_REGION \<le> gv_stack s - sz
               then let a = gv_stack s - sz in
                 s\<lparr>gv_stack := a, gv_map := gv_map s @ [(g, gv_address a t)], gv_locs := gv_locs s @ [(a, False, sz)]\<rparr>
               else s\<lparr>gv_map := gv_map s @ [(g, gv_address (gv_heap s) t)],
                      gv_locs := gv_locs s @ [(gv_heap s, True, sz)], gv_heap := gv_heap s + sz\<rparr>))"

text \<open>A global object is a global variable or a function.\<close>

datatype global_object = Global string ty | Func ir_function ty   \<comment> \<open>with its return type\<close>

fun function_target :: "ir_function \<Rightarrow> ty \<Rightarrow> ir_function checked" where
  "function_target F t =
     rbind (if \<forall>a \<in> set (fn_ir_args F). check_src_type (snd a) then Inr () else Inl ''checkSrcType'') (\<lambda>_.
     rbind (call_type t) (\<lambda>_.
       check_that (fn_ir_name F = ''malloc'' \<longrightarrow>
           (case fn_ir_args F of [a] \<Rightarrow> is_int_ty (snd a) | _ \<Rightarrow> False)) ''malloc has one argument''
       (check_that (fn_ir_name F = ''malloc'' \<longrightarrow> is_ptr_ty t) ''malloc should return pointer''
         (Inr (F\<lparr>fn_ir_blocks := []\<rparr>)))))"

text \<open>The loop of \<open>visitModule\<close>: the functions of the new module and the globals.\<close>

fun visit_globals :: "global_object list \<Rightarrow> gv_state \<Rightarrow> (ir_function list \<times> gv_state) checked" where
  "visit_globals [] s = Inr ([], s)"
| "visit_globals (Global g t # gs) s = rbind (place_global g t s) (visit_globals gs)"
| "visit_globals (Func F t # gs) s =
     rbind (function_target F t) (\<lambda>F'.
     rbind (visit_globals gs s) (\<lambda>(Fs, s'). Inr (F' # Fs, s')))"

definition malloc_declaration :: ir_function where
  "malloc_declaration = \<lparr> fn_ir_name = ''malloc'', fn_ir_args = [([], TInt 64)], fn_ir_blocks = [] \<rparr>"

definition visit_module :: "global_object list \<Rightarrow> (ir_function list \<times> gv_state) checked" where
  "visit_module gs =
     rbind (visit_globals gs gv_init) (\<lambda>(Fs, s).
       Inr (if ''malloc'' \<in> set (map fn_ir_name Fs) then Fs else Fs @ [malloc_declaration], s))"

text \<open>\<open>HeapSize\<close> and \<open>StackSize\<close> in \<open>visitBasicBlock\<close>.\<close>

definition heap_size :: "(u64 \<times> bool \<times> u64) list \<Rightarrow> u32" where
  "heap_size locs = foldl (\<lambda>n (a, h, sz). if h then n + ucast sz else n) 0 locs"

definition stack_size :: "(u64 \<times> bool \<times> u64) list \<Rightarrow> u32" where
  "stack_size locs = foldl (\<lambda>n (a, h, sz). if h then n else n + ucast sz) 0 locs"

definition set_global_declaration :: "u32 \<Rightarrow> ir_function" where
  "set_global_declaration n =
     \<lparr> fn_ir_name = ''__set_global_stack_'' @ u32_to_string n, fn_ir_args = [([], TInt 64)], fn_ir_blocks = [] \<rparr>"

subsection \<open>Blocks\<close>

text \<open>The slots of the entry block: one for each named instruction, two for a phi node.\<close>

definition make_slot :: "string \<Rightarrow> ty \<Rightarrow> inst action" where
  "make_slot nm t = (\<lambda>s.
     let I = Inst (dp_number s) (OpAlloca t) nm (TPtr t) []
     in Inr (I, s\<lparr>dp_out := dp_out s @ [I], dp_number := Suc (dp_number s)\<rparr>))"

fun make_slots :: "inst list \<Rightarrow> unit action" where
  "make_slots [] = ret ()"
| "make_slots (I # Is) =
     bindm (if iname I = [] then ret ()
            else
              bindm (assert_that (check_src_type (ity I)) ''checkSrcType'') (\<lambda>_.
              bindm (lift_checked (src_to_tgt_type (ity I))) (\<lambda>t.
              bindm (make_slot (iname I @ ''_slot'') t) (\<lambda>slot.
              bindm (update (\<lambda>s. s\<lparr>dp_slot := (dp_slot s)(iid I \<mapsto> slot)\<rparr>)) (\<lambda>_.
                if iop I = OpPhi
                then bindm (make_slot (iname I @ ''_phi_tmp_slot'') t) (\<lambda>slot.
                       update (\<lambda>s. s\<lparr>dp_phi_slot := (dp_phi_slot s)(iid I \<mapsto> slot)\<rparr>))
                else ret ())))))
       (\<lambda>_. make_slots Is)"

text \<open>The queues of uses: the uses of one instruction at a time step.\<close>

definition push_uses :: "nat \<Rightarrow> val_ir list \<Rightarrow> (nat \<Rightarrow> nat list) \<Rightarrow> nat \<Rightarrow> nat list" where
  "push_uses t vs = fold (\<lambda>v q. case v of VInst I \<Rightarrow> q(iid I := q (iid I) @ [t]) | _ \<Rightarrow> q) vs"

definition successors :: "inst \<Rightarrow> string list" where
  "successors I = (case iop I of OpBr bbs \<Rightarrow> bbs | OpSwitch cases d \<Rightarrow> d # map snd cases | _ \<Rightarrow> [])"

definition phi_uses :: "fn_context \<Rightarrow> string \<Rightarrow> string list \<Rightarrow> val_ir list" where
  "phi_uses cx from succs = concat (map (\<lambda>bb. map (\<lambda>(phi, incoming). incoming from) (cx_phis cx bb)) succs)"

definition uses_at :: "fn_context \<Rightarrow> string \<Rightarrow> inst \<Rightarrow> val_ir list" where
  "uses_at cx from I = (if iop I = OpPhi then [] else iops I) @ phi_uses cx from (successors I)"

fun advents :: "fn_context \<Rightarrow> string \<Rightarrow> nat \<Rightarrow> inst list \<Rightarrow> (nat \<Rightarrow> nat list) \<Rightarrow> nat \<Rightarrow> nat list" where
  "advents cx from t [] q = q"
| "advents cx from t (I # Is) q = advents cx from (Suc t) Is (push_uses t (uses_at cx from I) q)"

text \<open>\<open>visitBasicBlock\<close>, then the instructions of the block; \<open>heap\<close> is \<open>HeapSize\<close>.\<close>

definition dp_visit_block :: "fn_context \<Rightarrow> string \<Rightarrow> bool \<Rightarrow> u32 \<Rightarrow> inst list \<Rightarrow> ir_block \<Rightarrow> ir_block action" where
  "dp_visit_block cx fname entry heap all_insts bb =
     bindm (update (\<lambda>s. s\<lparr>dp_out := []\<rparr>)) (\<lambda>_.
     bindm (if entry then make_slots all_insts else ret ()) (\<lambda>_.
     bindm (if entry \<and> fname = ''main'' \<and> heap \<noteq> 0
            then bindm (insert_inst (OpCall ''malloc'') (assembly_register_name 1) (TPtr (TInt 8)) [VInt 64 (ucast heap)]) (\<lambda>_. ret ())
            else ret ()) (\<lambda>_.
     bindm (update (\<lambda>s. s\<lparr>dp_advent := advents cx (fst bb) 0 (snd bb) (\<lambda>_. []), dp_source := Map.empty,
                        dp_block := (fname, fst bb)\<rparr>)) (\<lambda>_.
     bindm (dp_visit_insts cx entry (fst bb) (snd bb)) (\<lambda>_.
     bindm (gets dp_out) (\<lambda>out. ret (block_label (fst bb), out)))))))"

fun dp_visit_blocks :: "fn_context \<Rightarrow> string \<Rightarrow> bool \<Rightarrow> u32 \<Rightarrow> inst list \<Rightarrow> ir_block list \<Rightarrow> ir_block list action" where
  "dp_visit_blocks cx fname entry heap all_insts [] = ret []"
| "dp_visit_blocks cx fname entry heap all_insts (bb # bbs) =
     bindm (dp_visit_block cx fname entry heap all_insts bb) (\<lambda>bb'.
     bindm (dp_visit_blocks cx fname False heap all_insts bbs) (\<lambda>bbs'. ret (bb' # bbs')))"

subsection \<open>Functions\<close>

definition arg_name :: "nat \<Rightarrow> string" where
  "arg_name i = ''__arg'' @ nat_to_string (i + 1) @ ''__''"

text \<open>\<open>ArgMap\<close> and the arguments of the new function.\<close>

definition target_args :: "(string \<times> ty) list \<Rightarrow> (string \<times> ty) list" where
  "target_args args = map (\<lambda>(i, (nm, t)). (arg_name i, if is_int_ty t then TInt 64 else t)) (enumerate 0 args)"

definition arg_map :: "(string \<times> ty) list \<Rightarrow> string \<Rightarrow> val_ir option" where
  "arg_map args = map_of (map2 (\<lambda>a b. (fst a, VArg (fst b) (snd b))) args (target_args args))"

definition start_state :: "depromote \<Rightarrow> depromote" where
  "start_state s = s\<lparr>dp_ref_set := False, dp_ref_spilled := False, dp_ra := ra_init\<rparr>"

text \<open>\<open>visitFunction\<close> and the blocks of the function.\<close>

definition dp_visit_function :: "fn_context \<Rightarrow> u32 \<Rightarrow> ir_function \<Rightarrow> ir_function action" where
  "dp_visit_function cx heap F =
     (let cx = cx\<lparr>cx_args := arg_map (fn_ir_args F)\<rparr>; insts = concat (map snd (fn_ir_blocks F)) in
      bindm (assert_that (fn_ir_name F \<in> set (cx_functions cx)) ''FuncMap.count(&F)'') (\<lambda>_.
      bindm (update start_state) (\<lambda>_.
      bindm (dp_visit_blocks cx (fn_ir_name F) True heap insts (fn_ir_blocks F)) (\<lambda>bbs.
        ret (F\<lparr>fn_ir_args := target_args (fn_ir_args F), fn_ir_blocks := bbs\<rparr>)))))"

fun dp_visit_functions :: "(ir_function \<Rightarrow> fn_context) \<Rightarrow> u32 \<Rightarrow> ir_function list \<Rightarrow> ir_function list action" where
  "dp_visit_functions cxs heap [] = ret []"
| "dp_visit_functions cxs heap (F # Fs) =
     bindm (dp_visit_function (cxs F) heap F) (\<lambda>F'.
     bindm (dp_visit_functions cxs heap Fs) (\<lambda>Fs'. ret (F' # Fs')))"

definition empty_state :: depromote where
  "empty_state = \<lparr> dp_ra = ra_init, dp_advent = (\<lambda>_. []), dp_source = Map.empty, dp_slot = Map.empty,
     dp_phi_slot = Map.empty, dp_ref_set = False, dp_ref_spilled = False, dp_block = ([], []), dp_out = [], dp_number = 0 \<rparr>"

fun functions_of :: "global_object list \<Rightarrow> ir_function list" where
  "functions_of [] = []"
| "functions_of (Global g t # gs) = functions_of gs"
| "functions_of (Func F t # gs) = F # functions_of gs"

text \<open>
  \<open>Deprom.visit(M)\<close>: the depromoted functions, then the declarations the pass adds. The
  contexts of the functions hold what the earlier passes computed.
\<close>

definition depromote_module :: "(ir_function \<Rightarrow> fn_context) \<Rightarrow> global_object list \<Rightarrow> ir_function list checked" where
  "depromote_module cxs gs =
     rbind (visit_module gs) (\<lambda>(Fs, g).
       let names = map fn_ir_name Fs;
           cxs' = (\<lambda>F. (cxs F)\<lparr>cx_functions := names, cx_globals := map_of (gv_map g)\<rparr>);
           n = stack_size (gv_locs g); main = (\<exists>F \<in> set (functions_of gs). fn_ir_name F = ''main'' \<and> fn_ir_blocks F \<noteq> [])
       in rbind (dp_visit_functions cxs' (heap_size (gv_locs g)) (functions_of gs) empty_state) (\<lambda>(Fs', s).
            Inr (Fs' @ drop (length Fs') Fs @ (if main \<and> n \<noteq> 0 then [set_global_declaration n] else []))))"

end
