(* ===== verification/Register_View.thy ===== *)
theory Register_View
  imports Register_Allocator_Props
begin

text \<open>
  The register allocator as its client sees it: a map from instructions to their allocations.
  Each operation is a change of this map, and an eviction finds a victim as long as the current
  user and the temporary registers leave one of the sixteen registers.
\<close>

definition held :: "'i ra \<Rightarrow> 'i \<Rightarrow> 'i allocation option" where
  "held s i = find (\<lambda>a. al_source a = i) (ra_active s)"

lemma held_iff:
  assumes "ra_ok s"
  shows "held s i = Some a \<longleftrightarrow> a \<in> set (ra_active s) \<and> al_source a = i"
proof -
  have d: "distinct (map al_source (ra_active s))" using assms by (simp add: ra_ok_def)
  show ?thesis
  proof
    assume "held s i = Some a"
    then show "a \<in> set (ra_active s) \<and> al_source a = i" by (auto simp: held_def find_Some_iff)
  next
    assume a: "a \<in> set (ra_active s) \<and> al_source a = i"
    then obtain b where b: "held s i = Some b"
      by (cases "held s i") (auto simp: held_def find_None_iff)
    then have "b \<in> set (ra_active s)" "al_source b = i" by (auto simp: held_def find_Some_iff)
    with a d b show "held s i = Some a" by (auto simp: distinct_map inj_on_def)
  qed
qed

lemma held_None: "held s i = None \<longleftrightarrow> i \<notin> al_source ` set (ra_active s)"
  by (auto simp: held_def find_None_iff)

lemma held_eqI:
  assumes "ra_ok s" "\<And>i a. m i = Some a \<longleftrightarrow> a \<in> set (ra_active s) \<and> al_source a = i"
  shows "held s = m"
proof
  fix i show "held s i = m i"
  proof (cases "held s i")
    case None
    then have "m i \<noteq> Some a" for a using assms(2) [of i a] by (auto simp: held_None)
    then have "m i = None" by (cases "m i") auto
    with None show ?thesis by simp
  next
    case (Some a)
    then have "m i = Some a" using held_iff [OF assms(1), of i a] assms(2) [of i a] by simp
    with Some show ?thesis by simp
  qed
qed

lemma held_source: "\<lbrakk> ra_ok s; held s i = Some a \<rbrakk> \<Longrightarrow> al_source a = i"
  by (simp add: held_iff)

lemma held_reg:
  assumes "ra_ok s" "held s i = Some a"
  shows "1 \<le> al_reg a \<and> al_reg a \<le> 16"
  using ra_reg_range(3) [OF assms(1)] assms by (simp add: held_iff)

lemma held_reg_inj:
  assumes "ra_ok s" "held s i = Some a" "held s j = Some b" "al_reg a = al_reg b"
  shows "i = j"
proof -
  have "inj_on al_reg (set (ra_active s))" using ra_ok_partition(2) [OF assms(1)] by (simp add: distinct_map)
  with assms show ?thesis by (metis held_iff inj_onD)
qed

lemma ra_get_held: "ra_get i s = (case held s i of Some a \<Rightarrow> al_reg a | None \<Rightarrow> 0)"
  by (simp add: ra_get_def held_def)

lemma ra_get_0: "ra_ok s \<Longrightarrow> ra_get i s = 0 \<longleftrightarrow> held s i = None"
  using held_reg [of s i] by (auto simp: ra_get_held split: option.splits)

text \<open>The allocations the current user needs.\<close>

definition pinned :: "'i ra \<Rightarrow> 'i set" where
  "pinned s = {i. \<exists>a. held s i = Some a \<and> needed (ra_user s) a}"

lemma pinned_finite: "finite (pinned s)"
proof -
  have "pinned s \<subseteq> al_source ` set (ra_active s)"
    unfolding pinned_def held_def by (auto simp: find_Some_iff)
  then show ?thesis by (rule finite_subset) simp
qed

lemma register_count:
  assumes "ra_ok s"
  shows "length (ra_free s) + card (ra_temps s) + length (ra_active s) = 16"
proof -
  have "size (ra_regs s) = size (mset all_regs)" using assms by (simp add: ra_ok_def)
  then show ?thesis using assms by (simp add: ra_regs_def all_regs_def ra_ok_def)
qed

lemma evictable:
  assumes ok: "ra_ok s" and full: "ra_free s = []" and room: "card (pinned s) + card (ra_temps s) < 16"
  obtains a where "a \<in> set (ra_active s)" "\<not> needed (ra_user s) a"
proof -
  have "\<exists>a \<in> set (ra_active s). \<not> needed (ra_user s) a"
  proof (rule ccontr)
    assume "\<not> ?thesis"
    then have "al_source ` set (ra_active s) \<subseteq> pinned s"
      using held_iff [OF ok] by (fastforce simp: pinned_def)
    then have "card (al_source ` set (ra_active s)) \<le> card (pinned s)" by (rule card_mono [OF pinned_finite])
    moreover have "card (al_source ` set (ra_active s)) = length (ra_active s)"
      using ok distinct_card [of "map al_source (ra_active s)"] by (simp add: ra_ok_def)
    ultimately show False using register_count [OF ok] full room by simp
  qed
  then show thesis using that by blast
qed

lemma request_full: "\<lbrakk> held s i = None; ra_free s = [] \<rbrakk> \<Longrightarrow> ra_request i s = Inr (0, s)"
  by (auto simp: ra_request_def allocate_new_register_def held_None check_that_def)

lemma request_view:
  assumes ok: "ra_ok s" and i: "held s i = None" and free: "ra_free s = r # rs"
  obtains s' where "ra_request i s = Inr (r, s')" "ra_ok s'" "held s' = (held s)(i \<mapsto> new_allocation i r)"
    "ra_temps s' = ra_temps s" "ra_user s' = ra_user s" "ra_free s' = rs"
proof -
  let ?s' = "s\<lparr>ra_free := rs, ra_active := ra_active s @ [new_allocation i r]\<rparr>"
  have "r \<noteq> 0" using take_register [OF ok free] by simp
  then have res: "ra_request i s = Inr (r, ?s')"
    using i free by (auto simp: ra_request_def allocate_new_register_def held_None check_that_def)
  have ok': "ra_ok ?s'" by (rule request_keeps [OF ok res])
  have "held ?s' = (held s)(i \<mapsto> new_allocation i r)"
  proof (rule held_eqI [OF ok'])
    fix j a
    have "(j = i \<and> a = new_allocation i r \<or> j \<noteq> i \<and> held s j = Some a) \<longleftrightarrow>
        (a = new_allocation i r \<or> a \<in> set (ra_active s)) \<and> al_source a = j"
      using i held_iff [OF ok, of j a] by (auto simp: new_allocation_def held_None)
    then show "((held s)(i \<mapsto> new_allocation i r)) j = Some a \<longleftrightarrow> a \<in> set (ra_active ?s') \<and> al_source a = j"
      by auto
  qed
  then show thesis by (rule that [OF res ok']) simp_all
qed

context std_heap
begin

lemma evict_view:
  assumes ok: "ra_ok s" and v: "b \<in> set (ra_active s)" "\<not> needed (ra_user s) b"
  obtains a s' where "ra_evict H 0 s = Inr (Some a, s')" "ra_ok s'" "held s (al_source a) = Some a"
    "\<not> needed (ra_user s) a" "held s' = (held s)(al_source a := None)"
    "ra_temps s' = ra_temps s" "ra_user s' = ra_user s" "ra_free s' = al_reg a # ra_free s"
proof -
  have "ra_active s \<noteq> []" using v by auto
  then obtain a s' where res: "ra_evict H 0 s = Inr (Some a, s')" using evict_any_total [OF ok] v by blast
  note e = evict_result [OF ok res]
  have ok': "ra_ok s'" by (rule evict_keeps [OF ok res])
  have a: "held s (al_source a) = Some a" using e(1) held_iff [OF ok] by simp
  have d: "distinct (map al_source (ra_active s))" using ok by (simp add: ra_ok_def)
  have "mset (ra_active s) = add_mset a (mset (ra_active s'))" using e(1,2) by simp
  moreover have "distinct (ra_active s)" using d by (simp add: distinct_map)
  ultimately have "set (ra_active s) = insert a (set (ra_active s'))" "distinct (a # ra_active s')"
    by (metis set_mset_add_mset_insert set_mset_mset, metis mset.simps(2) mset_eq_imp_distinct_iff)
  then have "set (ra_active s') = set (ra_active s) - {a}" by auto
  then have "held s' = (held s)(al_source a := None)"
    using d e(1) by (intro held_eqI [OF ok']) (auto simp: held_iff [OF ok] distinct_map inj_on_def)
  with res ok' a e show thesis by (intro that) auto
qed

lemma update_view:
  assumes ok: "ra_ok s" and i: "held s i = Some a"
  obtains s' where "ra_update H i u t s = Inr s'" "ra_ok s'" "held s' = (held s)(i \<mapsto> a\<lparr>al_last := u, al_next := t\<rparr>)"
    "ra_temps s' = ra_temps s" "ra_user s' = ra_user s" "ra_free s' = ra_free s"
proof -
  let ?P = "\<lambda>a. al_source a = i"
  have "a \<in> set (ra_active s)" "al_source a = i" using i ok by (simp_all add: held_iff)
  then obtain k where k: "index_of ?P (ra_active s) = Some k" by (cases "index_of ?P (ra_active s)") (auto simp: index_of_None)
  then have kl: "k < length (ra_active s)" "al_source (ra_active s ! k) = i" using index_of_Some by fastforce+
  then have ka: "ra_active s ! k = a" using i held_iff [OF ok, of i "ra_active s ! k"] by simp
  let ?b = "a\<lparr>al_last := u, al_next := t\<rparr>"
  let ?s' = "s\<lparr>ra_active := hp_make H ((ra_active s)[k := ?b])\<rparr>"
  have res: "ra_update H i u t s = Inr ?s'" using k ka by (simp add: ra_update_def)
  have ok': "ra_ok ?s'" by (rule update_keeps [OF ok res])
  have d: "distinct (map al_source (ra_active s))" using ok by (simp add: ra_ok_def)
  have other: "ra_active s ! j = a \<longleftrightarrow> j = k" if "j < length (ra_active s)" for j
    using d that kl(1) ka nth_eq_iff_index_eq [of "map al_source (ra_active s)" j k] by auto
  have "set ((ra_active s)[k := ?b]) = insert ?b (set (ra_active s) - {a})"
  proof -
    have "set ((ra_active s)[k := ?b]) = insert ?b ((\<lambda>j. ra_active s ! j) ` ({..<length (ra_active s)} - {k}))"
      using kl(1) by (auto simp: set_conv_nth nth_list_update image_iff)
    also have "(\<lambda>j. ra_active s ! j) ` ({..<length (ra_active s)} - {k}) = set (ra_active s) - {a}"
      using other by (auto simp: set_conv_nth)
    finally show ?thesis .
  qed
  moreover have "b = a" if "b \<in> set (ra_active s)" "al_source b = i" for b
    using that i held_iff [OF ok, of i b] by simp
  ultimately have "held ?s' = (held s)(i \<mapsto> ?b)"
    using i by (intro held_eqI [OF ok']) (auto simp: held_iff [OF ok] split: if_splits)
  then show thesis by (rule that [OF res ok']) simp_all
qed

end

end
