(* ===== verification/Depromote_Registers.thy ===== *)
theory Depromote_Registers
  imports Depromote_Module Register_View
begin

text \<open>
  What the actions of \<open>DepromoteRegisters\<close> on the allocator guarantee. The invariant says
  what the code emitted so far has put where: the register of an allocated instruction was last
  written with its value, and a value of the current block that lost its register is in its stack
  slot as long as it may be used again. A request never fails while the current user leaves a
  register.
\<close>

lemmas action_defs = ret_def bindm_def assert_that_def gets_def update_def the_or_def with_ra_def
  with_ra_unit_def lift_checked_def insert_inst_def

subsection \<open>Names of registers\<close>

text \<open>
  An instruction writes a register by its name; the emitter merges an instruction named
  \<open>before_zext__\<close> with the extension behind it, so that it writes the register, too.
\<close>

definition reg_writes :: "nat \<Rightarrow> inst \<Rightarrow> bool" where
  "reg_writes r J \<longleftrightarrow> iname J = assembly_register_name r \<or> iname J = assembly_register_name r @ ''before_zext__''"

definition latest :: "nat \<Rightarrow> inst list \<Rightarrow> inst option" where
  "latest r out = find (reg_writes r) (rev out)"

lemma latest_snoc: "latest r (out @ [J]) = (if reg_writes r J then Some J else latest r out)"
  by (simp add: latest_def)

lemma nat_to_string_no_underscore: "CHR ''_'' \<notin> set (nat_to_string n)"
  using nat_to_string_digits [of n] by (auto simp: is_digit_def)

lemma take_digits: "takeWhile (\<lambda>c. c \<noteq> CHR ''_'') (nat_to_string n @ CHR ''_'' # xs) = nat_to_string n"
  using nat_to_string_no_underscore [of n] by (subst takeWhile_append2) auto

lemma register_name_inj:
  assumes "assembly_register_name r @ xs = assembly_register_name r' @ ys"
  shows "r = r' \<and> xs = ys"
proof -
  have eq: "nat_to_string r @ CHR ''_'' # CHR ''_'' # xs = nat_to_string r' @ CHR ''_'' # CHR ''_'' # ys"
    using assms by (simp add: assembly_register_name_def)
  then have "nat_to_string r = nat_to_string r'" by (metis take_digits)
  with eq show ?thesis by (metis append_same_eq nat_of_digits_to_string same_append_eq list.inject)
qed

lemma register_name_eq:
  "assembly_register_name r @ xs = assembly_register_name r' \<longleftrightarrow> r = r' \<and> xs = []"
  "assembly_register_name r' = assembly_register_name r @ xs \<longleftrightarrow> r = r' \<and> xs = []"
  "assembly_register_name r = assembly_register_name r' \<longleftrightarrow> r = r'"
  "assembly_register_name r @ xs = assembly_register_name r' @ ys \<longleftrightarrow> r = r' \<and> xs = ys"
  using register_name_inj [of r xs r' "[]"] register_name_inj [of r' "[]" r xs] register_name_inj [of r "[]" r' "[]"]
    register_name_inj [of r xs r' ys] by auto

lemma register_name_nonempty [simp]: "assembly_register_name r \<noteq> []" "[] \<noteq> assembly_register_name r"
  by (simp_all add: assembly_register_name_def)

lemma register_name_prefix: "starts_with ''__r'' (assembly_register_name r)"
  by (simp add: starts_with_def assembly_register_name_def)

lemma reg_writes_unique: "\<lbrakk> reg_writes r J; reg_writes r' J \<rbrakk> \<Longrightarrow> r = r'"
  by (auto simp: reg_writes_def register_name_eq)

text \<open>Names that write no register.\<close>

lemma reg_writes_other [simp]:
  "\<not> reg_writes r (Inst n c [] t vs)"
  "\<not> reg_writes r (Inst n c (assembly_register_name q @ ''after_trunc__'') t vs)"
  "\<not> reg_writes r (Inst n c (assembly_register_name q @ ''to_i1__'') t vs)"
  by (auto simp: reg_writes_def register_name_eq)

subsection \<open>The invariant\<close>

definition in_register :: "inst list \<Rightarrow> val_ir \<Rightarrow> nat \<Rightarrow> bool" where
  "in_register out v r = (case v of VInst J \<Rightarrow> iname J = assembly_register_name r \<and> latest r out = Some J | _ \<Rightarrow> True)"

lemma in_register_snoc: "\<not> reg_writes r J \<Longrightarrow> in_register (out @ [J]) v r = in_register out v r"
  by (cases v) (simp_all add: in_register_def latest_snoc)

definition value_ok :: "depromote \<Rightarrow> nat \<Rightarrow> nat \<Rightarrow> bool" where
  "value_ok s i r \<longleftrightarrow> (\<exists>v. dp_source s i = Some v \<and> in_register (dp_out s) v r \<and> check_tgt_type (val_ty v))"

definition slot_ok :: "depromote \<Rightarrow> nat \<Rightarrow> bool" where
  "slot_ok s i \<longleftrightarrow> (\<exists>slot t. dp_slot s i = Some slot \<and> ity slot = TPtr t \<and> check_tgt_type t)"

definition stored :: "depromote \<Rightarrow> nat \<Rightarrow> bool" where
  "stored s i \<longleftrightarrow> (\<exists>n v slot. dp_slot s i = Some slot \<and> Inst n OpStore [] TVoid [v, VInst slot] \<in> set (dp_out s))"

text \<open>
  A value of the current block without a register is in its slot, unless all its uses in the
  block are done and the block is the last to use it.
\<close>

definition spilled_ok :: "fn_context \<Rightarrow> depromote \<Rightarrow> nat \<Rightarrow> bool" where
  "spilled_ok cx s i \<longleftrightarrow>
     (cx_parent cx i = Some (dp_block s) \<and> dp_source s i \<noteq> None \<and> held (dp_ra s) i = None \<and>
      (dp_advent s i \<noteq> [] \<or> i \<notin> cx_final cx (dp_block s)) \<longrightarrow> stored s i)"

definition held_ok :: "fn_context \<Rightarrow> depromote \<Rightarrow> nat \<Rightarrow> nat allocation \<Rightarrow> bool" where
  "held_ok cx s i a \<longleftrightarrow> slot_ok s i \<and> (\<forall>u. al_last a = Some u \<longrightarrow> cx_parent cx u = Some (dp_block s))"

text \<open>The instructions of \<open>X\<close> have a register, but their value is not yet computed.\<close>

definition dp_ok :: "fn_context \<Rightarrow> nat set \<Rightarrow> depromote \<Rightarrow> bool" where
  "dp_ok cx X s \<longleftrightarrow> ra_ok (dp_ra s) \<and> (\<forall>i. spilled_ok cx s i) \<and>
     (\<forall>i a. held (dp_ra s) i = Some a \<longrightarrow> held_ok cx s i a \<and> (i \<notin> X \<longrightarrow> value_ok s i (al_reg a)))"

lemma dp_okD:
  assumes "dp_ok cx X s"
  shows "ra_ok (dp_ra s)" "held (dp_ra s) i = Some a \<Longrightarrow> held_ok cx s i a" "spilled_ok cx s i"
    "\<lbrakk> held (dp_ra s) i = Some a; i \<notin> X \<rbrakk> \<Longrightarrow> value_ok s i (al_reg a)"
  using assms by (auto simp: dp_ok_def)

lemma dp_okI:
  assumes "ra_ok (dp_ra s)" "\<And>i. spilled_ok cx s i"
    "\<And>i a. held (dp_ra s) i = Some a \<Longrightarrow> held_ok cx s i a"
    "\<And>i a. \<lbrakk> held (dp_ra s) i = Some a; i \<notin> X \<rbrakk> \<Longrightarrow> value_ok s i (al_reg a)"
  shows "dp_ok cx X s"
  using assms by (auto simp: dp_ok_def)

lemma held_slot: "\<lbrakk> dp_ok cx X s; held (dp_ra s) i = Some a \<rbrakk> \<Longrightarrow> slot_ok s i"
  using dp_okD(2) by (auto simp: held_ok_def)

text \<open>What an emitted instruction leaves alone.\<close>

lemma stored_snoc: "stored s i \<Longrightarrow> stored (s\<lparr>dp_out := dp_out s @ Js, dp_number := n\<rparr>) i"
  by (auto simp: stored_def)

lemma dp_ok_emit:
  assumes ok: "dp_ok cx X s"
    and J: "\<And>i a. \<lbrakk> held (dp_ra s) i = Some a; i \<notin> X \<rbrakk> \<Longrightarrow> \<not> reg_writes (al_reg a) J"
  shows "dp_ok cx X (s\<lparr>dp_out := dp_out s @ [J], dp_number := n\<rparr>)"
proof (rule dp_okI)
  let ?s = "s\<lparr>dp_out := dp_out s @ [J], dp_number := n\<rparr>"
  show "ra_ok (dp_ra ?s)" using dp_okD(1) [OF ok] by simp
  show "spilled_ok cx ?s i" for i
    using dp_okD(3) [OF ok, of i] stored_snoc [of s i n "[J]"] by (simp add: spilled_ok_def)
  show "held_ok cx ?s i a" if "held (dp_ra ?s) i = Some a" for i a
    using dp_okD(2) [OF ok, of i a] that by (simp add: held_ok_def slot_ok_def)
  show "value_ok ?s i (al_reg a)" if "held (dp_ra ?s) i = Some a" "i \<notin> X" for i a
    using dp_okD(4) [OF ok, of i a] J [of i a] that by (auto simp: value_ok_def in_register_snoc)
qed

text \<open>An instruction that writes the register of \<open>i\<close> leaves the other values alone.\<close>

lemma dp_ok_emit_into:
  assumes ok: "dp_ok cx {i} s" and i: "held (dp_ra s) i = Some b" and J: "reg_writes (al_reg b) J"
  shows "dp_ok cx {i} (s\<lparr>dp_out := dp_out s @ [J], dp_number := n\<rparr>)"
proof (rule dp_ok_emit [OF ok])
  fix j a assume j: "held (dp_ra s) j = Some a" "j \<notin> {i}"
  show "\<not> reg_writes (al_reg a) J"
  proof
    assume "reg_writes (al_reg a) J"
    then have "al_reg a = al_reg b" using J by (rule reg_writes_unique)
    then have "j = i" by (rule held_reg_inj [OF dp_okD(1) [OF ok] j(1) i])
    with j(2) show False by simp
  qed
qed

text \<open>The value of \<open>i\<close> is there.\<close>

lemma dp_ok_set_source:
  assumes ok: "dp_ok cx {i} s" and i: "held (dp_ra s) i = Some b"
    and v: "in_register (dp_out s) v (al_reg b)" "check_tgt_type (val_ty v)"
  shows "dp_ok cx {} (s\<lparr>dp_source := (dp_source s)(i \<mapsto> v)\<rparr>)"
proof (rule dp_okI)
  let ?s = "s\<lparr>dp_source := (dp_source s)(i \<mapsto> v)\<rparr>"
  show "ra_ok (dp_ra ?s)" using dp_okD(1) [OF ok] by simp
  show "spilled_ok cx ?s j" for j
    using dp_okD(3) [OF ok, of j] i by (auto simp: spilled_ok_def stored_def)
  show "held_ok cx ?s j a" if "held (dp_ra ?s) j = Some a" for j a
    using dp_okD(2) [OF ok, of j a] that by (simp add: held_ok_def slot_ok_def)
  show "value_ok ?s j (al_reg a)" if "held (dp_ra ?s) j = Some a" "j \<notin> {}" for j a
    using dp_okD(4) [OF ok, of j a] that i v by (cases "j = i") (auto simp: value_ok_def)
qed

subsection \<open>Eviction\<close>

text \<open>The store that \<open>evict\<close> emits, or nothing.\<close>

definition spill_code :: "fn_context \<Rightarrow> depromote \<Rightarrow> nat allocation \<Rightarrow> inst list" where
  "spill_code cx s a =
     (if must_spill cx s a
      then [Inst (dp_number s) OpStore [] TVoid [the (dp_source s (al_source a)), VInst (the (dp_slot s (al_source a)))]]
      else [])"

lemma latest_spill [simp]: "latest r (out @ spill_code cx s a) = latest r out"
  by (simp add: spill_code_def latest_snoc)

lemma in_register_spill [simp]: "in_register (out @ spill_code cx s a) v r = in_register out v r"
  by (cases v) (simp_all add: in_register_def)

lemma dp_evict_emits:
  assumes "value_ok s (al_source a) r" "slot_ok s (al_source a)"
  obtains n where "dp_evict cx (Some a) s = Inr ((), s\<lparr>dp_out := dp_out s @ spill_code cx s a, dp_number := n\<rparr>)"
proof (cases "must_spill cx s a")
  case False
  then show ?thesis
    by (intro that [of "dp_number s"]) (simp add: dp_evict_def spill_code_def action_defs check_that_def)
next
  case True
  from assms obtain v slot where v: "dp_source s (al_source a) = Some v" "in_register (dp_out s) v r" "check_tgt_type (val_ty v)"
    and slot: "dp_slot s (al_source a) = Some slot" by (auto simp: value_ok_def slot_ok_def)
  have "case v of VInst I \<Rightarrow> iname I = [] \<or> starts_with ''__r'' (iname I) | _ \<Rightarrow> True"
    using v(2) register_name_prefix by (auto simp: in_register_def split: val_ir.splits)
  with v slot True show ?thesis
    by (intro that [of "Suc (dp_number s)"])
      (simp add: dp_evict_def emit_store_to_src_register_def spill_code_def action_defs check_that_def Let_def)
qed

text \<open>What is needed again was stored.\<close>

lemma spill_stores:
  assumes a: "held_ok cx s i a" "al_source a = i" and blk: "cx_parent cx i = Some (dp_block s)"
    and need: "dp_advent s i \<noteq> [] \<or> i \<notin> cx_final cx (dp_block s)"
  shows "stored (s\<lparr>dp_out := dp_out s @ spill_code cx s a, dp_number := n\<rparr>) i"
proof -
  have "must_spill cx s a" using a blk need by (auto simp: must_spill_def held_ok_def split: option.splits)
  moreover obtain slot where "dp_slot s i = Some slot" using a(1) by (auto simp: held_ok_def slot_ok_def)
  ultimately show ?thesis using a(2) by (auto simp: stored_def spill_code_def)
qed

text \<open>The allocator gives up an allocation and the code spills it.\<close>

lemma evict_ok:
  assumes ok: "dp_ok cx {} s" and a: "held (dp_ra s) (al_source a) = Some a"
    and ra: "ra_ok ra" "held ra = (held (dp_ra s))(al_source a := None)"
  obtains n where
    "dp_evict cx (Some a) (s\<lparr>dp_ra := ra\<rparr>) =
       Inr ((), s\<lparr>dp_ra := ra, dp_out := dp_out s @ spill_code cx s a, dp_number := n\<rparr>)"
    "dp_ok cx {} (s\<lparr>dp_ra := ra, dp_out := dp_out s @ spill_code cx s a, dp_number := n\<rparr>)"
proof -
  let ?i = "al_source a" and ?s1 = "s\<lparr>dp_ra := ra\<rparr>"
  have "value_ok ?s1 ?i (al_reg a)" "slot_ok ?s1 ?i"
    using dp_okD(4) [OF ok a] held_slot [OF ok a] by (simp_all add: value_ok_def slot_ok_def)
  then obtain n where ev: "dp_evict cx (Some a) ?s1 =
      Inr ((), ?s1\<lparr>dp_out := dp_out ?s1 @ spill_code cx ?s1 a, dp_number := n\<rparr>)" by (rule dp_evict_emits)
  have sp: "spill_code cx ?s1 a = spill_code cx s a" by (simp add: spill_code_def must_spill_def)
  let ?s2 = "s\<lparr>dp_ra := ra, dp_out := dp_out s @ spill_code cx s a, dp_number := n\<rparr>"
  have "dp_ok cx {} ?s2"
  proof (rule dp_okI)
    show "ra_ok (dp_ra ?s2)" using ra(1) by simp
    show "spilled_ok cx ?s2 j" for j
    proof (cases "j = ?i")
      case True
      then show ?thesis
        using spill_stores [OF dp_okD(2) [OF ok a] refl, of n] by (auto simp: spilled_ok_def stored_def)
    next
      case False
      then show ?thesis using dp_okD(3) [OF ok, of j] ra(2) by (auto simp: spilled_ok_def stored_def)
    qed
    show "held_ok cx ?s2 j b" if "held (dp_ra ?s2) j = Some b" for j b
      using dp_okD(2) [OF ok, of j b] that ra(2) by (simp add: held_ok_def slot_ok_def split: if_splits)
    show "value_ok ?s2 j (al_reg b)" if "held (dp_ra ?s2) j = Some b" "j \<notin> {}" for j b
      using dp_okD(4) [OF ok, of j b] that ra(2) by (simp add: value_ok_def split: if_splits)
  qed
  with ev sp show thesis by (intro that [of n]) simp_all
qed

end
