(* ===== verification/Depromote_Operands.thy ===== *)
theory Depromote_Operands
  imports Depromote_Registers
begin

text \<open>
  Requests of registers and the translation of operands: a request succeeds while the current
  user leaves a register, an instruction that lost its register is loaded from its slot, and what
  the current user needs keeps its register and its value.
\<close>

subsection \<open>Requests\<close>

definition frame_eq :: "depromote \<Rightarrow> depromote \<Rightarrow> bool" where
  "frame_eq s s' \<longleftrightarrow> dp_slot s' = dp_slot s \<and> dp_phi_slot s' = dp_phi_slot s \<and> dp_block s' = dp_block s \<and>
     dp_ref_set s' = dp_ref_set s \<and> dp_ref_spilled s' = dp_ref_spilled s \<and>
     ra_user (dp_ra s') = ra_user (dp_ra s) \<and> ra_temps (dp_ra s') = ra_temps (dp_ra s)"

text \<open>What the current user needs keeps its allocation, and only \<open>i\<close> gets a new one.\<close>

definition keeps_pinned :: "depromote \<Rightarrow> depromote \<Rightarrow> bool" where
  "keeps_pinned s s' \<longleftrightarrow> (\<forall>j a. held (dp_ra s) j = Some a \<and> needed (ra_user (dp_ra s)) a \<longrightarrow> held (dp_ra s') j = Some a)"

definition only_adds :: "nat \<Rightarrow> depromote \<Rightarrow> depromote \<Rightarrow> bool" where
  "only_adds i s s' \<longleftrightarrow> (\<forall>j b. j \<noteq> i \<and> held (dp_ra s') j = Some b \<longrightarrow> held (dp_ra s) j = Some b)"

lemma report_use_ok:
  assumes laws: "heap_laws (cx_heap cx)" and ok: "dp_ok cx X s" and i: "held (dp_ra s) i = Some a"
    and q: "pop \<Longrightarrow> dp_advent s i \<noteq> []" and u: "\<And>x. u = Some x \<Longrightarrow> cx_parent cx x = Some (dp_block s)"
  obtains s' b where "report_use cx i u pop s = Inr ((), s')" "dp_ok cx X s'" "frame_eq s s'"
    "dp_source s' = dp_source s" "dp_advent s' = (if pop then (dp_advent s)(i := tl (dp_advent s i)) else dp_advent s)"
    "held (dp_ra s') = (held (dp_ra s))(i \<mapsto> b)" "al_reg b = al_reg a" "al_last b = u"
    "dp_out s' = dp_out s"
proof -
  let ?q = "if pop then tl (dp_advent s i) else dp_advent s i"
  let ?t = "if ?q = [] then NO_MORE_ADVENT else of_nat (hd ?q)"
  let ?s1 = "s\<lparr>dp_advent := (dp_advent s)(i := ?q)\<rparr>"
  obtain ra where ra: "ra_update (cx_heap cx) i u ?t (dp_ra s) = Inr ra" "ra_ok ra"
      "held ra = (held (dp_ra s))(i \<mapsto> a\<lparr>al_last := u, al_next := ?t\<rparr>)"
      "ra_temps ra = ra_temps (dp_ra s)" "ra_user ra = ra_user (dp_ra s)"
    using std_heap.update_view [OF std_heap.intro [OF laws] dp_okD(1) [OF ok] i] by metis
  let ?s2 = "?s1\<lparr>dp_ra := ra\<rparr>"
  have res: "report_use cx i u pop s = Inr ((), ?s2)"
    using ra(1) q by (simp add: report_use_def action_defs check_that_def Let_def)
  have "dp_ok cx X ?s2"
  proof (rule dp_okI)
    show "ra_ok (dp_ra ?s2)" using ra(2) by simp
    show "spilled_ok cx ?s2 j" for j
      using dp_okD(3) [OF ok, of j] by (auto simp: spilled_ok_def stored_def ra(3))
    show "held_ok cx ?s2 j b" if "held (dp_ra ?s2) j = Some b" for j b
      using dp_okD(2) [OF ok] that i u by (fastforce simp: held_ok_def slot_ok_def ra(3) split: if_splits)
    show "value_ok ?s2 j (al_reg b)" if "held (dp_ra ?s2) j = Some b" "j \<notin> X" for j b
      using dp_okD(4) [OF ok] that i by (fastforce simp: value_ok_def ra(3) split: if_splits)
  qed
  then show thesis
    using ra res by (intro that [of ?s2 "a\<lparr>al_last := u, al_next := ?t\<rparr>"]) (simp_all add: frame_eq_def)
qed

text \<open>A new allocation for \<open>i\<close>.\<close>

lemma new_allocation_ok:
  assumes ok: "dp_ok cx {} s" and i: "slot_ok s i"
    and ra: "ra_ok ra" "held ra = (held (dp_ra s))(i \<mapsto> new_allocation i r)"
  shows "dp_ok cx {i} (s\<lparr>dp_ra := ra\<rparr>)"
proof (rule dp_okI)
  let ?s = "s\<lparr>dp_ra := ra\<rparr>"
  show "ra_ok (dp_ra ?s)" using ra(1) by simp
  show "spilled_ok cx ?s j" for j
    using dp_okD(3) [OF ok, of j] by (auto simp: spilled_ok_def stored_def ra(2))
  show "held_ok cx ?s j b" if "held (dp_ra ?s) j = Some b" for j b
    using dp_okD(2) [OF ok, of j b] that i by (auto simp: held_ok_def slot_ok_def ra(2) new_allocation_def split: if_splits)
  show "value_ok ?s j (al_reg b)" if "held (dp_ra ?s) j = Some b" "j \<notin> {i}" for j b
    using dp_okD(4) [OF ok, of j b] that by (auto simp: value_ok_def ra(2))
qed

text \<open>The allocation itself, with an eviction when no register is free.\<close>

lemma request_or_evict_ok:
  assumes laws: "heap_laws (cx_heap cx)" and ok: "dp_ok cx {} s" and i: "held (dp_ra s) i = None" "slot_ok s i"
    and room: "card (pinned (dp_ra s)) + card (ra_temps (dp_ra s)) < 16"
  obtains r s' where
    "request_or_evict cx i s = Inr (r, s')" "dp_ok cx {i} s'" "frame_eq s s'" "keeps_pinned s s'"
    "dp_source s' = dp_source s" "dp_advent s' = dp_advent s" "held (dp_ra s') i = Some (new_allocation i r)"
    "only_adds i s s'" "\<forall>q. latest q (dp_out s') = latest q (dp_out s)"
proof (cases "ra_free (dp_ra s)")
  case (Cons r rs)
  note rok = dp_okD(1) [OF ok]
  obtain ra where ra: "ra_request i (dp_ra s) = Inr (r, ra)" "ra_ok ra" "held ra = (held (dp_ra s))(i \<mapsto> new_allocation i r)"
      "ra_temps ra = ra_temps (dp_ra s)" "ra_user ra = ra_user (dp_ra s)"
    using request_view [OF rok i(1) Cons] by metis
  have "r \<noteq> 0" using take_register(1) [OF rok Cons] .
  moreover have "dp_ok cx {i} (s\<lparr>dp_ra := ra\<rparr>)" by (rule new_allocation_ok [OF ok i(2) ra(2,3)])
  ultimately show thesis
    using ra i by (intro that [of r "s\<lparr>dp_ra := ra\<rparr>"])
      (auto simp: request_or_evict_def action_defs frame_eq_def keeps_pinned_def only_adds_def split: if_splits)
next
  case Nil
  note rok = dp_okD(1) [OF ok] and heap = std_heap.intro [OF laws]
  obtain b where b: "b \<in> set (ra_active (dp_ra s))" "\<not> needed (ra_user (dp_ra s)) b" using evictable [OF rok Nil room] by blast
  obtain a ra1 where a: "ra_evict (cx_heap cx) 0 (dp_ra s) = Inr (Some a, ra1)" "ra_ok ra1"
      "held (dp_ra s) (al_source a) = Some a" "\<not> needed (ra_user (dp_ra s)) a" "held ra1 = (held (dp_ra s))(al_source a := None)"
      "ra_temps ra1 = ra_temps (dp_ra s)" "ra_user ra1 = ra_user (dp_ra s)" "ra_free ra1 = al_reg a # ra_free (dp_ra s)"
    using std_heap.evict_view [OF heap rok b] by metis
  let ?r = "al_reg a"
  obtain n where ev: "dp_evict cx (Some a) (s\<lparr>dp_ra := ra1\<rparr>) =
      Inr ((), s\<lparr>dp_ra := ra1, dp_out := dp_out s @ spill_code cx s a, dp_number := n\<rparr>)"
    and ok2: "dp_ok cx {} (s\<lparr>dp_ra := ra1, dp_out := dp_out s @ spill_code cx s a, dp_number := n\<rparr>)"
    by (rule evict_ok [OF ok a(3,2,5)])
  let ?s2 = "s\<lparr>dp_ra := ra1, dp_out := dp_out s @ spill_code cx s a, dp_number := n\<rparr>"
  have "held ra1 i = None" using i(1) by (simp add: a(5))
  then obtain ra2 where ra2: "ra_request i ra1 = Inr (?r, ra2)" "ra_ok ra2" "held ra2 = (held ra1)(i \<mapsto> new_allocation i ?r)"
      "ra_temps ra2 = ra_temps ra1" "ra_user ra2 = ra_user ra1"
    using request_view [OF a(2) _ a(8)] by metis
  have req0: "ra_request i (dp_ra s) = Inr (0, dp_ra s)" using i(1) Nil by (rule request_full)
  have nz: "?r \<noteq> 0" using held_reg [OF rok a(3)] by simp
  have ok3: "dp_ok cx {i} (?s2\<lparr>dp_ra := ra2\<rparr>)"
    using ok2 i(2) ra2(2,3) by (intro new_allocation_ok) (simp_all add: slot_ok_def)
  have res: "request_or_evict cx i s = Inr (?r, ?s2\<lparr>dp_ra := ra2\<rparr>)"
    using req0 a(1) ev ra2(1) nz by (simp add: request_or_evict_def action_defs check_that_def)
  have "keeps_pinned s (?s2\<lparr>dp_ra := ra2\<rparr>)"
    using a(3,4) i(1) by (auto simp: keeps_pinned_def ra2(3) a(5))
  moreover have "only_adds i s (?s2\<lparr>dp_ra := ra2\<rparr>)"
    by (auto simp: only_adds_def ra2(3) a(5) split: if_splits)
  ultimately show thesis
    using res ok3 ra2 a(6,7) by (intro that [of ?r "?s2\<lparr>dp_ra := ra2\<rparr>"]) (simp_all add: frame_eq_def)
qed

lemma request_register_ok:
  assumes laws: "heap_laws (cx_heap cx)" and ok: "dp_ok cx {} s" and i: "held (dp_ra s) i = None" "slot_ok s i"
    and room: "card (pinned (dp_ra s)) + card (ra_temps (dp_ra s)) < 16"
  obtains r s' b where "request_register cx i s = Inr (r, s')" "dp_ok cx {i} s'" "frame_eq s s'" "keeps_pinned s s'"
    "dp_source s' = dp_source s" "dp_advent s' = dp_advent s"
    "held (dp_ra s') i = Some b" "al_reg b = r" "al_last b = None" "only_adds i s s'"
    "\<forall>q. latest q (dp_out s') = latest q (dp_out s)"
proof -
  obtain r s1 where 1:
    "request_or_evict cx i s = Inr (r, s1)"
    "dp_ok cx {i} s1" "frame_eq s s1" "keeps_pinned s s1" "dp_source s1 = dp_source s" "dp_advent s1 = dp_advent s"
    "held (dp_ra s1) i = Some (new_allocation i r)" "only_adds i s s1" "\<forall>q. latest q (dp_out s1) = latest q (dp_out s)"
    by (rule request_or_evict_ok [OF laws ok i room])
  obtain s2 b where 2:
    "report_use cx i None False s1 = Inr ((), s2)" "dp_ok cx {i} s2" "frame_eq s1 s2"
    "dp_source s2 = dp_source s1" "dp_advent s2 = dp_advent s1"
    "held (dp_ra s2) = (held (dp_ra s1))(i \<mapsto> b)" "al_reg b = al_reg (new_allocation i r)" "al_last b = None"
    "dp_out s2 = dp_out s1"
    by (rule report_use_ok [OF laws 1(2,7), of False None, simplified])
  have "request_register cx i s = Inr (r, s2)"
    using 1(1) 2(1) by (simp add: request_register_def bindm_def ret_def)
  moreover have "frame_eq s s2" using 1(3) 2(3) by (simp add: frame_eq_def)
  moreover have "keeps_pinned s s2" using 1(4) i(1) by (auto simp: keeps_pinned_def 2(6))
  ultimately show thesis
    using 1 2 by (intro that [of r s2 b]) (auto simp: new_allocation_def only_adds_def split: if_splits)
qed

subsection \<open>What stays\<close>

text \<open>What the current user needs keeps its register and its value.\<close>

definition stays :: "depromote \<Rightarrow> depromote \<Rightarrow> bool" where
  "stays s s' \<longleftrightarrow> (\<forall>j a. held (dp_ra s) j = Some a \<and> needed (ra_user (dp_ra s)) a \<longrightarrow>
     dp_source s' j = dp_source s j \<and>
     (\<exists>b. held (dp_ra s') j = Some b \<and> al_reg b = al_reg a \<and> needed (ra_user (dp_ra s)) b))"

lemma stays_refl: "stays s s"
  by (auto simp: stays_def)

lemma stays_trans:
  assumes "stays s s'" "stays s' s''" "frame_eq s s'"
  shows "stays s s''"
  unfolding stays_def
proof (intro allI impI)
  fix j a
  assume a: "held (dp_ra s) j = Some a \<and> needed (ra_user (dp_ra s)) a"
  with assms(1) obtain b where b: "dp_source s' j = dp_source s j" "held (dp_ra s') j = Some b"
    "al_reg b = al_reg a" "needed (ra_user (dp_ra s)) b" unfolding stays_def by blast
  have u: "ra_user (dp_ra s') = ra_user (dp_ra s)" using assms(3) by (simp add: frame_eq_def)
  with assms(2) b obtain c where "dp_source s'' j = dp_source s' j" "held (dp_ra s'') j = Some c"
    "al_reg c = al_reg b" "needed (ra_user (dp_ra s)) c" unfolding stays_def by metis
  with b show "dp_source s'' j = dp_source s j \<and>
      (\<exists>b. held (dp_ra s'') j = Some b \<and> al_reg b = al_reg a \<and> needed (ra_user (dp_ra s)) b)" by auto
qed

lemma frame_eq_trans: "\<lbrakk> frame_eq s s'; frame_eq s' s'' \<rbrakk> \<Longrightarrow> frame_eq s s''"
  by (simp add: frame_eq_def)

lemma load_slot_ok:
  assumes "slot_ok s i" "1 \<le> r" "r \<le> 16"
  obtains J n where "emit_load_from_src_register i r s = Inr (VInst J, s\<lparr>dp_out := dp_out s @ [J], dp_number := n\<rparr>)"
    "iname J = assembly_register_name r" "check_tgt_type (val_ty (VInst J))"
proof -
  obtain slot t where slot: "dp_slot s i = Some slot" "ity slot = TPtr t" "check_tgt_type t"
    using assms(1) by (auto simp: slot_ok_def)
  let ?J = "Inst (dp_number s) OpLoad (assembly_register_name r) t [VInst slot]"
  have "emit_load_from_src_register i r s = Inr (VInst ?J, s\<lparr>dp_out := dp_out s @ [?J], dp_number := Suc (dp_number s)\<rparr>)"
    using slot assms(2,3) by (simp add: emit_load_from_src_register_def register_name_def action_defs check_that_def Let_def)
  then show thesis using slot(3) by (intro that [of ?J "Suc (dp_number s)"]) simp_all
qed

text \<open>The value of \<open>i\<close> is computed into its register.\<close>

lemma define_value_ok:
  assumes ok: "dp_ok cx {i} s" and i: "held (dp_ra s) i = Some b" and J: "iname J = assembly_register_name (al_reg b)"
    "check_tgt_type (ity J)"
  shows "dp_ok cx {} (s\<lparr>dp_out := dp_out s @ [J], dp_number := n, dp_source := (dp_source s)(i \<mapsto> VInst J)\<rparr>)"
proof -
  let ?s = "s\<lparr>dp_out := dp_out s @ [J], dp_number := n\<rparr>"
  have w: "reg_writes (al_reg b) J" using J(1) by (simp add: reg_writes_def)
  have "dp_ok cx {} (?s\<lparr>dp_source := (dp_source ?s)(i \<mapsto> VInst J)\<rparr>)"
  proof (rule dp_ok_set_source [OF dp_ok_emit_into [OF ok i w]])
    show "held (dp_ra ?s) i = Some b" "check_tgt_type (val_ty (VInst J))" using i J(2) by simp_all
    show "in_register (dp_out ?s) (VInst J) (al_reg b)" using J(1) w by (simp add: in_register_def latest_snoc)
  qed
  then show ?thesis by simp
qed

lemma get_register_ok:
  assumes laws: "heap_laws (cx_heap cx)" and ok: "dp_ok cx {} s" and i: "slot_ok s i"
    and room: "card (pinned (dp_ra s)) + card (ra_temps (dp_ra s)) < 16"
  obtains r s' b where "get_register cx i s = Inr (r, s')" "dp_ok cx {} s'" "frame_eq s s'" "stays s s'"
    "dp_advent s' = dp_advent s" "held (dp_ra s') i = Some b" "al_reg b = r" "only_adds i s s'"
    "pinned (dp_ra s') \<subseteq> pinned (dp_ra s)"
proof (cases "held (dp_ra s) i")
  case (Some a)
  moreover have "al_reg a \<noteq> 0" using held_reg [OF dp_okD(1) [OF ok] Some] by simp
  ultimately show thesis
    using ok stays_refl by (intro that [of "al_reg a" s a])
      (simp_all add: get_register_def action_defs ra_get_held frame_eq_def only_adds_def)
next
  case None
  obtain r s1 b where 1: "request_register cx i s = Inr (r, s1)" "dp_ok cx {i} s1" "frame_eq s s1" "keeps_pinned s s1"
    "dp_source s1 = dp_source s" "dp_advent s1 = dp_advent s"
    "held (dp_ra s1) i = Some b" "al_reg b = r" "al_last b = None" "only_adds i s s1"
    "\<forall>q. latest q (dp_out s1) = latest q (dp_out s)"
    by (rule request_register_ok [OF laws ok None i room])
  have r: "1 \<le> r" "r \<le> 16" using held_reg [OF dp_okD(1) [OF 1(2)] 1(7)] 1(8) by simp_all
  obtain J n where J: "emit_load_from_src_register i r s1 = Inr (VInst J, s1\<lparr>dp_out := dp_out s1 @ [J], dp_number := n\<rparr>)"
    "iname J = assembly_register_name r" "check_tgt_type (val_ty (VInst J))"
    by (rule load_slot_ok [OF held_slot [OF 1(2,7)] r])
  let ?s2 = "s1\<lparr>dp_out := dp_out s1 @ [J], dp_number := n, dp_source := (dp_source s1)(i \<mapsto> VInst J)\<rparr>"
  have "get_register cx i s = Inr (r, ?s2)"
    using 1(1) J(1) r None by (simp add: get_register_def action_defs ra_get_held)
  moreover have "dp_ok cx {} ?s2"
    using define_value_ok [OF 1(2,7)] J(2,3) 1(8) by simp
  moreover have "stays s ?s2"
    using 1(4,5) None by (auto simp: stays_def keeps_pinned_def)
  moreover have "pinned (dp_ra ?s2) \<subseteq> pinned (dp_ra s)"
  proof
    fix j assume "j \<in> pinned (dp_ra ?s2)"
    then obtain a where a: "held (dp_ra s1) j = Some a" "needed (ra_user (dp_ra s)) a"
      using 1(3) by (auto simp: pinned_def frame_eq_def)
    then have "j \<noteq> i" using 1(7,9) by (auto simp: needed_def)
    then show "j \<in> pinned (dp_ra s)" using a 1(10) by (auto simp: pinned_def only_adds_def)
  qed
  ultimately show thesis
    using 1 by (intro that [of r ?s2 b]) (simp_all add: frame_eq_def only_adds_def)
qed

subsection \<open>Operands\<close>

text \<open>
  What an operand may be. An instruction has a slot unless the code gave it none, arguments and
  globals are in their maps and not instructions, and constant expressions were made into
  instructions.
\<close>

definition operand_ready :: "fn_context \<Rightarrow> depromote \<Rightarrow> val_ir \<Rightarrow> bool" where
  "operand_ready cx s v \<longleftrightarrow> check_src_type (val_ty v) \<and>
     (case v of
        VArg nm t \<Rightarrow> (\<exists>w. cx_args cx nm = Some w \<and> (\<forall>J. w \<noteq> VInst J))
      | VGlobal g t \<Rightarrow> (\<exists>w. cx_globals cx g = Some w \<and> (\<forall>J. w \<noteq> VInst J))
      | VConstExpr c vs t \<Rightarrow> False
      | VInst I \<Rightarrow> slot_ok s (iid I)
      | _ \<Rightarrow> True)"

definition uses_of :: "nat \<Rightarrow> val_ir list \<Rightarrow> nat" where
  "uses_of i vs = length (filter (\<lambda>v. case v of VInst I \<Rightarrow> iid I = i | _ \<Rightarrow> False) vs)"

text \<open>Where the translation of an operand is found: an instruction is in a register that the user needs.\<close>

definition placed :: "fn_context \<Rightarrow> depromote \<Rightarrow> val_ir \<Rightarrow> val_ir \<Rightarrow> bool" where
  "placed cx s v w =
     (case v of
        VArg nm t \<Rightarrow> cx_args cx nm = Some w
      | VInt k c \<Rightarrow> w = VInt 64 c
      | VNull t \<Rightarrow> w = v
      | VUndef t \<Rightarrow> w = VUndef (TInt 64)
      | VGlobal g t \<Rightarrow> cx_globals cx g = Some w
      | VConstExpr c vs t \<Rightarrow> False
      | VInst I \<Rightarrow> dp_source s (iid I) = Some w \<and>
          (\<exists>a. held (dp_ra s) (iid I) = Some a \<and> needed (ra_user (dp_ra s)) a))"

lemma placed_stays: "\<lbrakk> placed cx s v w; stays s s'; frame_eq s s' \<rbrakk> \<Longrightarrow> placed cx s' v w"
  by (fastforce simp: placed_def stays_def frame_eq_def split: val_ir.splits)

lemma operand_ready_frame: "frame_eq s s' \<Longrightarrow> operand_ready cx s' v = operand_ready cx s v"
  by (simp add: operand_ready_def slot_ok_def frame_eq_def split: val_ir.splits)

lemma translate_operand_ok:
  assumes laws: "heap_laws (cx_heap cx)" and ok: "dp_ok cx {} s" and user: "ra_user (dp_ra s) = Some u" "cx_parent cx u = Some (dp_block s)"
    and v: "operand_ready cx s v" "\<And>I. v = VInst I \<Longrightarrow> dp_advent s (iid I) \<noteq> []"
    and room: "card (pinned (dp_ra s)) + card (ra_temps (dp_ra s)) < 16"
  obtains w r s' where "translate_operand cx u v s = Inr ((w, r), s')" "dp_ok cx {} s'" "frame_eq s s'" "stays s s'"
    "placed cx s' v w" "\<forall>I. v = VInst I \<longrightarrow> (\<exists>a. held (dp_ra s') (iid I) = Some a \<and> al_reg a = r)"
    "dp_advent s' = (case v of VInst I \<Rightarrow> (dp_advent s)(iid I := tl (dp_advent s (iid I))) | _ \<Rightarrow> dp_advent s)"
    "card (pinned (dp_ra s')) \<le> Suc (card (pinned (dp_ra s)))" "r \<le> 16" "in_register (dp_out s') w r"
    "\<forall>j b. held (dp_ra s') j = Some b \<longrightarrow> held (dp_ra s) j \<noteq> None \<or> (\<exists>I. v = VInst I \<and> j = iid I)"
proof (cases "\<exists>I. v = VInst I")
  case False
  then obtain w where "translate_operand cx u v s = Inr ((w, 0), s)" "placed cx s v w" "in_register (dp_out s) w 0"
    using v(1) by (cases v; cases "case v of VArg nm t \<Rightarrow> the (cx_args cx nm) | VGlobal g t \<Rightarrow> the (cx_globals cx g) | _ \<Rightarrow> v") (auto simp: translate_operand_def operand_ready_def placed_def in_register_def action_defs check_that_def)
  then show thesis
    using False ok stays_refl by (intro that [of w 0 s]) (auto simp: frame_eq_def split: val_ir.splits)
next
  case True
  then obtain I where I: "v = VInst I" ..
  let ?i = "iid I"
  have slot: "slot_ok s ?i" and ty: "check_src_type (val_ty v)" using v(1) I by (auto simp: operand_ready_def)
  obtain r s1 b where 1: "get_register cx ?i s = Inr (r, s1)" "dp_ok cx {} s1" "frame_eq s s1" "stays s s1"
    "dp_advent s1 = dp_advent s" "held (dp_ra s1) ?i = Some b" "al_reg b = r" "only_adds ?i s s1"
    "pinned (dp_ra s1) \<subseteq> pinned (dp_ra s)"
    by (rule get_register_ok [OF laws ok slot room])
  have q: "dp_advent s1 ?i \<noteq> []" using v(2) I 1(5) by simp
  have blk: "cx_parent cx u = Some (dp_block s1)" using user(2) 1(3) by (simp add: frame_eq_def)
  obtain s2 c where 2: "report_use cx ?i (Some u) True s1 = Inr ((), s2)" "dp_ok cx {} s2" "frame_eq s1 s2"
    "dp_source s2 = dp_source s1" "dp_advent s2 = (dp_advent s1)(?i := tl (dp_advent s1 ?i))"
    "held (dp_ra s2) = (held (dp_ra s1))(?i \<mapsto> c)" "al_reg c = al_reg b" "al_last c = Some u"
    "dp_out s2 = dp_out s1"
    by (rule report_use_ok [OF laws 1(2,6), of True "Some u", simplified, OF q blk])
  obtain w where w: "dp_source s2 ?i = Some w" using dp_okD(4) [OF 1(2,6)] 2(4) by (auto simp: value_ok_def)
  have u1: "ra_user (dp_ra s1) = Some u" using 1(3) user(1) by (simp add: frame_eq_def)
  have need: "needed (Some u) c" using 2(8) by (simp add: needed_def)
  have "translate_operand cx u v s = Inr ((w, r), s2)"
    using I ty 1(1) 2(1) w by (simp add: translate_operand_def action_defs check_that_def)
  moreover have "stays s s2"
  proof (rule stays_trans [OF 1(4) _ 1(3)])
    show "stays s1 s2" using 1(6) 2(4,6,7) u1 need by (auto simp: stays_def)
  qed
  moreover have "placed cx s2 v w"
    using I w 2(3,6) need u1 by (simp add: placed_def frame_eq_def)
  moreover have "card (pinned (dp_ra s2)) \<le> Suc (card (pinned (dp_ra s)))"
  proof -
    have "pinned (dp_ra s2) \<subseteq> insert ?i (pinned (dp_ra s))"
      using 1(3,9) 2(3,6) by (auto simp: pinned_def frame_eq_def split: if_splits)
    then have "card (pinned (dp_ra s2)) \<le> card (insert ?i (pinned (dp_ra s)))"
      by (intro card_mono) (simp_all add: pinned_finite)
    then show ?thesis using card_insert_le_m1 [of "Suc (card (pinned (dp_ra s)))" "pinned (dp_ra s)" ?i] by simp
  qed
  moreover have "\<forall>j b. held (dp_ra s2) j = Some b \<longrightarrow> held (dp_ra s) j \<noteq> None \<or> (\<exists>I. v = VInst I \<and> j = iid I)"
  proof (intro allI impI)
    fix j d assume "held (dp_ra s2) j = Some d"
    then show "held (dp_ra s) j \<noteq> None \<or> (\<exists>I. v = VInst I \<and> j = iid I)"
      using 1(8) 2(6) I by (cases "j = ?i") (auto simp: only_adds_def)
  qed
  moreover have "frame_eq s s2" by (rule frame_eq_trans [OF 1(3) 2(3)])
  moreover have "in_register (dp_out s2) w r" "r \<le> 16"
  proof -
    have "held (dp_ra s2) ?i = Some c" "al_reg c = r" using 1(7) 2(6,7) by simp_all
    then show "in_register (dp_out s2) w r" "r \<le> 16"
      using dp_okD(4) [OF 2(2), of ?i c] held_reg [OF dp_okD(1) [OF 2(2)], of ?i c] w by (auto simp: value_ok_def)
  qed
  ultimately show thesis
    using I 1(5,7) 2(2,5,6,7) by (intro that [of w r s2]) simp_all
qed

end
