(* ===== verification/Backend_Passes.thy ===== *)
theory Backend_Passes
  imports Depromote_Module
begin

text \<open>
  The small passes \<open>Backend::run\<close> (\<open>src/src/core/Backend.cpp\<close>) makes before and
  after the depromotion: \<open>AllocaBytesHandler\<close>, \<open>RAHelper\<close> and
  \<open>GarbageSlotEliminator\<close>. New instructions get the numbers from a counter.
\<close>

subsection \<open>RAHelper\<close>

text \<open>
  The sets of \<open>AdventBlocks\<close> and \<open>FinalUses\<close> as relations. The blocks the incoming
  values of a phi node come from are a parameter, in the order of its operands.
\<close>

type_synonym uses_state = "(nat \<times> string) set \<times> (string \<times> nat) set"

fun helper_operands :: "string list option \<Rightarrow> string \<Rightarrow> bool \<Rightarrow> nat \<Rightarrow> val_ir list \<Rightarrow> uses_state \<Rightarrow> uses_state" where
  "helper_operands phi bb returns k [] s = s"
| "helper_operands phi bb returns k (v # vs) s =
     helper_operands phi bb returns (Suc k) vs
       (case v of
          VInst J \<Rightarrow>
            (case (phi, s) of
               (Some incoming, (adv, fin)) \<Rightarrow> (insert (iid J, incoming ! k) adv, fin)
             | (None, (adv, fin)) \<Rightarrow>
                 (insert (iid J, bb) adv, if returns then insert (bb, iid J) fin else fin))
        | _ \<Rightarrow> s)"

definition helper_inst :: "(inst \<Rightarrow> string list) \<Rightarrow> string \<Rightarrow> bool \<Rightarrow> inst \<Rightarrow> uses_state \<Rightarrow> uses_state" where
  "helper_inst incoming bb returns I s =
     (let s' = (if iname I \<noteq> [] then (insert (iid I, bb) (fst s), snd s) else s)
      in helper_operands (if iop I = OpPhi then Some (incoming I) else None) bb returns 0 (iops I) s')"

definition is_return_block :: "ir_block \<Rightarrow> bool" where
  "is_return_block bb = (snd bb \<noteq> [] \<and> iop (last (snd bb)) = OpRet)"

definition helper_block :: "(inst \<Rightarrow> string list) \<Rightarrow> ir_block \<Rightarrow> uses_state \<Rightarrow> uses_state" where
  "helper_block incoming bb s = fold (helper_inst incoming (fst bb) (is_return_block bb)) (snd bb) s"

definition final_uses :: "(inst \<Rightarrow> string list) \<Rightarrow> ir_function \<Rightarrow> (string \<times> nat) set" where
  "final_uses incoming F =
     (case fold (helper_block incoming) (fn_ir_blocks F) ({}, {}) of
        (adv, fin) \<Rightarrow> fin \<union> (\<lambda>(i, b). (b, i)) ` Set.filter (\<lambda>(i, b). \<forall>p \<in> adv. fst p = i \<longrightarrow> snd p = b) adv)"


subsection \<open>ConstExprToInsts\<close>

text \<open>
  The instructions that replace the constant expressions of a list of operands, and the new
  operands. \<open>getAsInstruction\<close> and \<open>setName\<close> of LLVM are parameters: the opcode of
  a constant expression, and the name of the instruction with a number.
\<close>

fun convert_value :: "(const_op \<Rightarrow> opcode) \<Rightarrow> (nat \<Rightarrow> string) \<Rightarrow> nat \<Rightarrow> val_ir \<Rightarrow> inst list \<times> val_ir \<times> nat"
  and convert_values :: "(const_op \<Rightarrow> opcode) \<Rightarrow> (nat \<Rightarrow> string) \<Rightarrow> nat \<Rightarrow> val_ir list \<Rightarrow> inst list \<times> val_ir list \<times> nat" where
  "convert_value opc nm n v =
     (case v of
        VConstExpr c vs t \<Rightarrow>
          (case convert_values opc nm (Suc n) vs of
             (Is, vs', m) \<Rightarrow> let I = Inst n (opc c) (nm n) t vs' in (Is @ [I], VInst I, m))
      | _ \<Rightarrow> ([], v, n))"
| "convert_values opc nm n [] = ([], [], n)"
| "convert_values opc nm n (v # vs) =
     (case convert_value opc nm n v of
        (Is, v', m) \<Rightarrow> (case convert_values opc nm m vs of (Js, vs', k) \<Rightarrow> (Is @ Js, v' # vs', k)))"

fun convert_insts :: "(const_op \<Rightarrow> opcode) \<Rightarrow> (nat \<Rightarrow> string) \<Rightarrow> nat \<Rightarrow> inst list \<Rightarrow> inst list \<times> nat" where
  "convert_insts opc nm n [] = ([], n)"
| "convert_insts opc nm n (Inst i c l t vs # rest) =
     (case convert_values opc nm n vs of
        (Js, vs', m) \<Rightarrow> (case convert_insts opc nm m rest of (Ks, k) \<Rightarrow> (Js @ Inst i c l t vs' # Ks, k)))"

subsection \<open>AllocaBytesHandler\<close>

text \<open>A value that is no instruction or argument is a \<open>Constant\<close>.\<close>

definition is_constant :: "val_ir \<Rightarrow> bool" where
  "is_constant v = (case v of VArg nm t \<Rightarrow> False | VInst I \<Rightarrow> False | _ \<Rightarrow> True)"

definition free_in_block_flag :: "val_ir list \<Rightarrow> u64 checked" where
  "free_in_block_flag vs =
     (case vs of _ # VInt w c # _ \<Rightarrow> Inr c | _ \<Rightarrow> Inl ''free_in_this_block should be constant!'')"

record alloca_state =
  ab_found :: bool             \<comment> \<open>\<open>ABFound\<close>\<close>
  ab_free :: bool              \<comment> \<open>\<open>FreeInThisBlock\<close>\<close>
  ab_sizes :: "val_ir list"    \<comment> \<open>\<open>SizeVector\<close>, the top first\<close>
  ab_set_ref :: "inst list"    \<comment> \<open>the call pushed to the front of the entry block\<close>
  ab_number :: nat

definition void_call :: "string \<Rightarrow> val_ir list \<Rightarrow> nat \<Rightarrow> inst" where
  "void_call f vs n = Inst n (OpCall f) [] TVoid vs"

definition alloca_call :: "val_ir list \<Rightarrow> alloca_state \<Rightarrow> alloca_state checked" where
  "alloca_call vs s =
     (let s = (if ab_found s then s
               else s\<lparr>ab_set_ref := [void_call SetRefName [] (ab_number s)], ab_number := Suc (ab_number s), ab_found := True\<rparr>)
      in if \<not> ab_free s then Inr s
         else rbind (free_in_block_flag vs) (\<lambda>c.
                Inr (if c = 0 then s\<lparr>ab_free := False\<rparr> else s\<lparr>ab_sizes := hd vs # ab_sizes s\<rparr>)))"

text \<open>The instructions of a block with the calls of \<open>SpillRefFn\<close> inserted.\<close>

fun alloca_insts :: "inst list \<Rightarrow> alloca_state \<Rightarrow> (inst list \<times> alloca_state) checked" where
  "alloca_insts [] s = Inr ([], s)"
| "alloca_insts (I # Is) s =
     rbind (case iop I of
              OpCall f \<Rightarrow>
                if f = AllocaBytesName then rbind (alloca_call (iops I) s) (\<lambda>s. Inr ([I], s))
                else if ab_found s \<and> length (iops I) = 16 \<and> (\<forall>v \<in> set (iops I). \<not> is_constant v)
                then Inr ([void_call SpillRefName [] (ab_number s), I], s\<lparr>ab_number := Suc (ab_number s)\<rparr>)
                else Inr ([I], s)
            | _ \<Rightarrow> Inr ([I], s)) (\<lambda>(Js, s).
     rbind (alloca_insts Is s) (\<lambda>(Ks, s). Inr (Js @ Ks, s)))"

text \<open>
  The sum of the sizes. \<open>CreateNUWAdd\<close> is called without a place to insert the addition, so
  that it is in no block.
\<close>

fun sum_sizes :: "val_ir \<Rightarrow> val_ir list \<Rightarrow> nat \<Rightarrow> val_ir \<times> nat" where
  "sum_sizes v [] n = (v, n)"
| "sum_sizes v (w # ws) n = sum_sizes (VInst (Inst n (OpBin Add) ''free_size'' (val_ty v) [v, w])) ws (Suc n)"

definition free_at_end :: "inst list \<Rightarrow> alloca_state \<Rightarrow> inst list \<times> alloca_state" where
  "free_at_end Is s =
     (case ab_sizes s of
        [] \<Rightarrow> (Is, s)
      | v # vs \<Rightarrow>
          if \<not> ab_free s then (Is, s)
          else (case sum_sizes v vs (ab_number s) of
                  (w, n) \<Rightarrow> (butlast Is @ [void_call FreeBytesName [w] n, last Is], s\<lparr>ab_number := Suc n\<rparr>)))"

definition alloca_block :: "ir_block \<Rightarrow> alloca_state \<Rightarrow> (ir_block \<times> alloca_state) checked" where
  "alloca_block bb s =
     rbind (alloca_insts (snd bb) (s\<lparr>ab_free := True, ab_sizes := []\<rparr>)) (\<lambda>(Is, s).
       case free_at_end Is s of (Js, s) \<Rightarrow> Inr ((fst bb, Js), s))"

fun alloca_blocks :: "ir_block list \<Rightarrow> alloca_state \<Rightarrow> (ir_block list \<times> alloca_state) checked" where
  "alloca_blocks [] s = Inr ([], s)"
| "alloca_blocks (bb # bbs) s =
     rbind (alloca_block bb s) (\<lambda>(bb', s). rbind (alloca_blocks bbs s) (\<lambda>(bbs', s). Inr (bb' # bbs', s)))"

definition alloca_function :: "nat \<Rightarrow> ir_function \<Rightarrow> (ir_function \<times> nat) checked" where
  "alloca_function n F =
     rbind (alloca_blocks (fn_ir_blocks F)
              \<lparr> ab_found = False, ab_free = True, ab_sizes = [], ab_set_ref = [], ab_number = n \<rparr>) (\<lambda>(bbs, s).
       Inr (F\<lparr>fn_ir_blocks := (case bbs of [] \<Rightarrow> [] | bb # rest \<Rightarrow> (fst bb, ab_set_ref s @ snd bb) # rest)\<rparr>, ab_number s))"

subsection \<open>GarbageSlotEliminator\<close>

definition uses_value :: "nat \<Rightarrow> inst \<Rightarrow> bool" where
  "uses_value i I = (\<exists>v \<in> set (iops I). case v of VInst J \<Rightarrow> iid J = i | _ \<Rightarrow> False)"

definition is_alloca :: "inst \<Rightarrow> bool" where
  "is_alloca I = (case iop I of OpAlloca t \<Rightarrow> True | _ \<Rightarrow> False)"

definition mark_garbage :: "inst list \<Rightarrow> inst \<Rightarrow> inst" where
  "mark_garbage insts I =
     (if is_alloca I \<and> (\<forall>J \<in> set insts. \<not> uses_value (iid I) J)
      then (case I of Inst i c nm t vs \<Rightarrow> Inst i c (nm @ ''_garbage'') t vs)
      else I)"

definition eliminate_garbage :: "ir_function \<Rightarrow> ir_function" where
  "eliminate_garbage F =
     (let insts = concat (map snd (fn_ir_blocks F))
      in F\<lparr>fn_ir_blocks := map (\<lambda>(bb, Is). (bb, map (mark_garbage insts) Is)) (fn_ir_blocks F)\<rparr>)"

end
