(* ===== verification/Depromote_Blocks.thy ===== *)
theory Depromote_Blocks
  imports Depromote_Operands Backend_Passes
begin

text \<open>
  What leaves a block: \<open>clearRA\<close> empties the allocator, and together with the sets of
  \<open>RAHelper\<close> every value another block uses is in its stack slot.
\<close>

subsection \<open>The end of a block\<close>

definition spills_only :: "depromote \<Rightarrow> depromote \<Rightarrow> bool" where
  "spills_only s s' \<longleftrightarrow> frame_eq s s' \<and> dp_source s' = dp_source s \<and> dp_advent s' = dp_advent s \<and>
     (\<forall>q. latest q (dp_out s') = latest q (dp_out s))"

lemma spills_only_refl [simp]: "spills_only s s"
  by (simp add: spills_only_def frame_eq_def)

lemma spills_only_trans: "\<lbrakk> spills_only s s'; spills_only s' s'' \<rbrakk> \<Longrightarrow> spills_only s s''"
  using frame_eq_trans [of s s' s''] by (simp add: spills_only_def)

lemma clear_loop_ok:
  assumes laws: "heap_laws (cx_heap cx)" and "dp_ok cx {} s" "ra_user (dp_ra s) = None" "n = length (ra_active (dp_ra s))"
  shows "\<exists>s'. clear_loop n cx s = Inr ((), s') \<and> dp_ok cx {} s' \<and> ra_active (dp_ra s') = [] \<and> spills_only s s'"
  using assms(2-)
proof (induction n arbitrary: s)
  case 0
  then have "ra_evict (cx_heap cx) 0 (dp_ra s) = Inr (None, dp_ra s)" by (simp add: ra_evict_def)
  then have "clear_loop 0 cx s = Inr ((), s)" by (simp add: action_defs)
  with 0 show ?case by auto
next
  case (Suc n)
  note rok = dp_okD(1) [OF Suc.prems(1)]
  obtain b where b: "b \<in> set (ra_active (dp_ra s))" "\<not> needed (ra_user (dp_ra s)) b"
    using Suc.prems(2,3) by (cases "ra_active (dp_ra s)") (auto simp: needed_def)
  obtain a ra where a: "ra_evict (cx_heap cx) 0 (dp_ra s) = Inr (Some a, ra)" "ra_ok ra"
      "held (dp_ra s) (al_source a) = Some a" "held ra = (held (dp_ra s))(al_source a := None)"
      "ra_temps ra = ra_temps (dp_ra s)" "ra_user ra = ra_user (dp_ra s)"
    using std_heap.evict_view [OF std_heap.intro [OF laws] rok b] by metis
  have len: "n = length (ra_active ra)"
    using std_heap.evict_result(2) [OF std_heap.intro [OF laws] rok a(1)] Suc.prems(3)
      std_heap.evict_result(1) [OF std_heap.intro [OF laws] rok a(1)]
    by (metis Suc_eq_plus1 add_diff_cancel_right' set_mset_mset size_Diff_singleton size_mset)
  obtain m where ev: "dp_evict cx (Some a) (s\<lparr>dp_ra := ra\<rparr>) =
      Inr ((), s\<lparr>dp_ra := ra, dp_out := dp_out s @ spill_code cx s a, dp_number := m\<rparr>)"
    and ok: "dp_ok cx {} (s\<lparr>dp_ra := ra, dp_out := dp_out s @ spill_code cx s a, dp_number := m\<rparr>)"
    by (rule evict_ok [OF Suc.prems(1) a(3,2,4)])
  let ?s1 = "s\<lparr>dp_ra := ra, dp_out := dp_out s @ spill_code cx s a, dp_number := m\<rparr>"
  have "ra_user (dp_ra ?s1) = None" "n = length (ra_active (dp_ra ?s1))" using Suc.prems(2) a(6) len by simp_all
  from Suc.IH [OF ok this] obtain s2 where 2: "clear_loop n cx ?s1 = Inr ((), s2)" "dp_ok cx {} s2"
    "ra_active (dp_ra s2) = []" "spills_only ?s1 s2" by blast
  have "clear_loop (Suc n) cx s = Inr ((), s2)"
    using a(1) ev 2(1) by (simp add: action_defs)
  moreover have "spills_only s s2"
    by (rule spills_only_trans [OF _ 2(4)]) (simp add: spills_only_def frame_eq_def a(5,6))
  ultimately show ?case using 2(2,3) by blast
qed

lemma clear_ra_ok:
  assumes "heap_laws (cx_heap cx)" "dp_ok cx {} s" "ra_user (dp_ra s) = None"
  obtains s' where "clear_ra cx s = Inr ((), s')" "dp_ok cx {} s'" "ra_active (dp_ra s') = []" "spills_only s s'"
  using clear_loop_ok [OF assms refl] by (auto simp: clear_ra_def action_defs)

subsection \<open>Final uses\<close>

text \<open>Where an instruction occurs: where it is named, and where it is an operand.\<close>

definition occurs_in :: "(inst \<Rightarrow> string list) \<Rightarrow> ir_function \<Rightarrow> nat \<Rightarrow> string \<Rightarrow> bool" where
  "occurs_in incoming F i b \<longleftrightarrow>
     (\<exists>bb \<in> set (fn_ir_blocks F). \<exists>I \<in> set (snd bb).
        (iname I \<noteq> [] \<and> iid I = i \<and> fst bb = b) \<or>
        (\<exists>k < length (iops I). \<exists>J. iops I ! k = VInst J \<and> iid J = i \<and>
           b = (if iop I = OpPhi then incoming I ! k else fst bb)))"

lemma helper_operands_adv:
  "fst (helper_operands phi bb returns k vs s) = fst s \<union>
     {(iid J, case phi of Some incoming \<Rightarrow> incoming ! (k + j) | None \<Rightarrow> bb) |J j. j < length vs \<and> vs ! j = VInst J}"
proof (induction vs arbitrary: k s)
  case Nil
  then show ?case by simp
next
  case (Cons v vs)
  let ?at = "\<lambda>j. case phi of Some incoming \<Rightarrow> incoming ! (k + j) | None \<Rightarrow> bb"
  have split: "{(iid J, ?at j) |J j. j < length (v # vs) \<and> (v # vs) ! j = VInst J} =
      {(iid J, ?at 0) |J. v = VInst J} \<union> {(iid J, ?at (Suc j)) |J j. j < length vs \<and> vs ! j = VInst J}"
    by (auto simp: less_Suc_eq_0_disj) (metis Suc_less_eq nth_Cons_Suc zero_less_Suc nth_Cons_0)+
  show ?case
    unfolding split using Cons.IH by (cases v; cases phi; cases s) auto
qed


definition inst_occurrences :: "(inst \<Rightarrow> string list) \<Rightarrow> string \<Rightarrow> inst \<Rightarrow> (nat \<times> string) set" where
  "inst_occurrences incoming bb I =
     (if iname I \<noteq> [] then {(iid I, bb)} else {}) \<union>
     {(iid J, if iop I = OpPhi then incoming I ! j else bb) |J j. j < length (iops I) \<and> iops I ! j = VInst J}"

lemma mem_inst_occurrences:
  "(i, b) \<in> inst_occurrences incoming bb I \<longleftrightarrow>
     (iname I \<noteq> [] \<and> iid I = i \<and> bb = b) \<or>
     (\<exists>k < length (iops I). \<exists>J. iops I ! k = VInst J \<and> iid J = i \<and>
        b = (if iop I = OpPhi then incoming I ! k else bb))"
  unfolding inst_occurrences_def by (cases "iop I = OpPhi") auto

lemma helper_inst_adv: "fst (helper_inst incoming bb returns I s) = fst s \<union> inst_occurrences incoming bb I"
  by (simp add: helper_inst_def helper_operands_adv inst_occurrences_def Let_def)

lemma fold_fst:
  assumes "\<And>x s. fst (f x s) = fst s \<union> g x"
  shows "fst (fold f xs s) = fst s \<union> (\<Union>x \<in> set xs. g x)"
  by (induction xs arbitrary: s) (auto simp: assms)

lemma helper_block_adv:
  "fst (helper_block incoming bb s) = fst s \<union> (\<Union>I \<in> set (snd bb). inst_occurrences incoming (fst bb) I)"
  unfolding helper_block_def by (rule fold_fst [OF helper_inst_adv])

lemma helper_adv:
  "fst (fold (helper_block incoming) (fn_ir_blocks F) ({}, {})) = {(i, b). occurs_in incoming F i b}"
proof -
  have "fst (fold (helper_block incoming) (fn_ir_blocks F) ({}, {})) =
      (\<Union>bb \<in> set (fn_ir_blocks F). \<Union>I \<in> set (snd bb). inst_occurrences incoming (fst bb) I)"
    by (simp add: fold_fst [OF helper_block_adv])
  also have "\<dots> = {(i, b). occurs_in incoming F i b}"
  proof (rule set_eqI)
    fix p :: "nat \<times> string"
    obtain i b where p: "p = (i, b)" by (cases p)
    show "(p \<in> (\<Union>bb \<in> set (fn_ir_blocks F). \<Union>I \<in> set (snd bb). inst_occurrences incoming (fst bb) I)) =
        (p \<in> {(i, b). occurs_in incoming F i b})"
      unfolding p occurs_in_def by (simp add: mem_inst_occurrences del: case_prod_unfold)
  qed
  finally show ?thesis .
qed

lemma helper_operands_fin:
  "snd (helper_operands phi bb returns k vs s) \<subseteq> snd s \<union> (if returns then {bb} \<times> UNIV else {})"
proof (induction vs arbitrary: k s)
  case Nil
  then show ?case by simp
next
  case (Cons v vs)
  obtain adv fin where s: "s = (adv, fin)" by (cases s)
  show ?case
    using Cons.IH [of "Suc k"] unfolding s by (cases v; cases phi; cases returns) (auto, (blast | fastforce)+)
qed

lemma fold_snd:
  assumes "\<And>x s. snd (f x s) \<subseteq> snd s \<union> g x"
  shows "snd (fold f xs s) \<subseteq> snd s \<union> (\<Union>x \<in> set xs. g x)"
proof (induction xs arbitrary: s)
  case Nil
  then show ?case by simp
next
  case (Cons x xs)
  show ?case using Cons.IH [of "f x s"] assms [of x s] by auto
qed

lemma helper_block_fin:
  "snd (helper_block incoming bb s) \<subseteq> snd s \<union> (if is_return_block bb then {fst bb} \<times> UNIV else {})"
proof -
  have "snd (helper_inst incoming b r I s) \<subseteq> snd s \<union> (if r then {b} \<times> UNIV else {})" for b r I s
    using helper_operands_fin [of "if iop I = OpPhi then Some (incoming I) else None" b r 0 "iops I"
        "if iname I \<noteq> [] then (insert (iid I, b) (fst s), snd s) else s"]
    unfolding helper_inst_def Let_def by (simp split: if_splits)
  then have "snd (helper_block incoming bb s) \<subseteq>
      snd s \<union> (\<Union>I \<in> set (snd bb). if is_return_block bb then {fst bb} \<times> UNIV else {})"
    unfolding helper_block_def by (rule fold_snd)
  then show ?thesis by (auto split: if_splits)
qed

text \<open>
  \<open>FinalUses\<close> is sound: a final use of an instruction is in a block that returns, or the
  instruction occurs in no other block.
\<close>

lemma final_uses_sound:
  assumes "(b, i) \<in> final_uses incoming F"
  shows "(\<exists>bb \<in> set (fn_ir_blocks F). fst bb = b \<and> is_return_block bb) \<or>
    (\<forall>c. occurs_in incoming F i c \<longrightarrow> c = b)"
proof -
  obtain adv fin where st: "fold (helper_block incoming) (fn_ir_blocks F) ({}, {}) = (adv, fin)"
    by (cases "fold (helper_block incoming) (fn_ir_blocks F) ({}, {})")
  have adv: "adv = {(i, b). occurs_in incoming F i b}" using helper_adv [of incoming F] by (simp add: st)
  have fin: "fin \<subseteq> (\<Union>bb \<in> set (fn_ir_blocks F). if is_return_block bb then {fst bb} \<times> UNIV else {})"
  proof -
    have "snd (fold (helper_block incoming) (fn_ir_blocks F) ({}, {})) \<subseteq> snd (({}, {}) :: uses_state) \<union>
        (\<Union>bb \<in> set (fn_ir_blocks F). if is_return_block bb then {fst bb} \<times> UNIV else {})"
      by (rule fold_snd [where g = "\<lambda>bb. if is_return_block bb then {fst bb} \<times> UNIV else {}"])
        (rule helper_block_fin)
    then show ?thesis by (simp add: st)
  qed
  consider "(b, i) \<in> fin" | "\<forall>c. (i, c) \<in> adv \<longrightarrow> c = b"
  proof -
    have "(b, i) \<in> fin \<or> (i, b) \<in> adv \<and> (\<forall>p \<in> adv. fst p = i \<longrightarrow> snd p = b)"
      using assms unfolding final_uses_def st by auto
    then show ?thesis using that by (metis fst_conv snd_conv)
  qed
  then show ?thesis
  proof cases
    case 1
    then have "(b, i) \<in> (\<Union>bb \<in> set (fn_ir_blocks F). if is_return_block bb then {fst bb} \<times> UNIV else {})"
      using fin by blast
    then show ?thesis by (auto split: if_splits)
  qed (auto simp: adv)
qed

end
