(* ===== verification/Depromote_Theorems.thy ===== *)
theory Depromote_Theorems
  imports Depromote_Blocks
begin

text \<open>
  Properties of the depromotion: what the emitted operators read and write, and which values are
  in their slots at the end of a block.
\<close>

subsection \<open>Building instructions\<close>

text \<open>
  What the code relies on in \<open>IRBuilder\<close>: folding gives a constant of the right type, only
  from constants, and an extension of a constant always folds.
\<close>

definition fold_laws :: "fn_context \<Rightarrow> bool" where
  "fold_laws cx \<longleftrightarrow>
     (\<forall>c t vs v. cx_fold cx c t vs = Some v \<longrightarrow> is_constant v \<and> val_ty v = t \<and> (\<forall>w \<in> set vs. is_constant w)) \<and>
     (\<forall>t v. is_constant v \<longrightarrow> cx_fold cx OpZExt t [v] \<noteq> None)"

lemma build_result:
  "build cx c nm t vs s =
     (case cx_fold cx c t vs of
        Some v \<Rightarrow> Inr (v, s)
      | None \<Rightarrow> Inr (VInst (Inst (dp_number s) c nm t vs),
          s\<lparr>dp_out := dp_out s @ [Inst (dp_number s) c nm t vs], dp_number := Suc (dp_number s)\<rparr>))"
  by (simp add: build_def action_defs Let_def split: option.splits)

lemma constant_in_register [simp]: "is_constant v \<Longrightarrow> in_register out v r"
  by (cases v) (simp_all add: is_constant_def in_register_def)

lemma in_register_latest: "\<forall>q. latest q out' = latest q out \<Longrightarrow> in_register out' v r = in_register out v r"
  by (cases v) (simp_all add: in_register_def)

text \<open>
  An operand of an emitted instruction: the value, which its register holds at this point, or
  its truncation, which the emitter reads from the same register.
\<close>

definition reads :: "inst list \<Rightarrow> val_ir \<Rightarrow> val_ir \<Rightarrow> bool" where
  "reads out w t \<longleftrightarrow> (\<exists>r. in_register out w r \<and>
     (t = w \<or> is_constant t \<and> is_constant w \<or>
      (\<exists>n c ty. t = VInst (Inst n c (assembly_register_name r @ ''after_trunc__'') ty [w]))))"

lemma reads_latest:
  assumes "reads out w t" "\<forall>q. latest q out' = latest q out"
  shows "reads out' w t"
  using assms(1) unfolding reads_def in_register_latest [OF assms(2)] .

lemma trunc_ok:
  assumes fold: "fold_laws cx" and ok: "dp_ok cx {} s" and w: "in_register (dp_out s) w r"
  obtains t s' where "trunc_or_bitcast cx w ty (assembly_register_name r @ ''after_trunc__'') s = Inr (t, s')"
    "dp_ok cx {} s'" "spills_only s s'" "dp_ra s' = dp_ra s" "reads (dp_out s') w t"
proof (cases "val_ty w = ty")
  case True
  then show thesis
    using ok w by (intro that [of w s]) (auto simp: trunc_or_bitcast_def ret_def reads_def)
next
  case False
  let ?c = "if is_int_ty (val_ty w) \<and> is_int_ty ty then OpTrunc else OpBitCast"
  let ?nm = "assembly_register_name r @ ''after_trunc__''"
  have run: "trunc_or_bitcast cx w ty ?nm s = build cx ?c ?nm ty [w] s" using False by (simp add: trunc_or_bitcast_def)
  show thesis
  proof (cases "cx_fold cx ?c ty [w]")
    case None
    let ?J = "Inst (dp_number s) ?c ?nm ty [w]"
    let ?s = "s\<lparr>dp_out := dp_out s @ [?J], dp_number := Suc (dp_number s)\<rparr>"
    have ok': "dp_ok cx {} ?s" by (rule dp_ok_emit [OF ok]) simp
    have lat: "\<forall>q. latest q (dp_out ?s) = latest q (dp_out s)" by (simp add: latest_snoc)
    have "reads (dp_out ?s) w (VInst ?J)"
      unfolding reads_def using w in_register_latest [OF lat] by blast
    moreover have "trunc_or_bitcast cx w ty ?nm s = Inr (VInst ?J, ?s)"
      unfolding run build_result None by simp
    moreover have "spills_only s ?s" using lat by (simp add: spills_only_def frame_eq_def)
    ultimately show thesis using ok' by (intro that [of "VInst ?J" ?s]) simp_all
  next
    case (Some v)
    then have c: "is_constant v" "is_constant w" using fold by (fastforce simp: fold_laws_def)+
    have "trunc_or_bitcast cx w ty ?nm s = Inr (v, s)" unfolding run build_result Some by simp
    then show thesis using ok c by (intro that [of v s]) (auto simp: reads_def)
  qed
qed

lemma report_user_ok:
  assumes "dp_ok cx X s"
  shows "report_user u s = Inr ((), s\<lparr>dp_ra := ra_report_user u (dp_ra s)\<rparr>)"
    "dp_ok cx X (s\<lparr>dp_ra := ra_report_user u (dp_ra s)\<rparr>)"
    "held (ra_report_user u (dp_ra s)) = held (dp_ra s)" "ra_temps (ra_report_user u (dp_ra s)) = ra_temps (dp_ra s)"
    "ra_user (ra_report_user u (dp_ra s)) = u"
proof -
  show h: "held (ra_report_user u (dp_ra s)) = held (dp_ra s)" by (rule ext) (simp add: held_def ra_report_user_def)
  have "ra_ok (ra_report_user u (dp_ra s))"
    using dp_okD(1) [OF assms] by (simp add: ra_ok_def ra_report_user_def ra_regs_def)
  then show "dp_ok cx X (s\<lparr>dp_ra := ra_report_user u (dp_ra s)\<rparr>)"
    using assms by (auto simp: dp_ok_def h spilled_ok_def stored_def held_ok_def slot_ok_def value_ok_def)
qed (simp_all add: report_user_def action_defs ra_report_user_def)


subsection \<open>Two operands\<close>

text \<open>The value an operand stands for.\<close>

definition denotes :: "fn_context \<Rightarrow> depromote \<Rightarrow> val_ir \<Rightarrow> val_ir \<Rightarrow> bool" where
  "denotes cx s v w =
     (case v of
        VArg nm t \<Rightarrow> cx_args cx nm = Some w
      | VInt k c \<Rightarrow> w = VInt 64 c
      | VNull t \<Rightarrow> w = v
      | VUndef t \<Rightarrow> w = VUndef (TInt 64)
      | VGlobal g t \<Rightarrow> cx_globals cx g = Some w
      | VConstExpr c vs t \<Rightarrow> False
      | VInst I \<Rightarrow> dp_source s (iid I) = Some w)"

lemma placed_denotes: "placed cx s v w \<Longrightarrow> denotes cx s v w"
  by (cases v) (simp_all add: placed_def denotes_def)

lemma denotes_source: "dp_source s' = dp_source s \<Longrightarrow> denotes cx s' v w = denotes cx s v w"
  by (cases v) (simp_all add: denotes_def)

text \<open>The value of an operand that stays is still in its register.\<close>

lemma placed_in_register:
  assumes "placed cx s v w" "in_register (dp_out s) w r" "\<forall>I. v = VInst I \<longrightarrow> (\<exists>a. held (dp_ra s) (iid I) = Some a \<and> al_reg a = r)"
    and "stays s s'" "dp_ok cx {} s'" and const: "\<And>J. w = VInst J \<Longrightarrow> \<exists>I. v = VInst I"
  shows "in_register (dp_out s') w r"
proof (cases "\<exists>J. w = VInst J")
  case False
  then show ?thesis by (cases w) (auto simp: in_register_def)
next
  case True
  then obtain I where I: "v = VInst I" using const by blast
  then obtain a where a: "held (dp_ra s) (iid I) = Some a" "al_reg a = r" using assms(3) by blast
  moreover have "dp_source s (iid I) = Some w" "needed (ra_user (dp_ra s)) a"
    using assms(1) a I by (auto simp: placed_def)
  ultimately obtain b where "dp_source s' (iid I) = Some w" "held (dp_ra s') (iid I) = Some b" "al_reg b = r"
    using assms(4) unfolding stays_def by metis
  then show ?thesis using dp_okD(4) [OF assms(5), of "iid I" b] by (auto simp: value_ok_def)
qed

lemma ready_constant:
  assumes "operand_ready cx s v" "denotes cx s' v (VInst J)"
  shows "\<exists>I. v = VInst I"
  using assms by (cases v) (auto simp: operand_ready_def denotes_def)

definition no_use :: "nat \<Rightarrow> depromote \<Rightarrow> bool" where
  "no_use i s \<longleftrightarrow> (\<forall>j a. held (dp_ra s) j = Some a \<longrightarrow> al_last a \<noteq> Some i)"

lemma two_operands_ok:
  assumes laws: "heap_laws (cx_heap cx)" "fold_laws cx" and ok: "dp_ok cx {} s"
    and i: "cx_parent cx i = Some (dp_block s)" "no_use i s" "held (dp_ra s) i = None"
    and ready: "operand_ready cx s a" "operand_ready cx s b" "\<forall>j. uses_of j [a, b] \<le> length (dp_advent s j)" "uses_of i [a, b] = 0"
    and room: "card (ra_temps (dp_ra s)) \<le> 14"
  obtains t1 t2 w1 w2 s' where "two_operands cx i ty a b s = Inr ((t1, t2), s')" "dp_ok cx {} s'"
    "denotes cx s' a w1" "denotes cx s' b w2" "reads (dp_out s') w1 t1" "reads (dp_out s') w2 t2"
    "ra_user (dp_ra s') = None" "ra_temps (dp_ra s') = ra_temps (dp_ra s)" "held (dp_ra s') i = None"
    "dp_slot s' = dp_slot s" "dp_block s' = dp_block s"
proof -
  let ?s0 = "s\<lparr>dp_ra := ra_report_user (Some i) (dp_ra s)\<rparr>"
  note r0 = report_user_ok [OF ok, of "Some i"]
  have p0: "pinned (dp_ra ?s0) = {}" using i(2) r0(3,5) by (auto simp: pinned_def no_use_def needed_def)
  have fr: "operand_ready cx ?s0 a" "operand_ready cx ?s0 b"
    using ready(1,2) by (simp_all add: operand_ready_def slot_ok_def split: val_ir.splits)
  have qa: "dp_advent ?s0 (iid I) \<noteq> []" if "a = VInst I" for I
    using ready(3) [rule_format, of "iid I"] that by (auto simp: uses_of_def)
  have u0: "ra_user (dp_ra ?s0) = Some i" "cx_parent cx i = Some (dp_block ?s0)"
    "card (pinned (dp_ra ?s0)) + card (ra_temps (dp_ra ?s0)) < 16"
    using r0(4,5) i(1) p0 room by simp_all
  obtain w1 r1 s1 where 1: "translate_operand cx i a ?s0 = Inr ((w1, r1), s1)" "dp_ok cx {} s1" "frame_eq ?s0 s1"
    "stays ?s0 s1" "placed cx s1 a w1" "\<forall>I. a = VInst I \<longrightarrow> (\<exists>d. held (dp_ra s1) (iid I) = Some d \<and> al_reg d = r1)"
    "dp_advent s1 = (case a of VInst I \<Rightarrow> (dp_advent ?s0)(iid I := tl (dp_advent ?s0 (iid I))) | _ \<Rightarrow> dp_advent ?s0)"
    "card (pinned (dp_ra s1)) \<le> Suc (card (pinned (dp_ra ?s0)))" "r1 \<le> 16" "in_register (dp_out s1) w1 r1"
    "\<forall>j d. held (dp_ra s1) j = Some d \<longrightarrow> held (dp_ra ?s0) j \<noteq> None \<or> (\<exists>I. a = VInst I \<and> j = iid I)"
    by (rule translate_operand_ok [OF laws(1) r0(2) u0(1,2) fr(1) qa u0(3)]) blast+
  have qb: "dp_advent s1 (iid I) \<noteq> []" if "b = VInst I" for I
    using ready(3) [rule_format, of "iid I"] that
    by (cases a) (auto simp: uses_of_def 1(7) split: if_splits dest!: Suc_le_length_iff [THEN iffD1])
  have u1: "ra_user (dp_ra s1) = Some i" "cx_parent cx i = Some (dp_block s1)" "operand_ready cx s1 b"
    "card (pinned (dp_ra s1)) + card (ra_temps (dp_ra s1)) < 16"
    using 1(3,8) r0(4,5) i(1) p0 room operand_ready_frame [OF 1(3)] fr(2) by (simp_all add: frame_eq_def)
  obtain w2 r2 s2 where 2: "translate_operand cx i b s1 = Inr ((w2, r2), s2)" "dp_ok cx {} s2" "frame_eq s1 s2"
    "stays s1 s2" "placed cx s2 b w2" "\<forall>I. b = VInst I \<longrightarrow> (\<exists>d. held (dp_ra s2) (iid I) = Some d \<and> al_reg d = r2)"
    "dp_advent s2 = (case b of VInst I \<Rightarrow> (dp_advent s1)(iid I := tl (dp_advent s1 (iid I))) | _ \<Rightarrow> dp_advent s1)"
    "card (pinned (dp_ra s2)) \<le> Suc (card (pinned (dp_ra s1)))" "r2 \<le> 16" "in_register (dp_out s2) w2 r2"
    "\<forall>j d. held (dp_ra s2) j = Some d \<longrightarrow> held (dp_ra s1) j \<noteq> None \<or> (\<exists>I. b = VInst I \<and> j = iid I)"
    by (rule translate_operand_ok [OF laws(1) 1(2) u1(1,2,3) qb u1(4)]) blast+
  have pa: "placed cx s2 a w1" by (rule placed_stays [OF 1(5) 2(4,3)])
  have ia: "in_register (dp_out s2) w1 r1"
    by (rule placed_in_register [OF 1(5,10,6) 2(4,2)])
      (use ready_constant [OF fr(1)] placed_denotes [OF 1(5)] in blast)
  have none: "held (dp_ra s2) i = None"
    using 1(11) 2(11) i(3) r0(3) ready(4)
    by (cases "held (dp_ra s2) i"; cases "held (dp_ra s1) i") (fastforce simp: uses_of_def split: if_splits)+
  obtain t1 s3 where 3: "trunc_or_bitcast cx w1 ty (assembly_register_name r1 @ ''after_trunc__'') s2 = Inr (t1, s3)"
    "dp_ok cx {} s3" "spills_only s2 s3" "dp_ra s3 = dp_ra s2" "reads (dp_out s3) w1 t1"
    by (rule trunc_ok [OF laws(2) 2(2) ia])
  have l3: "\<forall>q. latest q (dp_out s3) = latest q (dp_out s2)" using 3(3) by (simp add: spills_only_def)
  obtain t2 s4 where 4: "trunc_or_bitcast cx w2 ty (assembly_register_name r2 @ ''after_trunc__'') s3 = Inr (t2, s4)"
    "dp_ok cx {} s4" "spills_only s3 s4" "dp_ra s4 = dp_ra s3" "reads (dp_out s4) w2 t2"
    by (rule trunc_ok [OF laws(2) 3(2)]) (use 2(10) in_register_latest [OF l3] in blast)
  have l4: "\<forall>q. latest q (dp_out s4) = latest q (dp_out s3)" using 4(3) by (simp add: spills_only_def)
  let ?s5 = "s4\<lparr>dp_ra := ra_report_user None (dp_ra s4)\<rparr>"
  note r5 = report_user_ok [OF 4(2), of None]
  have "two_operands cx i ty a b s = Inr ((t1, t2), ?s5)"
    using r0(1) 1(1,9) 2(1,9) 3(1) 4(1) r5(1)
    by (simp add: two_operands_def register_name_def bindm_def ret_def assert_that_def check_that_def)
  moreover have src: "dp_source ?s5 = dp_source s2" using 3(3) 4(3) by (simp add: spills_only_def)
  moreover have "denotes cx ?s5 a w1" "denotes cx ?s5 b w2"
    using placed_denotes [OF pa] placed_denotes [OF 2(5)] by (simp_all add: denotes_source [OF src])
  moreover have "reads (dp_out ?s5) w1 t1" using reads_latest [OF 3(5) l4] by simp
  moreover have "dp_slot ?s5 = dp_slot s" "dp_block ?s5 = dp_block s"
    using 1(3) 2(3) 3(3) 4(3) by (simp_all add: spills_only_def frame_eq_def)
  moreover have "ra_temps (dp_ra ?s5) = ra_temps (dp_ra s)"
    using 1(3) 2(3) 3(4) 4(4) r0(4) r5(4) by (simp add: frame_eq_def)
  ultimately show thesis
    using r5 4(5) 3(4) 4(4) none by (intro that [of t1 t2 ?s5 w1 w2]) simp_all
qed

subsection \<open>Binary operators\<close>

text \<open>
  The code emitted for an operator: its operands are the values of \<open>a\<close> and \<open>b\<close>, which
  their registers hold at that point, and it writes the register that \<open>i\<close> has afterwards. A
  narrow result is extended in the same register. A folded result is a constant.
\<close>

definition computed :: "fn_context \<Rightarrow> nat \<Rightarrow> opcode \<Rightarrow> val_ir \<Rightarrow> val_ir \<Rightarrow> depromote \<Rightarrow> bool" where
  "computed cx i c a b s \<longleftrightarrow>
     (\<exists>v. dp_source s i = Some v \<and> (is_constant v \<or>
       (\<exists>Z J pre post t1 t2 w1 w2. v = VInst Z \<and> dp_out s = pre @ J # post \<and> iop J = c \<and> iops J = [t1, t2] \<and>
          denotes cx s a w1 \<and> denotes cx s b w2 \<and> reads pre w1 t1 \<and> reads pre w2 t2 \<and>
          reg_writes (ra_get i (dp_ra s)) J \<and>
          (Z = J \<and> post = [] \<or> iop Z = OpZExt \<and> iops Z = [VInst J] \<and> post = [Z]))))"

lemma denotes_set_source:
  assumes "denotes cx s v w" "uses_of i [v] = 0"
  shows "denotes cx (s\<lparr>dp_out := out, dp_number := n, dp_source := (dp_source s)(i \<mapsto> u)\<rparr>) v w"
  using assms by (cases v) (auto simp: denotes_def uses_of_def split: if_splits)

lemma uses_of_Cons0: "uses_of i (v # vs) = 0 \<longleftrightarrow> uses_of i [v] = 0 \<and> uses_of i vs = 0"
  by (auto simp: uses_of_def)

text \<open>The result: the operator, and its extension when it is narrow.\<close>

lemma build_result_ok:
  assumes fold: "fold_laws cx" and ok: "dp_ok cx {i} s" and i: "held (dp_ra s) i = Some d" "al_reg d = r"
    and t: "is_int_ty ty" and den: "denotes cx s a w1" "denotes cx s b w2" "uses_of i [a, b] = 0"
    and rd: "reads (dp_out s) w1 t1" "reads (dp_out s) w2 t2"
  obtains v s' where
    "(if ty \<noteq> TInt 64
      then bindm (build cx c (assembly_register_name r @ ''before_zext__'') ty [t1, t2]) (\<lambda>v.
             build cx OpZExt (assembly_register_name r) (TInt 64) [v])
      else build cx c (assembly_register_name r) ty [t1, t2]) s = Inr (v, s')"
    "dp_ok cx {} (s'\<lparr>dp_source := (dp_source s')(i \<mapsto> v)\<rparr>)"
    "computed cx i c a b (s'\<lparr>dp_source := (dp_source s')(i \<mapsto> v)\<rparr>)" "dp_ra s' = dp_ra s"
proof (cases "\<exists>v. cx_fold cx c ty [t1, t2] = Some v")
  case True
  then obtain v where v: "cx_fold cx c ty [t1, t2] = Some v" ..
  then have vt: "is_constant v" "val_ty v = ty" using fold by (auto simp: fold_laws_def)
  obtain u where u: "(if ty \<noteq> TInt 64
      then bindm (build cx c (assembly_register_name r @ ''before_zext__'') ty [t1, t2]) (\<lambda>v.
             build cx OpZExt (assembly_register_name r) (TInt 64) [v])
      else build cx c (assembly_register_name r) ty [t1, t2]) s = Inr (u, s)" "is_constant u" "val_ty u = TInt 64"
  proof (cases "ty = TInt 64")
    case True
    then show ?thesis using v vt by (intro that [of v]) (simp_all add: build_result bindm_def)
  next
    case False
    have "cx_fold cx OpZExt (TInt 64) [v] \<noteq> None" using fold vt(1) unfolding fold_laws_def by blast
    then obtain u where u: "cx_fold cx OpZExt (TInt 64) [v] = Some u" by blast
    then have "is_constant u" "val_ty u = TInt 64" using fold unfolding fold_laws_def by blast+
    with u show ?thesis using v False by (intro that [of u]) (simp_all add: build_result bindm_def)
  qed
  show thesis
    using u dp_ok_set_source [OF ok i(1), of u] by (intro that [of u s]) (auto simp: computed_def)
next
  case False
  then have none: "cx_fold cx c ty [t1, t2] = None" by simp
  have a0: "uses_of i [a] = 0" and b0: "uses_of i [b] = 0" using den(3) uses_of_Cons0 [of i a "[b]"] by simp_all
  have g: "ra_get i (dp_ra s) = r" using i by (simp add: ra_get_held)
  show thesis
  proof (cases "ty = TInt 64")
    case True
    let ?J = "Inst (dp_number s) c (assembly_register_name r) ty [t1, t2]"
    let ?s = "s\<lparr>dp_out := dp_out s @ [?J], dp_number := Suc (dp_number s)\<rparr>"
    have "dp_ok cx {} (?s\<lparr>dp_source := (dp_source ?s)(i \<mapsto> VInst ?J)\<rparr>)"
      using define_value_ok [OF ok i(1), of ?J "Suc (dp_number s)"] i(2) True by simp
    moreover have "computed cx i c a b (?s\<lparr>dp_source := (dp_source ?s)(i \<mapsto> VInst ?J)\<rparr>)"
      using denotes_set_source [OF den(1) a0] denotes_set_source [OF den(2) b0] rd g
      unfolding computed_def by (fastforce simp: reg_writes_def)
    ultimately show thesis
      using True none by (intro that [of "VInst ?J" ?s]) (simp_all add: build_result)
  next
    case False
    let ?J = "Inst (dp_number s) c (assembly_register_name r @ ''before_zext__'') ty [t1, t2]"
    let ?s = "s\<lparr>dp_out := dp_out s @ [?J], dp_number := Suc (dp_number s)\<rparr>"
    let ?Z = "Inst (Suc (dp_number s)) OpZExt (assembly_register_name r) (TInt 64) [VInst ?J]"
    let ?s' = "?s\<lparr>dp_out := dp_out ?s @ [?Z], dp_number := Suc (dp_number ?s)\<rparr>"
    have nz: "cx_fold cx OpZExt (TInt 64) [VInst ?J] = None"
    proof (cases "cx_fold cx OpZExt (TInt 64) [VInst ?J]")
      case (Some u)
      then have "is_constant (VInst ?J)" using fold unfolding fold_laws_def by fastforce
      then show ?thesis by (simp add: is_constant_def)
    qed
    have ok1: "dp_ok cx {i} ?s"
      by (rule dp_ok_emit_into [OF ok i(1)]) (simp add: reg_writes_def i(2))
    have "dp_ok cx {} (?s'\<lparr>dp_source := (dp_source ?s')(i \<mapsto> VInst ?Z)\<rparr>)"
      using define_value_ok [OF ok1, of d ?Z "Suc (dp_number ?s)"] i by simp
    moreover have "computed cx i c a b (?s'\<lparr>dp_source := (dp_source ?s')(i \<mapsto> VInst ?Z)\<rparr>)"
      using denotes_set_source [OF den(1) a0] denotes_set_source [OF den(2) b0] rd g
      unfolding computed_def by (fastforce simp: reg_writes_def)
    ultimately show thesis
      using False none nz by (intro that [of "VInst ?Z" ?s']) (simp_all add: build_result bindm_def)
  qed
qed

lemma request_name_ok:
  assumes laws: "heap_laws (cx_heap cx)" and ok: "dp_ok cx {} s" and i: "held (dp_ra s) i = None" "slot_ok s i"
    and room: "ra_user (dp_ra s) = None" "card (ra_temps (dp_ra s)) < 16"
  obtains r s' d where "request_name cx i s = Inr (assembly_register_name r, s')" "dp_ok cx {i} s'"
    "held (dp_ra s') i = Some d" "al_reg d = r" "dp_source s' = dp_source s" "frame_eq s s'"
    "\<forall>q. latest q (dp_out s') = latest q (dp_out s)"
proof -
  have "pinned (dp_ra s) = {}" using room(1) by (simp add: pinned_def needed_def)
  then have "card (pinned (dp_ra s)) + card (ra_temps (dp_ra s)) < 16" using room(2) by simp
  then obtain r s1 d where 1: "request_register cx i s = Inr (r, s1)" "dp_ok cx {i} s1" "frame_eq s s1" "keeps_pinned s s1"
    "dp_source s1 = dp_source s" "dp_advent s1 = dp_advent s" "held (dp_ra s1) i = Some d" "al_reg d = r" "al_last d = None"
    "only_adds i s s1" "\<forall>q. latest q (dp_out s1) = latest q (dp_out s)"
    by (rule request_register_ok [OF laws ok i])
  have "r \<le> 16" using held_reg [OF dp_okD(1) [OF 1(2)] 1(7)] 1(8) by simp
  with 1 show thesis
    by (intro that [of r s1 d])
      (simp_all add: request_name_def register_name_def bindm_def ret_def assert_that_def check_that_def)
qed


subsection \<open>Values that leave a block\<close>


subsection \<open>An example\<close>

definition load_x :: inst where "load_x = Inst 21 OpLoad ''x'' (TInt 64) [VGlobal ''g'' (TPtr (TInt 64))]"
definition add_y :: inst where "add_y = Inst 22 (OpBin Add) ''y'' (TInt 64) [VInst load_x, VInt 64 7]"

definition two_blocks :: ir_function where
  "two_blocks = \<lparr> fn_ir_name = ''f'', fn_ir_args = [],
     fn_ir_blocks = [(''entry'', [load_x, add_y, Inst 23 (OpBr [''exit'']) [] TVoid []]),
       (''exit'', [Inst 24 (OpBin Mul) ''z'' (TInt 64) [VInst load_x, VInst add_y], Inst 25 OpRet [] TVoid []])] \<rparr>"

definition sample_cx :: fn_context where
  "sample_cx = \<lparr> cx_parent = (\<lambda>i. if i = 21 \<or> i = 22 then Some (''f'', ''entry'') else None),
     cx_final = (\<lambda>(f, b). {i. (b, i) \<in> final_uses (\<lambda>_. []) two_blocks}), cx_args = Map.empty,
     cx_globals = Map.empty, cx_phis = (\<lambda>_. []), cx_functions = [''f''], cx_heap = sorted_heap_ops,
     cx_fold = (\<lambda>c t vs. if c = OpZExt \<and> (\<forall>v \<in> set vs. is_constant v) then Some (VUndef t) else None) \<rparr>"

definition load_r2 :: inst where "load_r2 = Inst 10 OpLoad ''__r2__'' (TInt 64) [VNull (TPtr (TInt 64))]"

definition after_load :: depromote where
  "after_load = empty_state\<lparr>
     dp_ra := \<lparr> ra_free = [1, 3, 4, 5, 6, 7, 8, 9, 10, 11, 12, 13, 14, 15, 16], ra_temps = {},
       ra_active = [\<lparr> al_source = 21, al_last = None, al_reg = 2, al_next = 1 \<rparr>], ra_user = None \<rparr>,
     dp_advent := (\<lambda>_. [])(21 := [1]), dp_source := [21 \<mapsto> VInst load_r2],
     dp_slot := [21 \<mapsto> Inst 8 (OpAlloca (TInt 64)) ''x_slot'' (TPtr (TInt 64)) [],
                 22 \<mapsto> Inst 9 (OpAlloca (TInt 64)) ''y_slot'' (TPtr (TInt 64)) []],
     dp_block := (''f'', ''entry''), dp_out := [load_r2], dp_number := 11\<rparr>"

lemma register_2: "assembly_register_name 2 = ''__r2__''"
  by code_simp

lemma after_load_held: "held (dp_ra after_load) = [21 \<mapsto> \<lparr> al_source = 21, al_last = None, al_reg = 2, al_next = 1 \<rparr>]"
  by (rule ext) (simp add: after_load_def held_def)

lemma after_load_fields:
  "dp_source after_load = [21 \<mapsto> VInst load_r2]" "dp_out after_load = [load_r2]" "dp_block after_load = (''f'', ''entry'')"
  "dp_advent after_load = (\<lambda>_. [])(21 := [1])" "ra_user (dp_ra after_load) = None" "ra_temps (dp_ra after_load) = {}"
  by (simp_all add: after_load_def)

lemma after_load_slots: "slot_ok after_load 21" "slot_ok after_load 22"
  by (simp_all add: slot_ok_def after_load_def)

lemma after_load_ra: "ra_ok (dp_ra after_load)"
proof -
  have regs: "all_regs = [1, 2, 3, 4, 5, 6, 7, 8, 9, 10, 11, 12, 13, 14, 15, 16]" by code_simp
  have "mset all_regs = mset [2, 1, 3, 4, 5, 6, 7, 8, 9, 10, 11, 12, 13, 14, 15, 16]" unfolding regs by simp
  then show ?thesis by (simp add: after_load_def ra_ok_def ra_regs_def heap_ordered_def add.commute)
qed

lemma after_load_ok: "dp_ok sample_cx {} after_load"
proof (rule dp_okI [OF after_load_ra])
  have w: "reg_writes 2 load_r2" "iname load_r2 = assembly_register_name 2" "ity load_r2 = TInt 64"
    using register_2 by (simp_all add: reg_writes_def load_r2_def)
  then have "value_ok after_load 21 2" by (simp add: value_ok_def after_load_fields in_register_def latest_def)
  then show "value_ok after_load i (al_reg a)" if "held (dp_ra after_load) i = Some a" "i \<notin> {}" for i a
    using that by (auto simp: after_load_held split: if_splits)
  show "held_ok sample_cx after_load i a" if "held (dp_ra after_load) i = Some a" for i a
    using that after_load_slots by (auto simp: after_load_held held_ok_def split: if_splits)
  show "spilled_ok sample_cx after_load i" for i
    by (auto simp: spilled_ok_def after_load_held after_load_fields)
qed

lemma sample_fold: "fold_laws sample_cx"
  by (auto simp: fold_laws_def sample_cx_def is_constant_def)



end
