(* ===== verification/Depromote_Faults.thy ===== *)
theory Depromote_Faults
  imports Depromote_Theorems
begin

text \<open>
  Inputs on which the depromotion goes wrong, evaluated on the model.
\<close>

subsection \<open>Arguments of calls\<close>

text \<open>
  \<open>visitCallInst\<close> translates the arguments without \<open>reportUser\<close>. Here fifteen values
  with further uses are in registers, and a call has two arguments, both in their slots. The first
  is loaded into the last free register; it has no further use, so that it is the victim when the
  second needs a register. The call then names one register twice.
\<close>

definition busy_slot :: "nat \<Rightarrow> inst" where
  "busy_slot i = Inst (200 + i) (OpAlloca (TInt 64)) ''slot'' (TPtr (TInt 64)) []"

definition arg_a :: inst where "arg_a = Inst 31 OpLoad ''a'' (TInt 64) [VNull (TPtr (TInt 64))]"
definition arg_b :: inst where "arg_b = Inst 32 OpLoad ''b'' (TInt 64) [VNull (TPtr (TInt 64))]"

definition busy_state :: depromote where
  "busy_state = empty_state\<lparr>
     dp_ra := \<lparr> ra_free = [16], ra_temps = {},
       ra_active = map (\<lambda>i. \<lparr> al_source = 40 + i, al_last = None, al_reg = i, al_next = 9 \<rparr>) [1..<16], ra_user = None \<rparr>,
     dp_advent := (\<lambda>i. if i = 31 \<or> i = 32 then [3] else []),
     dp_source := (\<lambda>i. Some (VInst (Inst (100 + i) OpLoad (assembly_register_name (i - 40)) (TInt 64) []))),
     dp_slot := (\<lambda>i. Some (busy_slot i)), dp_block := (''f'', ''entry''), dp_number := 300\<rparr>"

definition busy_cx :: fn_context where
  "busy_cx = \<lparr> cx_parent = (\<lambda>i. Some (''f'', if i = 31 \<or> i = 32 then ''before'' else ''entry'')), cx_final = (\<lambda>_. {}),
     cx_args = Map.empty, cx_globals = Map.empty, cx_phis = (\<lambda>_. []), cx_functions = [''f''],
     cx_heap = sorted_heap_ops, cx_fold = (\<lambda>_ _ _. None) \<rparr>"

lemma call_arguments_share_a_register:
  "map_sum id (\<lambda>(_, s). map (\<lambda>I. (iop I, iname I, map (\<lambda>v. case v of VInst J \<Rightarrow> iname J | _ \<Rightarrow> []) (iops I))) (dp_out s))
     (dp_visit_call busy_cx (Inst 33 (OpCall ''f'') [] TVoid [VInst arg_a, VInst arg_b]) ''f'' [VInst arg_a, VInst arg_b] busy_state) =
   Inr [(OpLoad, ''__r16__'', [''slot'']), (OpLoad, ''__r16__'', [''slot'']), (OpCall ''f'', [], [''__r16__'', ''__r16__''])]"
  by code_simp


subsection \<open>Casts and address computations that emit nothing\<close>

text \<open>
  \<open>CreateBitCast\<close> to the same type returns its operand. An address with index zero on an
  \<open>i8*\<close> gets register 2, but its value stays the pointer in register 1, which the allocator
  may give away while the address is still in use.
\<close>

definition arg_p :: inst where "arg_p = Inst 31 OpLoad ''p'' (TPtr (TInt 8)) [VNull (TPtr (TPtr (TInt 8)))]"

definition pointer_state :: depromote where
  "pointer_state = empty_state\<lparr>
     dp_ra := \<lparr> ra_free = [2, 3, 4, 5, 6, 7, 8, 9, 10, 11, 12, 13, 14, 15, 16], ra_temps = {},
       ra_active = [\<lparr> al_source = 31, al_last = None, al_reg = 1, al_next = 1 \<rparr>], ra_user = None \<rparr>,
     dp_advent := (\<lambda>i. if i = 31 then [1] else []),
     dp_source := [31 \<mapsto> VInst (Inst 131 OpLoad (assembly_register_name 1) (TPtr (TInt 8)) [])],
     dp_slot := (\<lambda>i. Some (busy_slot i)), dp_block := (''f'', ''entry''), dp_number := 300\<rparr>"

lemma zero_index_keeps_the_pointer:
  "map_sum id (\<lambda>(_, s). (ra_get 33 (dp_ra s), map_option (\<lambda>v. case v of VInst J \<Rightarrow> iname J | _ \<Rightarrow> []) (dp_source s 33), dp_out s))
     (dp_visit_gep busy_cx (Inst 33 OpGEP ''q'' (TPtr (TInt 8)) [VInst arg_p, VInt 64 0]) (VInst arg_p) [VInt 64 0] pointer_state) =
   Inr (2, Some ''__r1__'', [])"
  by code_simp

subsection \<open>Stack frames that grow\<close>

text \<open>
  \<open>AllocaBytesHandler\<close> adds the sizes of two allocations of a block with an instruction it
  does not insert: the argument of the call that frees them is in no block.
\<close>

definition two_allocas :: ir_function where
  "two_allocas = \<lparr> fn_ir_name = ''f'', fn_ir_args = [], fn_ir_blocks = [(''entry'',
     [Inst 1 (OpCall AllocaBytesName) ''p'' (TPtr (TInt 8)) [VInt 64 16, VInt 64 1],
      Inst 2 (OpCall AllocaBytesName) ''q'' (TPtr (TInt 8)) [VInt 64 24, VInt 64 1],
      Inst 3 OpRet [] TVoid []])] \<rparr>"

definition missing_operands :: "ir_function \<Rightarrow> nat list" where
  "missing_operands F =
     (let insts = concat (map snd (fn_ir_blocks F)); ids = map iid insts
      in concat (map (\<lambda>I. concat (map (\<lambda>v. case v of VInst J \<Rightarrow> if iid J \<in> set ids then [] else [iid J] | _ \<Rightarrow> []) (iops I))) insts))"

lemma sum_of_sizes_is_in_no_block:
  "map_sum id (\<lambda>(F, n). (map (map iop \<circ> snd) (fn_ir_blocks F), missing_operands F)) (alloca_function 100 two_allocas) =
   Inr ([[OpCall SetRefName, OpCall AllocaBytesName, OpCall AllocaBytesName, OpCall FreeBytesName, OpRet]], [101])"
  by code_simp

end
