(* ===== verification/Depromote_Casts.thy ===== *)
theory Depromote_Casts
  imports Depromote_Theorems Bop
begin

text \<open>
  The casts. The target has only 64-bit registers, and \<open>DepromoteRegisters\<close> replaces the
  casts of integers by arithmetic; here the arithmetic is evaluated with the operations of the
  interpreter.
\<close>

text \<open>The value of an emitted expression, from the values \<open>env\<close> of some instructions.\<close>

fun expr_value :: "(nat \<Rightarrow> u64 option) \<Rightarrow> val_ir \<Rightarrow> u64 result" where
  "expr_value env (VInst (Inst i c nm t vs)) =
     (case env i of
        Some x \<Rightarrow> Inr x
      | None \<Rightarrow>
          (case (c, vs) of
             (OpBin k, [a, b]) \<Rightarrow> rbind (expr_value env a) (\<lambda>x. rbind (expr_value env b) (\<lambda>y. compute k Size64 x y))
           | _ \<Rightarrow> Inl (Runtime_error ''no value'')))"
| "expr_value env (VInt n c) = Inr c"
| "expr_value env v = Inl (Runtime_error ''no value'')"

lemma compute_mul: "compute Mul Size64 a b = Inr (a * b)"
  by (simp add: compute_def get_op1_def get_op2_def get_result_def)

lemma compute_ashr: "unat b < 64 \<Longrightarrow> compute Ashr Size64 a b = Inr (signed_drop_bit (unat b) a)"
  by (simp add: compute_def get_op1_def get_op2_def get_result_def unat_mod)

lemma compute_urem: "b \<noteq> 0 \<Longrightarrow> compute Urem Size64 a b = Inr (a mod b)"
  by (simp add: compute_def get_op1_def get_op2_def get_result_def)

definition sign_extended :: "nat \<Rightarrow> u64 \<Rightarrow> u64" where
  "sign_extended bw x = word_of_int (signed_take_bit (bw - 1) (uint x))"

lemma sign_extension_by_shifts:
  fixes x :: u64
  assumes "1 \<le> bw" "bw < 64"
  shows "signed_drop_bit (64 - bw) (x * sext_factor bw) = sign_extended bw x"
proof -
  have "x * sext_factor bw = push_bit (64 - bw) x"
    by (simp add: sext_factor_def push_bit_eq_mult)
  moreover have "signed_drop_bit (64 - bw) (push_bit (64 - bw) x) = sign_extended bw x"
  proof (rule bit_word_eqI)
    fix n assume n: "n < LENGTH(64)"
    show "bit (signed_drop_bit (64 - bw) (push_bit (64 - bw) x)) n = bit (sign_extended bw x) n"
      using assms n unfolding sign_extended_def
      by (cases "n = bw - 1") (auto simp: bit_signed_drop_bit_iff bit_push_bit_iff bit_word_of_int_iff bit_signed_take_bit_iff bit_uint_iff min_def)
  qed
  ultimately show ?thesis by simp
qed

lemma trunc_by_remainder:
  fixes x :: u64
  assumes "n < 64"
  shows "x mod trunc_divisor n = take_bit n x" "trunc_divisor n \<noteq> 0"
  using assms by (simp_all add: trunc_divisor_def take_bit_eq_mod push_bit_eq_mult)

lemma sext_shift_nat: "1 \<le> bw \<Longrightarrow> unat (sext_shift bw) = 64 - bw"
  by (simp add: sext_shift_def unsigned_of_nat take_bit_nat_eq_self)


lemma sext_value:
  assumes "translate_operand cx (iid I) v s = Inr ((w, r), s1)" "request_name cx (iid I) s1 = Inr (reg, s2)"
    and "\<forall>k t vs. cx_fold cx (OpBin k) t vs = None" "expr_value env w = Inr x" "\<forall>n \<ge> dp_number s2. env n = None"
    and "val_ty v = TInt bw" "1 \<le> bw"
  shows "\<exists>s' u. dp_visit_sext cx I v s = Inr ((), s') \<and> dp_source s' (iid I) = Some u \<and>
    expr_value env u = Inr (if bw < 64 then sign_extended bw x else x)"
proof -
  have fresh: "env (dp_number s2) = None" "env (Suc (dp_number s2)) = None" using assms(5) by simp_all
  have "expr_value env (VInst (Inst (Suc (dp_number s2)) (OpBin Ashr) reg (TInt 64)
      [VInst (Inst (dp_number s2) (OpBin Mul) reg (TInt 64) [w, VInt 64 (sext_factor bw)]), VInt 64 (sext_shift bw)])) =
      Inr (sign_extended bw x)" if "bw < 64"
    using fresh assms(4,7) that sign_extension_by_shifts [of bw x] sext_shift_nat [of bw]
    by (simp add: compute_mul compute_ashr)
  then show ?thesis
    using assms(1-4,6) fresh
    by (simp add: dp_visit_sext_def bindm_def set_source_def update_def build_result compute_mul)
qed



lemma sign_extended_128: "sign_extended 8 128 = 0xFFFFFFFFFFFFFF80"
  by code_simp

lemma sample_request: "\<exists>r s'. request_name sample_cx 22 after_load = Inr (assembly_register_name r, s')"
proof -
  have "heap_laws (cx_heap sample_cx)" using sorted_heap.laws by (simp add: sample_cx_def)
  moreover have "held (dp_ra after_load) 22 = None" by (simp add: after_load_held)
  moreover have "ra_user (dp_ra after_load) = None" "card (ra_temps (dp_ra after_load)) < 16"
    by (simp_all add: after_load_fields)
  ultimately show ?thesis
    using request_name_ok [OF _ after_load_ok _ after_load_slots(2)] by metis
qed

lemma sample_translate: "translate_operand sample_cx u (VInt 8 128) after_load = Inr ((VInt 64 128, 0), after_load)"
  by (simp add: translate_operand_def action_defs check_that_def)

lemma sample_no_fold: "\<forall>k t vs. cx_fold sample_cx (OpBin k) t vs = None"
  by (simp add: sample_cx_def)

definition sext_i16 :: inst where "sext_i16 = Inst 22 OpSExt ''y'' (TInt 16) [VInt 8 128]"


text \<open>
  The width of the destination has no influence: an 8-bit value extended to 16 bits is not
  zero-extended, and extending it further to 64 bits, as unsigned, gives the wrong number.
\<close>

lemma sext_is_not_zero_extended:
  "\<exists>s' u x. dp_visit_sext sample_cx sext_i16 (VInt 8 128) after_load = Inr ((), s') \<and> ity sext_i16 = TInt 16 \<and>
     dp_source s' 22 = Some u \<and> expr_value Map.empty u = Inr x \<and> take_bit 16 x \<noteq> x"
proof -
  obtain r s' where 1: "request_name sample_cx (iid sext_i16) after_load = Inr (assembly_register_name r, s')"
    using sample_request by (auto simp: sext_i16_def)
  have "take_bit 16 (0xFFFFFFFFFFFFFF80 :: u64) \<noteq> 0xFFFFFFFFFFFFFF80" by code_simp
  moreover have "\<exists>s' u. dp_visit_sext sample_cx sext_i16 (VInt 8 128) after_load = Inr ((), s') \<and>
      dp_source s' 22 = Some u \<and> expr_value Map.empty u = Inr 0xFFFFFFFFFFFFFF80"
    using sext_value [OF sample_translate 1 sample_no_fold, of Map.empty 128 8]
    by (simp add: sign_extended_128 sext_i16_def)
  moreover have "ity sext_i16 = TInt 16" by (simp add: sext_i16_def)
  ultimately show ?thesis by metis
qed

end
