(* ===== verification/Depromote_Globals.thy ===== *)
theory Depromote_Globals
  imports Depromote_Module Memory_Theorems
begin

text \<open>
  Where \<open>visitModule\<close> puts the global variables: behind the safe part of the stack, from the
  top down, or in the block of heap that \<open>main\<close> allocates first.
\<close>

definition apart :: "u64 \<times> bool \<times> u64 \<Rightarrow> u64 \<times> bool \<times> u64 \<Rightarrow> bool" where
  "apart p q = (case (p, q) of ((a, _, n), (b, _, m)) \<Rightarrow>
     unat a + unat n \<le> unat b \<or> unat b + unat m \<le> unat a)"

definition sum_heap :: "(u64 \<times> bool \<times> u64) list \<Rightarrow> nat" where
  "sum_heap locs = sum_list (map (\<lambda>(a, h, n). if h then unat n else 0) locs)"

definition sum_stack :: "(u64 \<times> bool \<times> u64) list \<Rightarrow> nat" where
  "sum_stack locs = sum_list (map (\<lambda>(a, h, n). if h then 0 else unat n) locs)"

text \<open>The invariant of the loop.\<close>

definition loc_ok :: "gv_state \<Rightarrow> u64 \<times> bool \<times> u64 \<Rightarrow> bool" where
  "loc_ok s p = (case p of (a, h, n) \<Rightarrow> 8 dvd unat a \<and> 8 dvd unat n \<and>
     (if h then 20480 \<le> unat a \<and> unat a + unat n \<le> unat (gv_heap s)
      else unat (gv_stack s) \<le> unat a \<and> unat a + unat n \<le> 10240))"

definition gv_ok :: "gv_state \<Rightarrow> bool" where
  "gv_ok s \<longleftrightarrow> 5120 \<le> unat (gv_stack s) \<and> unat (gv_stack s) + sum_stack (gv_locs s) = 10240 \<and>
     unat (gv_heap s) = 20480 + sum_heap (gv_locs s) \<and> 8 dvd unat (gv_stack s) \<and> 8 dvd unat (gv_heap s) \<and>
     (\<forall>p \<in> set (gv_locs s). loc_ok s p) \<and> sorted_wrt apart (gv_locs s) \<and>
     length (gv_map s) = length (gv_locs s) \<and>
     (\<forall>i < length (gv_locs s). \<exists>g t. gv_map s ! i = (g, gv_address (fst (gv_locs s ! i)) t))"

lemma gv_ok_init: "gv_ok gv_init"
  by (simp add: gv_ok_def gv_init_def sum_heap_def sum_stack_def)

lemma gv_size_nat:
  assumes "unat n \<le> 5120"
  shows "unat (gv_size n) = (unat n + 7) div 8 * 8" "unat (gv_size n) \<le> 5120" "8 dvd unat (gv_size n)"
proof -
  have "unat (n + 7) = unat n + 7" using assms by (simp add: unat_word_ariths)
  then have "unat ((n + 7) div 8) = (unat n + 7) div 8" by (simp add: unat_div)
  moreover have "(unat n + 7) div 8 * 8 \<le> 5120" using assms by simp
  ultimately show s: "unat (gv_size n) = (unat n + 7) div 8 * 8"
    unfolding gv_size_def by (simp add: unat_word_ariths)
  then show "unat (gv_size n) \<le> 5120" "8 dvd unat (gv_size n)" using assms by simp_all
qed

lemma unat_ucast_32_64: "unat (ucast (n :: u32) :: u64) = unat n"
  by (simp add: unsigned_ucast_eq take_bit_nat_eq_self_iff) (use unsigned_less [where 'a = nat, of n] in simp)

text \<open>One more variable, on the stack or in the heap.\<close>

lemma place_global_ok:
  assumes ok: "gv_ok s" and n: "get_access_size t = Some n" "unat n \<le> 5120" and room: "unat (gv_heap s) + 5120 < 2 ^ 64"
    and res: "place_global g t s = Inr s'"
  shows "gv_ok s' \<and> sum_heap (gv_locs s') + sum_stack (gv_locs s') =
    sum_heap (gv_locs s) + sum_stack (gv_locs s) + unat (gv_size n)"
proof -
  define sz where "sz = (ucast (gv_size n) :: u64)"
  have sz: "unat sz = unat (gv_size n)" "unat sz \<le> 5120" "8 dvd unat sz"
    using gv_size_nat [OF n(2)] by (simp_all add: sz_def unat_ucast_32_64)
  have st: "5120 \<le> unat (gv_stack s)" "unat (gv_stack s) \<le> 10240" using ok by (simp_all add: gv_ok_def)
  have sub: "unat (gv_stack s - sz) = unat (gv_stack s) - unat sz"
    using sz(2) st(1) by (intro unat_sub) (simp add: word_le_nat_alt)
  show ?thesis
  proof (cases "STACK_SAFE_REGION \<le> gv_stack s - sz")
    case True
    let ?a = "gv_stack s - sz"
    have s': "s' = s\<lparr>gv_stack := ?a, gv_map := gv_map s @ [(g, gv_address ?a t)], gv_locs := gv_locs s @ [(?a, False, sz)]\<rparr>"
      using res n(1) True by (simp add: place_global_def sz_def Let_def)
    have "5120 \<le> unat ?a" using True by (simp add: word_le_nat_alt STACK_SAFE_REGION_def)
    moreover have "apart p (?a, False, sz)" if "p \<in> set (gv_locs s)" for p
    proof -
      have "loc_ok s p" using ok that by (simp add: gv_ok_def)
      then show ?thesis using sub sz(2) st by (auto simp: loc_ok_def apart_def split: prod.splits if_splits)
    qed
    moreover have "loc_ok s' p" if "p \<in> set (gv_locs s)" for p
    proof -
      have "loc_ok s p" using ok that by (simp add: gv_ok_def)
      then show ?thesis using sub by (auto simp: loc_ok_def s' split: prod.splits)
    qed
    moreover have "8 dvd unat ?a" using sub sz st ok by (simp add: gv_ok_def)
    ultimately show ?thesis
      using ok sub sz st unfolding gv_ok_def s'
      by (auto simp: loc_ok_def sorted_wrt_append sum_heap_def sum_stack_def nth_append less_Suc_eq)
  next
    case False
    let ?a = "gv_heap s"
    have s': "s' = s\<lparr>gv_map := gv_map s @ [(g, gv_address ?a t)], gv_locs := gv_locs s @ [(?a, True, sz)], gv_heap := ?a + sz\<rparr>"
      using res n(1) False by (simp add: place_global_def sz_def Let_def)
    have add: "unat (?a + sz) = unat ?a + unat sz"
      using room sz(2) by (simp add: unat_word_ariths)
    have "apart p (?a, True, sz)" if "p \<in> set (gv_locs s)" for p
    proof -
      have "loc_ok s p" "20480 \<le> unat ?a" using ok that by (simp_all add: gv_ok_def)
      then show ?thesis by (auto simp: loc_ok_def apart_def split: prod.splits if_splits)
    qed
    moreover have "loc_ok s' p" if "p \<in> set (gv_locs s)" for p
    proof -
      have "loc_ok s p" using ok that by (simp add: gv_ok_def)
      then show ?thesis using add by (auto simp: loc_ok_def s' split: prod.splits)
    qed
    ultimately show ?thesis
      using ok add sz unfolding gv_ok_def s'
      by (auto simp: loc_ok_def sorted_wrt_append sum_heap_def sum_stack_def nth_append less_Suc_eq)
  qed
qed


text \<open>The rounded sizes of the global variables.\<close>

fun global_bytes :: "global_object list \<Rightarrow> nat" where
  "global_bytes [] = 0"
| "global_bytes (Global g t # gs) = (case get_access_size t of None \<Rightarrow> 0 | Some n \<Rightarrow> unat (gv_size n)) + global_bytes gs"
| "global_bytes (Func F t # gs) = global_bytes gs"

definition small_global :: "global_object \<Rightarrow> bool" where
  "small_global G = (case G of Global g t \<Rightarrow> (\<forall>n. get_access_size t = Some n \<longrightarrow> unat n \<le> 5120) | Func F t \<Rightarrow> True)"

lemma visit_globals_ok:
  assumes "visit_globals gs s = Inr (Fs, s')" "gv_ok s" "\<forall>G \<in> set gs. small_global G"
    and "sum_heap (gv_locs s) + sum_stack (gv_locs s) + global_bytes gs \<le> 2 ^ 31"
  shows "gv_ok s' \<and> sum_heap (gv_locs s') + sum_stack (gv_locs s') =
    sum_heap (gv_locs s) + sum_stack (gv_locs s) + global_bytes gs"
  using assms
proof (induction gs s arbitrary: Fs rule: visit_globals.induct)
  case (1 s)
  then show ?case by simp
next
  case (2 g t gs s)
  obtain s1 where 1: "place_global g t s = Inr s1" "visit_globals gs s1 = Inr (Fs, s')"
    using "2.prems"(1) by (cases "place_global g t s") (auto simp: rbind_def)
  obtain n where n: "get_access_size t = Some n"
    using 1(1) by (cases "get_access_size t") (auto simp: place_global_def)
  have "unat n \<le> 5120" using "2.prems"(3) n by (simp add: small_global_def)
  moreover have "unat (gv_heap s) + 5120 < 2 ^ 64" using "2.prems"(2,4) by (simp add: gv_ok_def)
  ultimately have step: "gv_ok s1" "sum_heap (gv_locs s1) + sum_stack (gv_locs s1) =
      sum_heap (gv_locs s) + sum_stack (gv_locs s) + unat (gv_size n)"
    using place_global_ok [OF "2.prems"(2) n _ _ 1(1)] by simp_all
  then show ?case using "2.IH" [OF 1] "2.prems"(3,4) n by simp
next
  case (3 F t gs s)
  obtain F' where F': "function_target F t = Inr F'"
    using "3.prems"(1) by (cases "function_target F t") (auto simp: rbind_def)
  obtain Gs where "visit_globals gs s = Inr (Gs, s')"
    using "3.prems"(1) F' by (cases "visit_globals gs s") (auto simp: rbind_def)
  then show ?case using "3.IH" [OF F'] "3.prems" by simp
qed

text \<open>\<open>HeapSize\<close> and \<open>StackSize\<close> are the sums, as 32-bit numbers.\<close>

lemma sizes_fold:
  "foldl (\<lambda>n (a, h, sz). if h then n + ucast (sz :: u64) else n) (of_nat k) locs = (of_nat (k + sum_heap locs) :: u32)"
  "foldl (\<lambda>n (a, h, sz). if h then n else n + ucast (sz :: u64)) (of_nat k) locs = (of_nat (k + sum_stack locs) :: u32)"
proof (induction locs arbitrary: k)
  case Nil
  { case 1 show ?case by (simp add: sum_heap_def) next case 2 show ?case by (simp add: sum_stack_def) }
next
  case (Cons p locs)
  obtain a h n where p: "p = (a, h, n)" by (cases p)
  have u: "(of_nat m + ucast n :: u32) = of_nat (m + unat n)" for m by simp
  { case 1 show ?case using Cons.IH(1) [of k] Cons.IH(1) [of "k + unat n"]
      by (cases h) (simp_all add: p u sum_heap_def add.assoc del: of_nat_add of_nat_unat)
  next case 2 show ?case using Cons.IH(2) [of k] Cons.IH(2) [of "k + unat n"]
      by (cases h) (simp_all add: p u sum_stack_def add.assoc del: of_nat_add of_nat_unat) }
qed

lemma sizes_sum: "heap_size locs = of_nat (sum_heap locs)" "stack_size locs = of_nat (sum_stack locs)"
  using sizes_fold [of 0 locs] by (simp_all add: heap_size_def stack_size_def)



definition sample_globals :: "global_object list" where
  "sample_globals = [Global ''a'' (TArr 600 (TInt 64)), Global ''b'' (TInt 32), Global ''c'' (TArr 5000 (TInt 8))]"

lemma sample_globals_placed:
  "visit_module sample_globals = Inr ([malloc_declaration],
     \<lparr> gv_heap = 25480, gv_stack = 5432,
       gv_map = [(''a'', gv_address 5440 (TArr 600 (TInt 64))), (''b'', gv_address 5432 (TInt 32)),
         (''c'', gv_address 20480 (TArr 5000 (TInt 8)))],
       gv_locs = [(5440, False, 4800), (5432, False, 8), (20480, True, 5000)] \<rparr>)"
  by code_simp


text \<open>
  The test for the end of the stack part is on unsigned numbers: a variable of more bytes than
  are left below \<open>10240\<close> wraps around, and is put on the stack at an address at the end of the
  64-bit range instead of in the heap.
\<close>

lemma large_global_wraps:
  "map_sum id gv_locs (place_global ''a'' (TArr 10248 (TInt 8)) gv_init) = Inr [(18446744073709551608, False, 10248)]"
  by code_simp

end
