(* ===== verification/Register_Names.thy ===== *)
theory Register_Names
  imports Depromote_Registers Emitter_Props
begin

text \<open>
  The names of registers, the only thing the depromotion and the emitter share: what
  \<open>assemblyRegisterName\<close> writes into the name of an instruction,
  \<open>getRegisterNameFromInstruction\<close> reads back, and the parser of the interpreter reads the
  result as the same register.
\<close>

definition name_suffixes :: "string list" where
  "name_suffixes = [[], ''after_trunc__'', ''before_zext__'', ''to_i1__'']"

lemma strip_digits:
  assumes "\<forall>c \<in> set ds. is_digit c" "nm \<noteq> []" "\<not> is_digit (last nm)"
  shows "strip_trailing_digits (nm @ ds) = nm"
proof -
  have "takeWhile is_digit (rev ds @ rev nm) = rev ds"
    using assms by (subst takeWhile_append2) (auto simp: hd_rev takeWhile_eq_Nil_iff)
  then show ?thesis by (simp add: strip_trailing_digits_def)
qed

lemma ends_with_rev: "ends_with a s \<longleftrightarrow> length s \<le> length a \<and> take (length s) (rev a) = rev s"
  by (auto simp: ends_with_def take_rev)

lemma suffix_stripped:
  assumes "suf \<in> set name_suffixes" "strip_trailing_digits (assembly_register_name r @ suf) = assembly_register_name r @ suf"
  shows "leave_assembly_register_name_only (assembly_register_name r @ suf) True = assembly_register_name r"
proof -
  obtain c e where d: "rev (nat_to_string r) = c # e" by (cases "rev (nat_to_string r)") auto
  then have "set (nat_to_string r) = insert c (set e)" by (metis list.simps(15) set_rev)
  then have "is_digit c" "\<forall>x \<in> set e. is_digit x" using nat_to_string_digits [of r] by auto
  then have "c \<noteq> CHR ''c''" "c \<noteq> CHR ''t''" "e = [] \<or> hd e \<noteq> CHR ''i''" by (cases e; auto simp: is_digit_def)+
  moreover from this(3) have "\<not> ends_with (assembly_register_name r) ''to_i1__''"
    using d by (cases e) (auto simp: ends_with_rev assembly_register_name_def)
  ultimately show ?thesis
    using assms d
    by (auto simp: leave_assembly_register_name_only_def name_suffixes_def ends_with_rev strip_suffix_def
        assembly_register_name_def)
qed

lemma match_register_name: "match_number ''__r'' ''__'' (assembly_register_name r) = Some (nat_to_string r)"
proof -
  have digit: "is_digit c \<Longrightarrow> (of_char c :: nat) \<noteq> 0" for c by (simp add: is_digit_def)
  have "c_str (assembly_register_name r) = assembly_register_name r"
    unfolding c_str_def using nat_to_string_digits [of r] digit
    by (intro takeWhile_eq_all_conv [THEN iffD2]) (auto simp: assembly_register_name_def)
  moreover have "assembly_register_name r \<in> lang (seq [lit ''__r'', plus (Chr is_digit), lit ''__''])"
  proof -
    have "nat_to_string r \<in> lang (plus (Chr is_digit))"
      using nat_to_string_digits [of r] by (simp only: lang_plus_Chr) auto
    then show ?thesis by (auto simp: assembly_register_name_def simp del: lang_plus)
  qed
  ultimately show ?thesis
    by (simp add: match_number_def regex_match_iff Let_def del: lang_seq_Cons) (simp add: assembly_register_name_def)
qed

text \<open>
  C37. The register allocated by the depromotion is the register of the machine. A name made of a
  register from 1 to 16, a marker of a cast and the digits that LLVM adds to keep names
  different is read back by the emitter as that register, and the parser of the interpreter reads
  its printed form as the same register.
\<close>

theorem register_names_read_back:
  assumes "1 \<le> r" "r \<le> 16" "suf \<in> set name_suffixes" "\<forall>c \<in> set ds. is_digit c"
  shows "get_register_name_from_instruction (Inst n c (assembly_register_name r @ suf @ ds) t vs) True = Inr (show_reg (r - 1)) \<and>
    parse_reg (show_reg (r - 1)) = Inr (r - 1)"
proof -
  let ?nm = "assembly_register_name r @ suf"
  have "last ?nm = CHR ''_''" using assms(3) by (auto simp: name_suffixes_def assembly_register_name_def)
  then have "strip_trailing_digits (?nm @ ds) = ?nm" by (intro strip_digits [OF assms(4)]) (simp_all add: is_digit_def)
  moreover have nm: "strip_trailing_digits ?nm = ?nm"
    using strip_digits [of "[]" ?nm] \<open>last ?nm = CHR ''_''\<close> by (simp add: is_digit_def)
  ultimately have "leave_assembly_register_name_only (?nm @ ds) True = leave_assembly_register_name_only ?nm True"
    by (simp add: leave_assembly_register_name_only_def)
  also have "\<dots> = assembly_register_name r"
    by (rule suffix_stripped [OF assms(3) nm])
  finally have name: "leave_assembly_register_name_only (assembly_register_name r @ suf @ ds) True = assembly_register_name r"
    by simp
  have "register_number (nat_to_string r) ''incorrect instruction name'' = Inr (int r)"
    using assms(1,2) by (simp add: register_number_def stoi_nat_to_string)
  then have "get_register_name_from_instruction (Inst n c (assembly_register_name r @ suf @ ds) t vs) True = Inr (show_reg (r - 1))"
    using assms(1,2) name match_register_name
    by (simp add: get_register_name_from_instruction_def Let_def raise_if_def int_to_string_def show_reg_def reg_numbers)
  moreover have "parse_reg (show_reg (r - 1)) = Inr (r - 1)"
    using assms(2) by (intro parse_show_reg) (simp add: reg_numbers)
  ultimately show ?thesis ..
qed

theorem register_names_read_back_witness:
  "get_register_name_from_instruction (Inst 3 OpLoad (assembly_register_name 16 @ ''before_zext__'' @ ''12'') (TInt 8) []) True =
     Inr ''r16''"
proof -
  have "show_reg (16 - 1) = ''r16''" by code_simp
  then show ?thesis
    using register_names_read_back [of 16 "''before_zext__''" "''12''" 3 OpLoad "TInt 8" "[]"]
    by (simp add: name_suffixes_def is_digit_def)
qed

end
