(* ===== verification/Pack_Registers.thy ===== *)
theory Pack_Registers
  imports LLVM_IR Bop
begin

text \<open>
  The pass that packs small arguments of a function into one
  (\<open>src/src/passes/PackRegisters.cpp\<close>). \<open>ArgumentPackingInfo\<close> sorts the arguments by
  size and groups them; the caller merges a group with multiplications and exclusive ors, and the
  callee takes it apart with divisions.

  Arguments are named by their position. The sort also compares the addresses of the
  \<open>Argument\<close> objects, which are a parameter, as are the numbers of new instructions.
\<close>

subsection \<open>ArgumentPackingInfo\<close>

definition PACK_MAX_SIZE :: nat where "PACK_MAX_SIZE = 64"
definition PACK_VALID_COUNT :: nat where "PACK_VALID_COUNT = 3"

text \<open>\<open>getTypeSizeInBits\<close> of an integer or a pointer.\<close>

fun type_bits :: "ty \<Rightarrow> nat" where
  "type_bits (TInt w) = w"
| "type_bits (TPtr t) = 64"
| "type_bits _ = 0"

record packing =
  pk_types :: "ty list"                  \<comment> \<open>\<open>ArgTy\<close>\<close>
  pk_not :: "(nat \<times> nat) list"           \<comment> \<open>\<open>NotPack\<close>, by the position in the new function\<close>
  pk_will :: "(nat \<times> nat list) list"     \<comment> \<open>\<open>WillPack\<close>\<close>
  pk_count :: nat                        \<comment> \<open>\<open>PackedCount\<close>\<close>

text \<open>The inner loop: take arguments as long as they fit.\<close>

function look_ahead :: "nat list \<Rightarrow> nat \<Rightarrow> nat \<Rightarrow> nat \<times> nat" where
  "look_ahead sizes now bits =
     (if now + 1 < length sizes \<and> bits + sizes ! (now + 1) \<le> PACK_MAX_SIZE
      then look_ahead sizes (now + 1) (bits + sizes ! (now + 1))
      else (now, bits))"
  by pat_completeness auto
termination by (relation "measure (\<lambda>(sizes, now, bits). length sizes - now)") auto

declare look_ahead.simps [simp del]

text \<open>The smallest integer type that holds the group.\<close>

definition pack_type :: "nat \<Rightarrow> ty list" where
  "pack_type bits = (case find (\<lambda>w. bits \<le> w) [8, 16, 32, 64] of None \<Rightarrow> [] | Some w \<Rightarrow> [TInt w])"

text \<open>
  \<open>PackedSize\<close> is an \<open>unsigned\<close>; with the types the compiler accepts, of at most 64 bits, it never
  exceeds 128 and what is taken off was added before.
\<close>

function pack_loop :: "ty list \<Rightarrow> nat list \<Rightarrow> nat \<Rightarrow> nat \<Rightarrow> nat \<Rightarrow> packing \<Rightarrow> packing" where
  "pack_loop tys order from now bits pk =
     (if from < length order
      then (let sizes = map (\<lambda>i. type_bits (tys ! i)) order; (now, bits) = look_ahead sizes now bits in
        if PACK_VALID_COUNT \<le> now + 1 - from
        then pack_loop tys order (now + 1) now 0
               (pk\<lparr>pk_will := pk_will pk @ [(pk_count pk, map (\<lambda>k. order ! k) [from..<now + 1])],
                  pk_types := pk_types pk @ pack_type bits, pk_count := pk_count pk + 1\<rparr>)
        else pack_loop tys order (from + 1) now (bits - sizes ! from)
               (pk\<lparr>pk_types := pk_types pk @ [tys ! (order ! from)],
                  pk_not := pk_not pk @ [(pk_count pk, order ! from)], pk_count := pk_count pk + 1\<rparr>))
      else pk)"
  by pat_completeness auto
termination
  by (relation "measure (\<lambda>(tys, order, from, now, bits, pk). length order - from)")
    (auto simp: PACK_VALID_COUNT_def)

declare pack_loop.simps [simp del]

definition no_packing :: packing where
  "no_packing = \<lparr> pk_types = [], pk_not = [], pk_will = [], pk_count = 0 \<rparr>"

text \<open>The pairs of size and address, sorted.\<close>

definition argument_order :: "(nat \<Rightarrow> nat) \<Rightarrow> ty list \<Rightarrow> nat list" where
  "argument_order addr tys = sort_key (\<lambda>i. type_bits (tys ! i)) (sort_key addr [0..<length tys])"

definition argument_packing :: "(nat \<Rightarrow> nat) \<Rightarrow> ty list \<Rightarrow> packing" where
  "argument_packing addr tys =
     (if tys = [] then no_packing
      else let order = argument_order addr tys
           in pack_loop tys order 0 0 (type_bits (tys ! (order ! 0))) no_packing)"

subsection \<open>The caller\<close>

definition value_name :: "val_ir \<Rightarrow> string" where
  "value_name v = (case v of VArg nm t \<Rightarrow> nm | VGlobal g t \<Rightarrow> g | VInst I \<Rightarrow> iname I | _ \<Rightarrow> [])"

fun int_bits :: "ty \<Rightarrow> nat" where
  "int_bits (TInt w) = w"
| "int_bits _ = 0"

text \<open>The extensions of the parameters of a group, then the merges, from the last to the first.\<close>

fun zext_code :: "ty \<Rightarrow> nat \<Rightarrow> val_ir list \<Rightarrow> inst list" where
  "zext_code t n [] = []"
| "zext_code t n (v # vs) = Inst n OpZExt (''zext.'' @ value_name v) t [v] # zext_code t (Suc n) vs"

fun merge_code :: "ty \<Rightarrow> nat \<Rightarrow> (inst \<times> nat) list \<Rightarrow> inst list \<times> inst \<times> nat" where
  "merge_code t n [] = ([], Inst n OpOther [] t [], n)"
| "merge_code t n [(z, b)] = ([], z, n)"
| "merge_code t n ((z, b) # zs) =
     (case merge_code t n zs of
        (Is, v, m) \<Rightarrow>
          let mul = Inst m (OpBin Mul) ''merge'' t [VInst v, VInt (int_bits t) (push_bit b 1)];
              x = Inst (m + 1) (OpBin Xor) ''merge'' t [VInst mul, VInst z]
          in (Is @ [mul, x], x, m + 2))"

definition merge_group :: "ty \<Rightarrow> nat \<Rightarrow> (val_ir \<times> nat) list \<Rightarrow> inst list \<times> inst \<times> nat" where
  "merge_group t n vs =
     (let zs = zext_code t n (map fst vs) in
      case merge_code t (n + length vs) (zip zs (map snd vs)) of (Is, v, m) \<Rightarrow> (zs @ Is, v, m))"

text \<open>All groups; the parameters of the new call are the merged values and those left alone.\<close>

fun merge_groups :: "packing \<Rightarrow> ty list \<Rightarrow> val_ir list \<Rightarrow> nat \<Rightarrow> (nat \<times> nat list) list \<Rightarrow>
    inst list \<times> (nat \<times> val_ir) list \<times> nat" where
  "merge_groups pk tys vs n [] = ([], [], n)"
| "merge_groups pk tys vs n ((i, grp) # gs) =
     (case merge_group (pk_types pk ! i) n (map (\<lambda>a. (vs ! a, type_bits (tys ! a))) grp) of
        (Is, v, m) \<Rightarrow> (case merge_groups pk tys vs m gs of (Js, ps, k) \<Rightarrow> (Is @ Js, (i, VInst v) # ps, k)))"

definition packed_args :: "packing \<Rightarrow> val_ir list \<Rightarrow> (nat \<times> val_ir) list \<Rightarrow> val_ir list" where
  "packed_args pk vs merged =
     map (\<lambda>i. case map_of merged i of Some v \<Rightarrow> v
            | None \<Rightarrow> (case map_of (pk_not pk) i of Some a \<Rightarrow> vs ! a | None \<Rightarrow> VUndef TVoid)) [0..<pk_count pk]"

text \<open>\<open>PackRegistersFromCaller\<close>: what is inserted behind the call, and the new call.\<close>

definition pack_call :: "packing \<Rightarrow> ty list \<Rightarrow> nat \<Rightarrow> inst \<Rightarrow> inst list \<times> inst \<times> nat" where
  "pack_call pk tys n CI =
     (case merge_groups pk tys (iops CI) n (pk_will pk) of
        (Is, merged, m) \<Rightarrow>
          (Is, Inst m (iop CI) (if ity CI \<noteq> TVoid then iname CI else []) (ity CI) (packed_args pk (iops CI) merged), m + 1))"

subsection \<open>The callee\<close>

text \<open>
  The divisions that take a group apart, and the values of its arguments before they are
  truncated. \<open>nm\<close> gives the names of the arguments.
\<close>

fun split_code :: "(nat \<Rightarrow> string) \<Rightarrow> ty \<Rightarrow> nat \<Rightarrow> val_ir \<Rightarrow> (nat \<times> nat) list \<Rightarrow> inst list \<times> (nat \<times> val_ir) list \<times> nat" where
  "split_code nm t n v [] = ([], [], n)"
| "split_code nm t n v [(a, b)] = ([], [(a, v)], n)"
| "split_code nm t n v ((a, b) # (c, d) # rest) =
     (let divisor = VInt (int_bits t) (push_bit b 1);
          urem = Inst n (OpBin Urem) (''zext.'' @ nm a) t [v, divisor];
          udiv = Inst (n + 1) (OpBin Udiv) ''merge'' t [v, divisor]
      in case split_code nm t (n + 2) (VInst udiv) ((c, d) # rest) of
           (Is, vs, m) \<Rightarrow> (urem # udiv # Is, (a, VInst urem) # vs, m))"

text \<open>
  The arguments of the new function: those left alone keep their names. LLVM adds a number to keep
  the names of the merged ones different; here it is the position.
\<close>

definition new_arg_name :: "packing \<Rightarrow> (nat \<Rightarrow> string) \<Rightarrow> nat \<Rightarrow> string" where
  "new_arg_name pk nm i = (case map_of (pk_not pk) i of Some a \<Rightarrow> nm a | None \<Rightarrow> ''merged'' @ nat_to_string i)"

definition new_arg :: "packing \<Rightarrow> (nat \<Rightarrow> string) \<Rightarrow> nat \<Rightarrow> val_ir" where
  "new_arg pk nm i = VArg (new_arg_name pk nm i) (pk_types pk ! i)"

fun split_groups :: "packing \<Rightarrow> ty list \<Rightarrow> (nat \<Rightarrow> string) \<Rightarrow> nat \<Rightarrow> (nat \<times> nat list) list \<Rightarrow>
    inst list \<times> (nat \<times> val_ir) list \<times> nat" where
  "split_groups pk tys nm n [] = ([], [], n)"
| "split_groups pk tys nm n ((i, grp) # gs) =
     (case split_code nm (pk_types pk ! i) n (new_arg pk nm i) (map (\<lambda>a. (a, type_bits (tys ! a))) grp) of
        (Is, vs, m) \<Rightarrow> (case split_groups pk tys nm m gs of (Js, ws, k) \<Rightarrow> (Is @ Js, vs @ ws, k)))"

text \<open>\<open>ToBeTrunc\<close> is a map by address; its instructions come in that order.\<close>

fun trunc_code :: "ty list \<Rightarrow> (nat \<Rightarrow> string) \<Rightarrow> nat \<Rightarrow> (nat \<times> val_ir) list \<Rightarrow> (nat \<times> inst) list" where
  "trunc_code tys nm n [] = []"
| "trunc_code tys nm n ((a, v) # vs) =
     (a, Inst n OpTrunc (''trunc.'' @ nm a) (tys ! a) [v]) # trunc_code tys nm (Suc n) vs"

text \<open>The instructions of the new entry block, and what replaces each packed argument.\<close>

definition unpack_code :: "(nat \<Rightarrow> nat) \<Rightarrow> packing \<Rightarrow> ty list \<Rightarrow> (nat \<Rightarrow> string) \<Rightarrow> nat \<Rightarrow>
    inst list \<times> (nat \<times> inst) list \<times> nat" where
  "unpack_code addr pk tys nm n =
     (case split_groups pk tys nm n (pk_will pk) of
        (Is, vs, m) \<Rightarrow>
          let ts = trunc_code tys nm m (sort_key (addr \<circ> fst) vs) in (Is @ map snd ts, ts, m + length ts))"

definition unpacked :: "packing \<Rightarrow> (nat \<Rightarrow> string) \<Rightarrow> (nat \<times> inst) list \<Rightarrow> nat \<Rightarrow> val_ir" where
  "unpacked pk nm truncs a =
     (case map_of truncs a of
        Some I \<Rightarrow> VInst I
      | None \<Rightarrow> (case find (\<lambda>(i, b). b = a) (pk_not pk) of Some (i, b) \<Rightarrow> new_arg pk nm i | None \<Rightarrow> VUndef TVoid))"

end
