(* ===== verification/Ir_Rewrite.thy ===== *)
theory Ir_Rewrite
  imports LLVM_IR
begin

text \<open>
  What the passes that rewrite a function share: \<open>replaceAllUsesWith\<close> and looking up and
  replacing a block.
\<close>

subsection \<open>Replacing a value\<close>

text \<open>
  An operand carries the instruction it refers to, so that a replacement goes through the operands
  of operands. The operands of a constant expression are constants.
\<close>

fun replace_value :: "nat \<Rightarrow> val_ir \<Rightarrow> val_ir \<Rightarrow> val_ir" where
  "replace_value c w (VInst (Inst i k nm t vs)) =
     (if i = c then w else VInst (Inst i k nm t (map (replace_value c w) vs)))"
| "replace_value c w v = v"

definition replace_uses :: "nat \<Rightarrow> val_ir \<Rightarrow> inst \<Rightarrow> inst" where
  "replace_uses c w I = Inst (iid I) (iop I) (iname I) (ity I) (map (replace_value c w) (iops I))"

lemma replace_uses_simps [simp]:
  "iid (replace_uses c w I) = iid I" "iop (replace_uses c w I) = iop I" "iname (replace_uses c w I) = iname I"
  "ity (replace_uses c w I) = ity I" "iops (replace_uses c w I) = map (replace_value c w) (iops I)"
  by (simp_all add: replace_uses_def)

lemma iid_replace_uses [simp]: "iid \<circ> replace_uses c w = iid"
  by (rule ext) simp

subsection \<open>Blocks\<close>

definition has_inst :: "nat \<Rightarrow> ir_block \<Rightarrow> bool" where
  "has_inst c bb = (c \<in> set (map iid (snd bb)))"

fun replace_block :: "nat \<Rightarrow> (ir_block \<Rightarrow> ir_block list) \<Rightarrow> ir_block list \<Rightarrow> ir_block list" where
  "replace_block c f [] = []"
| "replace_block c f (bb # bbs) = (if has_inst c bb then f bb @ bbs else bb # replace_block c f bbs)"

definition before_inst :: "nat \<Rightarrow> inst list \<Rightarrow> inst list" where
  "before_inst c Is = takeWhile (\<lambda>I. iid I \<noteq> c) Is"

definition from_inst :: "nat \<Rightarrow> inst list \<Rightarrow> inst list" where
  "from_inst c Is = dropWhile (\<lambda>I. iid I \<noteq> c) Is"

lemma before_from: "before_inst c Is @ from_inst c Is = Is"
  by (simp add: before_inst_def from_inst_def)

lemma from_inst_Cons:
  assumes "c \<in> set (map iid Is)"
  obtains I rest where "from_inst c Is = I # rest" "iid I = c" "Is = before_inst c Is @ I # rest" "c \<notin> set (map iid (before_inst c Is))"
proof -
  have "from_inst c Is \<noteq> []" using assms by (auto simp: from_inst_def dropWhile_eq_Nil_conv)
  then obtain I rest where f: "from_inst c Is = I # rest" by (cases "from_inst c Is") auto
  moreover have "iid I = c" using hd_dropWhile [of "\<lambda>I. iid I \<noteq> c" Is] f by (simp add: from_inst_def del: dropWhile_eq_Nil_conv)
  moreover have "c \<notin> set (map iid (before_inst c Is))" by (auto simp: before_inst_def dest: set_takeWhileD)
  ultimately show thesis using that before_from [of c Is] by simp
qed

lemma replace_block_split:
  assumes "\<forall>bb \<in> set xs. \<not> has_inst c bb" "has_inst c bb"
  shows "replace_block c f (xs @ bb # ys) = xs @ f bb @ ys" "find (has_inst c) (xs @ bb # ys) = Some bb"
  using assms by (induction xs) auto

end
