(* ===== verification/Pack_Module.thy ===== *)
theory Pack_Module
  imports Pack_Registers Ir_Rewrite
begin

text \<open>
  The pass \<open>PackRegisters\<close> over a module (\<open>src/src/passes/PackRegisters.cpp\<close>): every function gets
  its packed arguments, then every call of a function the module defines passes them.

  A function is known by its name, so that the new function, which takes the name over at the end,
  stands in the place of the old one at once. Blocks have names; the name of the new entry block is
  made unique by LLVM, which is a parameter. The copies of the instructions keep their numbers.
\<close>

subsection \<open>The callee\<close>

text \<open>\<open>replaceAllUsesWith\<close> of arguments.\<close>

fun replace_args :: "(string \<Rightarrow> val_ir option) \<Rightarrow> val_ir \<Rightarrow> val_ir" where
  "replace_args r (VArg nm t) = (case r nm of Some v \<Rightarrow> v | None \<Rightarrow> VArg nm t)"
| "replace_args r (VInst (Inst i k nm t vs)) = VInst (Inst i k nm t (map (replace_args r) vs))"
| "replace_args r v = v"

definition with_args :: "(string \<Rightarrow> val_ir option) \<Rightarrow> inst \<Rightarrow> inst" where
  "with_args r I = Inst (iid I) (iop I) (iname I) (ity I) (map (replace_args r) (iops I))"

definition old_arg_name :: "ir_function \<Rightarrow> nat \<Rightarrow> string" where
  "old_arg_name F a = fst (fn_ir_args F ! a)"

definition arg_value :: "packing \<Rightarrow> ir_function \<Rightarrow> (nat \<times> inst) list \<Rightarrow> string \<Rightarrow> val_ir option" where
  "arg_value pk F truncs nm =
     map_option (unpacked pk (old_arg_name F) truncs) (find (\<lambda>a. old_arg_name F a = nm) [0..<length (fn_ir_args F)])"

definition new_args :: "packing \<Rightarrow> ir_function \<Rightarrow> (string \<times> ty) list" where
  "new_args pk F = map (\<lambda>i. (new_arg_name pk (old_arg_name F) i, pk_types pk ! i)) [0..<pk_count pk]"

definition PackRegistersFromCallee :: "(nat \<Rightarrow> nat) \<Rightarrow> (string list \<Rightarrow> string \<Rightarrow> string) \<Rightarrow> packing \<Rightarrow> nat \<Rightarrow>
    ir_function \<Rightarrow> ir_function \<times> nat" where
  "PackRegistersFromCallee addr uniq pk n F =
     (case unpack_code addr pk (map snd (fn_ir_args F)) (old_arg_name F) n of
        (Is, truncs, m) \<Rightarrow>
          let blocks = map (\<lambda>(bb, Js). (bb, map (with_args (arg_value pk F truncs)) Js)) (fn_ir_blocks F);
              split_bb = uniq (map fst blocks) ''split_reg'';
              br = Inst m (OpBr [fst (hd blocks)]) [] TVoid []
          in (F\<lparr>fn_ir_args := new_args pk F,
                fn_ir_blocks := (if pk_will pk = [] then blocks else (split_bb, Is @ [br]) # blocks)\<rparr>, m + 1))"

text \<open>The packing of each function with a body.\<close>

definition pack_info :: "(string \<Rightarrow> nat \<Rightarrow> nat) \<Rightarrow> ir_function \<Rightarrow> packing" where
  "pack_info addr F = argument_packing (addr (fn_ir_name F)) (map snd (fn_ir_args F))"

fun pack_callees :: "(string \<Rightarrow> nat \<Rightarrow> nat) \<Rightarrow> (string list \<Rightarrow> string \<Rightarrow> string) \<Rightarrow> nat \<Rightarrow> ir_function list \<Rightarrow> ir_function list \<times> nat" where
  "pack_callees addr uniq n [] = ([], n)"
| "pack_callees addr uniq n (F # Fs) =
     (case (if fn_ir_blocks F = [] then (F, n) else PackRegistersFromCallee (addr (fn_ir_name F)) uniq (pack_info addr F) n F) of
        (G, m) \<Rightarrow> (case pack_callees addr uniq m Fs of (Gs, k) \<Rightarrow> (G # Gs, k)))"

subsection \<open>The calls\<close>

type_synonym call_info = "string \<Rightarrow> (packing \<times> ty list) option"

definition packed_call :: "call_info \<Rightarrow> inst \<Rightarrow> (packing \<times> ty list) option" where
  "packed_call info I = (case iop I of OpCall f \<Rightarrow> info f | _ \<Rightarrow> None)"

text \<open>
  The call with the number \<open>c\<close>: the merges go behind it, then the new call, which replaces it.
\<close>

definition pack_site :: "call_info \<Rightarrow> nat \<Rightarrow> ir_block list \<times> nat \<Rightarrow> ir_block list \<times> nat" where
  "pack_site info c = (\<lambda>(bbs, n).
     (case find (has_inst c) bbs of
        None \<Rightarrow> (bbs, n)
      | Some (bb, Is) \<Rightarrow>
          (case from_inst c Is of
             [] \<Rightarrow> (bbs, n)
           | CI # rest \<Rightarrow>
               (case packed_call info CI of
                  None \<Rightarrow> (bbs, n)
                | Some (pk, tys) \<Rightarrow>
                    (case pack_call pk tys n CI of
                       (Js, new, m) \<Rightarrow>
                         (map (\<lambda>(b, Ks). (b, map (replace_uses c (VInst new)) Ks))
                            (replace_block c (\<lambda>_. [(bb, before_inst c Is @ Js @ new # rest)]) bbs), m))))))"

definition calls_to_pack :: "call_info \<Rightarrow> ir_block list \<Rightarrow> nat list" where
  "calls_to_pack info bbs = map iid (filter (\<lambda>I. packed_call info I \<noteq> None) (concat (map snd bbs)))"

definition pack_calls :: "call_info \<Rightarrow> nat \<Rightarrow> ir_block list \<Rightarrow> ir_block list \<times> nat" where
  "pack_calls info n bbs = fold (pack_site info) (calls_to_pack info bbs) (bbs, n)"

fun pack_callers :: "call_info \<Rightarrow> nat \<Rightarrow> ir_function list \<Rightarrow> ir_function list \<times> nat" where
  "pack_callers info n [] = ([], n)"
| "pack_callers info n (F # Fs) =
     (case pack_calls info n (fn_ir_blocks F) of
        (bbs, m) \<Rightarrow> (case pack_callers info m Fs of (Gs, k) \<Rightarrow> (F\<lparr>fn_ir_blocks := bbs\<rparr> # Gs, k)))"

subsection \<open>The pass\<close>

definition call_info_of :: "(string \<Rightarrow> nat \<Rightarrow> nat) \<Rightarrow> ir_function list \<Rightarrow> call_info" where
  "call_info_of addr M f =
     map_option (\<lambda>F. (pack_info addr F, map snd (fn_ir_args F))) (find (\<lambda>F. fn_ir_name F = f \<and> fn_ir_blocks F \<noteq> []) M)"

definition PackRegisters :: "(string \<Rightarrow> nat \<Rightarrow> nat) \<Rightarrow> (string list \<Rightarrow> string \<Rightarrow> string) \<Rightarrow> nat \<Rightarrow> ir_function list \<Rightarrow> ir_function list" where
  "PackRegisters addr uniq n M =
     (case pack_callees addr uniq n M of (Fs, m) \<Rightarrow> fst (pack_callers (call_info_of addr M) m Fs))"

end
