(* ===== verification/Pack_Props.thy ===== *)
theory Pack_Props
  imports Pack_Registers "HOL-Library.Multiset"
begin

text \<open>
  Packing and unpacking are inverse. The groups hold every argument once and fit into their
  types; the merged value is a positional sum, which the divisions take apart.
\<close>

subsection \<open>The groups\<close>

definition sizes_of :: "ty list \<Rightarrow> nat list \<Rightarrow> nat list" where
  "sizes_of tys order = map (\<lambda>i. type_bits (tys ! i)) order"

definition span :: "nat list \<Rightarrow> nat \<Rightarrow> nat \<Rightarrow> nat" where
  "span sizes from to = sum_list (map ((!) sizes) [from..<to])"

lemma span_snoc: "from \<le> to \<Longrightarrow> span sizes from (to + 1) = span sizes from to + sizes ! to"
  by (simp add: span_def)

lemma span_Cons: "from < to \<Longrightarrow> span sizes from to = sizes ! from + span sizes (from + 1) to"
  by (simp add: span_def upt_conv_Cons)

lemma look_ahead_result:
  assumes "look_ahead sizes now bits = (now', bits')" "bits = span sizes from (now + 1)" "from \<le> now + 1"
    "bits \<le> PACK_MAX_SIZE" "now < length sizes"
  shows "now \<le> now' \<and> now' < length sizes \<and> bits' = span sizes from (now' + 1) \<and> bits' \<le> PACK_MAX_SIZE \<and>
    (now + 1 < length sizes \<and> bits + sizes ! (now + 1) \<le> PACK_MAX_SIZE \<longrightarrow> now < now')"
  using assms
proof (induction sizes now bits rule: look_ahead.induct)
  case (1 sizes now bits)
  show ?case
  proof (cases "now + 1 < length sizes \<and> bits + sizes ! (now + 1) \<le> PACK_MAX_SIZE")
    case True
    have "look_ahead sizes (now + 1) (bits + sizes ! (now + 1)) = (now', bits')"
      using "1.prems"(1) True by (subst (asm) look_ahead.simps) simp
    moreover have "bits + sizes ! (now + 1) = span sizes from (now + 1 + 1)"
      using "1.prems"(2,3) span_snoc [of "from" "now + 1" sizes] by simp
    ultimately show ?thesis using "1.IH" [OF True] "1.prems"(3) True by simp
  next
    case False
    then have "now' = now" "bits' = bits" using "1.prems"(1) by (auto simp: look_ahead.simps split: if_splits)
    then show ?thesis using "1.prems" False by simp
  qed
qed

lemma pack_type_result:
  assumes "bits \<le> 64"
  obtains w where "pack_type bits = [TInt w]" "w \<in> {8, 16, 32, 64}" "bits \<le> w"
proof -
  have "\<exists>w. pack_type bits = [TInt w] \<and> w \<in> {8, 16, 32, 64} \<and> bits \<le> w"
    using assms by (cases "bits \<le> 8"; cases "bits \<le> 16"; cases "bits \<le> 32") (simp_all add: pack_type_def)
  then show thesis using that by blast
qed

definition group_ok :: "ty list \<Rightarrow> ty \<Rightarrow> nat list \<Rightarrow> bool" where
  "group_ok tys t grp \<longleftrightarrow> (\<exists>w. t = TInt w \<and> w \<in> {8, 16, 32, 64} \<and> sum_list (sizes_of tys grp) \<le> w) \<and>
     PACK_VALID_COUNT \<le> length grp"

definition packing_ok :: "ty list \<Rightarrow> nat list \<Rightarrow> packing \<Rightarrow> bool" where
  "packing_ok tys done pk \<longleftrightarrow>
     length (pk_types pk) = pk_count pk \<and>
     mset (map fst (pk_will pk) @ map fst (pk_not pk)) = mset [0..<pk_count pk] \<and>
     mset (concat (map snd (pk_will pk)) @ map snd (pk_not pk)) = mset done \<and>
     (\<forall>(i, grp) \<in> set (pk_will pk). group_ok tys (pk_types pk ! i) grp) \<and>
     (\<forall>(i, a) \<in> set (pk_not pk). pk_types pk ! i = tys ! a)"

lemma packing_ok_position:
  assumes "packing_ok tys done pk"
  shows "(i, grp) \<in> set (pk_will pk) \<Longrightarrow> i < length (pk_types pk)" "(i, a) \<in> set (pk_not pk) \<Longrightarrow> i < length (pk_types pk)"
proof -
  have "set_mset (mset (map fst (pk_will pk) @ map fst (pk_not pk))) = set_mset (mset [0..<pk_count pk])"
    using assms by (simp add: packing_ok_def)
  then have eq: "fst ` set (pk_will pk) \<union> fst ` set (pk_not pk) = {0..<pk_count pk}" by simp
  have len: "length (pk_types pk) = pk_count pk" using assms by (simp add: packing_ok_def)
  show "(i, grp) \<in> set (pk_will pk) \<Longrightarrow> i < length (pk_types pk)"
    using eq len by (metis UnI1 atLeastLessThan_iff fst_conv image_eqI)
  show "(i, a) \<in> set (pk_not pk) \<Longrightarrow> i < length (pk_types pk)"
    using eq len by (metis UnI2 atLeastLessThan_iff fst_conv image_eqI)
qed

lemma packing_ok_group:
  assumes ok: "packing_ok tys done pk" and g: "group_ok tys t grp"
  shows "packing_ok tys (done @ grp)
    (pk\<lparr>pk_will := pk_will pk @ [(pk_count pk, grp)], pk_types := pk_types pk @ [t], pk_count := pk_count pk + 1\<rparr>)"
  using ok g packing_ok_position [OF ok] unfolding packing_ok_def
  by (auto simp: nth_append split: prod.splits)

lemma packing_ok_single:
  assumes ok: "packing_ok tys done pk"
  shows "packing_ok tys (done @ [a])
    (pk\<lparr>pk_types := pk_types pk @ [tys ! a], pk_not := pk_not pk @ [(pk_count pk, a)], pk_count := pk_count pk + 1\<rparr>)"
  using ok packing_ok_position [OF ok] unfolding packing_ok_def
  by (auto simp: nth_append split: prod.splits)

lemma pack_loop_ok:
  assumes "packing_ok tys (take from order) pk" "from \<le> now + 1" "now < length order"
    "bits = span (sizes_of tys order) from (now + 1)" "bits \<le> 64" "\<forall>i \<in> set order. type_bits (tys ! i) \<le> 64"
  shows "packing_ok tys order (pack_loop tys order from now bits pk)"
  using assms
proof (induction tys order "from" now bits pk rule: pack_loop.induct)
  case (1 tys order "from" now bits pk)
  let ?sizes = "sizes_of tys order"
  have len: "length ?sizes = length order" by (simp add: sizes_of_def)
  show ?case
  proof (cases "from < length order")
    case False
    then show ?thesis using "1.prems"(1) by (subst pack_loop.simps) simp
  next
    case True
    obtain now' bits' where la: "look_ahead ?sizes now bits = (now', bits')" by (cases "look_ahead ?sizes now bits")
    note r = look_ahead_result [OF la "1.prems"(4,2), unfolded PACK_MAX_SIZE_def len, OF "1.prems"(5,3)]
    have prog: "from \<le> now'"
    proof (cases "from \<le> now")
      case True
      then show ?thesis using r by simp
    next
      case False
      then have f: "from = now + 1" using "1.prems"(2) by simp
      moreover have "?sizes ! from \<le> 64" using "1.prems"(6) True by (simp add: sizes_of_def)
      moreover have "bits = 0" using "1.prems"(4) f by (simp add: span_def)
      ultimately show ?thesis using r True by simp
    qed
    have la': "look_ahead (map (\<lambda>i. type_bits (tys ! i)) order) now bits = (now', bits')" using la by (simp add: sizes_of_def)
    show ?thesis
    proof (cases "PACK_VALID_COUNT \<le> now' + 1 - from")
      case big: True
      let ?grp = "map ((!) order) [from..<now' + 1]"
      obtain w where w: "pack_type bits' = [TInt w]" "w \<in> {8, 16, 32, 64}" "bits' \<le> w"
        using pack_type_result [of bits'] r by auto
      have "sum_list (sizes_of tys ?grp) = bits'"
      proof -
        have "map ((!) ?sizes) [from..<now' + 1] = sizes_of tys ?grp"
          using r by (auto simp: sizes_of_def)
        then show ?thesis using r by (simp add: span_def)
      qed
      moreover have "length ?grp = now' + 1 - from" by (simp del: upt_Suc)
      ultimately have g: "group_ok tys (TInt w) ?grp" using w big by (simp add: group_ok_def del: upt_Suc)
      have app: "take from order @ ?grp = take (now' + 1) order"
      proof -
        have "?grp = take (now' + 1 - from) (drop from order)"
          using r prog by (intro nth_equalityI) (auto simp del: upt_Suc)
        then show ?thesis using prog by (metis le_add_diff_inverse le_SucI Suc_eq_plus1 take_add)
      qed
      have ok: "packing_ok tys (take (now' + 1) order)
          (pk\<lparr>pk_will := pk_will pk @ [(pk_count pk, ?grp)], pk_types := pk_types pk @ pack_type bits', pk_count := pk_count pk + 1\<rparr>)"
        using packing_ok_group [OF "1.prems"(1) g] unfolding app w(1) .
      show ?thesis
        using "1.IH"(1) [OF True refl la' [symmetric] refl big ok] r "1.prems"(6) True big la'
        by (subst pack_loop.simps) (simp add: span_def Let_def)
    next
      case small: False
      have "take (from + 1) order = take from order @ [order ! from]" using True by (simp add: take_Suc_conv_app_nth)
      then have ok: "packing_ok tys (take (from + 1) order)
          (pk\<lparr>pk_types := pk_types pk @ [tys ! (order ! from)], pk_not := pk_not pk @ [(pk_count pk, order ! from)],
             pk_count := pk_count pk + 1\<rparr>)"
        using packing_ok_single [OF "1.prems"(1)] by simp
      have "bits' - map (\<lambda>i. type_bits (tys ! i)) order ! from = span ?sizes (from + 1) (now' + 1)"
        using r prog span_Cons [of "from" "now' + 1" ?sizes] by (simp add: sizes_of_def)
      moreover have "span ?sizes (from + 1) (now' + 1) \<le> 64"
        using r prog span_Cons [of "from" "now' + 1" ?sizes] by simp
      ultimately show ?thesis
        using "1.IH"(2) [OF True refl la' [symmetric] refl small ok] r "1.prems"(6) True small la' prog
        by (subst pack_loop.simps) (simp add: Let_def)
    qed
  qed
qed

lemma argument_packing_ok:
  assumes "\<forall>t \<in> set tys. type_bits t \<le> 64"
  shows "packing_ok tys (argument_order addr tys) (argument_packing addr tys)" "mset (argument_order addr tys) = mset [0..<length tys]"
proof -
  show m: "mset (argument_order addr tys) = mset [0..<length tys]" by (simp add: argument_order_def)
  have len: "length (argument_order addr tys) = length tys" by (simp add: argument_order_def)
  have set: "set (argument_order addr tys) = {0..<length tys}" by (simp add: argument_order_def)
  have none: "packing_ok tys [] no_packing" by (simp add: packing_ok_def no_packing_def)
  show "packing_ok tys (argument_order addr tys) (argument_packing addr tys)"
  proof (cases "tys = []")
    case True
    then show ?thesis using none by (simp add: argument_packing_def argument_order_def)
  next
    case False
    then have "argument_order addr tys ! 0 \<in> {0..<length tys}" using set len nth_mem [of 0 "argument_order addr tys"] by simp
    then show ?thesis
      using False none assms set len unfolding argument_packing_def Let_def
      by (simp, intro pack_loop_ok) (auto simp: span_def sizes_of_def)
  qed
qed

end
