(* ===== verification/Ir_Semantics.thy ===== *)
theory Ir_Semantics
  imports Ir_Rewrite Bop Fuel
begin

text \<open>
  What a function of the intermediate representation computes, for stating that a pass keeps it.
  Arithmetic and comparisons are those of the interpreter; memory accesses, calls and the other
  instructions are a parameter \<open>ext\<close> that gets the opcode, the types and the values, and works on
  a state of its own. A run counts the blocks it enters with fuel.
\<close>

definition size_of_bits :: "nat \<Rightarrow> bitsize" where
  "size_of_bits w = (if w = 1 then Size1 else if w = 8 then Size8 else if w = 16 then Size16 else if w = 32 then Size32 else Size64)"

type_synonym 's external = "opcode \<Rightarrow> ty \<Rightarrow> (ty \<times> u64) list \<Rightarrow> 's \<Rightarrow> (u64 \<times> 's) result"

datatype 's ir_outcome = Returned "u64 list" 's | Failed fault | Stuck | OutOfFuel

subsection \<open>One instruction\<close>

fun operand :: "(val_ir \<Rightarrow> u64) \<Rightarrow> (nat \<Rightarrow> u64) \<Rightarrow> val_ir \<Rightarrow> u64" where
  "operand cv env (VInst I) = env (iid I)"
| "operand cv env (VInt w c) = c"
| "operand cv env v = cv v"

definition typed_operand :: "(val_ir \<Rightarrow> u64) \<Rightarrow> (nat \<Rightarrow> u64) \<Rightarrow> val_ir \<Rightarrow> ty \<times> u64" where
  "typed_operand cv env v = (val_ty v, operand cv env v)"

definition exec_op :: "'s external \<Rightarrow> opcode \<Rightarrow> ty \<Rightarrow> (ty \<times> u64) list \<Rightarrow> 's \<Rightarrow> (u64 \<times> 's) result" where
  "exec_op ext k t vs s =
     (case (k, t, vs) of
        (OpBin b, TInt w, [x, y]) \<Rightarrow> rbind (compute b (size_of_bits w) (snd x) (snd y)) (\<lambda>r. Inr (r, s))
      | (OpICmp b, _, [x, y]) \<Rightarrow>
          rbind (compute b (case fst x of TInt w \<Rightarrow> size_of_bits w | _ \<Rightarrow> Size64) (snd x) (snd y)) (\<lambda>r. Inr (r, s))
      | (OpPtrToInt, _, [x]) \<Rightarrow> Inr (snd x, s)
      | _ \<Rightarrow> ext k t vs s)"

datatype control = Plain | Finish | Jump string | Blocked

definition control_of :: "opcode \<Rightarrow> u64 list \<Rightarrow> control" where
  "control_of k vs =
     (case (k, vs) of
        (OpRet, _) \<Rightarrow> Finish
      | (OpBr [t], _) \<Rightarrow> Jump t
      | (OpBr [t, e], [c]) \<Rightarrow> Jump (if c = 0 then e else t)
      | (OpSwitch cases d, [v]) \<Rightarrow> Jump (case map_of cases v of Some t \<Rightarrow> t | None \<Rightarrow> d)
      | (OpBr _, _) \<Rightarrow> Blocked
      | (OpSwitch _ _, _) \<Rightarrow> Blocked
      | (OpPhi, _) \<Rightarrow> Blocked
      | (OpUnreachable, _) \<Rightarrow> Blocked
      | _ \<Rightarrow> Plain)"

subsection \<open>Blocks\<close>

definition is_phi :: "inst \<Rightarrow> bool" where
  "is_phi I = (iop I = OpPhi)"

text \<open>The phi nodes at the head of a block take their values at once.\<close>

fun phi_env :: "(val_ir \<Rightarrow> u64) \<Rightarrow> (nat \<Rightarrow> string list) \<Rightarrow> string \<Rightarrow> (nat \<Rightarrow> u64) \<Rightarrow> inst list \<Rightarrow> (nat \<Rightarrow> u64) option" where
  "phi_env cv inc b env [] = Some env"
| "phi_env cv inc b env (I # Is) =
     (case map_of (zip (inc (iid I)) (iops I)) b of
        None \<Rightarrow> None
      | Some v \<Rightarrow> map_option (\<lambda>e. e(iid I := operand cv env v)) (phi_env cv inc b env Is))"

type_synonym 's stepper = "inst \<Rightarrow> (ty \<times> u64) list \<Rightarrow> 's \<Rightarrow> (u64 \<times> 's) result"

function (sequential) run :: "'s stepper \<Rightarrow> (val_ir \<Rightarrow> u64) \<Rightarrow> (nat \<Rightarrow> string list) \<Rightarrow> ir_block list \<Rightarrow>
    nat \<Rightarrow> string \<Rightarrow> inst list \<Rightarrow> (nat \<Rightarrow> u64) \<Rightarrow> 's \<Rightarrow> 's ir_outcome" where
  "run st cv inc bbs f b [] env s = Stuck"
| "run st cv inc bbs f b (I # Is) env s =
     (case control_of (iop I) (map (operand cv env) (iops I)) of
        Plain \<Rightarrow>
          (case st I (map (typed_operand cv env) (iops I)) s of
             Inl e \<Rightarrow> Failed e
           | Inr (x, s') \<Rightarrow> run st cv inc bbs f b Is (env(iid I := x)) s')
      | Finish \<Rightarrow> Returned (map (operand cv env) (iops I)) s
      | Blocked \<Rightarrow> Stuck
      | Jump t \<Rightarrow>
          (case f of
             0 \<Rightarrow> OutOfFuel
           | Suc g \<Rightarrow>
               (case map_of bbs t of
                  None \<Rightarrow> Stuck
                | Some Js \<Rightarrow>
                    (case phi_env cv inc b env (takeWhile is_phi Js) of
                       None \<Rightarrow> Stuck
                     | Some env' \<Rightarrow> run st cv inc bbs g t (dropWhile is_phi Js) env' s))))"
  by pat_completeness auto
termination
  by (relation "measures [\<lambda>(st, cv, inc, bbs, f, b, Is, env, s). f, \<lambda>(st, cv, inc, bbs, f, b, Is, env, s). length Is]") auto

declare run.simps(2) [simp del]

definition exec_inst :: "'s external \<Rightarrow> 's stepper" where
  "exec_inst ext I vs s = exec_op ext (iop I) (ity I) vs s"

definition run_main :: "'s stepper \<Rightarrow> (val_ir \<Rightarrow> u64) \<Rightarrow> (nat \<Rightarrow> string list) \<Rightarrow> ir_block list \<Rightarrow> nat \<Rightarrow> 's \<Rightarrow> 's ir_outcome" where
  "run_main st cv inc bbs f s =
     (case bbs of [] \<Rightarrow> Stuck | (b, Is) # _ \<Rightarrow> run st cv inc bbs f b Is (\<lambda>_. 0) s)"

subsection \<open>Unfolding a run\<close>

lemma run_Plain:
  assumes "control_of (iop I) (map (operand cv env) (iops I)) = Plain"
  shows "run st cv inc bbs f b (I # Is) env s =
    (case st I (map (typed_operand cv env) (iops I)) s of
       Inl e \<Rightarrow> Failed e | Inr (x, s') \<Rightarrow> run st cv inc bbs f b Is (env(iid I := x)) s')"
  by (simp add: run.simps assms)

definition enter_block :: "'s stepper \<Rightarrow> (val_ir \<Rightarrow> u64) \<Rightarrow> (nat \<Rightarrow> string list) \<Rightarrow> ir_block list \<Rightarrow>
    nat \<Rightarrow> string \<Rightarrow> string \<Rightarrow> (nat \<Rightarrow> u64) \<Rightarrow> 's \<Rightarrow> 's ir_outcome" where
  "enter_block st cv inc bbs f b t env s =
     (case f of
        0 \<Rightarrow> OutOfFuel
      | Suc g \<Rightarrow>
          (case map_of bbs t of
             None \<Rightarrow> Stuck
           | Some Js \<Rightarrow>
               (case phi_env cv inc b env (takeWhile is_phi Js) of
                  None \<Rightarrow> Stuck
                | Some env' \<Rightarrow> run st cv inc bbs g t (dropWhile is_phi Js) env' s)))"

lemma run_Jump:
  assumes "control_of (iop I) (map (operand cv env) (iops I)) = Jump t"
  shows "run st cv inc bbs f b (I # Is) env s = enter_block st cv inc bbs f b t env s"
  by (simp add: run.simps assms enter_block_def)

text \<open>More fuel does not change a run that ends.\<close>

lemma run_more_fuel:
  assumes "run st cv inc bbs f b Is env s \<noteq> OutOfFuel" "f \<le> g"
  shows "run st cv inc bbs g b Is env s = run st cv inc bbs f b Is env s"
  using assms
proof (induction st cv inc bbs f b Is env s arbitrary: g rule: run.induct)
  case (2 st cv inc bbs f b I Is env s)
  show ?case
  proof (cases "control_of (iop I) (map (operand cv env) (iops I))")
    case Plain
    show ?thesis
    proof (cases "st I (map (typed_operand cv env) (iops I)) s")
      case (Inr r)
      obtain x s' where r: "r = (x, s')" by (cases r)
      show ?thesis
        using "2.IH"(1) [OF Plain Inr r [symmetric] _ "2.prems"(2)] "2.prems"(1) Inr r unfolding run_Plain [OF Plain] by (simp add: fun_upd_def)
    qed (simp add: run_Plain [OF Plain])
  next
    case (Jump t)
    have "f \<noteq> 0" using "2.prems"(1) by (intro notI) (simp add: run_Jump [OF Jump] enter_block_def)
    then obtain f' where f: "f = Suc f'" by (cases f) auto
    then obtain g' where g: "g = Suc g'" "f' \<le> g'" using "2.prems"(2) by (cases g) auto
    show ?thesis
    proof (cases "map_of bbs t")
      case (Some Js)
      show ?thesis
      proof (cases "phi_env cv inc b env (takeWhile is_phi Js)")
        case E: (Some env')
        show ?thesis
          using "2.IH"(2) [OF Jump f Some E _ g(2)] "2.prems"(1) Some E unfolding run_Jump [OF Jump] enter_block_def f g(1) by simp
      qed (simp add: run_Jump [OF Jump] enter_block_def f g Some)
    qed (simp add: run_Jump [OF Jump] enter_block_def f g)
  qed (simp_all add: run.simps)
qed simp

text \<open>The interface of evaluation with fuel.\<close>

definition ended :: "'s ir_outcome \<Rightarrow> 's ir_outcome option" where
  "ended r = (if r = OutOfFuel then None else Some r)"

interpretation ir_run: fuelled "\<lambda>f x. ended (run_main st cv inc bbs f x)" for st cv inc bbs
proof
  fix f s r assume "ended (run_main st cv inc bbs f s) = Some r"
  then show "ended (run_main st cv inc bbs (Suc f) s) = Some r"
    using run_more_fuel [of st cv inc bbs f "fst (hd bbs)" "snd (hd bbs)" "\<lambda>_. 0" s "Suc f"]
    by (cases bbs; cases "hd bbs") (simp_all add: run_main_def ended_def split: if_splits)
qed

lemma run_main_more_fuel:
  "\<lbrakk> run_main st cv inc bbs f s \<noteq> OutOfFuel; f \<le> g \<rbrakk> \<Longrightarrow> run_main st cv inc bbs g s = run_main st cv inc bbs f s"
  using ir_run.ev_mono [of st cv inc bbs f s "run_main st cv inc bbs f s" g] by (simp add: ended_def split: if_splits)

end
