(* ===== verification/Pack_Theorems.thy ===== *)
theory Pack_Theorems
  imports Pack_Props Ir_Semantics
begin

text \<open>
  The value of an expression of the intermediate representation, on the operations of the
  interpreter, and the theorem that the callee of a packed call sees the arguments of the caller.
\<close>

text \<open>\<open>args\<close> are the values of the arguments, \<open>env\<close> of the instructions that came before.\<close>

fun ir_value :: "(string \<Rightarrow> u64) \<Rightarrow> (nat \<Rightarrow> u64 option) \<Rightarrow> val_ir \<Rightarrow> u64 result" where
  "ir_value args env (VInst (Inst i c nm t vs)) =
     (case env i of
        Some x \<Rightarrow> Inr x
      | None \<Rightarrow>
          (case (c, t, vs) of
             (OpZExt, _, [a]) \<Rightarrow> ir_value args env a
           | (OpTrunc, TInt w, [a]) \<Rightarrow> rbind (ir_value args env a) (\<lambda>x. Inr (take_bit w x))
           | (OpBin k, TInt w, [a, b]) \<Rightarrow>
               rbind (ir_value args env a) (\<lambda>x. rbind (ir_value args env b) (\<lambda>y. compute k (size_of_bits w) x y))
           | _ \<Rightarrow> Inl (Runtime_error ''no value'')))"
| "ir_value args env (VArg nm t) = Inr (args nm)"
| "ir_value args env (VInt n c) = Inr c"
| "ir_value args env v = Inl (Runtime_error ''no value'')"

definition has_value :: "(string \<Rightarrow> u64) \<Rightarrow> (nat \<Rightarrow> u64 option) \<Rightarrow> val_ir \<Rightarrow> int \<Rightarrow> bool" where
  "has_value args env v x \<longleftrightarrow> (\<exists>r. ir_value args env v = Inr r \<and> uint r = x)"

subsection \<open>Arithmetic at the width of a group\<close>

lemma unsigned_small: "uint a < 2 ^ n \<Longrightarrow> unsigned_of n a = uint a"
  by (simp add: unsigned_of_def take_bit_int_eq_self)

lemma result_small:
  assumes "0 \<le> x" "x < 2 ^ bw_of sz"
  shows "uint (word_of_int (take_bit (bw_of sz) x) :: u64) = x"
proof -
  have "x < 2 ^ 64" using assms power_increasing [of "bw_of sz" 64 "2 :: int"] bw_of_bounds(2) [of sz] by simp
  moreover have "take_bit (bw_of sz) x = x" using assms by (simp add: take_bit_int_eq_self)
  ultimately show ?thesis using assms(1) by (simp add: take_bit_int_eq_self unsigned_of_int)
qed

lemma compute_unsigned:
  assumes a: "uint a < 2 ^ bw_of sz" and b: "uint b < 2 ^ bw_of sz"
    and k: "k = Mul \<and> x = uint a * uint b \<or> k = Xor \<and> x = xor (uint a) (uint b) \<or>
      k = Urem \<and> x = uint a mod uint b \<and> b \<noteq> 0 \<or> k = Udiv \<and> x = uint a div uint b \<and> b \<noteq> 0"
    and x: "0 \<le> x" "x < 2 ^ bw_of sz"
  obtains r where "compute k sz a b = Inr r" "uint r = x"
proof -
  note u = unsigned_small [OF a] unsigned_small [OF b]
  have nz: "b \<noteq> 0 \<Longrightarrow> uint b \<noteq> 0" by (simp add: unsigned_eq_0_iff)
  have "compute k sz a b = Inr (word_of_int (take_bit (bw_of sz) x))"
    using k by (auto simp: compute_cases u nz is_div_op_def)
  then show thesis using result_small [OF x] that by blast
qed

lemma uint_power:
  assumes "b < 64"
  shows "uint (push_bit b 1 :: u64) = 2 ^ b"
proof -
  have "push_bit b 1 = (word_of_int (2 ^ b) :: u64)" by (simp add: push_bit_eq_mult)
  moreover have lt: "(2 :: int) ^ b < 2 ^ 64" using assms by (intro power_strict_increasing) simp_all
  moreover from lt have "uint (word_of_int (2 ^ b) :: u64) = 2 ^ b"
    unfolding unsigned_of_int using assms by (simp add: take_bit_int_eq_self)
  ultimately show ?thesis by (simp only:)
qed

lemma xor_disjoint:
  fixes x r :: int
  assumes "0 \<le> x" "x < 2 ^ b"
  shows "xor (r * 2 ^ b) x = x + 2 ^ b * r"
proof -
  have "and (push_bit b r) x = 0"
  proof (rule bit_eqI)
    fix n
    have "take_bit b x = x" using assms by (simp add: take_bit_int_eq_self)
    then have "bit x n \<Longrightarrow> n < b" by (metis bit_take_bit_iff)
    then show "bit (and (push_bit b r) x) n = bit 0 n" by (auto simp: bit_and_iff bit_push_bit_iff)
  qed
  then have "xor (push_bit b r) x = push_bit b r + x" by (simp add: disjunctive_add_eq_xor)
  then show ?thesis by (simp add: push_bit_eq_mult algebra_simps)
qed

text \<open>The merged value of a group: a number in mixed radix.\<close>

fun mixed :: "(int \<times> nat) list \<Rightarrow> int" where
  "mixed [] = 0"
| "mixed [(x, b)] = x"
| "mixed ((x, b) # xs) = x + 2 ^ b * mixed xs"

definition digits_ok :: "(int \<times> nat) list \<Rightarrow> bool" where
  "digits_ok xs \<longleftrightarrow> (\<forall>(x, b) \<in> set xs. 0 \<le> x \<and> x < 2 ^ b \<and> 1 \<le> b)"

lemma mixed_bounds: "\<lbrakk> digits_ok xs; xs \<noteq> [] \<rbrakk> \<Longrightarrow> 0 \<le> mixed xs \<and> mixed xs < 2 ^ sum_list (map snd xs)"
proof (induction xs rule: mixed.induct)
  case (3 x b y ys)
  obtain z c where y: "y = (z, c)" by (cases y)
  have IH: "0 \<le> mixed (y # ys)" "mixed (y # ys) < 2 ^ sum_list (map snd (y # ys))" and x: "0 \<le> x" "x < 2 ^ b"
    using 3 by (auto simp: digits_ok_def)
  have "2 ^ b * mixed (y # ys) \<le> 2 ^ b * (2 ^ sum_list (map snd (y # ys)) - 1)" using IH(2) by simp
  then have "x + 2 ^ b * mixed (y # ys) < 2 ^ b * 2 ^ sum_list (map snd (y # ys))"
    using x(2) by (simp add: algebra_simps)
  moreover have "mixed ((x, b) # y # ys) = x + 2 ^ b * mixed (y # ys)" by simp
  ultimately show ?case using IH(1) x(1) by (simp add: power_add del: mixed.simps)
qed (auto simp: digits_ok_def)


subsection \<open>Merging\<close>

definition group_width :: "nat \<Rightarrow> bool" where
  "group_width w \<longleftrightarrow> w \<in> {8, 16, 32, 64}"

lemma size_of_group: "group_width w \<Longrightarrow> bw_of (size_of_bits w) = w"
  by (auto simp: group_width_def size_of_bits_def)

lemma group_width_64: "group_width w \<Longrightarrow> w \<le> 64"
  by (auto simp: group_width_def)

lemma has_value_op:
  assumes "env i = None" "group_width w" "has_value args env a x" "has_value args env b y" "x < 2 ^ w" "y < 2 ^ w"
    and "k = Mul \<and> z = x * y \<or> k = Xor \<and> z = xor x y \<or> k = Urem \<and> z = x mod y \<and> y \<noteq> 0 \<or> k = Udiv \<and> z = x div y \<and> y \<noteq> 0"
    and "0 \<le> z" "z < 2 ^ w"
  shows "has_value args env (VInst (Inst i (OpBin k) nm (TInt w) [a, b])) z"
proof -
  obtain p q where p: "ir_value args env a = Inr p" "uint p = x" and q: "ir_value args env b = Inr q" "uint q = y"
    using assms(3,4) by (auto simp: has_value_def)
  note n = size_of_group [OF assms(2)]
  have "y \<noteq> 0 \<Longrightarrow> q \<noteq> 0" using q(2) by auto
  then obtain r where "compute k (size_of_bits w) p q = Inr r" "uint r = z"
    using compute_unsigned [of p "size_of_bits w" q k z] assms(5-9) p(2) q(2) n by auto
  then show ?thesis using assms(1) p(1) q(1) by (simp add: has_value_def)
qed

lemma has_value_const: "b < 64 \<Longrightarrow> has_value args env (VInt n (push_bit b 1)) (2 ^ b)"
  using uint_power [of b] by (simp add: has_value_def)

lemma merge_code_value:
  assumes "group_width w" "merge_code (TInt w) n zs = (Is, v, m)" "zs \<noteq> []" "digits_ok xs"
    and "list_all2 (\<lambda>(z, b) (x, c). has_value args env (VInst z) x \<and> b = c) zs xs" "sum_list (map snd xs) \<le> w"
    and "\<forall>k \<ge> n. env k = None"
  shows "has_value args env (VInst v) (mixed xs) \<and> n \<le> m"
  using assms(2-)
proof (induction "TInt w" n zs arbitrary: Is v m xs rule: merge_code.induct)
  case (2 n z b)
  then show ?case by (auto simp: list_all2_Cons1)
next
  case (3 n z b z' zs)
  obtain Js u k where rec: "merge_code (TInt w) n (z' # zs) = (Js, u, k)" by (cases "merge_code (TInt w) n (z' # zs)")
  obtain x y xs' where xs: "xs = (x, b) # y # xs'" and zx: "has_value args env (VInst z) x"
    and rest: "list_all2 (\<lambda>(z, b) (x, c). has_value args env (VInst z) x \<and> b = c) (z' # zs) (y # xs')"
    using "3.prems"(4) by (auto simp: list_all2_Cons1)
  let ?r = "mixed (y # xs')"
  have dig: "digits_ok (y # xs')" "0 \<le> x" "x < 2 ^ b" using "3.prems"(3) by (auto simp: xs digits_ok_def)
  have bits: "b + sum_list (map snd (y # xs')) \<le> w" using "3.prems"(5) by (simp add: xs)
  have IH: "has_value args env (VInst u) ?r" "n \<le> k"
    using "3.hyps" [OF rec] rest dig(1) bits "3.prems"(6) by auto
  have r: "0 \<le> ?r" "?r < 2 ^ sum_list (map snd (y # xs'))" using mixed_bounds [OF dig(1)] by auto
  have whole: "0 \<le> mixed xs" "mixed xs < 2 ^ sum_list (map snd xs)" using mixed_bounds [OF "3.prems"(3)] xs by auto
  have mono: "(2 :: int) ^ i \<le> 2 ^ w" if "i \<le> w" for i using that by (simp add: power_increasing)
  have mx: "mixed xs = x + 2 ^ b * ?r" by (simp add: xs)
  have bound: "mixed xs < 2 ^ w" using whole(2) "3.prems"(5) mono [of "sum_list (map snd xs)"] by linarith
  have prod: "0 \<le> ?r * 2 ^ b" "?r * 2 ^ b < 2 ^ w" using r(1) dig(2) bound mx by (simp_all add: algebra_simps)
  have v: "v = Inst (k + 1) (OpBin Xor) ''merge'' (TInt w)
      [VInst (Inst k (OpBin Mul) ''merge'' (TInt w) [VInst u, VInt w (push_bit b 1)]), VInst z]" "m = k + 2"
    using "3.prems"(1) rec by (simp_all add: Let_def)
  have True: "b < w" using bits "3.prems"(3) by (cases y) (auto simp: xs digits_ok_def)
    have w64: "b < 64" using True group_width_64 [OF assms(1)] by simp
    have mulv: "has_value args env (VInst (Inst k (OpBin Mul) ''merge'' (TInt w) [VInst u, VInt w (push_bit b 1)])) (?r * 2 ^ b)"
      by (rule has_value_op [OF _ assms(1) IH(1) has_value_const [OF w64]])
        (use "3.prems"(6) IH(2) r mono [of "sum_list (map snd (y # xs'))"] bits prod True in \<open>simp_all add: less_le_trans\<close>)
    have xw: "x < 2 ^ w" using less_le_trans [OF dig(3) mono [of b]] True by simp
    have "has_value args env (VInst v) (mixed xs)"
      unfolding v(1)
      by (rule has_value_op [OF _ assms(1) mulv zx])
        (use "3.prems"(6) IH(2) prod xw whole(1) bound mx xor_disjoint [OF dig(2,3), of ?r] in \<open>simp_all\<close>)
    then show ?case using IH(2) v(2) by simp
qed simp


lemma zext_code_value:
  assumes "list_all2 (has_value args env) vs xs" "\<forall>k \<ge> n. env k = None"
  shows "length (zext_code t n vs) = length vs \<and> list_all2 (\<lambda>z x. has_value args env (VInst z) x) (zext_code t n vs) xs"
  using assms by (induction vs arbitrary: n xs) (auto simp: list_all2_Cons1 has_value_def)

lemma merge_group_value:
  assumes "group_width w" "merge_group (TInt w) n vs = (Is, v, m)" "vs \<noteq> []" "digits_ok xs"
    and "list_all2 (\<lambda>(u, b) (x, c). has_value args env u x \<and> b = c) vs xs" "sum_list (map snd xs) \<le> w"
    and "\<forall>k \<ge> n. env k = None"
  shows "has_value args env (VInst v) (mixed xs) \<and> n \<le> m"
proof -
  let ?zs = "zext_code (TInt w) n (map fst vs)"
  obtain Js where mc: "merge_code (TInt w) (n + length vs) (zip ?zs (map snd vs)) = (Js, v, m)"
    using assms(2) by (auto simp: merge_group_def Let_def split: prod.splits)
  have "list_all2 (has_value args env) (map fst vs) (map fst xs)" "map snd vs = map snd xs"
    using assms(5) by (auto simp: list_all2_conv_all_nth case_prod_unfold intro: nth_equalityI)
  moreover from zext_code_value [OF this(1) assms(7)] have z: "length ?zs = length vs"
    "list_all2 (\<lambda>z x. has_value args env (VInst z) x) ?zs (map fst xs)" by simp_all
  ultimately have all: "list_all2 (\<lambda>(z, b) (x, c). has_value args env (VInst z) x \<and> b = c) (zip ?zs (map snd vs)) xs"
    by (simp add: list_all2_conv_all_nth case_prod_unfold)
  have ne: "zip ?zs (map snd vs) \<noteq> []" using z(1) assms(3) by (cases ?zs; cases vs) auto
  have fresh: "\<forall>k \<ge> n + length vs. env k = None" using assms(7) by simp
  show ?thesis using merge_code_value [OF assms(1) mc ne assms(4) all assms(6) fresh] by simp
qed

subsection \<open>Splitting\<close>

text \<open>The value of each digit, before it is truncated, and after.\<close>

lemma has_value_trunc:
  assumes "has_value args env v x" "env i = None" "x < 2 ^ b"
  shows "has_value args env (VInst (Inst i OpTrunc nm (TInt b) [v])) x"
proof -
  obtain r where r: "ir_value args env v = Inr r" "uint r = x" using assms(1) by (auto simp: has_value_def)
  have "uint (take_bit b r) = take_bit b (uint r)" by (simp add: unsigned_take_bit_eq)
  then have "uint (take_bit b r) = x" using r(2) assms(3) by (metis take_bit_int_eq_self unsigned_greater_eq)
  then show ?thesis using r assms(2) by (simp add: has_value_def)
qed

lemma split_code_value:
  assumes "group_width w" "split_code nm (TInt w) n v ps = (Is, vs, m)" "has_value args env v (mixed xs)" "ps \<noteq> []"
    and "map snd ps = map snd xs" "digits_ok xs" "sum_list (map snd xs) \<le> w" "\<forall>k \<ge> n. env k = None"
  shows "map fst vs = map fst ps \<and> list_all2 (\<lambda>(a, u) (x, b). has_value args env u x) vs xs \<and> n \<le> m"
  using assms(2-)
proof (induction nm "TInt w" n v ps arbitrary: Is vs m xs rule: split_code.induct)
  case (2 nm n v a b)
  then show ?case by (cases xs) auto
next
  case (3 nm n v a b c d rest)
  let ?div = "VInt w (push_bit b 1)"
  let ?q = "VInst (Inst (n + 1) (OpBin Udiv) ''merge'' (TInt w) [v, ?div])"
  let ?u = "VInst (Inst n (OpBin Urem) (''zext.'' @ nm a) (TInt w) [v, ?div])"
  obtain Js us k where rec: "split_code nm (TInt w) (n + 2) ?q ((c, d) # rest) = (Js, us, k)"
    by (cases "split_code nm (TInt w) (n + 2) ?q ((c, d) # rest)")
  have vs: "vs = (a, ?u) # us" "m = k" using "3.prems"(1) rec by (simp_all add: Let_def)
  obtain x y ys where xs: "xs = (x, b) # y # ys" "snd y = d" using "3.prems"(4) by (auto simp: Cons_eq_map_conv)
  let ?r = "mixed (y # ys)"
  have dig: "digits_ok (y # ys)" "0 \<le> x" "x < 2 ^ b" using "3.prems"(5) by (auto simp: xs digits_ok_def)
  have bits: "b + sum_list (map snd (y # ys)) \<le> w" using "3.prems"(6) by (simp add: xs)
  have bw: "b < w" using bits "3.prems"(5) by (cases y) (auto simp: xs digits_ok_def)
  have b64: "b < 64" using bw group_width_64 [OF assms(1)] by simp
  have r: "0 \<le> ?r" using mixed_bounds [OF dig(1)] by simp
  have whole: "0 \<le> mixed xs" "mixed xs < 2 ^ sum_list (map snd xs)" using mixed_bounds [OF "3.prems"(5)] xs by auto
  have mono: "(2 :: int) ^ i \<le> 2 ^ w" if "i \<le> w" for i using that by (simp add: power_increasing)
  have bound: "mixed xs < 2 ^ w" using whole(2) mono [OF "3.prems"(6)] by linarith
  have pb: "(2 :: int) ^ b < 2 ^ w" using bw by (simp add: power_strict_increasing)
  have mx: "mixed xs = x + 2 ^ b * ?r" by (simp add: xs)
  have md: "mixed xs mod 2 ^ b = x" "mixed xs div 2 ^ b = ?r" using dig(2,3) unfolding mx by simp_all
  have e: "env n = None" "env (n + 1) = None" using "3.prems"(7) by simp_all
  have xw: "x < 2 ^ w" by (rule less_trans [OF dig(3) pb])
  have "1 * ?r \<le> 2 ^ b * ?r" using r by (intro mult_right_mono) simp_all
  then have rw: "?r < 2 ^ w" using bound mx dig(2) by linarith
  have u: "has_value args env ?u x"
    by (rule has_value_op [OF e(1) assms(1) "3.prems"(2) has_value_const [OF b64] bound pb])
      (use md(1) dig(2) xw in simp_all)
  have q: "has_value args env ?q ?r"
    by (rule has_value_op [OF e(2) assms(1) "3.prems"(2) has_value_const [OF b64] bound pb])
      (use md(2) r rw in simp_all)
  have "map fst us = map fst ((c, d) # rest) \<and> list_all2 (\<lambda>(a, u) (x, b). has_value args env u x) us (y # ys) \<and> n + 2 \<le> k"
    using "3.hyps" [OF refl refl refl, unfolded int_bits.simps, OF rec q] "3.prems"(4,7) dig(1) bits xs by simp
  then show ?case using vs u xs(1) by simp
qed simp


subsection \<open>All groups\<close>

text \<open>The arguments of a call: positive sizes, and values in their range.\<close>

definition args_ok :: "ty list \<Rightarrow> (nat \<Rightarrow> int) \<Rightarrow> bool" where
  "args_ok tys X \<longleftrightarrow> (\<forall>a < length tys. 1 \<le> type_bits (tys ! a) \<and> type_bits (tys ! a) \<le> 64 \<and>
     0 \<le> X a \<and> X a < 2 ^ type_bits (tys ! a))"

definition digits :: "ty list \<Rightarrow> (nat \<Rightarrow> int) \<Rightarrow> nat list \<Rightarrow> (int \<times> nat) list" where
  "digits tys X grp = map (\<lambda>a. (X a, type_bits (tys ! a))) grp"

lemma digits_group:
  assumes "args_ok tys X" "group_ok tys t grp" "\<forall>a \<in> set grp. a < length tys"
  obtains w where "t = TInt w" "group_width w" "digits_ok (digits tys X grp)"
    "sum_list (map snd (digits tys X grp)) \<le> w" "grp \<noteq> []"
proof -
  obtain w where w: "t = TInt w" "w \<in> {8, 16, 32, 64}" "sum_list (sizes_of tys grp) \<le> w" "PACK_VALID_COUNT \<le> length grp"
    using assms(2) by (auto simp: group_ok_def)
  moreover have "map snd (digits tys X grp) = sizes_of tys grp" by (simp add: digits_def sizes_of_def)
  moreover have "digits_ok (digits tys X grp)" using assms(1,3) by (auto simp: digits_ok_def digits_def args_ok_def)
  ultimately show thesis by (intro that [of w]) (auto simp: group_width_def PACK_VALID_COUNT_def)
qed

text \<open>A packed argument is an integer, since three arguments fit into 64 bits.\<close>

lemma packed_is_int:
  assumes "args_ok tys X" "group_ok tys t grp" "\<forall>a \<in> set grp. a < length tys" "a \<in> set grp"
  shows "tys ! a = TInt (type_bits (tys ! a))"
proof -
  obtain xs ys where g: "grp = xs @ a # ys" using assms(4) by (meson split_list)
  have "3 \<le> length grp" "sum_list (sizes_of tys grp) \<le> 64"
    using assms(2) by (auto simp: group_ok_def PACK_VALID_COUNT_def)
  then obtain b where b: "b \<in> set xs \<union> set ys" using g by (cases xs; cases ys) auto
  have "1 \<le> sum_list (sizes_of tys (xs @ ys))"
  proof -
    have "type_bits (tys ! b) \<in> set (sizes_of tys (xs @ ys))" using b by (auto simp: sizes_of_def)
    then have "type_bits (tys ! b) \<le> sum_list (sizes_of tys (xs @ ys))" by (intro member_le_sum_list) simp_all
    moreover have "1 \<le> type_bits (tys ! b)" using assms(1,3) b g by (auto simp: args_ok_def)
    ultimately show ?thesis by simp
  qed
  then have "type_bits (tys ! a) < 64"
    using \<open>sum_list (sizes_of tys grp) \<le> 64\<close> by (simp add: g sizes_of_def)
  moreover have "1 \<le> type_bits (tys ! a)" using assms(1,3,4) by (auto simp: args_ok_def)
  ultimately show ?thesis by (cases "tys ! a") simp_all
qed

definition groups_ok :: "packing \<Rightarrow> ty list \<Rightarrow> (nat \<times> nat list) list \<Rightarrow> bool" where
  "groups_ok pk tys gs \<longleftrightarrow> (\<forall>(i, grp) \<in> set gs. group_ok tys (pk_types pk ! i) grp \<and> (\<forall>a \<in> set grp. a < length tys))"

lemma merge_groups_value:
  assumes "args_ok tys X" "groups_ok pk tys gs" "\<forall>a < length tys. has_value args env (vs ! a) (X a)"
    and "merge_groups pk tys vs n gs = (Is, ps, m)" "\<forall>k \<ge> n. env k = None"
  shows "map fst ps = map fst gs \<and> (\<forall>k < length gs. has_value args env (snd (ps ! k)) (mixed (digits tys X (snd (gs ! k)))))"
  using assms(2,4,5)
proof (induction gs arbitrary: n Is ps m)
  case (Cons p gs)
  obtain i grp where p: "p = (i, grp)" by (cases p)
  let ?us = "map (\<lambda>a. (vs ! a, type_bits (tys ! a))) grp"
  obtain Js v k where mg: "merge_group (pk_types pk ! i) n ?us = (Js, v, k)" by (cases "merge_group (pk_types pk ! i) n ?us")
  obtain Ks qs l where rec: "merge_groups pk tys vs k gs = (Ks, qs, l)" by (cases "merge_groups pk tys vs k gs")
  have ps: "ps = (i, VInst v) # qs" using Cons.prems(2) mg rec p by simp
  have g: "group_ok tys (pk_types pk ! i) grp" "\<forall>a \<in> set grp. a < length tys" and gs: "groups_ok pk tys gs"
    using Cons.prems(1) p by (auto simp: groups_ok_def)
  obtain w where w: "pk_types pk ! i = TInt w" "group_width w" "digits_ok (digits tys X grp)"
    "sum_list (map snd (digits tys X grp)) \<le> w" "grp \<noteq> []" by (rule digits_group [OF assms(1) g])
  have all: "list_all2 (\<lambda>(u, b) (x, c). has_value args env u x \<and> b = c) ?us (digits tys X grp)"
    using assms(3) g(2) by (auto simp: digits_def list_all2_conv_all_nth)
  have v: "has_value args env (VInst v) (mixed (digits tys X grp)) \<and> n \<le> k"
    by (rule merge_group_value [OF w(2) mg [unfolded w(1)] _ w(3) all w(4) Cons.prems(3)]) (use w(5) in simp)
  then have fresh: "\<forall>j \<ge> k. env j = None" using Cons.prems(3) by simp
  show ?case
    using Cons.IH [OF gs rec fresh] v p ps by (auto simp: nth_Cons split: nat.splits)
qed simp

lemma split_groups_value:
  assumes "args_ok tys X" "groups_ok pk tys gs"
    and "\<forall>(i, grp) \<in> set gs. has_value args env (new_arg pk nm i) (mixed (digits tys X grp))"
    and "split_groups pk tys nm n gs = (Is, vs, m)" "\<forall>k \<ge> n. env k = None"
  shows "map fst vs = concat (map snd gs) \<and> (\<forall>(a, u) \<in> set vs. has_value args env u (X a)) \<and> n \<le> m"
  using assms(2-5)
proof (induction gs arbitrary: n Is vs m)
  case (Cons p gs)
  obtain i grp where p: "p = (i, grp)" by (cases p)
  let ?ps = "map (\<lambda>a. (a, type_bits (tys ! a))) grp"
  obtain Js us k where sc: "split_code nm (pk_types pk ! i) n (new_arg pk nm i) ?ps = (Js, us, k)"
    by (cases "split_code nm (pk_types pk ! i) n (new_arg pk nm i) ?ps")
  obtain Ks ws l where rec: "split_groups pk tys nm k gs = (Ks, ws, l)" by (cases "split_groups pk tys nm k gs")
  have vs: "vs = us @ ws" "m = l" using Cons.prems(3) sc rec p by simp_all
  have g: "group_ok tys (pk_types pk ! i) grp" "\<forall>a \<in> set grp. a < length tys" and gs: "groups_ok pk tys gs"
    using Cons.prems(1) p by (auto simp: groups_ok_def)
  obtain w where w: "pk_types pk ! i = TInt w" "group_width w" "digits_ok (digits tys X grp)"
    "sum_list (map snd (digits tys X grp)) \<le> w" "grp \<noteq> []" by (rule digits_group [OF assms(1) g])
  have val: "has_value args env (new_arg pk nm i) (mixed (digits tys X grp))" using Cons.prems(2) p by simp
  have r: "map fst us = map fst ?ps \<and> list_all2 (\<lambda>(a, u) (x, b). has_value args env u x) us (digits tys X grp) \<and> n \<le> k"
    by (rule split_code_value [OF w(2) sc [unfolded w(1)] val _ _ w(3,4) Cons.prems(4)])
      (use w(5) in \<open>simp_all add: digits_def comp_def\<close>)
  then have fst: "map fst us = grp" by (simp add: comp_def)
  have "\<forall>(a, u) \<in> set us. has_value args env u (X a)"
  proof -
    have "has_value args env (snd (us ! j)) (X (fst (us ! j)))" if "j < length us" for j
    proof -
      have "length us = length grp" using fst by (metis length_map)
      moreover have "fst (us ! j) = grp ! j" using fst that by (metis nth_map)
      ultimately show ?thesis
        using r that by (simp add: list_all2_conv_all_nth digits_def case_prod_unfold)
    qed
    then show ?thesis by (metis (mono_tags, lifting) case_prod_unfold in_set_conv_nth)
  qed
  moreover have fresh: "\<forall>j \<ge> k. env j = None" using Cons.prems(4) r by simp
  moreover have rest: "\<forall>(i, grp) \<in> set gs. has_value args env (new_arg pk nm i) (mixed (digits tys X grp))"
    using Cons.prems(2) by simp
  ultimately show ?case
    using Cons.IH [OF gs rest rec fresh] r unfolding vs p by (simp add: fst ball_Un)
qed simp

lemma trunc_code_value:
  assumes "\<forall>(a, u) \<in> set vs. has_value args env u (X a) \<and> tys ! a = TInt (type_bits (tys ! a)) \<and> X a < 2 ^ type_bits (tys ! a)"
    and "\<forall>k \<ge> n. env k = None"
  shows "map fst (trunc_code tys nm n vs) = map fst vs \<and>
    (\<forall>(a, I) \<in> set (trunc_code tys nm n vs). has_value args env (VInst I) (X a))"
  using assms
proof (induction vs arbitrary: n)
  case (Cons p vs)
  obtain a u where p: "p = (a, u)" by (cases p)
  have a: "has_value args env u (X a)" "tys ! a = TInt (type_bits (tys ! a))" "X a < 2 ^ type_bits (tys ! a)"
    using Cons.prems(1) p by auto
  have "has_value args env (VInst (Inst n OpTrunc (''trunc.'' @ nm a) (TInt (type_bits (tys ! a))) [u])) (X a)"
    using has_value_trunc [OF a(1) _ a(3)] Cons.prems(2) by simp
  then have "has_value args env (VInst (Inst n OpTrunc (''trunc.'' @ nm a) (tys ! a) [u])) (X a)" using a(2) by simp
  then show ?case using Cons.IH [of "Suc n"] Cons.prems p by simp
qed simp


subsection \<open>The whole call\<close>

lemma packing_distinct:
  assumes "packing_ok tys order pk" "mset order = mset [0..<n]"
  shows "distinct (map fst (pk_will pk) @ map fst (pk_not pk))" "distinct (concat (map snd (pk_will pk)) @ map snd (pk_not pk))"
    "fst ` set (pk_will pk) \<union> fst ` set (pk_not pk) = {0..<pk_count pk}"
    "set (concat (map snd (pk_will pk))) \<union> snd ` set (pk_not pk) = {0..<n}"
proof -
  have i: "mset (map fst (pk_will pk) @ map fst (pk_not pk)) = mset [0..<pk_count pk]"
    and a: "mset (concat (map snd (pk_will pk)) @ map snd (pk_not pk)) = mset [0..<n]"
    using assms by (simp_all add: packing_ok_def)
  show "distinct (map fst (pk_will pk) @ map fst (pk_not pk))" using mset_eq_imp_distinct_iff [OF i] by simp
  show "distinct (concat (map snd (pk_will pk)) @ map snd (pk_not pk))" using mset_eq_imp_distinct_iff [OF a] by simp
  show "fst ` set (pk_will pk) \<union> fst ` set (pk_not pk) = {0..<pk_count pk}" using mset_eq_setD [OF i] by simp
  show "set (concat (map snd (pk_will pk))) \<union> snd ` set (pk_not pk) = {0..<n}" using mset_eq_setD [OF a] by simp
qed

lemma packing_groups_ok:
  assumes "packing_ok tys order pk" "mset order = mset [0..<length tys]"
  shows "groups_ok pk tys (pk_will pk)"
  using packing_distinct(4) [OF assms] assms(1) by (fastforce simp: groups_ok_def packing_ok_def)

lemma map_of_nth_keys:
  assumes "map fst ps = map fst gs" "distinct (map fst gs)" "k < length gs"
  shows "map_of ps (fst (gs ! k)) = Some (snd (ps ! k))"
proof -
  have len: "length (map fst ps) = length (map fst gs)" by (simp only: assms(1))
  then have k: "k < length ps" using assms(3) by simp
  have "map fst ps ! k = map fst gs ! k" by (simp only: assms(1))
  then have "fst (ps ! k) = fst (gs ! k)" using k assms(3) by simp
  moreover have "(fst (ps ! k), snd (ps ! k)) \<in> set ps" using nth_mem [OF k] by simp
  ultimately show ?thesis using assms(1,2) by simp
qed

text \<open>The value of each new parameter, on the side of the caller.\<close>

lemma packed_args_value:
  assumes ok: "packing_ok tys order pk" "mset order = mset [0..<length tys]" and X: "args_ok tys X"
    and vs: "\<forall>a < length tys. has_value args env (vs ! a) (X a)"
    and mg: "merge_groups pk tys vs n (pk_will pk) = (Is, ps, m)" and fresh: "\<forall>k \<ge> n. env k = None"
  shows "(i, grp) \<in> set (pk_will pk) \<Longrightarrow> has_value args env (packed_args pk vs ps ! i) (mixed (digits tys X grp))"
    and "(i, a) \<in> set (pk_not pk) \<Longrightarrow> has_value args env (packed_args pk vs ps ! i) (X a)"
proof -
  note d = packing_distinct [OF ok]
  note r = merge_groups_value [OF X packing_groups_ok [OF ok] vs mg fresh]
  {
    assume "(i, grp) \<in> set (pk_will pk)"
    then obtain k where k: "k < length (pk_will pk)" "pk_will pk ! k = (i, grp)" by (meson in_set_conv_nth)
    have dw: "distinct (map fst (pk_will pk))" using d(1) by simp
    have "map_of ps i = Some (snd (ps ! k))" using map_of_nth_keys [OF conjunct1 [OF r] dw k(1)] k(2) by simp
    moreover have "i < pk_count pk" using packing_ok_position(1) [OF ok(1)] ok(1) k nth_mem by (fastforce simp: packing_ok_def)
    moreover have "has_value args env (snd (ps ! k)) (mixed (digits tys X (snd (pk_will pk ! k))))" using r k(1) by blast
    ultimately show "has_value args env (packed_args pk vs ps ! i) (mixed (digits tys X grp))" using k(2) by (simp add: packed_args_def)
  }
  {
    assume a: "(i, a) \<in> set (pk_not pk)"
    then have "i \<notin> fst ` set (pk_will pk)" using d(1) by force
    then have "map_of ps i = None" using r by (metis list.set_map map_of_eq_None_iff)
    moreover have "map_of (pk_not pk) i = Some a" using d(1) a by simp
    moreover have "i < pk_count pk" using packing_ok_position(2) [OF ok(1) a] ok(1) by (simp add: packing_ok_def)
    moreover have "a < length tys" using d(4) a by force
    ultimately show "has_value args env (packed_args pk vs ps ! i) (X a)" using vs by (simp add: packed_args_def)
  }
qed

text \<open>The value of each old argument, on the side of the callee.\<close>

lemma unpacked_value:
  assumes ok: "packing_ok tys order pk" "mset order = mset [0..<length tys]" and X: "args_ok tys X"
    and will: "\<forall>(i, grp) \<in> set (pk_will pk). has_value args env (new_arg pk nm i) (mixed (digits tys X grp))"
    and left: "\<forall>(i, a) \<in> set (pk_not pk). has_value args env (new_arg pk nm i) (X a)"
    and un: "unpack_code addr pk tys nm n = (Is, ts, m)" and fresh: "\<forall>k \<ge> n. env k = None" and a: "a < length tys"
  shows "has_value args env (unpacked pk nm ts a) (X a)"
proof -
  note d = packing_distinct [OF ok] and g = packing_groups_ok [OF ok]
  obtain Js vs k where sg: "split_groups pk tys nm n (pk_will pk) = (Js, vs, k)" by (cases "split_groups pk tys nm n (pk_will pk)")
  have r: "map fst vs = concat (map snd (pk_will pk)) \<and> (\<forall>(a, u) \<in> set vs. has_value args env u (X a)) \<and> n \<le> k"
    by (rule split_groups_value [OF X g will sg fresh])
  have ts: "ts = trunc_code tys nm k (sort_key (addr \<circ> fst) vs)" using un sg by (simp add: unpack_code_def Let_def)
  have keys: "fst ` set vs = set (concat (map snd (pk_will pk)))" using r by (metis list.set_map)
  have "tys ! b = TInt (type_bits (tys ! b)) \<and> X b < 2 ^ type_bits (tys ! b)" if "(b, u) \<in> set vs" for b u
  proof -
    have "b \<in> fst ` set vs" using that by (rule rev_image_eqI) simp
    then obtain i grp where p: "(i, grp) \<in> set (pk_will pk)" "b \<in> set grp" unfolding keys by auto
    then have gr: "group_ok tys (pk_types pk ! i) grp" "\<forall>a \<in> set grp. a < length tys" 
      using g p(1) by (auto simp: groups_ok_def)
    have "X b < 2 ^ type_bits (tys ! b)" using X gr(2) p(2) by (auto simp: args_ok_def)
    then show ?thesis using packed_is_int [OF X gr p(2)] by blast
  qed
  then have "\<forall>(b, u) \<in> set (sort_key (addr \<circ> fst) vs). has_value args env u (X b) \<and> tys ! b = TInt (type_bits (tys ! b)) \<and>
      X b < 2 ^ type_bits (tys ! b)" using r by auto
  moreover have "\<forall>j \<ge> k. env j = None" using fresh r by simp
  ultimately have t: "map fst ts = map fst (sort_key (addr \<circ> fst) vs) \<and> (\<forall>(a, I) \<in> set ts. has_value args env (VInst I) (X a))"
    unfolding ts by (rule trunc_code_value)
  then have tk: "fst ` set ts = set (concat (map snd (pk_will pk)))" using keys by (metis list.set_map set_sort)
  show ?thesis
  proof (cases "map_of ts a")
    case (Some I)
    then show ?thesis using t map_of_SomeD [OF Some] by (auto simp: unpacked_def)
  next
    case None
    then have "a \<notin> set (concat (map snd (pk_will pk)))" using tk by (simp add: map_of_eq_None_iff)
    moreover have "a \<in> set (concat (map snd (pk_will pk))) \<union> snd ` set (pk_not pk)" unfolding d(4) using a by simp
    ultimately have "a \<in> snd ` set (pk_not pk)" by blast
    then obtain i where i: "(i, a) \<in> set (pk_not pk)" by auto
    then obtain j b where p: "find (\<lambda>(i, b). b = a) (pk_not pk) = Some (j, b)"
      using find_None_iff [of "\<lambda>(i, b). b = a" "pk_not pk"] by (metis (mono_tags, lifting) case_prodI option.exhaust prod.exhaust)
    then have "(j, b) \<in> set (pk_not pk)" "b = a" by (auto simp: find_Some_iff dest: nth_mem)
    then have "has_value args env (new_arg pk nm j) (X a)" using left by blast
    then show ?thesis using None p by (simp add: unpacked_def)
  qed
qed


text \<open>A call with three small arguments and a large one, for the application below.\<close>

definition sample_types :: "ty list" where "sample_types = [TInt 8, TInt 64, TInt 8, TInt 16]"
definition sample_packing :: packing where
  "sample_packing = \<lparr> pk_types = [TInt 32, TInt 64], pk_not = [(1, 1)], pk_will = [(0, [0, 2, 3])], pk_count = 2 \<rparr>"
definition sample_values :: "nat \<Rightarrow> int" where "sample_values a = [200, 99999, 77, 60000] ! a"
definition sample_call :: inst where
  "sample_call = Inst 7 (OpCall ''f'') ''r'' (TInt 64) [VInt 8 200, VInt 64 99999, VInt 8 77, VInt 16 60000]"
definition sample_args :: "string \<Rightarrow> u64" where
  "sample_args s = (if s = ''merged0'' then 3932179912 else 99999)"

lemma sample_is_packed: "sample_packing = argument_packing id sample_types"
  by code_simp

lemma sample_passed:
  "map (ir_value (\<lambda>_. 0) (\<lambda>_. None)) (iops (fst (snd (pack_call sample_packing sample_types 100 sample_call)))) =
   map (\<lambda>i. Inr (sample_args (new_arg_name sample_packing (\<lambda>i. ''p'') i))) [0..<2]"
  by code_simp

lemma sample_ok: "args_ok sample_types sample_values"
  "\<forall>a < length sample_types. has_value (\<lambda>_. 0) (\<lambda>_. None) (iops sample_call ! a) (sample_values a)"
  by (simp_all add: args_ok_def sample_types_def sample_values_def sample_call_def has_value_def All_less_Suc)

text \<open>
  C38. Packing and unpacking are inverse. Take a call with the argument values \<open>X\<close>, each of its own
  bit width, and a callee whose new parameters hold what the new call passes. Then every operand of
  the new call has a value, the new call passes as many arguments as the new function has, and the
  value that replaces each old argument in the callee is the argument of the old call: neither the
  products nor the exclusive ors overflow the type of the group, and the divisions find each digit.
\<close>

theorem packing_roundtrip:
  assumes X: "args_ok tys X" and args: "length (iops CI) = length tys" "\<forall>a < length tys. has_value cargs cenv (iops CI ! a) (X a)"
    and pk: "pk = argument_packing addr tys"
    and call: "pack_call pk tys n1 CI = (code, newCI, m1)" "\<forall>k \<ge> n1. cenv k = None"
    and callee: "unpack_code addr pk tys nm n2 = (ucode, truncs, m2)" "\<forall>k \<ge> n2. fenv k = None"
    and passed: "\<forall>i < pk_count pk. \<forall>r. ir_value cargs cenv (iops newCI ! i) = Inr r \<longrightarrow> fargs (new_arg_name pk nm i) = r"
  shows "length (iops newCI) = length (pk_types pk) \<and>
    (\<forall>i < length (iops newCI). \<exists>r. ir_value cargs cenv (iops newCI ! i) = Inr r) \<and>
    (\<forall>a < length tys. has_value fargs fenv (unpacked pk nm truncs a) (X a))"
proof -
  have "\<forall>t \<in> set tys. type_bits t \<le> 64" using X by (auto simp: args_ok_def in_set_conv_nth)
  note ok = argument_packing_ok [OF this, of addr, folded pk]
  note d = packing_distinct [OF ok]
  obtain merged where mg: "merge_groups pk tys (iops CI) n1 (pk_will pk) = (code, merged, m1 - 1)"
    and ops: "iops newCI = packed_args pk (iops CI) merged"
    using call(1) by (auto simp: pack_call_def split: prod.splits)
  note w = packed_args_value [OF ok X args(2) mg call(2), folded ops]
  have new: "has_value fargs fenv (new_arg pk nm i) x" if "has_value cargs cenv (iops newCI ! i) x" "i < pk_count pk" for i x
    using that passed by (auto simp: has_value_def new_arg_def)
  have count: "length (pk_types pk) = pk_count pk" using ok(1) by (simp add: packing_ok_def)
  have "\<exists>r. ir_value cargs cenv (iops newCI ! i) = Inr r" if "i < pk_count pk" for i
  proof -
    have "i \<in> fst ` set (pk_will pk) \<union> fst ` set (pk_not pk)" unfolding d(3) using that by simp
    then obtain x where "has_value cargs cenv (iops newCI ! i) x" using w by fastforce
    then show ?thesis by (auto simp: has_value_def)
  qed
  moreover have "\<forall>(i, grp) \<in> set (pk_will pk). has_value fargs fenv (new_arg pk nm i) (mixed (digits tys X grp))"
    and "\<forall>(i, a) \<in> set (pk_not pk). has_value fargs fenv (new_arg pk nm i) (X a)"
    using w new packing_ok_position [OF ok(1)] count by auto
  ultimately show ?thesis
    using unpacked_value [OF ok X _ _ callee] count by (auto simp: ops packed_args_def)
qed


theorem packing_roundtrip_witness:
  "has_value sample_args (\<lambda>_. None)
     (unpacked sample_packing (\<lambda>i. ''p'') (fst (snd (unpack_code id sample_packing sample_types (\<lambda>i. ''p'') 50))) 3) 60000"
proof -
  let ?new = "fst (snd (pack_call sample_packing sample_types 100 sample_call))"
  let ?ops = "iops ?new"
  let ?un = "unpack_code id sample_packing sample_types (\<lambda>i. ''p'') 50"
  have call: "pack_call sample_packing sample_types 100 sample_call =
      (fst (pack_call sample_packing sample_types 100 sample_call), ?new, snd (snd (pack_call sample_packing sample_types 100 sample_call)))"
    by simp
  have un: "?un = (fst ?un, fst (snd ?un), snd (snd ?un))" by simp
  have len: "length ?ops = 2" using arg_cong [OF sample_passed, of length] by simp
  have "\<forall>i < pk_count sample_packing. \<forall>r. ir_value (\<lambda>_. 0) (\<lambda>_. None) (?ops ! i) = Inr r \<longrightarrow>
      sample_args (new_arg_name sample_packing (\<lambda>i. ''p'') i) = r"
  proof (intro allI impI)
    fix i r
    assume i: "i < pk_count sample_packing" and r: "ir_value (\<lambda>_. 0) (\<lambda>_. None) (?ops ! i) = Inr r"
    have i2: "i < 2" using i by (simp add: sample_packing_def)
    have "map (ir_value (\<lambda>_. 0) (\<lambda>_. None)) ?ops ! i = Inr (sample_args (new_arg_name sample_packing (\<lambda>i. ''p'') i))"
      unfolding sample_passed using i2 by simp
    then show "sample_args (new_arg_name sample_packing (\<lambda>i. ''p'') i) = r" using r i2 len by simp
  qed
  from packing_roundtrip [OF sample_ok(1) _ sample_ok(2) sample_is_packed call _ un _ this]
  have "has_value sample_args (\<lambda>_. None) (unpacked sample_packing (\<lambda>i. ''p'') (fst (snd ?un)) 3) (sample_values 3)"
    by (simp add: sample_types_def sample_call_def)
  then show ?thesis by (simp add: sample_values_def)
qed

end
