(* ===== verification/Pack_Types.thy ===== *)
theory Pack_Types
  imports Pack_Module Pack_Theorems
begin

text \<open>
  After the packing every call passes what the function it calls expects: as many arguments, of the
  same types.
\<close>

definition code_of :: "ir_block list \<Rightarrow> inst list" where
  "code_of bbs = concat (map snd bbs)"

lemma code_of_simps [simp]:
  "code_of [] = []" "code_of (bb # bbs) = snd bb @ code_of bbs" "code_of (bbs @ ccs) = code_of bbs @ code_of ccs"
  by (simp_all add: code_of_def)

lemma code_of_map: "code_of (map (\<lambda>(b, Js). (b, map f Js)) bbs) = map f (code_of bbs)"
  by (induction bbs) auto

text \<open>An instruction refers, among those with a number below \<open>n\<close>, only to what is among the given values.\<close>

definition refers :: "nat \<Rightarrow> val_ir list \<Rightarrow> inst \<Rightarrow> bool" where
  "refers n vs I \<longleftrightarrow> (\<forall>J. VInst J \<in> set (iops I) \<longrightarrow> iid J < n \<longrightarrow> VInst J \<in> set vs)"

definition no_call :: "inst \<Rightarrow> bool" where
  "no_call I = (case iop I of OpCall f \<Rightarrow> False | _ \<Rightarrow> True)"

definition added_code :: "nat \<Rightarrow> val_ir list \<Rightarrow> inst list \<Rightarrow> bool" where
  "added_code n vs Is \<longleftrightarrow> (\<forall>I \<in> set Is. no_call I \<and> n \<le> iid I \<and> refers n vs I)"

lemma added_code_append [simp]: "added_code n vs (Is @ Js) \<longleftrightarrow> added_code n vs Is \<and> added_code n vs Js"
  by (auto simp: added_code_def)

lemma added_code_Nil [simp]: "added_code n vs []"
  by (simp add: added_code_def)

lemma added_code_mono: "\<lbrakk> added_code n vs Is; k \<le> n; set vs \<subseteq> set ws \<rbrakk> \<Longrightarrow> added_code k ws Is"
  by (fastforce simp: added_code_def refers_def)

subsection \<open>The caller\<close>

lemma zext_added: "set vs \<subseteq> set ws \<Longrightarrow> added_code n ws (zext_code t n vs) \<and>
    (\<forall>z \<in> set (zext_code t n vs). n \<le> iid z \<and> ity z = t) \<and> length (zext_code t n vs) = length vs"
proof (induction vs arbitrary: n)
  case (Cons v vs)
  have "added_code n ws (zext_code t (Suc n) vs)"
    by (rule added_code_mono [of "Suc n" ws]) (use Cons in auto)
  moreover have "added_code n ws [Inst n OpZExt (''zext.'' @ value_name v) t [v]]"
    using Cons.prems by (auto simp: added_code_def no_call_def refers_def)
  ultimately show ?case using Cons.IH [of "Suc n"] Cons.prems by (fastforce simp: added_code_def)
qed simp

lemma merge_added:
  assumes "merge_code t n zs = (Is, v, m)" "zs \<noteq> []" "\<forall>z \<in> fst ` set zs. k \<le> iid z \<and> ity z = t" "k \<le> n"
  shows "added_code k ws Is \<and> k \<le> iid v \<and> ity v = t \<and> n \<le> m"
  using assms
proof (induction t n zs arbitrary: Is v m rule: merge_code.induct)
  case (3 t n z b y zs)
  obtain Js u l where mg: "merge_code t n (y # zs) = (Js, u, l)" by (cases "merge_code t n (y # zs)")
  have IH: "added_code k ws Js \<and> k \<le> iid u \<and> ity u = t \<and> n \<le> l" using "3.IH" [OF mg] "3.prems" by simp
  moreover have "k \<le> iid z" using "3.prems"(3) by simp
  ultimately show ?case using "3.prems"(1,4) mg
    by (auto simp: Let_def added_code_def no_call_def refers_def)
qed auto

lemma merge_group_added:
  assumes "merge_group t n vs = (Is, v, m)" "vs \<noteq> []" "fst ` set vs \<subseteq> set ws"
  shows "added_code n ws Is \<and> n \<le> iid v \<and> ity v = t \<and> n \<le> m"
proof -
  let ?zs = "zext_code t n (map fst vs)"
  obtain Js where mg: "merge_code t (n + length vs) (zip ?zs (map snd vs)) = (Js, v, m)" "Is = ?zs @ Js"
    using assms(1) by (auto simp: merge_group_def Let_def split: prod.splits)
  have z: "added_code n ws ?zs" "\<forall>z \<in> set ?zs. n \<le> iid z \<and> ity z = t" "length ?zs = length vs"
    using zext_added [of "map fst vs" ws n t] assms(3) by auto
  have "zip ?zs (map snd vs) \<noteq> []" using assms(2) z(3) by (cases vs) auto
  moreover have "\<forall>y \<in> fst ` set (zip ?zs (map snd vs)). n \<le> iid y \<and> ity y = t" using z(2) by (auto dest: set_zip_leftD)
  ultimately have "added_code n ws Js \<and> n \<le> iid v \<and> ity v = t \<and> n + length vs \<le> m"
    using merge_added [OF mg(1), of n ws] by simp
  then show ?thesis using z(1) mg(2) by simp
qed

lemma merge_groups_added:
  assumes "merge_groups pk tys vs n gs = (Is, ps, m)" "groups_ok pk tys gs" "length vs = length tys"
  shows "added_code n vs Is \<and> n \<le> m \<and> map fst ps = map fst gs \<and> (\<forall>(i, v) \<in> set ps. val_ty v = pk_types pk ! i \<and> (\<exists>K. v = VInst K \<and> n \<le> iid K))"
  using assms(1,2)
proof (induction gs arbitrary: n Is ps m)
  case (Cons p gs)
  obtain i grp where p: "p = (i, grp)" by (cases p)
  let ?us = "map (\<lambda>a. (vs ! a, type_bits (tys ! a))) grp"
  obtain Js v k Ks qs where mg: "merge_group (pk_types pk ! i) n ?us = (Js, v, k)" "merge_groups pk tys vs k gs = (Ks, qs, m)"
    "Is = Js @ Ks" "ps = (i, VInst v) # qs" using Cons.prems(1) by (auto simp: p split: prod.splits)
  have g: "groups_ok pk tys gs" "grp \<noteq> []" "\<forall>a \<in> set grp. a < length vs"
    using Cons.prems(2) assms(3) by (auto simp: p groups_ok_def group_ok_def PACK_VALID_COUNT_def)
  have first: "added_code n vs Js \<and> n \<le> iid v \<and> ity v = pk_types pk ! i \<and> n \<le> k"
    by (rule merge_group_added [OF mg(1)]) (use g in \<open>auto simp: image_subset_iff\<close>)
  moreover have "added_code n vs Ks" using Cons.IH [OF mg(2) g(1)] first by (auto intro: added_code_mono)
  moreover have "\<forall>(i, v) \<in> set qs. val_ty v = pk_types pk ! i \<and> (\<exists>K. v = VInst K \<and> n \<le> iid K)"
    using Cons.IH [OF mg(2) g(1)] first by fastforce
  ultimately show ?case using Cons.IH [OF mg(2) g(1)] mg(3,4) by (simp add: p)
qed simp

definition info_ok :: "call_info \<Rightarrow> bool" where
  "info_ok info \<longleftrightarrow> (\<forall>f pk tys. info f = Some (pk, tys) \<longrightarrow>
     (\<exists>order. packing_ok tys order pk \<and> mset order = mset [0..<length tys]))"

lemma packed_arg_type:
  assumes "packing_ok tys order pk" "mset order = mset [0..<length tys]" "merge_groups pk tys vs n (pk_will pk) = (Is, ps, m)"
    and "map val_ty vs = tys" "i < pk_count pk"
  shows "val_ty (packed_args pk vs ps ! i) = pk_types pk ! i"
    "VInst J = packed_args pk vs ps ! i \<Longrightarrow> iid J < n \<Longrightarrow> VInst J \<in> set vs"
proof -
  note d = packing_distinct [OF assms(1,2)]
  have len: "length vs = length tys" using assms(4) by (metis length_map)
  note mg = merge_groups_added [OF assms(3) packing_groups_ok [OF assms(1,2)] len]
  let ?v = "packed_args pk vs ps ! i"
  have v: "?v = (case map_of ps i of Some v \<Rightarrow> v | None \<Rightarrow> (case map_of (pk_not pk) i of Some a \<Rightarrow> vs ! a | None \<Rightarrow> VUndef TVoid))"
  proof -
    have "[0..<pk_count pk] ! i = i" "i < length [0..<pk_count pk]" using assms(5) by simp_all
    then show ?thesis unfolding packed_args_def by (simp only: nth_map)
  qed
  have "val_ty ?v = pk_types pk ! i \<and> (VInst J = ?v \<longrightarrow> iid J < n \<longrightarrow> VInst J \<in> set vs)"
  proof (cases "map_of ps i")
    case (Some w)
    then have "(i, w) \<in> set ps" by (rule map_of_SomeD)
    then show ?thesis using mg Some v by fastforce
  next
    case None
    then have "i \<notin> fst ` set (pk_will pk)" using mg by (metis list.set_map map_of_eq_None_iff)
    then have "i \<in> fst ` set (pk_not pk)" using d(3) assms(5) by auto
    then obtain a where a: "map_of (pk_not pk) i = Some a" by (metis map_of_eq_None_iff not_None_eq)
    then have "(i, a) \<in> set (pk_not pk)" by (rule map_of_SomeD)
    moreover have "\<forall>(i, a) \<in> set (pk_not pk). pk_types pk ! i = tys ! a" using assms(1) unfolding packing_ok_def by blast
    moreover have "a \<in> {0..<length tys}" using calculation(1) unfolding d(4) [symmetric] by force
    ultimately have "pk_types pk ! i = tys ! a" "a < length tys" by auto
    moreover have "val_ty (vs ! a) = tys ! a" using calculation(2) len nth_map [of a vs val_ty] assms(4) by simp
    ultimately show ?thesis using v None a len by auto
  qed
  then show "val_ty ?v = pk_types pk ! i" "VInst J = ?v \<Longrightarrow> iid J < n \<Longrightarrow> VInst J \<in> set vs" by auto
qed

lemma pack_call_facts:
  assumes "pack_call pk tys n CI = (Js, new, m)" "packing_ok tys order pk" "mset order = mset [0..<length tys]"
    and "map val_ty (iops CI) = tys"
  shows "added_code n (iops CI) Js" "n \<le> iid new" "n \<le> m" "iop new = iop CI" "ity new = ity CI" "refers n (iops CI) new"
    "map val_ty (iops new) = pk_types pk"
proof -
  obtain ps k where mg: "merge_groups pk tys (iops CI) n (pk_will pk) = (Js, ps, k)" and m: "m = k + 1"
    and new: "new = Inst k (iop CI) (if ity CI \<noteq> TVoid then iname CI else []) (ity CI) (packed_args pk (iops CI) ps)"
    using assms(1) by (auto simp: pack_call_def split: prod.splits)
  have len: "length (iops CI) = length tys" using assms(4) by (metis length_map)
  have f: "added_code n (iops CI) Js" "n \<le> k"
    using merge_groups_added [OF mg packing_groups_ok [OF assms(2,3)] len] by blast+
  note ty = packed_arg_type [OF assms(2,3) mg assms(4)]
  have count: "length (packed_args pk (iops CI) ps) = pk_count pk" "length (pk_types pk) = pk_count pk"
    using assms(2) by (simp_all add: packed_args_def packing_ok_def)
  show "map val_ty (iops new) = pk_types pk"
    using ty(1) count by (intro nth_equalityI) (simp_all add: new)
  show "refers n (iops CI) new"
    using ty(2) count unfolding refers_def new by (metis inst.sel(5) in_set_conv_nth)
  show "added_code n (iops CI) Js" by (rule f)
  show "n \<le> iid new" "n \<le> m" "iop new = iop CI" "ity new = ity CI" using f(2) by (simp_all add: m new)
qed

subsection \<open>One call\<close>

text \<open>The state of a function while its calls are packed: those with a number in \<open>cs\<close> are not packed yet.\<close>

definition packing_inv :: "call_info \<Rightarrow> nat \<Rightarrow> nat list \<Rightarrow> inst list \<Rightarrow> nat \<Rightarrow> bool" where
  "packing_inv info n0 cs code n \<longleftrightarrow> n0 \<le> n \<and> distinct (filter (\<lambda>i. i < n0) (map iid code)) \<and> distinct cs \<and>
     (\<forall>c \<in> set cs. c < n0 \<and> (\<exists>I \<in> set code. iid I = c \<and> packed_call info I \<noteq> None)) \<and>
     (\<forall>I \<in> set code. \<forall>J. VInst J \<in> set (iops I) \<longrightarrow> iid J < n0 \<longrightarrow> (\<forall>K \<in> set code. iid K = iid J \<longrightarrow> ity K = ity J)) \<and>
     (\<forall>I \<in> set code. \<forall>pk tys. packed_call info I = Some (pk, tys) \<longrightarrow>
        map val_ty (iops I) = (if iid I \<in> set cs then tys else pk_types pk))"

lemma packing_invD:
  assumes "packing_inv info n0 cs code n"
  shows "n0 \<le> n" "distinct (filter (\<lambda>i. i < n0) (map iid code))" "distinct cs"
    and "\<forall>c \<in> set cs. c < n0 \<and> (\<exists>I \<in> set code. iid I = c \<and> packed_call info I \<noteq> None)"
    and "\<forall>I \<in> set code. \<forall>J. VInst J \<in> set (iops I) \<longrightarrow> iid J < n0 \<longrightarrow> (\<forall>K \<in> set code. iid K = iid J \<longrightarrow> ity K = ity J)"
    and "\<forall>I \<in> set code. \<forall>pk tys. packed_call info I = Some (pk, tys) \<longrightarrow>
        map val_ty (iops I) = (if iid I \<in> set cs then tys else pk_types pk)"
  by (insert assms, unfold packing_inv_def) (elim conjE, assumption)+

lemma packed_no_call: "no_call I \<Longrightarrow> packed_call info I = None"
  by (auto simp: no_call_def packed_call_def split: opcode.splits)

lemma packed_replace [simp]: "packed_call info (replace_uses c w I) = packed_call info I"
  by (simp add: packed_call_def)

lemma replaced_inst:
  "VInst J = replace_value c (VInst new) v \<Longrightarrow> J = new \<or> (\<exists>K. v = VInst K \<and> iid K = iid J \<and> ity K = ity J)"
proof (cases v)
  case (VInst K)
  assume J: "VInst J = replace_value c (VInst new) v"
  show ?thesis
  proof (cases "iid K = c")
    case True
    then show ?thesis using J VInst by (cases K) simp
  next
    case False
    then have "iid K = iid J \<and> ity K = ity J" using J VInst by (cases K) simp
    then show ?thesis using VInst by blast
  qed
qed simp_all

lemma replace_value_ty:
  "(\<And>K. v = VInst K \<Longrightarrow> iid K = c \<Longrightarrow> ity K = ity new) \<Longrightarrow> val_ty (replace_value c (VInst new) v) = val_ty v"
proof (cases v)
  case (VInst K)
  assume "\<And>K. v = VInst K \<Longrightarrow> iid K = c \<Longrightarrow> ity K = ity new"
  then show ?thesis using VInst by (cases K) auto
qed simp_all

lemma packing_inv_step:
  assumes inv: "packing_inv info n0 (c # cs) (xs @ CI # ys) n" and info: "info_ok info" and c: "iid CI = c"
    and site: "packed_call info CI = Some (pk, tys)" "pack_call pk tys n CI = (Js, new, m)"
  shows "packing_inv info n0 cs (map (replace_uses c (VInst new)) (xs @ Js @ new # ys)) m"
proof -
  let ?code = "xs @ CI # ys" and ?code' = "xs @ Js @ new # ys"
  note i = packing_invD [OF inv]
  obtain g where "info g = Some (pk, tys)" using site(1) by (auto simp: packed_call_def split: opcode.splits)
  then obtain order where order: "packing_ok tys order pk" "mset order = mset [0..<length tys]"
    using info unfolding info_ok_def by blast
  have ops: "map val_ty (iops CI) = tys" using i(6) site(1) c by simp
  note f = pack_call_facts [OF site(2) order ops]
  have c0: "c < n0" using i(4) by simp
  have ids: "\<forall>I \<in> set Js. n0 \<le> iid I" "n0 \<le> iid new" using f(1,2) i(1) by (auto simp: added_code_def)
  have old: "I \<in> set xs \<union> set ys" if "I \<in> set ?code'" "iid I < n0" for I using that ids by auto
  have "c \<notin> iid ` (set xs \<union> set ys)" using i(2) c c0 by (simp add: image_Un)
  then have other: "iid I \<noteq> c" if "I \<in> set xs \<union> set ys" for I using that by (metis image_eqI)
  have origin: "\<exists>I0 \<in> set ?code. VInst K \<in> set (iops I0)" if "I \<in> set ?code'" "VInst K \<in> set (iops I)" "iid K < n0" for I K
  proof (cases "I \<in> set xs \<union> set ys")
    case False
    then have "refers n (iops CI) I" using that(1) f(1,6) by (auto simp: added_code_def)
    then have "VInst K \<in> set (iops CI)" using that(2,3) i(1) by (simp add: refers_def)
    then show ?thesis by auto
  qed (use that in auto)
  have same: "\<forall>L \<in> set ?code. iid L = iid K \<longrightarrow> ity L = ity K" if "I \<in> set ?code'" "VInst K \<in> set (iops I)" "iid K < n0" for I K
    using origin [OF that] i(5) that(3) by blast
  have types: "map val_ty (iops (replace_uses c (VInst new) I)) = map val_ty (iops I)" if I: "I \<in> set ?code'" for I
  proof -
    have "val_ty (replace_value c (VInst new) v) = val_ty v" if v: "v \<in> set (iops I)" for v
    proof (rule replace_value_ty)
      fix K assume "v = VInst K" "iid K = c"
      then show "ity K = ity new" using same [OF I, of K] v c c0 f(5) by auto
    qed
    then show ?thesis by simp
  qed
  show ?thesis unfolding packing_inv_def
  proof (intro conjI)
    have "filter (\<lambda>i. i < n0) (map iid ?code') = filter (\<lambda>i. i < n0) (map iid xs) @ filter (\<lambda>i. i < n0) (map iid ys)"
      using ids by (auto simp: filter_empty_conv)
    then show "distinct (filter (\<lambda>i. i < n0) (map iid (map (replace_uses c (VInst new)) ?code')))"
      using i(2) c c0 by (simp only: map_map iid_replace_uses) simp
    show "\<forall>d \<in> set cs. d < n0 \<and> (\<exists>I \<in> set (map (replace_uses c (VInst new)) ?code'). iid I = d \<and> packed_call info I \<noteq> None)"
    proof
      fix d assume d: "d \<in> set cs"
      then have "d \<in> set (c # cs)" "d \<noteq> c" using i(3) by auto
      then obtain I where I: "d < n0" "I \<in> set ?code" "iid I = d" "packed_call info I \<noteq> None" using i(4) by blast
      then have "I \<in> set ?code'" using \<open>d \<noteq> c\<close> c by auto
      then have "replace_uses c (VInst new) I \<in> set (map (replace_uses c (VInst new)) ?code')" unfolding set_map by (rule imageI)
      moreover have "iid (replace_uses c (VInst new) I) = d \<and> packed_call info (replace_uses c (VInst new) I) \<noteq> None" using I(3,4) by simp
      ultimately show "d < n0 \<and> (\<exists>I \<in> set (map (replace_uses c (VInst new)) ?code'). iid I = d \<and> packed_call info I \<noteq> None)"
        using I(1) by blast
    qed
    show "\<forall>I \<in> set (map (replace_uses c (VInst new)) ?code'). \<forall>J. VInst J \<in> set (iops I) \<longrightarrow> iid J < n0 \<longrightarrow>
        (\<forall>K \<in> set (map (replace_uses c (VInst new)) ?code'). iid K = iid J \<longrightarrow> ity K = ity J)"
    proof (intro ballI allI impI)
      fix I' J L' assume I': "I' \<in> set (map (replace_uses c (VInst new)) ?code')" and J: "VInst J \<in> set (iops I')" "iid J < n0"
        and L': "L' \<in> set (map (replace_uses c (VInst new)) ?code')" "iid L' = iid J"
      obtain I where I: "I \<in> set ?code'" "I' = replace_uses c (VInst new) I" using I' unfolding set_map by blast
      obtain v where v: "v \<in> set (iops I)" "VInst J = replace_value c (VInst new) v" using J(1) I(2) by auto
      have "J \<noteq> new" using J(2) ids(2) by auto
      then obtain K where K: "v = VInst K" "iid K = iid J" "ity K = ity J" using replaced_inst [OF v(2)] by blast
      obtain L where L: "L \<in> set ?code'" "L' = replace_uses c (VInst new) L" using L'(1) unfolding set_map by blast
      have "L \<in> set ?code" using old [OF L(1)] L(2) L'(2) J(2) by auto
      then show "ity L' = ity J" using same [OF I(1)] v(1) K J(2) L(2) L'(2) by auto
    qed
    show "\<forall>I \<in> set (map (replace_uses c (VInst new)) ?code'). \<forall>pk tys. packed_call info I = Some (pk, tys) \<longrightarrow>
        map val_ty (iops I) = (if iid I \<in> set cs then tys else pk_types pk)"
    proof (intro ballI allI impI)
      fix I' pk' tys' assume I': "I' \<in> set (map (replace_uses c (VInst new)) ?code')" and call: "packed_call info I' = Some (pk', tys')"
      obtain I where I: "I \<in> set ?code'" "I' = replace_uses c (VInst new) I" using I' unfolding set_map by blast
      have p: "packed_call info I = Some (pk', tys')" using call by (simp add: I(2))
      have "map val_ty (iops I) = (if iid I \<in> set cs then tys' else pk_types pk')"
      proof (cases "I \<in> set xs \<union> set ys")
        case True
        then show ?thesis using i(6) p other by auto
      next
        case False
        then have "I = new" using I(1) f(1) p packed_no_call by (auto simp: added_code_def)
        moreover have "packed_call info new = packed_call info CI" using f(4) by (simp add: packed_call_def)
        moreover have "iid new \<notin> set cs" using ids(2) i(4) by auto
        ultimately show ?thesis using p site(1) f(7) by simp
      qed
      then show "map val_ty (iops I') = (if iid I' \<in> set cs then tys' else pk_types pk')" using types [OF I(1)] I(2) by simp
    qed
  qed (use i(1,3) f(3) in auto)
qed

lemma distinct_filter_eq:
  assumes "distinct (filter P (map f xs))" "x \<in> set xs" "y \<in> set xs" "f x = f y" "P (f x)"
  shows "x = y"
proof -
  have "distinct (map f (filter (P \<circ> f) xs))" using assms(1) by (simp add: filter_map)
  then have "inj_on f (set (filter (P \<circ> f) xs))" by (simp add: distinct_map)
  then show ?thesis using assms(2-5) by (auto simp: inj_on_def)
qed

lemma pack_site_inv:
  assumes inv: "packing_inv info n0 (c # cs) (code_of bbs) n" and info: "info_ok info"
  obtains bbs' m where "pack_site info c (bbs, n) = (bbs', m)" "packing_inv info n0 cs (code_of bbs') m"
proof -
  note i = packing_invD [OF inv]
  obtain I where I: "I \<in> set (code_of bbs)" "iid I = c" "packed_call info I \<noteq> None" "c < n0" using i(4) by auto
  then have "\<exists>bb \<in> set bbs. has_inst c bb" by (auto simp: code_of_def has_inst_def)
  then obtain xs bb ys where b: "bbs = xs @ bb # ys" "has_inst c bb" "\<forall>b \<in> set xs. \<not> has_inst c b"
    using split_list_first_prop [of bbs "has_inst c"] by blast
  obtain nm Is where bb: "bb = (nm, Is)" by (cases bb)
  note find = replace_block_split(2) [OF b(3,2), of ys, folded b(1), unfolded bb]
  have "c \<in> set (map iid Is)" using b(2) bb by (simp add: has_inst_def)
  then obtain CI rest where CI: "from_inst c Is = CI # rest" "iid CI = c" "Is = before_inst c Is @ CI # rest"
    by (rule from_inst_Cons)
  let ?pre = "before_inst c Is"
  have code: "code_of bbs = (code_of xs @ ?pre) @ CI # (rest @ code_of ys)" using CI(3) by (simp add: b(1) bb)
  have "CI = I" using distinct_filter_eq [OF i(2), of CI I] I CI(2) code by simp
  then obtain pk tys where call: "packed_call info CI = Some (pk, tys)" using I(3) by auto
  obtain Js new m where new: "pack_call pk tys n CI = (Js, new, m)" by (cases "pack_call pk tys n CI")
  let ?bbs = "replace_block c (\<lambda>_. [(nm, ?pre @ Js @ new # rest)]) bbs"
  have "?bbs = xs @ (nm, ?pre @ Js @ new # rest) # ys" using replace_block_split(1) [OF b(3,2)] unfolding b(1) by simp
  then have "code_of (map (\<lambda>(b, Ks). (b, map (replace_uses c (VInst new)) Ks)) ?bbs) =
      map (replace_uses c (VInst new)) ((code_of xs @ ?pre) @ Js @ new # (rest @ code_of ys))"
    by (simp add: code_of_map)
  moreover have "packing_inv info n0 cs (map (replace_uses c (VInst new)) ((code_of xs @ ?pre) @ Js @ new # (rest @ code_of ys))) m"
    by (rule packing_inv_step [OF inv [unfolded code] info CI(2) call new])
  ultimately show thesis
    using that [of "map (\<lambda>(b, Ks). (b, map (replace_uses c (VInst new)) Ks)) ?bbs" m]
    by (simp add: pack_site_def find CI(1) call new)
qed

lemma pack_sites_inv:
  assumes "packing_inv info n0 cs (code_of bbs) n" "info_ok info"
  obtains bbs' m where "fold (pack_site info) cs (bbs, n) = (bbs', m)" "packing_inv info n0 [] (code_of bbs') m"
  using assms
proof (induction cs arbitrary: bbs n thesis)
  case (Cons c cs)
  obtain bbs1 n1 where "pack_site info c (bbs, n) = (bbs1, n1)" "packing_inv info n0 cs (code_of bbs1) n1"
    using pack_site_inv [OF Cons.prems(2,3)] by blast
  then show ?case using Cons.IH [of bbs1 n1] Cons.prems(1,3) by auto
qed simp

subsection \<open>A function whose calls are not packed yet\<close>

definition unpacked_ok :: "call_info \<Rightarrow> nat \<Rightarrow> inst list \<Rightarrow> bool" where
  "unpacked_ok info n0 code \<longleftrightarrow> distinct (filter (\<lambda>i. i < n0) (map iid code)) \<and>
     (\<forall>I \<in> set code. \<forall>J. VInst J \<in> set (iops I) \<longrightarrow> iid J < n0 \<longrightarrow> (\<forall>K \<in> set code. iid K = iid J \<longrightarrow> ity K = ity J)) \<and>
     (\<forall>I \<in> set code. \<forall>pk tys. packed_call info I = Some (pk, tys) \<longrightarrow> iid I < n0 \<and> map val_ty (iops I) = tys)"

definition calls_packed :: "call_info \<Rightarrow> inst list \<Rightarrow> bool" where
  "calls_packed info code \<longleftrightarrow> (\<forall>I \<in> set code. \<forall>pk tys. packed_call info I = Some (pk, tys) \<longrightarrow> map val_ty (iops I) = pk_types pk)"

lemma pack_calls_typed:
  assumes ok: "unpacked_ok info n0 (code_of bbs)" and "info_ok info" "n0 \<le> n"
  obtains bbs' m where "pack_calls info n bbs = (bbs', m)" "n0 \<le> m" "calls_packed info (code_of bbs')"
proof -
  let ?cs = "calls_to_pack info bbs"
  have cs: "?cs = map iid (filter (\<lambda>I. packed_call info I \<noteq> None) (code_of bbs))" by (simp add: calls_to_pack_def code_of_def)
  have low: "iid I < n0" if "I \<in> set (code_of bbs)" "packed_call info I \<noteq> None" for I
    using that ok unfolding unpacked_ok_def by (cases "packed_call info I") auto
  have "filter (\<lambda>I. packed_call info I \<noteq> None) (code_of bbs) =
      filter (\<lambda>I. packed_call info I \<noteq> None) (filter (\<lambda>I. iid I < n0) (code_of bbs))"
    unfolding filter_filter by (rule filter_cong) (use low in auto)
  moreover have "distinct (map iid (filter (\<lambda>I. iid I < n0) (code_of bbs)))"
    using ok by (simp add: unpacked_ok_def filter_map comp_def)
  ultimately have "distinct ?cs" unfolding cs by (simp only: distinct_map_filter)
  moreover have "map val_ty (iops I) = (if iid I \<in> set ?cs then tys else pk_types pk)"
    if "I \<in> set (code_of bbs)" "packed_call info I = Some (pk, tys)" for I pk tys
    using that ok unfolding cs unpacked_ok_def by auto
  moreover have "\<forall>c \<in> set ?cs. c < n0 \<and> (\<exists>I \<in> set (code_of bbs). iid I = c \<and> packed_call info I \<noteq> None)"
    using low unfolding cs by auto
  ultimately have "packing_inv info n0 ?cs (code_of bbs) n"
    using ok assms(3) unfolding packing_inv_def unpacked_ok_def by blast
  from pack_sites_inv [OF this assms(2)] obtain bbs' m where r: "pack_calls info n bbs = (bbs', m)" "packing_inv info n0 [] (code_of bbs') m"
    unfolding pack_calls_def by blast
  then have "calls_packed info (code_of bbs')" using packing_invD(6) [OF r(2)] by (simp add: calls_packed_def)
  then show thesis using that r(1) packing_invD(1) [OF r(2)] by blast
qed

subsection \<open>The callee\<close>

definition fresh_value :: "nat \<Rightarrow> val_ir \<Rightarrow> bool" where
  "fresh_value k v \<longleftrightarrow> (\<forall>J. v = VInst J \<longrightarrow> k \<le> iid J)"

lemma split_added:
  assumes "split_code nm t n v ps = (Is, vs, m)" "fresh_value k v" "k \<le> n"
  shows "added_code k [] Is \<and> (\<forall>p \<in> set vs. fresh_value k (snd p)) \<and> n \<le> m \<and> map fst vs = map fst ps"
  using assms
proof (induction nm t n v ps arbitrary: Is vs m rule: split_code.induct)
  case (3 nm t n v a b c d rest)
  let ?div = "VInt (int_bits t) (push_bit b 1)"
  let ?r = "Inst n (OpBin Urem) (''zext.'' @ nm a) t [v, ?div]" and ?q = "Inst (n + 1) (OpBin Udiv) ''merge'' t [v, ?div]"
  obtain Js ws where s: "split_code nm t (n + 2) (VInst ?q) ((c, d) # rest) = (Js, ws, m)" "Is = ?r # ?q # Js" "vs = (a, VInst ?r) # ws"
    using "3.prems"(1) by (auto simp: Let_def split: prod.splits)
  have "added_code k [] Js \<and> (\<forall>p \<in> set ws. fresh_value k (snd p)) \<and> n + 2 \<le> m \<and> map fst ws = map fst ((c, d) # rest)"
    by (rule "3.IH" [OF refl refl refl s(1)]) (use "3.prems"(3) in \<open>simp_all add: fresh_value_def\<close>)
  then show ?case using "3.prems"(2,3) by (auto simp: s(2,3) added_code_def no_call_def refers_def fresh_value_def)
qed (auto simp: added_code_def)

lemma split_groups_added:
  assumes "split_groups pk tys nm n gs = (Is, vs, m)"
  shows "added_code n [] Is \<and> (\<forall>p \<in> set vs. fresh_value n (snd p)) \<and> n \<le> m \<and> map fst vs = concat (map snd gs)"
  using assms
proof (induction gs arbitrary: n Is vs m)
  case (Cons p gs)
  obtain i grp where p: "p = (i, grp)" by (cases p)
  let ?ps = "map (\<lambda>a. (a, type_bits (tys ! a))) grp"
  obtain Js us k Ks ws where s: "split_code nm (pk_types pk ! i) n (new_arg pk nm i) ?ps = (Js, us, k)"
    "split_groups pk tys nm k gs = (Ks, ws, m)" "Is = Js @ Ks" "vs = us @ ws"
    using Cons.prems by (auto simp: p split: prod.splits)
  have first: "added_code n [] Js \<and> (\<forall>p \<in> set us. fresh_value n (snd p)) \<and> n \<le> k \<and> map fst us = map fst ?ps"
    by (rule split_added [OF s(1)]) (simp_all add: fresh_value_def new_arg_def)
  moreover have "added_code n [] Ks" using Cons.IH [OF s(2)] first by (auto intro: added_code_mono)
  moreover have "\<forall>p \<in> set ws. fresh_value n (snd p)" using Cons.IH [OF s(2)] first by (fastforce simp: fresh_value_def)
  ultimately show ?case using Cons.IH [OF s(2)] by (auto simp: s(3,4) p comp_def)
qed simp

lemma trunc_added:
  assumes "\<forall>p \<in> set vs. fresh_value k (snd p)" "k \<le> n"
  shows "added_code k [] (map snd (trunc_code tys nm n vs)) \<and> map fst (trunc_code tys nm n vs) = map fst vs \<and>
    (\<forall>(a, I) \<in> set (trunc_code tys nm n vs). k \<le> iid I \<and> ity I = tys ! a)"
  using assms
proof (induction tys nm n vs rule: trunc_code.induct)
  case (2 tys nm n a v vs)
  then have "added_code k [] (map snd (trunc_code tys nm (Suc n) vs)) \<and> map fst (trunc_code tys nm (Suc n) vs) = map fst vs \<and>
    (\<forall>(a, I) \<in> set (trunc_code tys nm (Suc n) vs). k \<le> iid I \<and> ity I = tys ! a)" by simp
  then show ?case using "2.prems" by (auto simp: added_code_def no_call_def refers_def fresh_value_def)
qed simp

lemma unpack_added:
  assumes "unpack_code addr pk tys nm n = (Is, ts, m)"
  shows "added_code n [] Is" "n \<le> m" "fst ` set ts = set (concat (map snd (pk_will pk)))"
    "\<forall>(a, I) \<in> set ts. n \<le> iid I \<and> ity I = tys ! a"
proof -
  obtain Js vs k where s: "split_groups pk tys nm n (pk_will pk) = (Js, vs, k)"
    and ts: "ts = trunc_code tys nm k (sort_key (addr \<circ> fst) vs)" "Is = Js @ map snd ts" "m = k + length ts"
    using assms by (auto simp: unpack_code_def Let_def split: prod.splits)
  note sp = split_groups_added [OF s]
  have fr: "\<forall>p \<in> set (sort_key (addr \<circ> fst) vs). fresh_value n (snd p)" using sp by simp
  have tr: "added_code n [] (map snd ts) \<and> map fst ts = map fst (sort_key (addr \<circ> fst) vs) \<and>
      (\<forall>(a, I) \<in> set ts. n \<le> iid I \<and> ity I = tys ! a)"
    unfolding ts(1) by (rule trunc_added [OF fr]) (use sp in simp)
  show "added_code n [] Is" "n \<le> m" "\<forall>(a, I) \<in> set ts. n \<le> iid I \<and> ity I = tys ! a" using sp tr ts by auto
  have "fst ` set ts = set (map fst (sort_key (addr \<circ> fst) vs))" using tr by (metis list.set_map)
  also have "\<dots> = set (map fst vs)" by simp
  finally show "fst ` set ts = set (concat (map snd (pk_will pk)))" using sp by (simp only:)
qed

text \<open>What replaces an argument has its type.\<close>

lemma found: "find P xs = Some x \<Longrightarrow> x \<in> set xs \<and> P x"
  by (induction xs) (auto split: if_splits)

lemma unpacked_type:
  assumes "packing_ok tys order pk" "mset order = mset [0..<length tys]" "unpack_code addr pk tys nm n = (Is, ts, m)" "a < length tys"
  shows "val_ty (unpacked pk nm ts a) = tys ! a" "fresh_value n (unpacked pk nm ts a)"
proof -
  note d = packing_distinct [OF assms(1,2)] and u = unpack_added [OF assms(3)]
  have "val_ty (unpacked pk nm ts a) = tys ! a \<and> fresh_value n (unpacked pk nm ts a)"
  proof (cases "map_of ts a")
    case (Some I)
    then have "(a, I) \<in> set ts" by (rule map_of_SomeD)
    then show ?thesis using u(4) Some by (auto simp: unpacked_def fresh_value_def)
  next
    case None
    then have "a \<notin> set (concat (map snd (pk_will pk)))" unfolding u(3) [symmetric] by (simp add: map_of_eq_None_iff)
    then have "a \<in> snd ` set (pk_not pk)" using d(4) assms(4) by auto
    then obtain i where "(i, a) \<in> set (pk_not pk)" by auto
    then obtain p where p: "find (\<lambda>(i, b). b = a) (pk_not pk) = Some p"
      by (cases "find (\<lambda>(i, b). b = a) (pk_not pk)") (auto simp: find_None_iff)
    from found [OF this] have "p \<in> set (pk_not pk)" "snd p = a" by (auto simp: case_prod_beta)
    moreover have "\<forall>(i, a) \<in> set (pk_not pk). pk_types pk ! i = tys ! a" using assms(1) unfolding packing_ok_def by blast
    ultimately have "p = (fst p, a)" "pk_types pk ! fst p = tys ! a" by (auto simp: case_prod_beta)
    moreover have "unpacked pk nm ts a = new_arg pk nm (fst p)" using None p by (simp add: unpacked_def case_prod_beta)
    ultimately show ?thesis by (simp add: fresh_value_def new_arg_def)
  qed
  then show "val_ty (unpacked pk nm ts a) = tys ! a" "fresh_value n (unpacked pk nm ts a)" by auto
qed

text \<open>A function as the pass finds it: what LLVM's verifier guarantees of its arguments, numbers and operands.\<close>

definition function_typed :: "nat \<Rightarrow> ir_function \<Rightarrow> bool" where
  "function_typed n F \<longleftrightarrow> distinct (map fst (fn_ir_args F)) \<and> (\<forall>p \<in> set (fn_ir_args F). type_bits (snd p) \<le> 64) \<and>
     distinct (map iid (code_of (fn_ir_blocks F))) \<and>
     (\<forall>I \<in> set (code_of (fn_ir_blocks F)). iid I < n \<and>
        (\<forall>v \<in> set (iops I). case v of VArg nm t \<Rightarrow> (nm, t) \<in> set (fn_ir_args F)
           | VInst J \<Rightarrow> (\<forall>K \<in> set (code_of (fn_ir_blocks F)). iid K = iid J \<longrightarrow> ity K = ity J) | _ \<Rightarrow> True))"

lemma function_typedD:
  assumes "function_typed n F"
  shows "distinct (map fst (fn_ir_args F))" "\<forall>p \<in> set (fn_ir_args F). type_bits (snd p) \<le> 64"
    "distinct (map iid (code_of (fn_ir_blocks F)))" "\<forall>I \<in> set (code_of (fn_ir_blocks F)). iid I < n"
    "\<lbrakk> I \<in> set (code_of (fn_ir_blocks F)); VArg nm t \<in> set (iops I) \<rbrakk> \<Longrightarrow> (nm, t) \<in> set (fn_ir_args F)"
    "\<lbrakk> I \<in> set (code_of (fn_ir_blocks F)); VInst J \<in> set (iops I); K \<in> set (code_of (fn_ir_blocks F)); iid K = iid J \<rbrakk> \<Longrightarrow> ity K = ity J"
  using assms unfolding function_typed_def by fastforce+

lemma pack_info_ok:
  assumes "function_typed n F"
  shows "\<exists>order. packing_ok (map snd (fn_ir_args F)) order (pack_info addr F) \<and> mset order = mset [0..<length (map snd (fn_ir_args F))]"
proof -
  have "\<forall>t \<in> set (map snd (fn_ir_args F)). type_bits t \<le> 64" using function_typedD(2) [OF assms] by auto
  from argument_packing_ok [OF this] show ?thesis unfolding pack_info_def by blast
qed

lemma arg_value_type:
  assumes "packing_ok (map snd (fn_ir_args F)) order pk" "mset order = mset [0..<length (map snd (fn_ir_args F))]"
    and "unpack_code addr pk (map snd (fn_ir_args F)) (old_arg_name F) n = (Is, ts, m)"
    and "distinct (map fst (fn_ir_args F))" "(nm, t) \<in> set (fn_ir_args F)"
  obtains v where "arg_value pk F ts nm = Some v" "val_ty v = t" "fresh_value n v"
proof -
  obtain b where b: "b < length (fn_ir_args F)" "fn_ir_args F ! b = (nm, t)" using assms(5) by (auto simp: in_set_conv_nth)
  then have "\<exists>a \<in> set [0..<length (fn_ir_args F)]. old_arg_name F a = nm" by (auto simp: old_arg_name_def intro: bexI [of _ b])
  then obtain a where a: "find (\<lambda>a. old_arg_name F a = nm) [0..<length (fn_ir_args F)] = Some a"
    by (cases "find (\<lambda>a. old_arg_name F a = nm) [0..<length (fn_ir_args F)]") (auto simp: find_None_iff)
  from found [OF this] have "a < length (fn_ir_args F)" "fst (fn_ir_args F ! a) = fst (fn_ir_args F ! b)" using b by (auto simp: old_arg_name_def)
  then have "a = b" using assms(4) b(1) by (simp add: distinct_conv_nth) (metis nth_map)
  then have "a < length (map snd (fn_ir_args F))" "map snd (fn_ir_args F) ! a = t" using b by simp_all
  then show thesis using that [of "unpacked pk (old_arg_name F) ts a"] unpacked_type [OF assms(1,2,3)] a
    by (simp add: arg_value_def)
qed

lemma with_args_simps [simp]:
  "iid (with_args r I) = iid I" "iop (with_args r I) = iop I" "ity (with_args r I) = ity I"
  "iops (with_args r I) = map (replace_args r) (iops I)"
  by (simp_all add: with_args_def)

lemma packed_with_args [simp]: "packed_call info (with_args r I) = packed_call info I"
  by (simp add: packed_call_def)

lemma replace_args_inst: "VInst J = replace_args r v \<Longrightarrow> (\<exists>nm t. v = VArg nm t \<and> r nm = Some (VInst J)) \<or> (\<exists>K. v = VInst K \<and> iid K = iid J \<and> ity K = ity J)"
proof (cases v)
  case (VInst K)
  assume "VInst J = replace_args r v"
  then show ?thesis using VInst by (cases K) simp
qed (auto split: option.splits)

lemma code_of_callee:
  assumes "PackRegistersFromCallee addr uniq pk n F = (G, m)" "unpack_code addr pk (map snd (fn_ir_args F)) (old_arg_name F) n = (Is, ts, k)"
  obtains new where "code_of (fn_ir_blocks G) = new @ map (with_args (arg_value pk F ts)) (code_of (fn_ir_blocks F))" "added_code n [] new"
    "fn_ir_name G = fn_ir_name F" "fn_ir_args G = new_args pk F" "n \<le> m" "fn_ir_blocks F \<noteq> [] \<Longrightarrow> fn_ir_blocks G \<noteq> []"
proof -
  note u = unpack_added [OF assms(2)]
  let ?br = "Inst k (OpBr [fst (hd (map (\<lambda>(bb, Js). (bb, map (with_args (arg_value pk F ts)) Js)) (fn_ir_blocks F)))]) [] TVoid []"
  have "added_code n [] [?br]" using u(2) by (simp add: added_code_def no_call_def refers_def)
  then show thesis
    using assms u(1,2) that [of "if pk_will pk = [] then [] else Is @ [?br]"]
    by (auto simp: PackRegistersFromCallee_def Let_def code_of_map split: if_splits)
qed

lemma callee_unpacked_ok:
  assumes typed: "function_typed n0 F" and callee: "PackRegistersFromCallee addr uniq pk n F = (G, m)"
    and pk: "packing_ok (map snd (fn_ir_args F)) order pk" "mset order = mset [0..<length (map snd (fn_ir_args F))]" and n: "n0 \<le> n"
    and calls: "\<forall>I \<in> set (code_of (fn_ir_blocks F)). \<forall>pk tys. packed_call info I = Some (pk, tys) \<longrightarrow> map val_ty (iops I) = tys"
  shows "unpacked_ok info n0 (code_of (fn_ir_blocks G))" "n \<le> m"
proof -
  obtain Is ts k where un: "unpack_code addr pk (map snd (fn_ir_args F)) (old_arg_name F) n = (Is, ts, k)"
    by (cases "unpack_code addr pk (map snd (fn_ir_args F)) (old_arg_name F) n")
  let ?r = "arg_value pk F ts" and ?code = "code_of (fn_ir_blocks F)"
  obtain new where code: "code_of (fn_ir_blocks G) = new @ map (with_args ?r) ?code" "added_code n [] new" and m: "n \<le> m"
    by (rule code_of_callee [OF callee un])
  show "n \<le> m" by (rule m)
  note t = function_typedD [OF typed]
  have arg: "\<exists>v. ?r nm = Some v \<and> val_ty v = t \<and> fresh_value n v" if "I \<in> set ?code" "VArg nm t \<in> set (iops I)" for I nm t
    using arg_value_type [OF pk un t(1) t(5) [OF that]] by blast
  have high: "\<forall>I \<in> set new. n0 \<le> iid I" using code(2) n by (auto simp: added_code_def)
  show "unpacked_ok info n0 (code_of (fn_ir_blocks G))"
    unfolding unpacked_ok_def code(1)
  proof (intro conjI ballI allI impI)
    have "filter (\<lambda>i. i < n0) (map iid new) = []" using high by (auto simp: filter_empty_conv)
    then show "distinct (filter (\<lambda>i. i < n0) (map iid (new @ map (with_args ?r) ?code)))"
      using t(3) by (simp add: comp_def)
  next
    fix I J K assume I: "I \<in> set (new @ map (with_args ?r) ?code)" and J: "VInst J \<in> set (iops I)" "iid J < n0"
      and K: "K \<in> set (new @ map (with_args ?r) ?code)" "iid K = iid J"
    have "iid J < n" using J(2) n by simp
    then have "I \<notin> set new" using J(1) code(2) unfolding added_code_def refers_def by (metis empty_iff list.set(1))
    then obtain I0 where I0: "I0 \<in> set ?code" "I = with_args ?r I0" using I by auto
    obtain v where v: "v \<in> set (iops I0)" "VInst J = replace_args ?r v" using J(1) I0(2) by auto
    have "\<exists>L. v = VInst L \<and> iid L = iid J \<and> ity L = ity J"
      using replace_args_inst [OF v(2)] arg [OF I0(1)] v(1) J(2) n by (fastforce simp: fresh_value_def)
    then obtain L where L: "v = VInst L" "iid L = iid J" "ity L = ity J" by blast
    have "K \<notin> set new" using K(2) J(2) high by auto
    then obtain K0 where "K0 \<in> set ?code" "K = with_args ?r K0" using K(1) by auto
    then show "ity K = ity J" using t(6) [OF I0(1), of L K0] v(1) L K(2) by simp
  next
    fix I pk' tys' assume I: "I \<in> set (new @ map (with_args ?r) ?code)" and call: "packed_call info I = Some (pk', tys')"
    have "I \<notin> set new" using call code(2) packed_no_call by (auto simp: added_code_def)
    then obtain I0 where I0: "I0 \<in> set ?code" "I = with_args ?r I0" using I by auto
    show "iid I < n0" using t(4) I0 by simp
    have "val_ty (replace_args ?r v) = val_ty v" if v: "v \<in> set (iops I0)" for v
    proof (cases v)
      case (VArg nm t)
      then show ?thesis using arg [OF I0(1)] v by fastforce
    next
      case (VInst J)
      then show ?thesis by (cases J) simp
    qed simp_all
    then have "map val_ty (iops I) = map val_ty (iops I0)" using I0(2) by simp
    moreover have "map val_ty (iops I0) = tys'" using calls call I0 by simp
    ultimately show "map val_ty (iops I) = tys'" by (rule trans)
  qed
qed

subsection \<open>The module\<close>

definition calls_match :: "ir_function list \<Rightarrow> bool" where
  "calls_match M \<longleftrightarrow> (\<forall>F \<in> set M. \<forall>G \<in> set M. fn_ir_blocks G \<noteq> [] \<longrightarrow>
     (\<forall>I \<in> set (code_of (fn_ir_blocks F)). iop I = OpCall (fn_ir_name G) \<longrightarrow> map val_ty (iops I) = map snd (fn_ir_args G)))"

lemma typed_unpacked_ok:
  assumes "function_typed n F"
    and "\<forall>I \<in> set (code_of (fn_ir_blocks F)). \<forall>pk tys. packed_call info I = Some (pk, tys) \<longrightarrow> map val_ty (iops I) = tys"
  shows "unpacked_ok info n (code_of (fn_ir_blocks F))"
  unfolding unpacked_ok_def
proof (intro conjI ballI allI impI)
  show "distinct (filter (\<lambda>i. i < n) (map iid (code_of (fn_ir_blocks F))))" using function_typedD(3) [OF assms(1)] by simp
qed (use function_typedD(4,6) [OF assms(1)] assms(2) in \<open>blast+\<close>)

text \<open>A function of the packed module, before its calls are packed.\<close>

definition packed_from :: "(string \<Rightarrow> nat \<Rightarrow> nat) \<Rightarrow> ir_function \<Rightarrow> ir_function \<Rightarrow> bool" where
  "packed_from addr F G \<longleftrightarrow> fn_ir_name G = fn_ir_name F \<and> (fn_ir_blocks F = [] \<longleftrightarrow> fn_ir_blocks G = []) \<and>
     (fn_ir_blocks F \<noteq> [] \<longrightarrow> fn_ir_args G = new_args (pack_info addr F) F)"

lemma pack_callees_ok:
  assumes "pack_callees addr uniq n Fs = (Gs, m)" "\<forall>F \<in> set Fs. function_typed n0 F" "n0 \<le> n"
    and "\<forall>F \<in> set Fs. \<forall>I \<in> set (code_of (fn_ir_blocks F)). \<forall>pk tys. packed_call info I = Some (pk, tys) \<longrightarrow> map val_ty (iops I) = tys"
  shows "list_all2 (\<lambda>F G. packed_from addr F G \<and> unpacked_ok info n0 (code_of (fn_ir_blocks G))) Fs Gs \<and> n \<le> m"
  using assms
proof (induction Fs arbitrary: n Gs m)
  case (Cons F Fs)
  obtain G k Hs where G: "(if fn_ir_blocks F = [] then (F, n)
      else PackRegistersFromCallee (addr (fn_ir_name F)) uniq (pack_info addr F) n F) = (G, k)"
    and Hs: "pack_callees addr uniq k Fs = (Hs, m)" "Gs = G # Hs"
    using Cons.prems(1) by (auto split: prod.splits)
  have typed: "function_typed n0 F" and calls: "\<forall>I \<in> set (code_of (fn_ir_blocks F)). \<forall>pk tys. packed_call info I = Some (pk, tys) \<longrightarrow> map val_ty (iops I) = tys"
    using Cons.prems(2,4) by simp_all
  have first: "packed_from addr F G \<and> unpacked_ok info n0 (code_of (fn_ir_blocks G)) \<and> n \<le> k"
  proof (cases "fn_ir_blocks F = []")
    case True
    then show ?thesis using G typed_unpacked_ok [OF typed calls] by (auto simp: packed_from_def)
  next
    case False
    then have callee: "PackRegistersFromCallee (addr (fn_ir_name F)) uniq (pack_info addr F) n F = (G, k)" using G by simp
    obtain order where order: "packing_ok (map snd (fn_ir_args F)) order (pack_info addr F)"
      "mset order = mset [0..<length (map snd (fn_ir_args F))]" using pack_info_ok [OF typed] by blast
    obtain Is ts l where un: "unpack_code (addr (fn_ir_name F)) (pack_info addr F) (map snd (fn_ir_args F)) (old_arg_name F) n = (Is, ts, l)"
      by (cases "unpack_code (addr (fn_ir_name F)) (pack_info addr F) (map snd (fn_ir_args F)) (old_arg_name F) n")
    have "packed_from addr F G" using False by (auto simp: packed_from_def intro: code_of_callee [OF callee un])
    then show ?thesis using callee_unpacked_ok [OF typed callee order Cons.prems(3) calls] by blast
  qed
  then have "n0 \<le> k" using Cons.prems(3) by simp
  then show ?case using Cons.IH [OF Hs(1)] Cons.prems(2,4) first Hs(2) by auto
qed simp

lemma pack_callers_ok:
  assumes "pack_callers info n Gs = (Hs, m)" "info_ok info" "n0 \<le> n" "\<forall>G \<in> set Gs. unpacked_ok info n0 (code_of (fn_ir_blocks G))"
  shows "list_all2 (\<lambda>G H. fn_ir_name H = fn_ir_name G \<and> fn_ir_args H = fn_ir_args G \<and> (fn_ir_blocks G = [] \<longrightarrow> fn_ir_blocks H = []) \<and>
    calls_packed info (code_of (fn_ir_blocks H))) Gs Hs"
  using assms
proof (induction Gs arbitrary: n Hs m)
  case (Cons G Gs)
  obtain bbs k where b: "pack_calls info n (fn_ir_blocks G) = (bbs, k)" "n0 \<le> k" "calls_packed info (code_of bbs)"
    using pack_calls_typed [of info n0 "fn_ir_blocks G" n] Cons.prems(2,3,4) by (metis list.set_intros(1))
  obtain Ks where Ks: "pack_callers info k Gs = (Ks, m)" "Hs = G\<lparr>fn_ir_blocks := bbs\<rparr> # Ks"
    using Cons.prems(1) b(1) by (auto split: prod.splits)
  have "fn_ir_blocks G = [] \<longrightarrow> bbs = []" using b(1) by (auto simp: pack_calls_def calls_to_pack_def)
  then show ?case using Cons.IH [OF Ks(1) Cons.prems(2) b(2)] Cons.prems(4) b(3) Ks(2) by simp
qed simp

lemma all2_left: "list_all2 R xs ys \<Longrightarrow> x \<in> set xs \<Longrightarrow> \<exists>y \<in> set ys. R x y"
  by (induction rule: list_all2_induct) auto

lemma all2_right: "list_all2 R xs ys \<Longrightarrow> y \<in> set ys \<Longrightarrow> \<exists>x \<in> set xs. R x y"
  by (induction rule: list_all2_induct) auto

definition packed_like :: "(string \<Rightarrow> nat \<Rightarrow> nat) \<Rightarrow> call_info \<Rightarrow> ir_function \<Rightarrow> ir_function \<Rightarrow> bool" where
  "packed_like addr info F H \<longleftrightarrow> fn_ir_name H = fn_ir_name F \<and> (fn_ir_blocks F = [] \<longrightarrow> fn_ir_blocks H = []) \<and>
     (fn_ir_blocks F \<noteq> [] \<longrightarrow> fn_ir_args H = new_args (pack_info addr F) F) \<and> calls_packed info (code_of (fn_ir_blocks H))"

text \<open>
  C40. After \<open>PackRegisters\<close> the module is well typed again. The pass keeps the functions with their
  names and packs the arguments of those that have a body; and every call, in every function, of a
  function with a body passes as many arguments as it now has, of their types.
\<close>

theorem packed_calls_match:
  assumes names: "distinct (map fn_ir_name M)" and typed: "\<forall>F \<in> set M. function_typed n F" and calls: "calls_match M"
  shows "map fn_ir_name (PackRegisters addr uniq n M) = map fn_ir_name M \<and> calls_match (PackRegisters addr uniq n M) \<and>
    (\<forall>F \<in> set M. \<exists>H \<in> set (PackRegisters addr uniq n M). fn_ir_name H = fn_ir_name F \<and>
       (fn_ir_blocks F \<noteq> [] \<longrightarrow> map snd (fn_ir_args H) = pk_types (pack_info addr F)))"
proof -
  let ?info = "call_info_of addr M"
  obtain Gs m where Gs: "pack_callees addr uniq n M = (Gs, m)" by (cases "pack_callees addr uniq n M")
  obtain Hs k where Hs: "pack_callers ?info m Gs = (Hs, k)" by (cases "pack_callers ?info m Gs")
  have info: "\<exists>F \<in> set M. fn_ir_name F = f \<and> fn_ir_blocks F \<noteq> [] \<and> pk = pack_info addr F \<and> tys = map snd (fn_ir_args F)"
    if "?info f = Some (pk, tys)" for f pk tys
    using that found unfolding call_info_of_def by fastforce
  have defined: "?info (fn_ir_name F) = Some (pack_info addr F, map snd (fn_ir_args F))" if F: "F \<in> set M" "fn_ir_blocks F \<noteq> []" for F
  proof -
    obtain F' where F': "find (\<lambda>G. fn_ir_name G = fn_ir_name F \<and> fn_ir_blocks G \<noteq> []) M = Some F'"
      using F by (metis (mono_tags, lifting) find_None_iff not_None_eq)
    from found [OF this] have "F' \<in> set M" "fn_ir_name F' = fn_ir_name F" by simp_all
    then have "F' = F" using names F(1) by (auto simp: distinct_map inj_on_def)
    then show ?thesis using F' by (simp add: call_info_of_def)
  qed
  have "info_ok ?info" unfolding info_ok_def using info pack_info_ok typed by blast
  have old: "\<forall>F \<in> set M. \<forall>I \<in> set (code_of (fn_ir_blocks F)). \<forall>pk tys. packed_call ?info I = Some (pk, tys) \<longrightarrow> map val_ty (iops I) = tys"
  proof (intro ballI allI impI)
    fix F I pk tys assume F: "F \<in> set M" "I \<in> set (code_of (fn_ir_blocks F))" "packed_call ?info I = Some (pk, tys)"
    then obtain f where f: "iop I = OpCall f" "?info f = Some (pk, tys)" by (auto simp: packed_call_def split: opcode.splits)
    from info [OF f(2)] obtain G where "G \<in> set M" "fn_ir_name G = f" "fn_ir_blocks G \<noteq> []" "tys = map snd (fn_ir_args G)" by blast
    then show "map val_ty (iops I) = tys" using calls F(1,2) f(1) unfolding calls_match_def by blast
  qed
  have c: "list_all2 (\<lambda>F G. packed_from addr F G \<and> unpacked_ok ?info n (code_of (fn_ir_blocks G))) M Gs" "n \<le> m"
    using pack_callees_ok [OF Gs typed _ old] by auto
  then have "\<forall>G \<in> set Gs. unpacked_ok ?info n (code_of (fn_ir_blocks G))" using all2_right by fastforce
  note callers = pack_callers_ok [OF Hs \<open>info_ok ?info\<close> c(2) this]
  have d: "list_all2 (packed_like addr ?info) M Hs"
    by (rule list_all2_trans [OF _ c(1) callers]) (auto simp: packed_like_def packed_from_def)
  have types: "map snd (new_args (pack_info addr F) F) = pk_types (pack_info addr F)" if F: "F \<in> set M" for F
  proof -
    have "length (pk_types (pack_info addr F)) = pk_count (pack_info addr F)"
      using pack_info_ok [of n F] typed F unfolding packing_ok_def by blast
    then show ?thesis using map_nth [of "pk_types (pack_info addr F)"] by (simp add: new_args_def comp_def)
  qed
  have pass: "PackRegisters addr uniq n M = Hs" by (simp add: PackRegisters_def Gs Hs)
  show ?thesis unfolding pass
  proof (intro conjI)
    show "map fn_ir_name Hs = map fn_ir_name M"
      using d by (induction rule: list_all2_induct) (simp_all add: packed_like_def)
    show "\<forall>F \<in> set M. \<exists>H \<in> set Hs. fn_ir_name H = fn_ir_name F \<and>
        (fn_ir_blocks F \<noteq> [] \<longrightarrow> map snd (fn_ir_args H) = pk_types (pack_info addr F))"
      using all2_left [OF d] types unfolding packed_like_def by metis
    show "calls_match Hs" unfolding calls_match_def
    proof (intro ballI impI)
      fix H1 H2 I assume H: "H1 \<in> set Hs" "H2 \<in> set Hs" "fn_ir_blocks H2 \<noteq> []" and I: "I \<in> set (code_of (fn_ir_blocks H1))" "iop I = OpCall (fn_ir_name H2)"
      have one: "calls_packed ?info (code_of (fn_ir_blocks H1))" using all2_right [OF d H(1)] by (auto simp: packed_like_def)
      obtain F where F: "F \<in> set M" "fn_ir_name H2 = fn_ir_name F" "fn_ir_blocks F \<noteq> []" "fn_ir_args H2 = new_args (pack_info addr F) F"
        using all2_right [OF d H(2)] H(3) by (auto simp: packed_like_def)
      have "packed_call ?info I = Some (pack_info addr F, map snd (fn_ir_args F))"
        using defined [OF F(1,3)] I(2) F(2) by (simp add: packed_call_def)
      then show "map val_ty (iops I) = map snd (fn_ir_args H2)"
        using one I(1) types [OF F(1)] F(4) unfolding calls_packed_def by fastforce
    qed
  qed
qed

text \<open>An instance: a function of three bytes gets one argument of 32 bits.\<close>

definition three_bytes :: ir_function where
  "three_bytes = \<lparr> fn_ir_name = ''f'', fn_ir_args = [(''a'', TInt 8), (''b'', TInt 8), (''c'', TInt 8)],
     fn_ir_blocks = [(''entry'', [Inst 1 OpRet [] TVoid [VArg ''b'' (TInt 8)]])] \<rparr>"

definition three_bytes_main :: ir_function where
  "three_bytes_main =
     (let c = Inst 1 (OpCall ''f'') ''r'' (TInt 8) [VInt 8 1, VInt 8 2, VInt 8 3]
      in \<lparr> fn_ir_name = ''main'', fn_ir_args = [], fn_ir_blocks = [(''entry'', [c, Inst 2 OpRet [] TVoid [VInst c]])] \<rparr>)"

theorem packed_calls_match_witness:
  "\<exists>H \<in> set (PackRegisters (\<lambda>_ a. a) (\<lambda>_ w. w) 10 [three_bytes, three_bytes_main]). fn_ir_name H = ''f'' \<and>
     map snd (fn_ir_args H) = [TInt 32] \<and> calls_match (PackRegisters (\<lambda>_ a. a) (\<lambda>_ w. w) 10 [three_bytes, three_bytes_main])"
proof -
  let ?M = "[three_bytes, three_bytes_main]"
  have "distinct (map fn_ir_name ?M)" by (simp add: three_bytes_def three_bytes_main_def Let_def)
  moreover have "\<forall>F \<in> set ?M. function_typed 10 F"
    by (simp add: function_typed_def three_bytes_def three_bytes_main_def Let_def)
  moreover have "calls_match ?M" by (simp add: calls_match_def three_bytes_def three_bytes_main_def Let_def)
  moreover have "pk_types (pack_info (\<lambda>_ a. a) three_bytes) = [TInt 32]" by code_simp
  ultimately show ?thesis
    using packed_calls_match [of ?M 10 "\<lambda>_ a. a" "\<lambda>_ w. w"] by (auto simp: three_bytes_def)
qed

end
