(* ===== verification/Memory_Use.thy ===== *)
theory Memory_Use
  imports Ir_Rewrite
begin

text \<open>
  The pass that puts allocations of \<open>main\<close> on the stack while there is room
  (\<open>src/src/passes/MemUseOptimization.cpp\<close>). A call of \<open>malloc\<close> outside of the loops
  becomes a test of the stack pointer and one of two calls; a call of \<open>free\<close> is guarded by a
  test of the address.

  Blocks are known by their names. The name LLVM makes of a wanted one and the names in use is a
  parameter, as is the loop analysis. The blocks the values of a phi node come from are kept by the
  number of the node, in the order of its operands. The text of an instruction's name does not
  matter here and is not made unique.
\<close>

definition AllocaBytesFnName :: string where "AllocaBytesFnName = ''__alloca_bytes__''"
definition GetSPFnName :: string where "GetSPFnName = ''__get_stack_pointer__''"

definition STACK_DANGEROUS_REGION :: u64 where "STACK_DANGEROUS_REGION = 5120"
definition STACK_BOUNDARY :: u64 where "STACK_BOUNDARY = 10240"

definition isCallInstOfThis :: "inst \<Rightarrow> string \<Rightarrow> bool" where
  "isCallInstOfThis I f = (iop I = OpCall f)"

subsection \<open>The candidates\<close>

text \<open>
  The calls in a function, or nothing when a call of \<open>free\<close> is in another function or in a
  loop. \<open>FreeFn\<close> is not initialised; a module without \<open>free\<close> has no call of it.
\<close>

definition calls_of :: "string \<Rightarrow> inst list \<Rightarrow> nat list" where
  "calls_of f Is = map iid (filter (\<lambda>I. isCallInstOfThis I f) Is)"

fun candidates_main :: "(string \<Rightarrow> bool) \<Rightarrow> ir_block list \<Rightarrow> (nat list \<times> nat list) option" where
  "candidates_main in_loop [] = Some ([], [])"
| "candidates_main in_loop (bb # bbs) =
     (if in_loop (fst bb)
      then (if calls_of ''free'' (snd bb) \<noteq> [] then None else candidates_main in_loop bbs)
      else (case candidates_main in_loop bbs of
              None \<Rightarrow> None
            | Some (ms, fs) \<Rightarrow> Some (calls_of ''malloc'' (snd bb) @ ms, calls_of ''free'' (snd bb) @ fs)))"

fun candidates :: "(string \<Rightarrow> bool) \<Rightarrow> ir_function list \<Rightarrow> (nat list \<times> nat list) option" where
  "candidates in_loop [] = Some ([], [])"
| "candidates in_loop (F # Fs) =
     (case (if fn_ir_name F = ''main'' then candidates_main in_loop (fn_ir_blocks F)
            else if \<exists>bb \<in> set (fn_ir_blocks F). calls_of ''free'' (snd bb) \<noteq> [] then None else Some ([], [])) of
        None \<Rightarrow> None
      | Some (ms, fs) \<Rightarrow>
          (case candidates in_loop Fs of None \<Rightarrow> None | Some (ms', fs') \<Rightarrow> Some (ms @ ms', fs @ fs')))"

subsection \<open>Rewriting\<close>

record rewriting =
  rw_blocks :: "ir_block list"
  rw_incoming :: "nat \<Rightarrow> string list"
  rw_number :: nat

text \<open>\<open>splitBasicBlock\<close>: the phi nodes behind the block now come from the split one.\<close>

definition rename_incoming :: "string \<Rightarrow> string \<Rightarrow> (nat \<Rightarrow> string list) \<Rightarrow> nat \<Rightarrow> string list" where
  "rename_incoming old new inc = (\<lambda>i. map (\<lambda>b. if b = old then new else b) (inc i))"

definition branch :: "nat \<Rightarrow> string list \<Rightarrow> val_ir list \<Rightarrow> inst" where
  "branch n targets vs = Inst n (OpBr targets) [] TVoid vs"

text \<open>The test of the stack pointer, and the two calls.\<close>

definition test_stack :: "nat \<Rightarrow> val_ir \<Rightarrow> string \<Rightarrow> string \<Rightarrow> inst list" where
  "test_stack n size_v alloca_bb malloc_bb =
     (let sp = Inst n (OpCall GetSPFnName) ''cur.sp'' (TInt 64) [];
          sub = Inst (n + 1) (OpBin Sub) ''lookahead.sp'' (TInt 64) [VInst sp, size_v];
          cmp = Inst (n + 2) (OpICmp Sge) ''is.safe.sp'' (TInt 1) [VInst sub, VInt 64 STACK_DANGEROUS_REGION]
      in [sp, sub, cmp, branch (n + 3) [alloca_bb, malloc_bb] [VInst cmp]])"

definition by_alloca :: "nat \<Rightarrow> val_ir \<Rightarrow> inst" where
  "by_alloca n size_v = Inst (n + 4) (OpCall AllocaBytesFnName) ''by.alloca_bytes'' (TPtr (TInt 8)) [size_v, VInt 64 0]"

definition by_malloc :: "nat \<Rightarrow> ty \<Rightarrow> val_ir \<Rightarrow> inst" where
  "by_malloc n t size_v = Inst (n + 6) (OpCall ''malloc'') ''by.malloc'' t [size_v]"

definition allocation_phi :: "nat \<Rightarrow> inst \<Rightarrow> val_ir \<Rightarrow> inst" where
  "allocation_phi n CI size_v =
     Inst (n + 8) OpPhi (''allocation.'' @ iname CI) (ity CI) [VInst (by_alloca n size_v), VInst (by_malloc n (ity CI) size_v)]"

text \<open>The names of the new blocks.\<close>

definition new_names :: "(string list \<Rightarrow> string \<Rightarrow> string) \<Rightarrow> string list \<Rightarrow> string list \<Rightarrow> string list" where
  "new_names uniq wanted names = fold (\<lambda>w ns. ns @ [uniq (names @ ns) w]) wanted []"

definition malloc_site :: "(string list \<Rightarrow> string \<Rightarrow> string) \<Rightarrow> nat \<Rightarrow> rewriting \<Rightarrow> rewriting" where
  "malloc_site uniq c s =
     (case find (has_inst c) (rw_blocks s) of
        None \<Rightarrow> s
      | Some (bb, Is) \<Rightarrow>
          (case (new_names uniq [''div.'' @ bb, ''alloca.'' @ bb, ''malloc.'' @ bb] (map fst (rw_blocks s)), from_inst c Is) of
             ([split_bb, alloca_bb, malloc_bb], CI # rest) \<Rightarrow>
               let n = rw_number s; size_v = hd (iops CI); phi = allocation_phi n CI size_v;
                   blocks = replace_block c
                     (\<lambda>_. [(bb, before_inst c Is @ test_stack n size_v alloca_bb malloc_bb), (split_bb, phi # rest)]) (rw_blocks s) @
                     [(alloca_bb, [by_alloca n size_v, branch (n + 5) [split_bb] []]),
                      (malloc_bb, [by_malloc n (ity CI) size_v, branch (n + 7) [split_bb] []])]
               in \<lparr> rw_blocks = map (\<lambda>(b, Js). (b, map (replace_uses c (VInst phi)) Js)) blocks,
                    rw_incoming = (rename_incoming bb split_bb (rw_incoming s))(n + 8 := [alloca_bb, malloc_bb]),
                    rw_number = n + 9 \<rparr>
           | _ \<Rightarrow> s))"

text \<open>A call of \<open>free\<close>.\<close>

definition test_pointer :: "nat \<Rightarrow> val_ir \<Rightarrow> string \<Rightarrow> string \<Rightarrow> inst list" where
  "test_pointer n p free_bb split_bb =
     (let pos = Inst n OpPtrToInt ''sp.as.int'' (TInt 64) [p];
          cmp = Inst (n + 1) (OpICmp Sge) ''cmp.sp'' (TInt 1) [VInst pos, VInt 64 STACK_BOUNDARY]
      in [pos, cmp, branch (n + 2) [free_bb, split_bb] [VInst cmp]])"

definition guarded_free :: "nat \<Rightarrow> val_ir \<Rightarrow> inst" where
  "guarded_free n p = Inst (n + 3) (OpCall ''free'') [] TVoid [p]"

definition free_site :: "(string list \<Rightarrow> string \<Rightarrow> string) \<Rightarrow> nat \<Rightarrow> rewriting \<Rightarrow> rewriting" where
  "free_site uniq c s =
     (case find (has_inst c) (rw_blocks s) of
        None \<Rightarrow> s
      | Some (bb, Is) \<Rightarrow>
          (case (new_names uniq [''div.'' @ bb, ''free.'' @ bb] (map fst (rw_blocks s)), from_inst c Is) of
             ([split_bb, free_bb], CI # rest) \<Rightarrow>
               let n = rw_number s; p = hd (iops CI)
               in \<lparr> rw_blocks = replace_block c
                      (\<lambda>_. [(bb, before_inst c Is @ test_pointer n p free_bb split_bb), (split_bb, rest)]) (rw_blocks s) @
                      [(free_bb, [guarded_free n p, branch (n + 4) [split_bb] []])],
                    rw_incoming = rename_incoming bb split_bb (rw_incoming s),
                    rw_number = n + 5 \<rparr>
           | _ \<Rightarrow> s))"

definition rewrite_main :: "(string list \<Rightarrow> string \<Rightarrow> string) \<Rightarrow> nat list \<Rightarrow> nat list \<Rightarrow> rewriting \<Rightarrow> rewriting" where
  "rewrite_main uniq mallocs frees s = fold (free_site uniq) frees (fold (malloc_site uniq) mallocs s)"

subsection \<open>The pass\<close>

definition function_declaration :: "string \<Rightarrow> ty list \<Rightarrow> ir_function" where
  "function_declaration f ts = \<lparr> fn_ir_name = f, fn_ir_args = map (Pair []) ts, fn_ir_blocks = [] \<rparr>"

definition declare_if_missing :: "string \<Rightarrow> ty list \<Rightarrow> ir_function list \<Rightarrow> ir_function list" where
  "declare_if_missing f ts M = (if f \<in> set (map fn_ir_name M) then M else M @ [function_declaration f ts])"

text \<open>
  The new module, with the incoming blocks of the phi nodes of \<open>main\<close> and the next number. A
  module without \<open>main\<close> fails an assertion.
\<close>

definition MemUseOptimization :: "(string list \<Rightarrow> string \<Rightarrow> string) \<Rightarrow> (string \<Rightarrow> bool) \<Rightarrow> (nat \<Rightarrow> string list) \<Rightarrow> nat \<Rightarrow>
    ir_function list \<Rightarrow> string + ir_function list \<times> (nat \<Rightarrow> string list) \<times> nat" where
  "MemUseOptimization uniq in_loop incoming n M =
     (if ''main'' \<notin> set (map fn_ir_name M) then Inl ''No main function in the IR module!''
      else
        let M1 = declare_if_missing GetSPFnName [] (declare_if_missing AllocaBytesFnName [TInt 64, TInt 64] M) in
        case candidates in_loop M1 of
          None \<Rightarrow> Inr (M1, incoming, n)
        | Some (mallocs, frees) \<Rightarrow>
            if mallocs = [] then Inr (M1, incoming, n)
            else
              (case find (\<lambda>F. fn_ir_name F = ''main'') M1 of
                 None \<Rightarrow> Inr (M1, incoming, n)
               | Some F \<Rightarrow>
                   let s = rewrite_main uniq mallocs frees \<lparr> rw_blocks = fn_ir_blocks F, rw_incoming = incoming, rw_number = n \<rparr>
                   in Inr (map (\<lambda>G. if fn_ir_name G = ''main'' then G\<lparr>fn_ir_blocks := rw_blocks s\<rparr> else G) M1,
                           rw_incoming s, rw_number s)))"

end
