(* ===== verification/Split_Simulation.thy ===== *)
theory Split_Simulation
  imports Ir_Semantics "HOL-Library.Multiset"
begin

text \<open>
  A block of a function is split at an instruction, which is replaced by code that ends up behind
  the split. This theory shows once that a run of the new function is a run of the old one, for
  any replacement that does in its own way what the instruction did.
\<close>

subsection \<open>Well-formed functions\<close>

definition all_insts :: "ir_block list \<Rightarrow> inst list" where
  "all_insts bbs = concat (map snd bbs)"

definition operand_ok :: "nat \<Rightarrow> inst list \<Rightarrow> val_ir \<Rightarrow> bool" where
  "operand_ok n Is v =
     (case v of VInst J \<Rightarrow> iid J < n \<and> (\<forall>I \<in> set Is. iid I = iid J \<longrightarrow> ity I = ity J \<and> ity I \<noteq> TVoid) | _ \<Rightarrow> True)"

definition is_term :: "opcode \<Rightarrow> bool" where
  "is_term k = (case k of OpRet \<Rightarrow> True | OpBr _ \<Rightarrow> True | OpSwitch _ _ \<Rightarrow> True | OpUnreachable \<Rightarrow> True | _ \<Rightarrow> False)"

definition targets_of :: "opcode \<Rightarrow> string list" where
  "targets_of k = (case k of OpBr ts \<Rightarrow> ts | OpSwitch cases d \<Rightarrow> d # map snd cases | _ \<Rightarrow> [])"

definition block_ok :: "inst list \<Rightarrow> bool" where
  "block_ok Is \<longleftrightarrow> (\<forall>I \<in> set (dropWhile is_phi Is). \<not> is_phi I) \<and> (\<forall>I \<in> set (butlast Is). \<not> is_term (iop I))"

definition inst_ok :: "(nat \<Rightarrow> string list) \<Rightarrow> nat \<Rightarrow> ir_block list \<Rightarrow> inst \<Rightarrow> bool" where
  "inst_ok inc n bbs I \<longleftrightarrow> iid I < n \<and> (\<forall>v \<in> set (iops I). operand_ok n (all_insts bbs) v) \<and>
     set (targets_of (iop I)) \<subseteq> fst ` set bbs \<and> (is_phi I \<longrightarrow> set (inc (iid I)) \<subseteq> fst ` set bbs)"

definition function_ok :: "(nat \<Rightarrow> string list) \<Rightarrow> nat \<Rightarrow> ir_block list \<Rightarrow> bool" where
  "function_ok inc n bbs \<longleftrightarrow> distinct (map fst bbs) \<and> distinct (map iid (all_insts bbs)) \<and>
     (\<forall>I \<in> set (all_insts bbs). inst_ok inc n bbs I) \<and> (\<forall>bb \<in> set bbs. block_ok (snd bb))"

lemma Jump_is_term:
  assumes "control_of k vs = Jump t"
  shows "is_term k" "t \<in> set (targets_of k)"
  using assms by (auto simp: control_of_def is_term_def targets_of_def split: opcode.splits list.splits option.splits
      if_splits dest!: map_of_SomeD intro: rev_image_eqI)

lemma control_phi: "is_phi I \<Longrightarrow> control_of (iop I) vs = Blocked"
  by (auto simp: is_phi_def control_of_def split: list.splits)

subsection \<open>A split\<close>

record site =
  si_before :: "ir_block list"     \<comment> \<open>the blocks before the one that is split\<close>
  si_name :: string
  si_pre :: "inst list"
  si_inst :: inst                  \<comment> \<open>what is replaced\<close>
  si_rest :: "inst list"
  si_after :: "ir_block list"
  si_split :: string               \<comment> \<open>the name of the split block\<close>
  si_test :: "inst list"           \<comment> \<open>the new end of the block\<close>
  si_head :: "inst list"           \<comment> \<open>the new start of the split block\<close>
  si_extra :: "ir_block list"
  si_map :: "inst \<Rightarrow> inst"         \<comment> \<open>what happens to the other instructions and to operands\<close>
  si_value :: "val_ir \<Rightarrow> val_ir"
  si_ren :: "nat \<Rightarrow> nat"           \<comment> \<open>where the new function holds a value\<close>
  si_dead :: "nat set"             \<comment> \<open>numbers that hold no value\<close>

definition old_blocks :: "site \<Rightarrow> ir_block list" where
  "old_blocks S = si_before S @ (si_name S, si_pre S @ si_inst S # si_rest S) # si_after S"

definition new_blocks :: "site \<Rightarrow> ir_block list" where
  "new_blocks S = map (\<lambda>(b, Js). (b, map (si_map S) Js))
     (si_before S @ [(si_name S, si_pre S @ si_test S), (si_split S, si_head S @ si_rest S)] @ si_after S @ si_extra S)"

definition site_ok :: "(val_ir \<Rightarrow> u64) \<Rightarrow> nat \<Rightarrow> site \<Rightarrow> bool" where
  "site_ok cv n S \<longleftrightarrow>
     (\<forall>I. iid (si_map S I) = iid I \<and> iop (si_map S I) = iop I \<and> ity (si_map S I) = ity I \<and> iops (si_map S I) = map (si_value S) (iops I)) \<and>
     (\<forall>v. operand_ok n (all_insts (old_blocks S)) v \<longrightarrow> val_ty (si_value S v) = val_ty v \<and>
        (\<forall>env. operand cv env (si_value S v) = (case v of VInst J \<Rightarrow> env (si_ren S (iid J)) | _ \<Rightarrow> operand cv env v))) \<and>
     (\<forall>i < n. i \<noteq> iid (si_inst S) \<longrightarrow> si_ren S i = i) \<and> (n \<le> si_ren S (iid (si_inst S)) \<or> iid (si_inst S) \<in> si_dead S) \<and>
     (\<forall>i \<in> si_dead S. \<exists>I \<in> set (all_insts (old_blocks S)). iid I = i \<and> ity I = TVoid) \<and>
     si_split S \<notin> fst ` set (old_blocks S) \<and> fst ` set (si_extra S) \<inter> fst ` set (old_blocks S) = {} \<and>
     distinct (si_split S # map fst (si_extra S)) \<and>
     (\<exists>f. iop (si_inst S) = OpCall f) \<and> (\<exists>I Is. si_test S = I # Is \<and> \<not> is_phi I)"

lemma site_okD:
  assumes "site_ok cv n S"
  shows "\<forall>I. iid (si_map S I) = iid I \<and> iop (si_map S I) = iop I \<and> ity (si_map S I) = ity I \<and> iops (si_map S I) = map (si_value S) (iops I)"
    and "\<forall>v. operand_ok n (all_insts (old_blocks S)) v \<longrightarrow> val_ty (si_value S v) = val_ty v \<and>
        (\<forall>env. operand cv env (si_value S v) = (case v of VInst J \<Rightarrow> env (si_ren S (iid J)) | _ \<Rightarrow> operand cv env v))"
    and "\<forall>i < n. i \<noteq> iid (si_inst S) \<longrightarrow> si_ren S i = i" "n \<le> si_ren S (iid (si_inst S)) \<or> iid (si_inst S) \<in> si_dead S"
    and "\<forall>i \<in> si_dead S. \<exists>I \<in> set (all_insts (old_blocks S)). iid I = i \<and> ity I = TVoid"
    and "si_split S \<notin> fst ` set (old_blocks S)" "fst ` set (si_extra S) \<inter> fst ` set (old_blocks S) = {}"
    and "distinct (si_split S # map fst (si_extra S))" "\<exists>f. iop (si_inst S) = OpCall f" "\<exists>I Is. si_test S = I # Is \<and> \<not> is_phi I"
  by (insert assms, unfold site_ok_def) (elim conjE, assumption)+

definition agree :: "site \<Rightarrow> nat \<Rightarrow> (nat \<Rightarrow> u64) \<Rightarrow> (nat \<Rightarrow> u64) \<Rightarrow> bool" where
  "agree S n env env' \<longleftrightarrow> (\<forall>i < n. i \<notin> si_dead S \<longrightarrow> env' (si_ren S i) = env i)"

lemma agree_update:
  assumes "site_ok cv n S" "agree S n env env'" "i < n" "i \<noteq> iid (si_inst S)"
  shows "agree S n (env(i := x)) (env'(i := x))"
  using assms(2-) site_okD(3,4) [OF assms(1)] unfolding agree_def by (metis fun_upd_apply not_le)

lemma agree_operand:
  assumes "site_ok cv n S" "agree S n env env'" "operand_ok n (all_insts (old_blocks S)) v"
  shows "operand cv env' (si_value S v) = operand cv env v" "typed_operand cv env' (si_value S v) = typed_operand cv env v"
proof -
  have v: "val_ty (si_value S v) = val_ty v"
      "operand cv env' (si_value S v) = (case v of VInst J \<Rightarrow> env' (si_ren S (iid J)) | _ \<Rightarrow> operand cv env' v)"
    using assms(3) site_okD(2) [OF assms(1)] by blast+
  show o: "operand cv env' (si_value S v) = operand cv env v"
  proof (cases v)
    case (VInst J)
    have "iid J \<notin> si_dead S" using assms(3) VInst site_okD(5) [OF assms(1)] unfolding operand_ok_def by fastforce
    then show ?thesis using assms(2,3) VInst v(2) by (simp add: agree_def operand_ok_def)
  qed (use v(2) in simp_all)
  show "typed_operand cv env' (si_value S v) = typed_operand cv env v"
    using v(1) o by (simp add: typed_operand_def)
qed

lemma agree_operands:
  assumes "site_ok cv n S" "agree S n env env'" "inst_ok inc n (old_blocks S) I"
  shows "map (operand cv env') (iops (si_map S I)) = map (operand cv env) (iops I)"
    and "map (typed_operand cv env') (iops (si_map S I)) = map (typed_operand cv env) (iops I)"
proof -
  have ops: "iops (si_map S I) = map (si_value S) (iops I)" using site_okD(1) [OF assms(1)] by blast
  have "\<forall>v \<in> set (iops I). operand_ok n (all_insts (old_blocks S)) v" using assms(3) by (simp add: inst_ok_def)
  then show "map (operand cv env') (iops (si_map S I)) = map (operand cv env) (iops I)"
    and "map (typed_operand cv env') (iops (si_map S I)) = map (typed_operand cv env) (iops I)"
    unfolding ops using agree_operand [OF assms(1,2)] by simp_all
qed

subsection \<open>Phi nodes\<close>

definition renamed :: "site \<Rightarrow> string \<Rightarrow> string" where
  "renamed S b = (if b = si_name S then si_split S else b)"

lemma map_of_zip_renamed:
  assumes "set bs \<subseteq> N" "b \<in> N" "si_split S \<notin> N"
  shows "map_of (zip (map (renamed S) bs) (map g vs)) (renamed S b) = map_option g (map_of (zip bs vs) b)"
  using assms by (induction bs arbitrary: vs) (auto simp: renamed_def zip_Cons1 split: list.splits)

lemma phi_env_split:
  assumes S: "site_ok cv n S" and env: "agree S n env env'" and b: "b \<in> fst ` set (old_blocks S)"
    and Is: "\<forall>I \<in> set Is. is_phi I \<and> inst_ok inc n (old_blocks S) I \<and> iid I \<noteq> iid (si_inst S) \<and> inc' (iid I) = map (renamed S) (inc (iid I))"
  shows "case phi_env cv inc b env Is of
      None \<Rightarrow> phi_env cv inc' (renamed S b) env' (map (si_map S) Is) = None
    | Some e \<Rightarrow> \<exists>e'. phi_env cv inc' (renamed S b) env' (map (si_map S) Is) = Some e' \<and> agree S n e e'"
  using Is
proof (induction Is)
  case (Cons I Is)
  have sp: "si_split S \<notin> fst ` set (old_blocks S)" by (rule site_okD(6) [OF S])
  have I: "is_phi I" "inst_ok inc n (old_blocks S) I" "iid I \<noteq> iid (si_inst S)" "inc' (iid I) = map (renamed S) (inc (iid I))"
    using Cons.prems by simp_all
  have sm: "iid (si_map S I) = iid I" "iops (si_map S I) = map (si_value S) (iops I)" using site_okD(1) [OF S] by blast+
  have look: "map_of (zip (inc' (iid (si_map S I))) (iops (si_map S I))) (renamed S b) =
      map_option (si_value S) (map_of (zip (inc (iid I)) (iops I)) b)"
    unfolding sm I(4) by (rule map_of_zip_renamed [OF _ b sp]) (use I(1,2) in \<open>simp add: inst_ok_def\<close>)
  show ?case
  proof (cases "map_of (zip (inc (iid I)) (iops I)) b")
    case None
    then show ?thesis using look by simp
  next
    case (Some v)
    have "v \<in> set (iops I)" using map_of_SomeD [OF Some] by (meson in_set_zipE)
    then have v: "operand cv env' (si_value S v) = operand cv env v"
      using agree_operand(1) [OF S env] I(2) by (simp add: inst_ok_def)
    have n: "iid I < n" using I(2) by (simp add: inst_ok_def)
    show ?thesis
    proof (cases "phi_env cv inc b env Is")
      case None
      then show ?thesis using Cons Some look by (simp add: sm)
    next
      case E: (Some e)
      then obtain e' where e': "phi_env cv inc' (renamed S b) env' (map (si_map S) Is) = Some e'" "agree S n e e'"
        using Cons by auto
      then show ?thesis using E Some look v agree_update [OF S e'(2) n I(3)] by (simp add: sm)
    qed
  qed
qed (use env in simp)

subsection \<open>Looking up blocks\<close>

lemma map_of_site:
  assumes "distinct (map fst (old_blocks S))"
  shows "map_of (old_blocks S) (si_name S) = Some (si_pre S @ si_inst S # si_rest S)"
proof -
  have "(si_name S, si_pre S @ si_inst S # si_rest S) \<in> set (old_blocks S)" by (simp add: old_blocks_def)
  then show ?thesis using assms by (simp only: map_of_eq_Some_iff)
qed

lemma distinct_new:
  assumes "site_ok cv n S" "distinct (map fst (old_blocks S))"
  shows "distinct (map fst (new_blocks S))"
proof -
  have keys: "map fst (new_blocks S) = map fst (si_before S) @ si_name S # si_split S # map fst (si_after S) @ map fst (si_extra S)"
    by (simp add: new_blocks_def case_prod_unfold comp_def)
  show ?thesis using site_okD(6-8) [OF assms(1)] assms(2) unfolding keys by (auto simp: old_blocks_def)
qed

lemma map_of_new_blocks:
  assumes "site_ok cv n S" "distinct (map fst (old_blocks S))"
    and "(t, Js) \<in> set (si_before S @ [(si_name S, si_pre S @ si_test S), (si_split S, si_head S @ si_rest S)] @ si_after S @ si_extra S)"
  shows "map_of (new_blocks S) t = Some (map (si_map S) Js)"
proof -
  have "(t, map (si_map S) Js) \<in> set (new_blocks S)"
    unfolding new_blocks_def set_map by (rule image_eqI [OF _ assms(3)]) simp
  then show ?thesis using distinct_new [OF assms(1,2)] by (simp only: map_of_eq_Some_iff)
qed

lemma map_of_new:
  assumes "site_ok cv n S" "distinct (map fst (old_blocks S))" "map_of (old_blocks S) t = Some Js"
  shows "map_of (new_blocks S) t = Some (map (si_map S) (if t = si_name S then si_pre S @ si_test S else Js))"
proof -
  have "(t, Js) \<in> set (old_blocks S)" by (rule map_of_SomeD [OF assms(3)])
  then show ?thesis
    by (intro map_of_new_blocks [OF assms(1,2)]) (auto simp: old_blocks_def)
qed

text \<open>Where the new function stands when the old one is about to execute \<open>Is\<close> in block \<open>b\<close>.\<close>

definition moved :: "site \<Rightarrow> string \<Rightarrow> inst list \<Rightarrow> string \<times> inst list" where
  "moved S b Is =
     (if iid (si_inst S) \<in> iid ` set Is then (si_name S, before_inst (iid (si_inst S)) Is @ si_test S) else (renamed S b, Is))"

lemma old_inst_ok:
  assumes "function_ok inc n bbs" "map_of bbs b = Some (p @ I # Is)"
  shows "inst_ok inc n bbs I" "I \<in> set (all_insts bbs)" "is_term (iop I) \<Longrightarrow> Is = []"
proof -
  have b: "(b, p @ I # Is) \<in> set bbs" by (rule map_of_SomeD [OF assms(2)])
  then show I: "I \<in> set (all_insts bbs)" by (force simp: all_insts_def)
  then show "inst_ok inc n bbs I" using assms(1) by (simp add: function_ok_def)
  have "block_ok (p @ I # Is)" using assms(1) b by (fastforce simp: function_ok_def)
  then show "is_term (iop I) \<Longrightarrow> Is = []" by (cases Is) (auto simp: block_ok_def butlast_append)
qed

lemma distinct_insts:
  assumes "function_ok inc n bbs" "I \<in> set (all_insts bbs)" "J \<in> set (all_insts bbs)" "iid I = iid J"
  shows "I = J"
  using assms by (auto simp: function_ok_def distinct_map dest: inj_onD)

lemma site_in_old: "si_inst S \<in> set (all_insts (old_blocks S))"
  by (simp add: old_blocks_def all_insts_def)

lemma distinct_block:
  assumes "function_ok inc n bbs" "map_of bbs b = Some Js"
  shows "distinct (map iid Js)"
proof -
  have "(b, Js) \<in> set bbs" by (rule map_of_SomeD [OF assms(2)])
  then obtain xs ys where "bbs = xs @ (b, Js) # ys" by (meson split_list)
  then show ?thesis using assms(1) by (simp add: function_ok_def all_insts_def)
qed

text \<open>The instruction is in one place of one block only.\<close>

lemma at_site:
  assumes "function_ok inc n (old_blocks S)" "map_of (old_blocks S) b = Some (p @ si_inst S # Is)"
  shows "b = si_name S" "Is = si_rest S"
proof -
  let ?c = "iid (si_inst S)"
  have d: "distinct (map iid (all_insts (old_blocks S)))" "distinct (map fst (old_blocks S))" using assms(1) by (simp_all add: function_ok_def)
  have b: "(b, p @ si_inst S # Is) \<in> set (old_blocks S)" by (rule map_of_SomeD [OF assms(2)])
  show n: "b = si_name S"
  proof (rule ccontr)
    assume "b \<noteq> si_name S"
    then have "(b, p @ si_inst S # Is) \<in> set (si_before S @ si_after S)" using b by (auto simp: old_blocks_def)
    then have "?c \<in> iid ` set (concat (map snd (si_before S @ si_after S)))" by force
    then show False using d(1) by (auto simp: old_blocks_def all_insts_def)
  qed
  have eq: "p @ si_inst S # Is = si_pre S @ si_inst S # si_rest S" using map_of_site [OF d(2)] assms(2) n by simp
  have "distinct (map iid (p @ si_inst S # Is))" by (rule distinct_block [OF assms])
  then have "si_inst S \<notin> set p" "si_inst S \<notin> set Is" by auto
  then show "Is = si_rest S" using eq by (simp add: append_Cons_eq_iff)
qed

lemma moved_Cons:
  assumes "iid I \<noteq> iid (si_inst S)"
  shows "fst (moved S b (I # Is)) = fst (moved S b Is)" "snd (moved S b (I # Is)) = I # snd (moved S b Is)"
  using assms by (auto simp: moved_def before_inst_def)

lemma moved_site:
  assumes "iid I = iid (si_inst S)"
  shows "moved S b (I # Is) = (si_name S, si_test S)"
  using assms by (simp add: moved_def before_inst_def)

lemma moved_after:
  assumes "function_ok inc n (old_blocks S)"
  shows "moved S (si_name S) (si_rest S) = (si_split S, si_rest S)"
proof -
  have "map_of (old_blocks S) (si_name S) = Some (si_pre S @ si_inst S # si_rest S)"
    using assms by (intro map_of_site) (simp add: function_ok_def)
  then have "distinct (map iid (si_pre S @ si_inst S # si_rest S))" by (rule distinct_block [OF assms])
  then show ?thesis by (auto simp: moved_def renamed_def)
qed

subsection \<open>The simulation\<close>

definition site_simulated :: "'s stepper \<Rightarrow> 's stepper \<Rightarrow> (val_ir \<Rightarrow> u64) \<Rightarrow> (nat \<Rightarrow> string list) \<Rightarrow> nat \<Rightarrow> site \<Rightarrow> bool" where
  "site_simulated st st' cv inc' n S \<longleftrightarrow>
     (\<forall>env env' s. agree S n env env' \<longrightarrow>
        (case st (si_inst S) (map (typed_operand cv env) (iops (si_inst S))) s of
           Inl e \<Rightarrow> \<forall>f. \<exists>g \<ge> f. run st' cv inc' (new_blocks S) g (si_name S) (map (si_map S) (si_test S)) env' s = Failed e
         | Inr (x, s2) \<Rightarrow>
             \<exists>env2 k. agree S n (env(iid (si_inst S) := x)) env2 \<and>
               (\<forall>g. run st' cv inc' (new_blocks S) (g + k) (si_name S) (map (si_map S) (si_test S)) env' s =
                    run st' cv inc' (new_blocks S) g (si_split S) (map (si_map S) (si_rest S)) env2 s2)))"

text \<open>The other instructions take the same steps, and their phi nodes see the new name.\<close>

definition same_elsewhere :: "'s stepper \<Rightarrow> 's stepper \<Rightarrow> (nat \<Rightarrow> string list) \<Rightarrow> (nat \<Rightarrow> string list) \<Rightarrow> site \<Rightarrow> bool" where
  "same_elsewhere st st' inc inc' S \<longleftrightarrow>
     (\<forall>I \<in> set (all_insts (old_blocks S)). (I \<noteq> si_inst S \<longrightarrow> st' (si_map S I) = st I) \<and>
        (is_phi I \<longrightarrow> inc' (iid I) = map (renamed S) (inc (iid I))))"

definition split_runs :: "'s stepper \<Rightarrow> 's stepper \<Rightarrow> (val_ir \<Rightarrow> u64) \<Rightarrow> (nat \<Rightarrow> string list) \<Rightarrow> (nat \<Rightarrow> string list) \<Rightarrow> nat \<Rightarrow> site \<Rightarrow> nat \<Rightarrow> bool" where
  "split_runs st st' cv inc inc' n S f \<longleftrightarrow>
     (\<forall>b p Is env env' s. map_of (old_blocks S) b = Some (p @ Is) \<longrightarrow> (\<forall>I \<in> set Is. \<not> is_phi I) \<longrightarrow> agree S n env env' \<longrightarrow>
        (\<exists>g \<ge> f. run st' cv inc' (new_blocks S) g (fst (moved S b Is)) (map (si_map S) (snd (moved S b Is))) env' s =
                run st cv inc (old_blocks S) f b Is env s))"

lemma site_no_phi:
  assumes "site_ok cv n S" shows "\<not> is_phi (si_inst S)" "control_of (iop (si_inst S)) vs = Plain"
proof -
  obtain f where f: "iop (si_inst S) = OpCall f" using site_okD(9) [OF assms] by blast
  show "\<not> is_phi (si_inst S)" by (simp add: f is_phi_def)
  show "control_of (iop (si_inst S)) vs = Plain" by (simp add: f control_of_def)
qed

lemma phi_map: "site_ok cv n S \<Longrightarrow> is_phi \<circ> si_map S = is_phi"
  using site_okD(1) by (intro ext) (simp add: is_phi_def)

text \<open>Entering a block: the phi nodes at its head, and what is behind them.\<close>

lemma entered_block:
  assumes fn: "function_ok inc n (old_blocks S)" and S: "site_ok cv n S" and Js: "map_of (old_blocks S) t = Some Js"
  obtains Ks where "map_of (new_blocks S) t = Some (map (si_map S) Ks)" "takeWhile is_phi Ks = takeWhile is_phi Js"
    "moved S t (dropWhile is_phi Js) = (t, dropWhile is_phi Ks)"
proof (cases "t = si_name S")
  case True
  have d: "distinct (map fst (old_blocks S))" using fn by (simp add: function_ok_def)
  have J: "Js = si_pre S @ si_inst S # si_rest S" using map_of_site [OF d] Js True by simp
  have dj: "distinct (map iid Js)" by (rule distinct_block [OF fn Js])
  obtain I0 Is0 where test: "si_test S = I0 # Is0" "\<not> is_phi I0" using site_okD(10) [OF S] by blast
  have np: "\<not> is_phi (si_inst S)" using site_no_phi [OF S] by blast
  have c: "\<forall>I \<in> set (si_pre S). iid I \<noteq> iid (si_inst S)" 
  proof -
    have "iid (si_inst S) \<notin> iid ` set (si_pre S)" using dj by (simp add: J)
    then show ?thesis by (metis image_eqI)
  qed
  have "takeWhile is_phi (si_pre S @ si_test S) = takeWhile is_phi Js"
    unfolding J test using np test(2) by (cases "\<exists>I \<in> set (si_pre S). \<not> is_phi I") (auto simp: takeWhile_append)
  moreover have "moved S t (dropWhile is_phi Js) = (t, dropWhile is_phi (si_pre S @ si_test S))"
  proof -
    have drop: "dropWhile is_phi (si_pre S @ I # Is) = dropWhile is_phi (si_pre S) @ I # Is" if "\<not> is_phi I" for I Is
      using that by (cases "\<exists>I \<in> set (si_pre S). \<not> is_phi I") (auto simp: dropWhile_append)
    have "before_inst (iid (si_inst S)) (dropWhile is_phi (si_pre S) @ si_inst S # si_rest S) = dropWhile is_phi (si_pre S)"
      using c unfolding before_inst_def by (subst takeWhile_append2) (auto dest: set_dropWhileD)
    then show ?thesis unfolding J drop [OF np] moved_def test drop [OF test(2)] using True by simp
  qed
  moreover have "map_of (new_blocks S) t = Some (map (si_map S) (si_pre S @ si_test S))"
    using map_of_new [OF S d Js] True by simp
  ultimately show thesis by (intro that [of "si_pre S @ si_test S"])
next
  case False
  have d: "distinct (map fst (old_blocks S))" using fn by (simp add: function_ok_def)
  have "si_inst S \<notin> set Js" using at_site(1) [OF fn] Js False by (metis split_list)
  have "iid (si_inst S) \<notin> iid ` set (dropWhile is_phi Js)"
  proof
    assume "iid (si_inst S) \<in> iid ` set (dropWhile is_phi Js)"
    then obtain I where I: "I \<in> set Js" "iid I = iid (si_inst S)" by (auto dest: set_dropWhileD)
    have "I \<in> set (all_insts (old_blocks S))" using I(1) map_of_SomeD [OF Js] by (force simp: all_insts_def)
    then have "I = si_inst S" using distinct_insts [OF fn _ site_in_old] I(2) by blast
    then show False using I(1) \<open>si_inst S \<notin> set Js\<close> by simp
  qed
  then have "moved S t (dropWhile is_phi Js) = (t, dropWhile is_phi Js)" using False by (simp add: moved_def renamed_def)
  then show thesis using map_of_new [OF S d Js] False that by simp
qed

lemma enter_split:
  assumes fn: "function_ok inc n (old_blocks S)" and S: "site_ok cv n S" and same: "same_elsewhere st st' inc inc' S"
    and IH: "split_runs st st' cv inc inc' n S f" and env: "agree S n env env'"
    and b: "b \<in> fst ` set (old_blocks S)" and t: "t \<in> fst ` set (old_blocks S)"
  shows "\<exists>g \<ge> Suc f. enter_block st' cv inc' (new_blocks S) g (renamed S b) t env' s =
    enter_block st cv inc (old_blocks S) (Suc f) b t env s"
proof -
  obtain Js where Js: "map_of (old_blocks S) t = Some Js" using t by (metis map_of_eq_None_iff not_None_eq)
  obtain Ks where Ks: "map_of (new_blocks S) t = Some (map (si_map S) Ks)" "takeWhile is_phi Ks = takeWhile is_phi Js"
    "moved S t (dropWhile is_phi Js) = (t, dropWhile is_phi Ks)" by (rule entered_block [OF fn S Js])
  note pm = phi_map [OF S]
  have tj: "(t, Js) \<in> set (old_blocks S)" by (rule map_of_SomeD [OF Js])
  have phis: "\<forall>I \<in> set (takeWhile is_phi Js). is_phi I \<and> inst_ok inc n (old_blocks S) I \<and> iid I \<noteq> iid (si_inst S) \<and>
      inc' (iid I) = map (renamed S) (inc (iid I))"
  proof
    fix I assume "I \<in> set (takeWhile is_phi Js)"
    then have I: "is_phi I" "I \<in> set Js" by (auto dest: set_takeWhileD)
    then have a: "I \<in> set (all_insts (old_blocks S))" using tj by (force simp: all_insts_def)
    moreover have "iid I \<noteq> iid (si_inst S)"
      using distinct_insts [OF fn a site_in_old] I(1) site_no_phi(1) [OF S] by blast
    ultimately show "is_phi I \<and> inst_ok inc n (old_blocks S) I \<and> iid I \<noteq> iid (si_inst S) \<and> inc' (iid I) = map (renamed S) (inc (iid I))"
      using I(1) fn same by (simp add: function_ok_def same_elsewhere_def)
  qed
  note ph = phi_env_split [OF S env b phis]
  have tw: "takeWhile is_phi (map (si_map S) Ks) = map (si_map S) (takeWhile is_phi Js)"
    "dropWhile is_phi (map (si_map S) Ks) = map (si_map S) (dropWhile is_phi Ks)"
    by (simp_all add: takeWhile_map dropWhile_map pm Ks(2))
  show ?thesis
  proof (cases "phi_env cv inc b env (takeWhile is_phi Js)")
    case None
    then show ?thesis using ph Js Ks(1) tw by (intro exI [of _ "Suc f"]) (simp add: enter_block_def)
  next
    case (Some e)
    then obtain e' where e': "phi_env cv inc' (renamed S b) env' (map (si_map S) (takeWhile is_phi Js)) = Some e'" "agree S n e e'"
      using ph by auto
    have "map_of (old_blocks S) t = Some (takeWhile is_phi Js @ dropWhile is_phi Js)" using Js by simp
    moreover have "\<forall>I \<in> set (dropWhile is_phi Js). \<not> is_phi I"
      using fn tj by (fastforce simp: function_ok_def block_ok_def)
    ultimately obtain g where "f \<le> g"
      "run st' cv inc' (new_blocks S) g t (map (si_map S) (dropWhile is_phi Ks)) e' s =
       run st cv inc (old_blocks S) f t (dropWhile is_phi Js) e s"
      using IH e'(2) Ks(3) unfolding split_runs_def by (metis fst_conv snd_conv)
    then show ?thesis using Some e'(1) Js Ks(1) tw by (intro exI [of _ "Suc g"]) (simp add: enter_block_def)
  qed
qed

lemma same_run:
  assumes fn: "function_ok inc n (old_blocks S)" and S: "site_ok cv n S" and same: "same_elsewhere st st' inc inc' S"
    and sim: "site_simulated st st' cv inc' n S"
    and enter: "\<And>b t env env' s. \<lbrakk> agree S n env env'; b \<in> fst ` set (old_blocks S); t \<in> fst ` set (old_blocks S) \<rbrakk> \<Longrightarrow>
      \<exists>g \<ge> f. enter_block st' cv inc' (new_blocks S) g (renamed S b) t env' s = enter_block st cv inc (old_blocks S) f b t env s"
  shows "split_runs st st' cv inc inc' n S f"
proof -
  have "\<exists>g \<ge> f. run st' cv inc' (new_blocks S) g (fst (moved S b Is)) (map (si_map S) (snd (moved S b Is))) env' s =
      run st cv inc (old_blocks S) f b Is env s"
    if "map_of (old_blocks S) b = Some (p @ Is)" "\<forall>I \<in> set Is. \<not> is_phi I" "agree S n env env'" for b p Is env env' s
    using that
  proof (induction Is arbitrary: p env env' s)
    case Nil
    then show ?case by (auto simp: moved_def)
  next
    case (Cons I Is)
    note old = old_inst_ok [OF fn Cons.prems(1)]
    have tail: "map_of (old_blocks S) b = Some ((p @ [I]) @ Is)" "\<forall>I \<in> set Is. \<not> is_phi I" using Cons.prems(1,2) by simp_all
    show ?case
    proof (cases "iid I = iid (si_inst S)")
      case True
      then have I: "I = si_inst S" using distinct_insts [OF fn old(2) site_in_old] by simp
      then have at: "b = si_name S" "Is = si_rest S" using at_site [OF fn] Cons.prems(1) by simp_all
      note pl = site_no_phi(2) [OF S]
      show ?thesis
      proof (cases "st (si_inst S) (map (typed_operand cv env) (iops (si_inst S))) s")
        case (Inl e)
        then have "\<forall>f. \<exists>g \<ge> f. run st' cv inc' (new_blocks S) g (si_name S) (map (si_map S) (si_test S)) env' s = Failed e"
          using sim [unfolded site_simulated_def, rule_format, OF Cons.prems(3), of s] by simp
        then show ?thesis using Inl by (simp add: moved_site [OF refl] I run_Plain [OF pl])
      next
        case (Inr r)
        obtain x s2 where r: "r = (x, s2)" by (cases r)
        obtain env2 k where env2: "agree S n (env(iid (si_inst S) := x)) env2"
          and more: "\<And>g. run st' cv inc' (new_blocks S) (g + k) (si_name S) (map (si_map S) (si_test S)) env' s =
              run st' cv inc' (new_blocks S) g (si_split S) (map (si_map S) (si_rest S)) env2 s2"
          using sim [unfolded site_simulated_def, rule_format, OF Cons.prems(3), of s] Inr r by auto
        obtain g where g: "f \<le> g" "run st' cv inc' (new_blocks S) g (si_split S) (map (si_map S) (si_rest S)) env2 s2 =
            run st cv inc (old_blocks S) f b Is (env(iid (si_inst S) := x)) s2"
          using Cons.IH [OF tail env2, of s2] unfolding at moved_after [OF fn] by (auto simp: fun_upd_def)
        then show ?thesis
          using more [of g] Inr r by (intro exI [of _ "g + k"]) (simp add: moved_site [OF refl] I run_Plain [OF pl])
      qed
    next
      case False
      then have ne: "I \<noteq> si_inst S" by auto
      note m = moved_Cons [OF False, of b Is]
      have sm: "iid (si_map S I) = iid I" "iop (si_map S I) = iop I" using site_okD(1) [OF S] by simp_all
      note ops = agree_operands [OF S Cons.prems(3) old(1)]
      have st: "st' (si_map S I) = st I" using same old(2) ne by (simp add: same_elsewhere_def)
      show ?thesis
      proof (cases "control_of (iop I) (map (operand cv env) (iops I))")
        case Plain
        then have pl: "control_of (iop (si_map S I)) (map (operand cv env') (iops (si_map S I))) = Plain" by (simp add: sm ops)
        show ?thesis
        proof (cases "st I (map (typed_operand cv env) (iops I)) s")
          case (Inl e)
          then show ?thesis using m by (auto simp: run_Plain [OF pl] run_Plain [OF Plain] st ops)
        next
          case (Inr r)
          obtain x s2 where r: "r = (x, s2)" by (cases r)
          have "agree S n (env(iid I := x)) (env'(iid I := x))"
            using agree_update [OF S Cons.prems(3) _ False] old(1) by (simp add: inst_ok_def)
          from Cons.IH [OF tail this, of s2] show ?thesis using m Inr r
            by (simp add: run_Plain [OF pl] run_Plain [OF Plain] st ops sm fun_upd_def)
        qed
      next
        case Finish
        then show ?thesis using m ops by (auto simp: run.simps sm)
      next
        case Blocked
        then show ?thesis using m ops by (auto simp: run.simps sm)
      next
        case (Jump t)
        then have j: "control_of (iop (si_map S I)) (map (operand cv env') (iops (si_map S I))) = Jump t" by (simp add: sm ops)
        have last: "Is = []" using old(3) Jump_is_term(1) [OF Jump] by simp
        have b: "b \<in> fst ` set (old_blocks S)" using map_of_SomeD [OF Cons.prems(1)] by force
        have t: "t \<in> fst ` set (old_blocks S)" using old(1) Jump_is_term(2) [OF Jump] by (auto simp: inst_ok_def)
        have "moved S b (I # Is) = (renamed S b, [I])" using False last by (simp add: moved_def)
        then show ?thesis using enter [OF Cons.prems(3) b t, of s] by (simp add: run_Jump [OF j] run_Jump [OF Jump])
      qed
    qed
  qed
  then show ?thesis by (simp add: split_runs_def)
qed

theorem split_simulation:
  assumes "function_ok inc n (old_blocks S)" "site_ok cv n S" "same_elsewhere st st' inc inc' S"
    and "site_simulated st st' cv inc' n S"
  shows "split_runs st st' cv inc inc' n S f"
proof (induction f)
  case 0
  show ?case
  proof (rule same_run [OF assms])
    fix b t env env' and s
    show "\<exists>g \<ge> 0. enter_block st' cv inc' (new_blocks S) g (renamed S b) t env' s = enter_block st cv inc (old_blocks S) 0 b t env s"
      by (intro exI [of _ 0]) (simp add: enter_block_def)
  qed
next
  case (Suc f)
  show ?case by (rule same_run [OF assms], rule enter_split [OF assms(1-3) Suc])
qed

text \<open>From the entry of the function on.\<close>

definition entry_ok :: "ir_block list \<Rightarrow> bool" where
  "entry_ok bbs = (case bbs of [] \<Rightarrow> True | (b, Is) # _ \<Rightarrow> (\<forall>I \<in> set Is. \<not> is_phi I))"

lemma split_run_main:
  assumes ok: "function_ok inc n (old_blocks S)" "site_ok cv n S" "same_elsewhere st st' inc inc' S" "site_simulated st st' cv inc' n S"
    and entry: "entry_ok (old_blocks S)"
  shows "\<exists>g \<ge> f. run_main st' cv inc' (new_blocks S) g s = run_main st cv inc (old_blocks S) f s"
proof -
  obtain b Is bbs where old: "old_blocks S = (b, Is) # bbs" by (cases "old_blocks S") (auto simp: old_blocks_def)
  have at: "map_of (old_blocks S) b = Some ([] @ Is)" by (simp add: old)
  have np: "\<forall>I \<in> set Is. \<not> is_phi I" using entry by (simp add: entry_ok_def old)
  have env: "agree S n (\<lambda>_. 0) (\<lambda>_. 0)" by (simp add: agree_def)
  obtain g where g: "f \<le> g" "run st' cv inc' (new_blocks S) g (fst (moved S b Is)) (map (si_map S) (snd (moved S b Is))) (\<lambda>_. 0) s =
      run st cv inc (old_blocks S) f b Is (\<lambda>_. 0) s"
    using split_simulation [OF ok] at np env unfolding split_runs_def by blast
  have head: "\<exists>ks. new_blocks S = (fst (moved S b Is), map (si_map S) (snd (moved S b Is))) # ks"
  proof (cases "si_before S")
    case Nil
    then have b: "b = si_name S" "Is = si_pre S @ si_inst S # si_rest S" using old by (simp_all add: old_blocks_def)
    have "distinct (map iid Is)" using distinct_block [OF ok(1) at] by simp
    then have "iid (si_inst S) \<notin> iid ` set (si_pre S)" using b by simp
    then have "before_inst (iid (si_inst S)) Is = si_pre S"
      unfolding b(2) before_inst_def by (subst takeWhile_append2) (auto simp: rev_image_eqI)
    then show ?thesis using Nil b by (simp add: new_blocks_def moved_def)
  next
    case (Cons bb before)
    then have bb: "bb = (b, Is)" using old by (simp add: old_blocks_def)
    have "b \<noteq> si_name S" using Cons bb ok(1) by (auto simp: function_ok_def old_blocks_def)
    moreover have "iid (si_inst S) \<notin> iid ` set Is"
      using ok(1) Cons bb by (auto simp: function_ok_def old_blocks_def all_insts_def)
    ultimately show ?thesis using Cons bb by (simp add: new_blocks_def moved_def renamed_def)
  qed
  then show ?thesis using g old by (auto simp: run_main_def)
qed

subsection \<open>The new function is well-formed\<close>

definition added :: "site \<Rightarrow> inst list" where
  "added S = si_test S @ si_head S @ all_insts (si_extra S)"

text \<open>The operands of the new code: old ones, or new instructions.\<close>

definition added_operand :: "site \<Rightarrow> nat \<Rightarrow> val_ir \<Rightarrow> bool" where
  "added_operand S n v \<longleftrightarrow> operand_ok n (all_insts (old_blocks S)) v \<or>
     (\<exists>J. v = VInst J \<and> (\<exists>K \<in> set (added S). iid K = iid J \<and> ity K = ity J \<and> ity K \<noteq> TVoid))"

definition value_ok :: "site \<Rightarrow> nat \<Rightarrow> bool" where
  "value_ok S n \<longleftrightarrow>
     (\<forall>J. iid J \<noteq> iid (si_inst S) \<longrightarrow> (\<exists>J'. si_value S (VInst J) = VInst J' \<and> iid J' = iid J \<and> ity J' = ity J)) \<and>
     (\<forall>J. iid J = iid (si_inst S) \<and> operand_ok n (all_insts (old_blocks S)) (VInst J) \<longrightarrow>
        (\<exists>K \<in> set (added S). si_value S (VInst J) = VInst K \<and> ity K \<noteq> TVoid)) \<and>
     (\<forall>v. (\<forall>J. v \<noteq> VInst J) \<longrightarrow> si_value S v = v)"

definition added_ok :: "(nat \<Rightarrow> string list) \<Rightarrow> nat \<Rightarrow> nat \<Rightarrow> site \<Rightarrow> bool" where
  "added_ok inc' n m S \<longleftrightarrow> n \<le> m \<and> distinct (map iid (added S)) \<and> (\<forall>I \<in> set (added S). n \<le> iid I \<and> iid I < m \<and>
       (\<forall>v \<in> set (iops I). added_operand S n v) \<and> set (targets_of (iop I)) \<subseteq> fst ` set (new_blocks S) \<and>
       (is_phi I \<longrightarrow> set (inc' (iid I)) \<subseteq> fst ` set (new_blocks S))) \<and>
     (\<forall>I \<in> set (si_test S). \<not> is_phi I) \<and> (\<forall>I \<in> set (butlast (si_test S)). \<not> is_term (iop I)) \<and>
     (\<forall>I \<in> set (si_head S). is_phi I) \<and> (\<forall>bb \<in> set (si_extra S). block_ok (snd bb))"

lemma added_okD:
  assumes "added_ok inc' n m S"
  shows "n \<le> m" "distinct (map iid (added S))" "\<forall>I \<in> set (added S). n \<le> iid I \<and> iid I < m \<and>
       (\<forall>v \<in> set (iops I). added_operand S n v) \<and> set (targets_of (iop I)) \<subseteq> fst ` set (new_blocks S) \<and>
       (is_phi I \<longrightarrow> set (inc' (iid I)) \<subseteq> fst ` set (new_blocks S))"
    and "\<forall>I \<in> set (si_test S). \<not> is_phi I" "\<forall>I \<in> set (butlast (si_test S)). \<not> is_term (iop I)"
    and "\<forall>I \<in> set (si_head S). is_phi I" "\<forall>bb \<in> set (si_extra S). block_ok (snd bb)"
  by (insert assms, unfold added_ok_def) (elim conjE, assumption)+

lemma all_insts_simps [simp]:
  "all_insts [] = []" "all_insts (bb # bbs) = snd bb @ all_insts bbs" "all_insts (bbs @ bbs') = all_insts bbs @ all_insts bbs'"
  by (simp_all add: all_insts_def)

lemma all_insts_map: "all_insts (map (\<lambda>(b, Js). (b, map g Js)) bbs) = map g (all_insts bbs)"
  by (induction bbs) auto

lemma all_new_insts:
  "set (all_insts (new_blocks S)) = si_map S ` (set (all_insts (si_before S)) \<union> set (si_pre S) \<union> set (si_rest S) \<union>
     set (all_insts (si_after S)) \<union> set (added S))"
  unfolding new_blocks_def all_insts_map by (auto simp: added_def)

lemma all_old_insts:
  "set (all_insts (old_blocks S)) = set (all_insts (si_before S)) \<union> set (si_pre S) \<union> {si_inst S} \<union> set (si_rest S) \<union> set (all_insts (si_after S))"
  by (auto simp: old_blocks_def)

lemma new_inst_cases:
  assumes "I \<in> set (all_insts (new_blocks S))"
  obtains I0 where "I = si_map S I0" "I0 \<in> set (all_insts (old_blocks S))" | I0 where "I = si_map S I0" "I0 \<in> set (added S)"
  using assms unfolding all_new_insts all_old_insts by blast

lemma distinct_new_ids:
  assumes fn: "function_ok inc n (old_blocks S)" and S: "site_ok cv n S" and A: "added_ok inc' n m S"
  shows "distinct (map iid (all_insts (new_blocks S)))"
proof -
  have ids: "iid \<circ> si_map S = iid" using site_okD(1) [OF S] by (intro ext) simp
  have "mset (map iid (all_insts (new_blocks S)) @ [iid (si_inst S)]) = mset (map iid (all_insts (old_blocks S) @ added S))"
    unfolding new_blocks_def all_insts_map map_map ids by (simp add: old_blocks_def added_def)
  moreover have "distinct (map iid (all_insts (old_blocks S) @ added S))"
  proof -
    have "\<forall>I \<in> set (all_insts (old_blocks S)). iid I < n" using fn by (simp add: function_ok_def inst_ok_def)
    moreover have "\<forall>I \<in> set (added S). n \<le> iid I" using added_okD(3) [OF A] by blast
    ultimately have "iid ` set (all_insts (old_blocks S)) \<inter> iid ` set (added S) = {}" by fastforce
    then show ?thesis using fn added_okD(2) [OF A] by (simp add: function_ok_def)
  qed
  ultimately show ?thesis
    using mset_eq_imp_distinct_iff by fastforce
qed

lemma new_operand:
  assumes fn: "function_ok inc n (old_blocks S)" and S: "site_ok cv n S" and A: "added_ok inc' n m S"
    and V: "value_ok S n" and v: "added_operand S n v"
  shows "operand_ok m (all_insts (new_blocks S)) (si_value S v)"
proof -
  note sm = site_okD(1) [OF S]
  have c: "iid (si_inst S) < n" using fn site_in_old [of S] by (simp add: function_ok_def inst_ok_def)
  have added: "operand_ok m (all_insts (new_blocks S)) (VInst K')"
    if K: "K \<in> set (added S)" "iid K' = iid K" "ity K' = ity K" "ity K \<noteq> TVoid" for K K'
  proof -
    have "si_map S K \<in> set (all_insts (new_blocks S))" using K(1) unfolding all_new_insts by blast
    then have "ity I = ity K" if "I \<in> set (all_insts (new_blocks S))" "iid I = iid K" for I
      using distinct_new_ids [OF fn S A] that sm by (metis distinct_map inj_onD)
    then show ?thesis using K added_okD(3) [OF A] by (simp add: operand_ok_def)
  qed
  have old: "operand_ok m (all_insts (new_blocks S)) (VInst J')"
    if J: "operand_ok n (all_insts (old_blocks S)) (VInst J)" "iid J' = iid J" "ity J' = ity J" for J J'
  proof -
    have lt: "iid J < n" using J(1) by (simp add: operand_ok_def)
    have "ity I = ity J' \<and> ity I \<noteq> TVoid" if I: "I \<in> set (all_insts (new_blocks S))" "iid I = iid J'" for I
      using I(1)
    proof (cases rule: new_inst_cases)
      case (1 I0)
      then show ?thesis using J I(2) sm by (auto simp: operand_ok_def)
    next
      case (2 I0)
      then have "n \<le> iid J'" using added_okD(3) [OF A] I(2) sm by metis
      then show ?thesis using lt J(2) by simp
    qed
    then show ?thesis using lt J(2) added_okD(1) [OF A] by (auto simp: operand_ok_def)
  qed
  show ?thesis
  proof (cases "\<exists>J. v = VInst J")
    case False
    then have "si_value S v = v" using V unfolding value_ok_def by blast
    then show ?thesis using False by (cases v) (simp_all add: operand_ok_def)
  next
    case True
    then obtain J where J: "v = VInst J" by blast
    show ?thesis
    proof (cases "iid J = iid (si_inst S)")
      case True
      have "operand_ok n (all_insts (old_blocks S)) v"
      proof (rule ccontr)
        assume "\<not> ?thesis"
        then obtain K where "K \<in> set (added S)" "iid K = iid J" using v J by (auto simp: added_operand_def)
        then have "n \<le> iid J" using added_okD(3) [OF A] by metis
        then show False using c True by simp
      qed
      then obtain K where "K \<in> set (added S)" "si_value S v = VInst K" "ity K \<noteq> TVoid"
        using V True J unfolding value_ok_def by blast
      then show ?thesis using added [of K K] by simp
    next
      case False
      then obtain J' where J': "si_value S v = VInst J'" "iid J' = iid J" "ity J' = ity J"
        using V J unfolding value_ok_def by blast
      from v [unfolded added_operand_def] show ?thesis
      proof
        assume "operand_ok n (all_insts (old_blocks S)) v"
        then show ?thesis using old [OF _ J'(2,3)] J J'(1) by simp
      next
        assume "\<exists>J. v = VInst J \<and> (\<exists>K \<in> set (added S). iid K = iid J \<and> ity K = ity J \<and> ity K \<noteq> TVoid)"
        then show ?thesis using added J J' by auto
      qed
    qed
  qed
qed

lemma new_names_grow:
  "fst ` set (old_blocks S) \<subseteq> fst ` set (new_blocks S)" "renamed S ` (fst ` set (old_blocks S)) \<subseteq> fst ` set (new_blocks S)"
  by (auto simp: old_blocks_def new_blocks_def renamed_def image_Un image_image case_prod_unfold)

lemma block_ok_map: "site_ok cv n S \<Longrightarrow> block_ok (map (si_map S) Is) = block_ok Is"
  using site_okD(1) [of cv n S] phi_map [of cv n S]
  by (simp add: block_ok_def dropWhile_map map_butlast [symmetric] is_phi_def)

lemma site_rest_no_phi:
  assumes "function_ok inc n (old_blocks S)" "site_ok cv n S"
  shows "\<forall>I \<in> set (si_rest S). \<not> is_phi I"
proof -
  have ok: "block_ok (si_pre S @ si_inst S # si_rest S)" using assms(1) by (simp add: function_ok_def old_blocks_def)
  have "dropWhile is_phi (si_pre S @ si_inst S # si_rest S) = dropWhile is_phi (si_pre S) @ si_inst S # si_rest S"
    using site_no_phi(1) [OF assms(2)] by (induction "si_pre S") (auto simp: dropWhile_append3)
  then show ?thesis using ok by (simp add: block_ok_def)
qed

lemma new_blocks_ok:
  assumes fn: "function_ok inc n (old_blocks S)" and S: "site_ok cv n S" and A: "added_ok inc' n m S"
    and bb: "bb \<in> set (new_blocks S)"
  shows "block_ok (snd bb)"
proof -
  note a = added_okD(4-7) [OF A]
  have old: "block_ok (si_pre S @ si_inst S # si_rest S)" and others: "\<forall>bb \<in> set (si_before S) \<union> set (si_after S). block_ok (snd bb)"
    using fn by (simp_all add: function_ok_def old_blocks_def)
  have np: "\<not> is_phi (si_inst S)" using site_no_phi(1) [OF S] .
  have drop: "dropWhile is_phi (xs @ y # ys) = dropWhile is_phi xs @ y # ys" if "\<not> is_phi y" for xs y ys
    using that by (induction xs) auto
  obtain I0 Is0 where t: "si_test S = I0 # Is0" "\<not> is_phi I0" using site_okD(10) [OF S] by blast
  have pre: "\<forall>I \<in> set (dropWhile is_phi (si_pre S)). \<not> is_phi I" "\<forall>I \<in> set (si_pre S). \<not> is_term (iop I)"
    and rest: "\<forall>I \<in> set (si_rest S). \<not> is_phi I" "\<forall>I \<in> set (butlast (si_rest S)). \<not> is_term (iop I)"
    using old unfolding block_ok_def drop [OF np] by (auto simp: butlast_append split: if_splits)
  have "block_ok (si_pre S @ si_test S)"
    using a(1,2) pre unfolding block_ok_def t drop [OF t(2)] by (auto simp: butlast_append)
  moreover have "block_ok (si_head S @ si_rest S)"
  proof -
    have "dropWhile is_phi (si_head S @ si_rest S) = dropWhile is_phi (si_rest S)" using a(3) by (simp add: dropWhile_append)
    moreover have "\<forall>I \<in> set (si_head S). \<not> is_term (iop I)" using a(3) by (auto simp: is_phi_def is_term_def)
    ultimately show ?thesis using rest by (auto simp: block_ok_def butlast_append dest: set_dropWhileD in_set_butlastD)
  qed
  ultimately have "\<forall>p \<in> set (si_before S @ [(si_name S, si_pre S @ si_test S), (si_split S, si_head S @ si_rest S)] @ si_after S @ si_extra S).
      block_ok (snd p)" using others a(4) by (simp add: ball_Un)
  moreover obtain p where "p \<in> set (si_before S @ [(si_name S, si_pre S @ si_test S), (si_split S, si_head S @ si_rest S)] @ si_after S @ si_extra S)"
    "bb = (\<lambda>(b, Js). (b, map (si_map S) Js)) p" using bb unfolding new_blocks_def set_map by blast
  ultimately have "block_ok (snd p)" "snd bb = map (si_map S) (snd p)" by (blast, simp add: case_prod_unfold)
  then show ?thesis by (simp only: block_ok_map [OF S])
qed

theorem new_function_ok:
  assumes fn: "function_ok inc n (old_blocks S)" and S: "site_ok cv n S" and A: "added_ok inc' n m S" and V: "value_ok S n"
    and inc: "\<forall>I \<in> set (all_insts (old_blocks S)). is_phi I \<longrightarrow> inc' (iid I) = map (renamed S) (inc (iid I))"
  shows "function_ok inc' m (new_blocks S)"
proof -
  note sm = site_okD(1) [OF S]
  have "inst_ok inc' m (new_blocks S) I" if I: "I \<in> set (all_insts (new_blocks S))" for I
    using I
  proof (cases rule: new_inst_cases)
    case (1 I0)
    then have ok: "inst_ok inc n (old_blocks S) I0" using fn by (simp add: function_ok_def)
    then have "\<forall>v \<in> set (iops I0). operand_ok m (all_insts (new_blocks S)) (si_value S v)"
      using new_operand [OF fn S A V] by (simp add: inst_ok_def added_operand_def)
    moreover have "is_phi I \<Longrightarrow> set (inc' (iid I)) \<subseteq> fst ` set (new_blocks S)"
      using ok inc 1 sm new_names_grow(2) [of S] by (fastforce simp: inst_ok_def is_phi_def)
    ultimately show ?thesis using ok 1(1) sm new_names_grow(1) [of S] added_okD(1) [OF A] by (auto simp: inst_ok_def)
  next
    case (2 I0)
    then have a: "iid I0 < m" "\<forall>v \<in> set (iops I0). added_operand S n v" "set (targets_of (iop I0)) \<subseteq> fst ` set (new_blocks S)"
      "is_phi I0 \<longrightarrow> set (inc' (iid I0)) \<subseteq> fst ` set (new_blocks S)"
      using added_okD(3) [OF A] by blast+
    then show ?thesis using 2(1) sm new_operand [OF fn S A V] by (auto simp: inst_ok_def is_phi_def)
  qed
  moreover have "distinct (map fst (new_blocks S))" using distinct_new [OF S] fn by (simp add: function_ok_def)
  ultimately show ?thesis
    using distinct_new_ids [OF fn S A] new_blocks_ok [OF fn S A] by (simp add: function_ok_def)
qed

lemma new_entry_ok:
  assumes S: "site_ok cv n S" and A: "added_ok inc' n m S" and entry: "entry_ok (old_blocks S)"
  shows "entry_ok (new_blocks S)"
  using entry added_okD(4) [OF A] site_okD(1) [OF S]
  by (cases "si_before S") (auto simp: entry_ok_def old_blocks_def new_blocks_def is_phi_def split: prod.splits)

end
