(* ===== verification/Memory_Use_Malloc.thy ===== *)
theory Memory_Use_Malloc
  imports Memory_Use Split_Simulation
begin

text \<open>
  The rewritten \<open>main\<close> does what the old one does with another allocator: at a rewritten call of
  \<open>malloc\<close> the allocator takes the stack while there is room, and at a rewritten call of
  \<open>free\<close> it ignores what is on the stack.
\<close>

subsection \<open>The allocator\<close>

definition stack_or_heap :: "'s external \<Rightarrow> ty \<Rightarrow> (ty \<times> u64) list \<Rightarrow> 's \<Rightarrow> (u64 \<times> 's) result" where
  "stack_or_heap ext t vs s =
     rbind (ext (OpCall GetSPFnName) (TInt 64) [] s) (\<lambda>(sp, s).
       if sint STACK_DANGEROUS_REGION \<le> sint (sp - snd (hd vs))
       then ext (OpCall AllocaBytesFnName) (TPtr (TInt 8)) [hd vs, (TInt 64, 0)] s
       else ext (OpCall ''malloc'') t [hd vs] s)"

definition free_if_heap :: "'s external \<Rightarrow> (ty \<times> u64) list \<Rightarrow> 's \<Rightarrow> (u64 \<times> 's) result" where
  "free_if_heap ext vs s =
     (if sint STACK_BOUNDARY \<le> sint (snd (hd vs)) then ext (OpCall ''free'') TVoid [hd vs] s else Inr (0, s))"

definition guarded_step :: "'s external \<Rightarrow> nat list \<Rightarrow> nat list \<Rightarrow> 's stepper" where
  "guarded_step ext ms fs I vs s =
     (if iid I \<in> set ms then stack_or_heap ext (ity I) vs s
      else if iid I \<in> set fs then free_if_heap ext vs s
      else exec_op ext (iop I) (ity I) vs s)"

lemma sub_64: "compute Sub Size64 a b = Inr (a - b)"
proof -
  have "(word_of_int (take_bit 64 (uint a - uint b)) :: u64) = a - b"
    by (rule word_uint_eqI) (simp add: unsigned_of_int uint_word_ariths take_bit_eq_mod)
  then show ?thesis by (simp add: compute_cases is_div_op_def unsigned_of_def)
qed

lemma sge_64: "compute Sge Size64 a b = Inr (if sint b \<le> sint a then 1 else 0)"
  by (simp add: compute_cases is_div_op_def signed_of_def sint_uint)

subsection \<open>Replacing a value\<close>

lemma replace_value_inst: "replace_value c w (VInst J) = (if iid J = c then w else VInst (replace_uses c w J))"
  by (cases J) (simp add: replace_uses_def)

lemma replace_value_other: "(\<forall>J. v \<noteq> VInst J) \<Longrightarrow> replace_value c w v = v"
  by (cases v) auto

subsection \<open>A call of malloc\<close>

definition malloc_split :: "ir_block list \<Rightarrow> string \<Rightarrow> inst list \<Rightarrow> inst \<Rightarrow> inst list \<Rightarrow> ir_block list \<Rightarrow> nat \<Rightarrow>
    string \<Rightarrow> string \<Rightarrow> string \<Rightarrow> site" where
  "malloc_split xs bb pre CI rest ys n split_bb alloca_bb malloc_bb =
     (let size_v = hd (iops CI); phi = allocation_phi n CI size_v in
      \<lparr> si_before = xs, si_name = bb, si_pre = pre, si_inst = CI, si_rest = rest, si_after = ys, si_split = split_bb,
        si_test = test_stack n size_v alloca_bb malloc_bb, si_head = [phi],
        si_extra = [(alloca_bb, [by_alloca n size_v, branch (n + 5) [split_bb] []]),
                    (malloc_bb, [by_malloc n (ity CI) size_v, branch (n + 7) [split_bb] []])],
        si_map = replace_uses (iid CI) (VInst phi), si_value = replace_value (iid CI) (VInst phi),
        si_ren = (\<lambda>i. if i = iid CI then n + 8 else i), si_dead = {} \<rparr>)"

definition malloc_call :: "inst \<Rightarrow> bool" where
  "malloc_call I \<longleftrightarrow> iop I = OpCall ''malloc'' \<and> length (iops I) = 1 \<and> ity I \<noteq> TVoid"

lemmas new_malloc_code = test_stack_def by_alloca_def by_malloc_def allocation_phi_def branch_def Let_def

text \<open>What is true of the split of a well-formed function with fresh names.\<close>

definition malloc_setting :: "(nat \<Rightarrow> string list) \<Rightarrow> nat \<Rightarrow> ir_block list \<Rightarrow> string \<Rightarrow> inst list \<Rightarrow> inst \<Rightarrow> inst list \<Rightarrow> ir_block list \<Rightarrow>
    string \<Rightarrow> string \<Rightarrow> string \<Rightarrow> bool" where
  "malloc_setting inc n xs bb pre CI rest ys split_bb alloca_bb malloc_bb \<longleftrightarrow>
     function_ok inc n (xs @ (bb, pre @ CI # rest) # ys) \<and> malloc_call CI \<and> distinct [split_bb, alloca_bb, malloc_bb] \<and>
     {split_bb, alloca_bb, malloc_bb} \<inter> fst ` set (xs @ (bb, pre @ CI # rest) # ys) = {}"

lemma malloc_old: "old_blocks (malloc_split xs bb pre CI rest ys n sb ab mb) = xs @ (bb, pre @ CI # rest) # ys"
  by (simp add: old_blocks_def malloc_split_def Let_def)

lemma malloc_site_ok:
  assumes "malloc_setting inc n xs bb pre CI rest ys sb ab mb"
  shows "site_ok cv n (malloc_split xs bb pre CI rest ys n sb ab mb)"
proof -
  let ?old = "xs @ (bb, pre @ CI # rest) # ys" and ?phi = "allocation_phi n CI (hd (iops CI))"
  have fn: "function_ok inc n ?old" and m: "malloc_call CI" and d: "distinct [sb, ab, mb]" "{sb, ab, mb} \<inter> fst ` set ?old = {}"
    using assms by (simp_all add: malloc_setting_def)
  have v: "val_ty (replace_value (iid CI) (VInst ?phi) v) = val_ty v \<and>
      (\<forall>env. operand cv env (replace_value (iid CI) (VInst ?phi) v) =
        (case v of VInst J \<Rightarrow> env (if iid J = iid CI then n + 8 else iid J) | _ \<Rightarrow> operand cv env v))"
    if "operand_ok n (all_insts ?old) v" for v
  proof (cases "\<exists>J. v = VInst J")
    case True
    then obtain J where J: "v = VInst J" by blast
    have "iid J = iid CI \<Longrightarrow> ity CI = ity J" using that J by (auto simp: operand_ok_def)
    then show ?thesis unfolding J replace_value_inst by (simp add: allocation_phi_def)
  next
    case False
    then show ?thesis by (subst (1 2) replace_value_other) (auto split: val_ir.splits)
  qed
  have c: "iid CI < n" using fn by (simp add: function_ok_def inst_ok_def)
  show ?thesis
    using v d c m unfolding site_ok_def malloc_old unfolding malloc_split_def Let_def site.simps
    by (auto simp: test_stack_def malloc_call_def is_phi_def Let_def)
qed

lemma malloc_value_ok:
  assumes "malloc_setting inc n xs bb pre CI rest ys sb ab mb"
  shows "value_ok (malloc_split xs bb pre CI rest ys n sb ab mb) n"
proof -
  have "\<exists>J'. VInst (replace_uses c w J) = VInst J' \<and> iid J' = iid J \<and> ity J' = ity J" for c w J
    by (intro exI [of _ "replace_uses c w J"]) simp
  moreover have "ity CI \<noteq> TVoid" using assms by (simp add: malloc_setting_def malloc_call_def)
  ultimately show ?thesis
    unfolding value_ok_def malloc_old
    by (auto simp: malloc_split_def Let_def replace_value_inst replace_value_other added_def allocation_phi_def)
qed

lemma malloc_added_ok:
  assumes set: "malloc_setting inc n xs bb pre CI rest ys sb ab mb" and inc': "inc' (n + 8) = [ab, mb]"
  shows "added_ok inc' n (n + 9) (malloc_split xs bb pre CI rest ys n sb ab mb)"
proof -
  let ?S = "malloc_split xs bb pre CI rest ys n sb ab mb" and ?v = "hd (iops CI)"
  have fn: "function_ok inc n (xs @ (bb, pre @ CI # rest) # ys)" and m: "malloc_call CI" using set by (simp_all add: malloc_setting_def)
  have v: "operand_ok n (all_insts (old_blocks ?S)) ?v"
  proof -
    have "inst_ok inc n (xs @ (bb, pre @ CI # rest) # ys) CI" using fn by (simp add: function_ok_def)
    moreover have "?v \<in> set (iops CI)" using m by (cases "iops CI") (auto simp: malloc_call_def)
    ultimately show ?thesis unfolding malloc_old by (simp add: inst_ok_def)
  qed
  have names: "{sb, ab, mb} \<subseteq> fst ` set (new_blocks ?S)" by (simp add: new_blocks_def malloc_split_def Let_def)
  have added: "added ?S = test_stack n ?v ab mb @ [allocation_phi n CI ?v, by_alloca n ?v, branch (n + 5) [sb] [], by_malloc n (ity CI) ?v, branch (n + 7) [sb] []]"
    by (simp add: added_def malloc_split_def Let_def)
  have ops: "added_operand ?S n ?v" "\<And>w c. added_operand ?S n (VInt w c)"
    using v by (simp_all add: added_operand_def operand_ok_def)
  have new: "added_operand ?S n (VInst J)" if "J \<in> set (added ?S)" "ity J \<noteq> TVoid" for J
    using that by (auto simp: added_operand_def)
  have refs: "added_operand ?S n (VInst (Inst n (OpCall GetSPFnName) ''cur.sp'' (TInt 64) []))"
    "\<And>u. u = Inst (n + 1) (OpBin Sub) ''lookahead.sp'' (TInt 64) [VInst (Inst n (OpCall GetSPFnName) ''cur.sp'' (TInt 64) []), ?v] \<Longrightarrow>
       added_operand ?S n (VInst u) \<and>
       added_operand ?S n (VInst (Inst (n + 2) (OpICmp Sge) ''is.safe.sp'' (TInt 1) [VInst u, VInt 64 STACK_DANGEROUS_REGION]))"
    "added_operand ?S n (VInst (by_alloca n ?v))" "added_operand ?S n (VInst (by_malloc n (ity CI) ?v))"
    using m by (auto intro!: new simp: added test_stack_def by_alloca_def by_malloc_def Let_def malloc_call_def)
  have "\<forall>I \<in> set (added ?S). n \<le> iid I \<and> iid I < n + 9 \<and> (\<forall>v \<in> set (iops I). added_operand ?S n v) \<and>
      set (targets_of (iop I)) \<subseteq> fst ` set (new_blocks ?S) \<and> (is_phi I \<longrightarrow> set (inc' (iid I)) \<subseteq> fst ` set (new_blocks ?S))"
    using refs(1) refs(2) [OF refl] refs(3,4) ops names inc' unfolding added
    by (simp add: new_malloc_code targets_of_def is_phi_def)
  moreover have "distinct (map iid (added ?S))" unfolding added by (simp add: new_malloc_code)
  ultimately show ?thesis
    unfolding added_ok_def by (simp add: malloc_split_def new_malloc_code is_phi_def is_term_def block_ok_def)
qed

definition malloc_incoming :: "(nat \<Rightarrow> string list) \<Rightarrow> nat \<Rightarrow> string \<Rightarrow> string \<Rightarrow> string \<Rightarrow> string \<Rightarrow> nat \<Rightarrow> string list" where
  "malloc_incoming inc n bb sb ab mb = (rename_incoming bb sb inc)(n + 8 := [ab, mb])"

lemma malloc_same_elsewhere:
  assumes "malloc_setting inc n xs bb pre CI rest ys sb ab mb"
  shows "same_elsewhere (guarded_step ext (iid CI # ms) fs) (guarded_step ext ms fs) inc (malloc_incoming inc n bb sb ab mb)
     (malloc_split xs bb pre CI rest ys n sb ab mb)"
proof -
  let ?S = "malloc_split xs bb pre CI rest ys n sb ab mb"
  have fn: "function_ok inc n (old_blocks ?S)" using assms by (simp add: malloc_setting_def malloc_old)
  have S: "si_inst ?S = CI" "si_map ?S = replace_uses (iid CI) (VInst (allocation_phi n CI (hd (iops CI))))" "si_name ?S = bb" "si_split ?S = sb"
    by (simp_all add: malloc_split_def Let_def)
  show ?thesis
    unfolding same_elsewhere_def
  proof (intro ballI conjI impI)
    fix I assume I: "I \<in> set (all_insts (old_blocks ?S))"
    show "I \<noteq> si_inst ?S \<Longrightarrow> guarded_step ext ms fs (si_map ?S I) = guarded_step ext (iid CI # ms) fs I"
      using distinct_insts [OF fn I site_in_old] by (intro ext) (auto simp: guarded_step_def S)
    have "iid I \<noteq> n + 8" using fn I by (auto simp: function_ok_def inst_ok_def)
    then show "malloc_incoming inc n bb sb ab mb (iid I) = map (renamed ?S) (inc (iid I))"
      by (simp add: malloc_incoming_def rename_incoming_def renamed_def [abs_def] S)
  qed
qed

text \<open>Through a block with one call that only jumps on to the split block.\<close>

lemma via_block:
  assumes t: "map_of bbs t = Some [I, B]" "iop I = OpCall f" "iop B = OpBr [sb]"
    and sb: "map_of bbs sb = Some (P # R)" "is_phi P" "\<forall>I \<in> set R. \<not> is_phi I"
    and v: "map_of (zip (inc (iid P)) (iops P)) t = Some (VInst K)" "iid K = iid I"
  shows "enter_block st cv inc bbs (Suc (Suc g)) b t e s =
    (case st I (map (typed_operand cv e) (iops I)) s of
       Inl er \<Rightarrow> Failed er | Inr (x, s') \<Rightarrow> run st cv inc bbs g sb R (e(iid I := x, iid P := x)) s')"
proof -
  have np: "\<not> is_phi I" "\<not> is_phi B" using t by (simp_all add: is_phi_def)
  have pl: "control_of (iop I) vs = Plain" "control_of (iop B) vs = Jump sb" for vs using t by (simp_all add: control_of_def)
  have R: "takeWhile is_phi R = []" "dropWhile is_phi R = R" using sb(3) by (cases R; simp)+
  have "enter_block st cv inc bbs (Suc (Suc g)) b t e s = run st cv inc bbs (Suc g) t [I, B] e s"
    using np by (simp add: enter_block_def t)
  also have "\<dots> = (case st I (map (typed_operand cv e) (iops I)) s of
       Inl er \<Rightarrow> Failed er | Inr (x, s') \<Rightarrow> enter_block st cv inc bbs (Suc g) t sb (e(iid I := x)) s')"
    by (simp add: run_Plain [OF pl(1)] run_Jump [OF pl(2)] split: sum.split)
  also have "\<dots> = (case st I (map (typed_operand cv e) (iops I)) s of
       Inl er \<Rightarrow> Failed er | Inr (x, s') \<Rightarrow> run st cv inc bbs g sb R (e(iid I := x, iid P := x)) s')"
    by (simp add: enter_block_def sb R v split: sum.split)
  finally show ?thesis .
qed

lemma agree_fresh:
  assumes "agree S n env env'" "n \<le> k" "\<forall>i < n. si_ren S i \<noteq> k"
  shows "agree S n env (env'(k := x))"
  using assms by (simp add: agree_def)

lemma malloc_sel:
  fixes xs bb pre CI rest ys n sb ab mb
  defines "S \<equiv> malloc_split xs bb pre CI rest ys n sb ab mb"
  shows "si_inst S = CI" "si_map S = replace_uses (iid CI) (VInst (allocation_phi n CI (hd (iops CI))))"
    "si_value S = replace_value (iid CI) (VInst (allocation_phi n CI (hd (iops CI))))"
    "si_name S = bb" "si_split S = sb" "si_rest S = rest" "si_test S = test_stack n (hd (iops CI)) ab mb" "si_dead S = {}"
    "si_ren S = (\<lambda>i. if i = iid CI then n + 8 else i)"
  by (simp_all add: S_def malloc_split_def Let_def)

lemma malloc_mapped:
  fixes xs bb pre CI rest ys n sb ab mb
  defines "S \<equiv> malloc_split xs bb pre CI rest ys n sb ab mb"
  shows "iid (si_map S I) = iid I" "iop (si_map S I) = iop I" "ity (si_map S I) = ity I" "iops (si_map S I) = map (si_value S) (iops I)"
  by (simp_all add: S_def malloc_sel)

lemma malloc_facts:
  assumes set: "malloc_setting inc n xs bb pre CI rest ys sb ab mb"
  defines "S \<equiv> malloc_split xs bb pre CI rest ys n sb ab mb"
  shows "function_ok inc n (old_blocks S)" "site_ok cv n S" "iid CI < n" "iops CI = [hd (iops CI)]"
    and "operand_ok n (all_insts (old_blocks S)) (hd (iops CI))" "\<forall>I \<in> set rest. \<not> is_phi I"
proof -
  show fn: "function_ok inc n (old_blocks S)" using set by (simp add: malloc_setting_def malloc_old S_def)
  show ok: "site_ok cv n S" for cv unfolding S_def by (rule malloc_site_ok [OF set])
  have m: "malloc_call CI" using set by (simp add: malloc_setting_def)
  have CI: "inst_ok inc n (old_blocks S) CI" using fn site_in_old [of S] by (simp add: function_ok_def S_def malloc_sel)
  then show "iid CI < n" by (simp add: inst_ok_def)
  show ops: "iops CI = [hd (iops CI)]" using m by (cases "iops CI") (auto simp: malloc_call_def)
  then show "operand_ok n (all_insts (old_blocks S)) (hd (iops CI))" using CI by (metis inst_ok_def list.set_intros(1))
  show "\<forall>I \<in> set rest. \<not> is_phi I" using site_rest_no_phi [OF fn ok] by (simp only: S_def malloc_sel)
qed

text \<open>The new code refers to its own instructions, and its steps are the plain ones.\<close>

lemma malloc_refs:
  assumes set: "malloc_setting inc n xs bb pre CI rest ys sb ab mb" and K: "n \<le> iid K"
  defines "S \<equiv> malloc_split xs bb pre CI rest ys n sb ab mb"
  shows "typed_operand cv e (si_value S (VInst K)) = (ity K, e (iid K))" "operand cv e (si_value S (VInst K)) = e (iid K)"
    and "si_value S (VInst K) = VInst (si_map S K)"
  using K malloc_facts(3) [OF set] by (simp_all add: S_def malloc_sel replace_value_inst typed_operand_def)

lemma new_code_step:
  assumes "\<forall>i \<in> set ms \<union> set fs. i < n" "n \<le> iid I"
  shows "guarded_step ext ms fs I vs s = exec_op ext (iop I) (ity I) vs s"
proof -
  have "iid I \<notin> set ms" "iid I \<notin> set fs" using assms by (meson UnI1 UnI2 leD)+
  then show ?thesis by (simp add: guarded_step_def)
qed

text \<open>The block the test jumps to, and the call in it.\<close>

definition malloc_target :: "string \<Rightarrow> string \<Rightarrow> u64 \<Rightarrow> u64 \<Rightarrow> string" where
  "malloc_target ab mb sp z = (if sint STACK_DANGEROUS_REGION \<le> sint (sp - z) then ab else mb)"

definition malloc_new_call :: "nat \<Rightarrow> inst \<Rightarrow> u64 \<Rightarrow> u64 \<Rightarrow> inst" where
  "malloc_new_call n CI sp z =
     (if sint STACK_DANGEROUS_REGION \<le> sint (sp - z) then by_alloca n (hd (iops CI)) else by_malloc n (ity CI) (hd (iops CI)))"

lemma malloc_jump:
  fixes ext :: "'s external"
  assumes set: "malloc_setting inc n xs bb pre CI rest ys sb ab mb" and sites: "\<forall>i \<in> set ms \<union> set fs. i < n"
  defines "S \<equiv> malloc_split xs bb pre CI rest ys n sb ab mb" and "inc' \<equiv> malloc_incoming inc n bb sb ab mb" and "st' \<equiv> guarded_step ext ms fs"
  shows "enter_block st' cv inc' (new_blocks S) (Suc (Suc g)) b (malloc_target ab mb sp z) e s =
      (case exec_op ext (iop (malloc_new_call n CI sp z)) (ity (malloc_new_call n CI sp z))
              (map (typed_operand cv e) (iops (si_map S (malloc_new_call n CI sp z)))) s of
         Inl er \<Rightarrow> Failed er
       | Inr (x, s') \<Rightarrow> run st' cv inc' (new_blocks S) g sb (map (si_map S) rest) (e(iid (malloc_new_call n CI sp z) := x, n + 8 := x)) s')"
proof -
  let ?v = "hd (iops CI)" and ?phi = "allocation_phi n CI (hd (iops CI))"
  note mapped = malloc_mapped [of xs bb pre CI rest ys n sb ab mb, folded S_def]
  have d: "distinct (map fst (old_blocks S))" using malloc_facts(1) [OF set, folded S_def] by (simp add: function_ok_def)
  have look: "map_of (new_blocks S) ab = Some (map (si_map S) [by_alloca n ?v, branch (n + 5) [sb] []])"
    "map_of (new_blocks S) mb = Some (map (si_map S) [by_malloc n (ity CI) ?v, branch (n + 7) [sb] []])"
    "map_of (new_blocks S) sb = Some (map (si_map S) (?phi # rest))"
    by (intro map_of_new_blocks [OF malloc_facts(2) [OF set, folded S_def] d], simp add: S_def malloc_split_def Let_def)+
  have rest': "\<forall>I \<in> set (map (si_map S) rest). \<not> is_phi I" using malloc_facts(6) [OF set] by (simp add: is_phi_def mapped)
  have phi: "inc' (iid (si_map S ?phi)) = [ab, mb]" "is_phi (si_map S ?phi)"
    by (simp_all add: mapped inc'_def malloc_incoming_def allocation_phi_def is_phi_def)
  have ph: "iops (si_map S ?phi) = [VInst (si_map S (by_alloca n ?v)), VInst (si_map S (by_malloc n (ity CI) ?v))]"
    using malloc_refs(3) [OF set, of "by_alloca n ?v", folded S_def] malloc_refs(3) [OF set, of "by_malloc n (ity CI) ?v", folded S_def]
    by (simp add: mapped) (simp add: allocation_phi_def by_alloca_def by_malloc_def)
  have pid: "iid ?phi = n + 8" by (simp add: allocation_phi_def)
  have op: "iop (si_map S (by_alloca n ?v)) = OpCall AllocaBytesFnName" "iop (si_map S (by_malloc n (ity CI) ?v)) = OpCall ''malloc''"
    "iop (si_map S (branch k [sb] [])) = OpBr [sb]" for k
    by (simp_all add: mapped by_alloca_def by_malloc_def branch_def)
  have ge: "n \<le> iid (si_map S (by_alloca n ?v))" "n \<le> iid (si_map S (by_malloc n (ity CI) ?v))" by (simp_all add: mapped by_alloca_def by_malloc_def)
  have dn: "ab \<noteq> mb" using set by (simp add: malloc_setting_def)
  have v1: "map_of (zip (inc' (iid (si_map S ?phi))) (iops (si_map S ?phi))) ab = Some (VInst (si_map S (by_alloca n ?v)))"
    and v2: "map_of (zip (inc' (iid (si_map S ?phi))) (iops (si_map S ?phi))) mb = Some (VInst (si_map S (by_malloc n (ity CI) ?v)))"
    using dn unfolding phi(1) ph by simp_all
  note via1 = via_block [where inc = inc' and st = st' and cv = cv, OF look(1) [unfolded list.map] op(1,3) look(3) [unfolded list.map] phi(2) rest' v1 refl]
    and via2 = via_block [where inc = inc' and st = st' and cv = cv, OF look(2) [unfolded list.map] op(2,3) look(3) [unfolded list.map] phi(2) rest' v2 refl]
  note step = new_code_step [OF sites, where ext = ext, folded st'_def]
  show ?thesis
  proof (cases "sint STACK_DANGEROUS_REGION \<le> sint (sp - z)")
    case True
    then have t: "malloc_target ab mb sp z = ab" "malloc_new_call n CI sp z = by_alloca n ?v" by (simp_all add: malloc_target_def malloc_new_call_def)
    show ?thesis unfolding t using via1 [of g b e s] unfolding step [OF ge(1)] mapped(1-3) pid .
  next
    case False
    then have t: "malloc_target ab mb sp z = mb" "malloc_new_call n CI sp z = by_malloc n (ity CI) ?v" by (simp_all add: malloc_target_def malloc_new_call_def)
    show ?thesis unfolding t using via2 [of g b e s] unfolding step [OF ge(2)] mapped(1-3) pid .
  qed
qed

text \<open>The test at the end of the block.\<close>

lemma malloc_test:
  fixes ext :: "'s external"
  assumes set: "malloc_setting inc n xs bb pre CI rest ys sb ab mb" and sites: "\<forall>i \<in> set ms \<union> set fs. i < n"
  defines "S \<equiv> malloc_split xs bb pre CI rest ys n sb ab mb" and "st' \<equiv> guarded_step ext ms fs"
  assumes ag: "agree S n env env'" and z: "z = operand cv env (hd (iops CI))"
  shows "run st' cv inc' bbs f b (map (si_map S) (si_test S)) env' s =
      (case ext (OpCall GetSPFnName) (TInt 64) [] s of
         Inl er \<Rightarrow> Failed er
       | Inr (sp, s1) \<Rightarrow> enter_block st' cv inc' bbs f b (malloc_target ab mb sp z)
           (env'(n := sp, n + 1 := sp - z, n + 2 := if sint STACK_DANGEROUS_REGION \<le> sint (sp - z) then 1 else 0)) s1)"
proof -
  let ?v = "hd (iops CI)"
  note mapped = malloc_mapped [of xs bb pre CI rest ys n sb ab mb, folded S_def] and ref = malloc_refs(1,2) [OF set, folded S_def]
  note step = new_code_step [OF sites, where ext = ext, folded st'_def]
  define sp_i where "sp_i = Inst n (OpCall GetSPFnName) ''cur.sp'' (TInt 64) []"
  define sub_i where "sub_i = Inst (n + 1) (OpBin Sub) ''lookahead.sp'' (TInt 64) [VInst sp_i, ?v]"
  define cmp_i where "cmp_i = Inst (n + 2) (OpICmp Sge) ''is.safe.sp'' (TInt 1) [VInst sub_i, VInt 64 STACK_DANGEROUS_REGION]"
  define br_i where "br_i = branch (n + 3) [ab, mb] [VInst cmp_i]"
  have t: "si_test S = [sp_i, sub_i, cmp_i, br_i]"
    by (simp add: S_def malloc_sel test_stack_def sp_i_def sub_i_def cmp_i_def br_i_def Let_def)
  have iid: "iid sp_i = n" "iid sub_i = n + 1" "iid cmp_i = n + 2" "n \<le> iid (si_map S sp_i)" "n \<le> iid (si_map S sub_i)" "n \<le> iid (si_map S cmp_i)" "n \<le> iid sp_i" "n \<le> iid sub_i" "n \<le> iid cmp_i"
    by (simp_all add: mapped sp_i_def sub_i_def cmp_i_def)
  have opc: "iop sp_i = OpCall GetSPFnName" "iop sub_i = OpBin Sub" "iop cmp_i = OpICmp Sge" "iop br_i = OpBr [ab, mb]"
    by (simp_all add: sp_i_def sub_i_def cmp_i_def br_i_def branch_def)
  have ty: "ity sp_i = TInt 64" "ity sub_i = TInt 64" "ity cmp_i = TInt 1"
    by (simp_all add: sp_i_def sub_i_def cmp_i_def)
  have arg: "iops sp_i = []" "iops sub_i = [VInst sp_i, ?v]" "iops cmp_i = [VInst sub_i, VInt 64 STACK_DANGEROUS_REGION]" "iops br_i = [VInst cmp_i]"
    by (simp_all add: sp_i_def sub_i_def cmp_i_def br_i_def branch_def)
  have pl: "control_of (iop (si_map S sp_i)) vs = Plain" "control_of (iop (si_map S sub_i)) vs = Plain" "control_of (iop (si_map S cmp_i)) vs = Plain" for vs
    by (simp_all add: mapped opc control_of_def)
  have size_v: "typed_operand cv (env'(n := sp)) (si_value S ?v) = (val_ty ?v, z)" for sp
  proof -
    have "agree S n env (env'(n := sp))" using malloc_facts(3) [OF set] by (intro agree_fresh [OF ag]) (auto simp: S_def malloc_sel)
    then show ?thesis using agree_operand(2) [OF malloc_facts(2) [OF set, folded S_def] _ malloc_facts(5) [OF set, folded S_def]] by (simp add: typed_operand_def z)
  qed
  have w: "size_of_bits 64 = Size64" by (simp add: size_of_bits_def)
  have op1: "exec_op ext (OpBin Sub) (TInt 64) [(TInt 64, sp), (val_ty ?v, z)] s = Inr (sp - z, s)" for sp s
    by (simp add: exec_op_def w sub_64)
  have op2: "exec_op ext (OpICmp Sge) (TInt 1) [(TInt 64, d), (TInt 64, STACK_DANGEROUS_REGION)] s =
      Inr (if sint STACK_DANGEROUS_REGION \<le> sint d then 1 else 0, s)" for d s
    by (simp add: exec_op_def w sge_64)
  have jmp: "run st' cv inc' bbs f b [si_map S br_i] e s = enter_block st' cv inc' bbs f b (if e (n + 2) = 0 then mb else ab) e s" for e s
    by (rule run_Jump) (simp add: mapped opc arg ref(2) iid control_of_def)
  have lit': "typed_operand cv e (si_value S (VInt 64 x)) = (TInt 64, x)" for e x by (simp add: S_def malloc_sel typed_operand_def)
  have cmp_run: "run st' cv inc' bbs f b [si_map S cmp_i, si_map S br_i] e s =
      enter_block st' cv inc' bbs f b (if sint STACK_DANGEROUS_REGION \<le> sint (e (n + 1)) then ab else mb)
        (e(n + 2 := if sint STACK_DANGEROUS_REGION \<le> sint (e (n + 1)) then 1 else 0)) s" for e s
    unfolding run_Plain [OF pl(3)] step [OF iid(6)] by (simp add: mapped opc ty arg ref iid lit' op2 [simplified] jmp)
  have sub_run: "run st' cv inc' bbs f b [si_map S sub_i, si_map S cmp_i, si_map S br_i] (env'(n := sp)) s =
      enter_block st' cv inc' bbs f b (malloc_target ab mb sp z)
        (env'(n := sp, n + 1 := sp - z, n + 2 := if sint STACK_DANGEROUS_REGION \<le> sint (sp - z) then 1 else 0)) s" for sp s
    unfolding run_Plain [OF pl(2)] step [OF iid(5)] by (simp add: mapped opc ty arg ref iid size_v op1 cmp_run malloc_target_def)
  show ?thesis
    unfolding t list.map run_Plain [OF pl(1)] step [OF iid(4)]
    by (simp add: mapped opc ty arg iid sub_run exec_op_def split: sum.split)
qed

lemma malloc_simulated:
  assumes set: "malloc_setting inc n xs bb pre CI rest ys sb ab mb" and sites: "\<forall>i \<in> set ms \<union> set fs. i < n"
  shows "site_simulated (guarded_step ext (iid CI # ms) fs) (guarded_step ext ms fs) cv (malloc_incoming inc n bb sb ab mb) n
     (malloc_split xs bb pre CI rest ys n sb ab mb)"
proof -
  define S where "S = malloc_split xs bb pre CI rest ys n sb ab mb"
  define inc' where "inc' = malloc_incoming inc n bb sb ab mb"
  define st' where "st' = guarded_step ext ms fs"
  let ?v = "hd (iops CI)" and ?call = "malloc_new_call n CI"
  note fact = malloc_facts [OF set, folded S_def] and sel = malloc_sel [of xs bb pre CI rest ys n sb ab mb, folded S_def]
    and mapped = malloc_mapped [of xs bb pre CI rest ys n sb ab mb, folded S_def]
  note c = fact(3) and jump = malloc_jump [OF set sites, where ext = ext, folded S_def inc'_def st'_def]
  have single: "map h (iops CI) = [h ?v]" for h :: "val_ir \<Rightarrow> ty \<times> u64" by (subst fact(4)) simp
  have "site_simulated (guarded_step ext (iid CI # ms) fs) st' cv inc' n S"
    unfolding site_simulated_def
  proof (intro allI impI)
    fix env env' s
    assume ag: "agree S n env env'"
    define z where "z = operand cv env ?v"
    have old: "guarded_step ext (iid CI # ms) fs (si_inst S) (map (typed_operand cv env) (iops (si_inst S))) s =
        stack_or_heap ext (ity CI) [(val_ty ?v, z)] s"
      unfolding sel(1) single by (simp add: guarded_step_def typed_operand_def z_def)
    note new = malloc_test [OF set sites, where ext = ext, folded S_def st'_def, OF ag z_def]
    show "case guarded_step ext (iid CI # ms) fs (si_inst S) (map (typed_operand cv env) (iops (si_inst S))) s of
        Inl e \<Rightarrow> \<forall>f. \<exists>g \<ge> f. run st' cv inc' (new_blocks S) g (si_name S) (map (si_map S) (si_test S)) env' s = Failed e
      | Inr (x, s2) \<Rightarrow> \<exists>env2 k. agree S n (env(iid (si_inst S) := x)) env2 \<and>
          (\<forall>g. run st' cv inc' (new_blocks S) (g + k) (si_name S) (map (si_map S) (si_test S)) env' s =
               run st' cv inc' (new_blocks S) g (si_split S) (map (si_map S) (si_rest S)) env2 s2)"
    proof (cases "ext (OpCall GetSPFnName) (TInt 64) [] s")
      case (Inl er)
      then show ?thesis unfolding old sel(4) using new by (auto simp: stack_or_heap_def)
    next
      case (Inr r)
      obtain sp s1 where r: "r = (sp, s1)" by (cases r)
      define e3 where "e3 = env'(n := sp, n + 1 := sp - z, n + 2 := if sint STACK_DANGEROUS_REGION \<le> sint (sp - z) then 1 else 0)"
      have ag3: "agree S n env e3"
        unfolding e3_def using c by (intro agree_fresh ag) (auto simp: sel)
      have size_v: "typed_operand cv e3 (si_value S ?v) = (val_ty ?v, z)"
        using agree_operand(2) [OF fact(2) ag3 fact(5)] by (simp add: typed_operand_def z_def)
      define result where "result = exec_op ext (iop (?call sp z)) (ity (?call sp z)) (map (typed_operand cv e3) (iops (si_map S (?call sp z)))) s1"
      have res: "stack_or_heap ext (ity CI) [(val_ty ?v, z)] s = result"
        using size_v Inr r
        by (simp add: stack_or_heap_def result_def malloc_new_call_def mapped sel(3) by_alloca_def by_malloc_def exec_op_def typed_operand_def)
      have run2: "run st' cv inc' (new_blocks S) (Suc (Suc g)) bb (map (si_map S) (si_test S)) env' s =
          (case result of
             Inl er \<Rightarrow> Failed er
           | Inr (x, s') \<Rightarrow> run st' cv inc' (new_blocks S) g sb (map (si_map S) rest) (e3(iid (?call sp z) := x, n + 8 := x)) s')" for g
        using new [of inc' "new_blocks S" "Suc (Suc g)" bb s] Inr r jump [of cv g bb sp z e3 s1] by (simp add: e3_def result_def)
      show ?thesis
      proof (cases result)
        case (Inl er)
        have "\<exists>g \<ge> f. run st' cv inc' (new_blocks S) g bb (map (si_map S) (si_test S)) env' s = Failed er" for f
          using run2 [of f] Inl by (intro exI [of _ "Suc (Suc f)"]) simp
        then show ?thesis unfolding old res sel(4) Inl by simp
      next
        case (Inr q)
        obtain x s2 where q: "q = (x, s2)" by (cases q)
        have "iid (?call sp z) \<in> {n + 4, n + 6}" by (simp add: malloc_new_call_def by_alloca_def by_malloc_def)
        then have "agree S n (env(iid CI := x)) (e3(iid (?call sp z) := x, n + 8 := x))"
          using ag3 c by (auto simp: agree_def sel)
        moreover have "run st' cv inc' (new_blocks S) (g + 2) bb (map (si_map S) (si_test S)) env' s =
            run st' cv inc' (new_blocks S) g sb (map (si_map S) rest) (e3(iid (?call sp z) := x, n + 8 := x)) s2" for g
          using run2 [of g] Inr q by simp
        ultimately show ?thesis unfolding old res unfolding sel(1,4-6) Inr q sum.case prod.case by blast
      qed
    qed
  qed
  then show ?thesis by (simp only: S_def st'_def inc'_def)
qed

end
