(* ===== verification/Memory_Use_Free.thy ===== *)
theory Memory_Use_Free
  imports Memory_Use_Malloc
begin

text \<open>The split at a call of \<open>free\<close>: the test of the address, and the call in a block of its own.\<close>

definition free_split :: "ir_block list \<Rightarrow> string \<Rightarrow> inst list \<Rightarrow> inst \<Rightarrow> inst list \<Rightarrow> ir_block list \<Rightarrow> nat \<Rightarrow> string \<Rightarrow> string \<Rightarrow> site" where
  "free_split xs bb pre CI rest ys n split_bb free_bb =
     \<lparr> si_before = xs, si_name = bb, si_pre = pre, si_inst = CI, si_rest = rest, si_after = ys, si_split = split_bb,
       si_test = test_pointer n (hd (iops CI)) free_bb split_bb, si_head = [],
       si_extra = [(free_bb, [guarded_free n (hd (iops CI)), branch (n + 4) [split_bb] []])],
       si_map = (\<lambda>I. I), si_value = (\<lambda>v. v), si_ren = (\<lambda>i. i), si_dead = {iid CI} \<rparr>"

definition free_call :: "inst \<Rightarrow> bool" where
  "free_call I \<longleftrightarrow> iop I = OpCall ''free'' \<and> length (iops I) = 1 \<and> ity I = TVoid"

definition free_setting :: "(nat \<Rightarrow> string list) \<Rightarrow> nat \<Rightarrow> ir_block list \<Rightarrow> string \<Rightarrow> inst list \<Rightarrow> inst \<Rightarrow> inst list \<Rightarrow> ir_block list \<Rightarrow>
    string \<Rightarrow> string \<Rightarrow> bool" where
  "free_setting inc n xs bb pre CI rest ys split_bb free_bb \<longleftrightarrow>
     function_ok inc n (xs @ (bb, pre @ CI # rest) # ys) \<and> free_call CI \<and> split_bb \<noteq> free_bb \<and>
     {split_bb, free_bb} \<inter> fst ` set (xs @ (bb, pre @ CI # rest) # ys) = {}"

lemma free_old: "old_blocks (free_split xs bb pre CI rest ys n sb fb) = xs @ (bb, pre @ CI # rest) # ys"
  by (simp add: old_blocks_def free_split_def)

lemma free_site_ok:
  assumes "free_setting inc n xs bb pre CI rest ys sb fb"
  shows "site_ok cv n (free_split xs bb pre CI rest ys n sb fb)"
proof -
  have "operand cv env v = (case v of VInst J \<Rightarrow> env (iid J) | _ \<Rightarrow> operand cv env v)" for env v by (cases v) simp_all
  then show ?thesis
    using assms unfolding site_ok_def free_old free_setting_def unfolding free_split_def site.simps
    by (auto simp: test_pointer_def free_call_def is_phi_def Let_def)
qed

lemma free_value_ok:
  assumes "free_setting inc n xs bb pre CI rest ys sb fb"
  shows "value_ok (free_split xs bb pre CI rest ys n sb fb) n"
proof -
  have "ity CI = TVoid" using assms by (simp add: free_setting_def free_call_def)
  then have "\<not> operand_ok n (all_insts (xs @ (bb, pre @ CI # rest) # ys)) (VInst J)" if "iid J = iid CI" for J
    using that by (auto simp: operand_ok_def)
  then show ?thesis unfolding value_ok_def free_old by (auto simp: free_split_def)
qed

lemma free_operand_ok:
  assumes "free_setting inc n xs bb pre CI rest ys sb fb"
  shows "operand_ok n (all_insts (xs @ (bb, pre @ CI # rest) # ys)) (hd (iops CI))"
proof -
  have "inst_ok inc n (xs @ (bb, pre @ CI # rest) # ys) CI" using assms by (simp add: free_setting_def function_ok_def)
  moreover have "hd (iops CI) \<in> set (iops CI)" using assms by (cases "iops CI") (auto simp: free_setting_def free_call_def)
  ultimately show ?thesis by (simp add: inst_ok_def)
qed

lemma free_added_ok:
  assumes set: "free_setting inc n xs bb pre CI rest ys sb fb"
  shows "added_ok inc' n (n + 5) (free_split xs bb pre CI rest ys n sb fb)"
proof -
  let ?S = "free_split xs bb pre CI rest ys n sb fb" and ?v = "hd (iops CI)"
  have names: "{sb, fb} \<subseteq> fst ` set (new_blocks ?S)" by (simp add: new_blocks_def free_split_def)
  have added: "added ?S = test_pointer n ?v fb sb @ [guarded_free n ?v, branch (n + 4) [sb] []]"
    by (simp add: added_def free_split_def)
  have ops: "added_operand ?S n ?v" "\<And>w c. added_operand ?S n (VInt w c)"
    using free_operand_ok [OF set] by (simp_all add: added_operand_def free_old operand_ok_def)
  have new: "added_operand ?S n (VInst J)" if "J \<in> set (added ?S)" "ity J \<noteq> TVoid" for J
    using that by (auto simp: added_operand_def)
  have refs: "\<And>u. u = Inst n OpPtrToInt ''sp.as.int'' (TInt 64) [?v] \<Longrightarrow>
       added_operand ?S n (VInst u) \<and>
       added_operand ?S n (VInst (Inst (n + 1) (OpICmp Sge) ''cmp.sp'' (TInt 1) [VInst u, VInt 64 STACK_BOUNDARY]))"
    by (auto intro!: new simp: added test_pointer_def Let_def)
  have "\<forall>I \<in> set (added ?S). n \<le> iid I \<and> iid I < n + 5 \<and> (\<forall>v \<in> set (iops I). added_operand ?S n v) \<and>
      set (targets_of (iop I)) \<subseteq> fst ` set (new_blocks ?S) \<and> (is_phi I \<longrightarrow> set (inc' (iid I)) \<subseteq> fst ` set (new_blocks ?S))"
    using refs [OF refl] ops names unfolding added
    by (simp add: test_pointer_def guarded_free_def branch_def Let_def targets_of_def is_phi_def)
  moreover have "distinct (map iid (added ?S))" unfolding added by (simp add: test_pointer_def guarded_free_def branch_def Let_def)
  ultimately show ?thesis
    unfolding added_ok_def
    by (simp add: free_split_def test_pointer_def guarded_free_def branch_def Let_def is_phi_def is_term_def block_ok_def)
qed

lemma free_same_elsewhere:
  assumes "free_setting inc n xs bb pre CI rest ys sb fb"
  shows "same_elsewhere (guarded_step ext [] (iid CI # fs)) (guarded_step ext [] fs) inc (rename_incoming bb sb inc)
     (free_split xs bb pre CI rest ys n sb fb)"
proof -
  let ?S = "free_split xs bb pre CI rest ys n sb fb"
  have fn: "function_ok inc n (old_blocks ?S)" using assms by (simp add: free_setting_def free_old)
  have S: "si_inst ?S = CI" "si_map ?S = (\<lambda>I. I)" "si_name ?S = bb" "si_split ?S = sb" by (simp_all add: free_split_def)
  have "guarded_step ext [] fs I = guarded_step ext [] (iid CI # fs) I" if "I \<in> set (all_insts (old_blocks ?S))" "I \<noteq> CI" for I
    using distinct_insts [OF fn that(1) site_in_old] that(2) by (intro ext) (auto simp: guarded_step_def S)
  then show ?thesis by (simp add: same_elsewhere_def S rename_incoming_def renamed_def [abs_def])
qed

definition on_heap :: "u64 \<Rightarrow> bool" where
  "on_heap z \<longleftrightarrow> sint STACK_BOUNDARY \<le> sint z"

text \<open>Where the test jumps to: past the call, or to the block of the call.\<close>

lemma free_jumps:
  fixes ext :: "'s external"
  assumes set: "free_setting inc n xs bb pre CI rest ys sb fb" and sites: "\<forall>i \<in> set fs. i < n"
  defines "S \<equiv> free_split xs bb pre CI rest ys n sb fb" and "st' \<equiv> guarded_step ext [] fs"
  shows "enter_block st' cv inc' (new_blocks S) (Suc g) b sb e s = run st' cv inc' (new_blocks S) g sb rest e s"
    "enter_block st' cv inc' (new_blocks S) (Suc (Suc g)) b fb e s =
      (case ext (OpCall ''free'') TVoid [typed_operand cv e (hd (iops CI))] s of
         Inl er \<Rightarrow> Failed er | Inr (x, s') \<Rightarrow> run st' cv inc' (new_blocks S) g sb rest (e(n + 3 := x)) s')"
proof -
  let ?v = "hd (iops CI)"
  have fn: "function_ok inc n (old_blocks S)" using set by (simp add: free_setting_def free_old S_def)
  have ok: "site_ok cv n S" unfolding S_def by (rule free_site_ok [OF set])
  have d: "distinct (map fst (old_blocks S))" using fn by (simp add: function_ok_def)
  have look: "map_of (new_blocks S) fb = Some [guarded_free n ?v, branch (n + 4) [sb] []]" "map_of (new_blocks S) sb = Some rest"
    using map_of_new_blocks [OF ok d, of fb "[guarded_free n ?v, branch (n + 4) [sb] []]"] map_of_new_blocks [OF ok d, of sb rest]
    by (simp_all add: S_def free_split_def)
  have rest: "takeWhile is_phi rest = []" "dropWhile is_phi rest = rest"
    using site_rest_no_phi [OF fn ok] by (cases rest; simp add: S_def free_split_def)+
  show to_split: "enter_block st' cv inc' (new_blocks S) (Suc g) b sb e s = run st' cv inc' (new_blocks S) g sb rest e s" for g b e s
    by (simp add: enter_block_def look rest)
  have pl: "control_of (iop (guarded_free n ?v)) vs = Plain" "control_of (iop (branch (n + 4) [sb] [])) vs = Jump sb" for vs
    by (simp_all add: guarded_free_def branch_def control_of_def)
  have "enter_block st' cv inc' (new_blocks S) (Suc (Suc g)) b fb e s =
      run st' cv inc' (new_blocks S) (Suc g) fb [guarded_free n ?v, branch (n + 4) [sb] []] e s"
    by (simp add: enter_block_def look is_phi_def guarded_free_def)
  moreover have "st' (guarded_free n ?v) vs s = ext (OpCall ''free'') TVoid vs s" for vs s
    unfolding st'_def by (subst new_code_step) (use sites in \<open>auto simp: guarded_free_def exec_op_def\<close>)
  ultimately show "enter_block st' cv inc' (new_blocks S) (Suc (Suc g)) b fb e s =
      (case ext (OpCall ''free'') TVoid [typed_operand cv e ?v] s of
         Inl er \<Rightarrow> Failed er | Inr (x, s') \<Rightarrow> run st' cv inc' (new_blocks S) g sb rest (e(n + 3 := x)) s')"
    unfolding run_Plain [OF pl(1)] run_Jump [OF pl(2)] to_split by (simp add: guarded_free_def split: sum.split)
qed

text \<open>The test at the end of the block.\<close>

lemma free_test:
  fixes ext :: "'s external"
  assumes sites: "\<forall>i \<in> set fs. i < n"
  defines "st' \<equiv> guarded_step ext [] fs"
  shows "run st' cv inc' bbs f b (test_pointer n v fb sb) e s =
      enter_block st' cv inc' bbs f b (if on_heap (operand cv e v) then fb else sb)
        (e(n := operand cv e v, n + 1 := if on_heap (operand cv e v) then 1 else 0)) s"
proof -
  define pos where "pos = Inst n OpPtrToInt ''sp.as.int'' (TInt 64) [v]"
  define cmp where "cmp = Inst (n + 1) (OpICmp Sge) ''cmp.sp'' (TInt 1) [VInst pos, VInt 64 STACK_BOUNDARY]"
  have test: "test_pointer n v fb sb = [pos, cmp, branch (n + 2) [fb, sb] [VInst cmp]]"
    by (simp add: test_pointer_def pos_def cmp_def Let_def)
  have pl: "control_of (iop pos) vs = Plain" "control_of (iop cmp) vs = Plain" for vs by (simp_all add: pos_def cmp_def control_of_def)
  have ge: "n \<le> iid pos" "n \<le> iid cmp" by (simp_all add: pos_def cmp_def)
  have new_step: "st' I vs s = exec_op ext (iop I) (ity I) vs s" if "n \<le> iid I" for I vs s
    unfolding st'_def by (rule new_code_step) (use sites that in auto)
  have op2: "exec_op ext (OpICmp Sge) (TInt 1) [(TInt 64, z), (TInt 64, STACK_BOUNDARY)] s = Inr (if on_heap z then 1 else 0, s)" for z s
    by (simp add: exec_op_def size_of_bits_def sge_64 on_heap_def)
  have jmp: "run st' cv inc' bbs f b [branch (n + 2) [fb, sb] [VInst cmp]] e s =
      enter_block st' cv inc' bbs f b (if e (n + 1) = 0 then sb else fb) e s" for e s
    by (rule run_Jump) (simp add: branch_def control_of_def cmp_def)
  have cmp_run: "run st' cv inc' bbs f b [cmp, branch (n + 2) [fb, sb] [VInst cmp]] e s =
      enter_block st' cv inc' bbs f b (if on_heap (e n) then fb else sb) (e(n + 1 := if on_heap (e n) then 1 else 0)) s" for e s
    unfolding run_Plain [OF pl(2)] new_step [OF ge(2)]
    using jmp by (simp add: op2 [simplified] cmp_def pos_def typed_operand_def)
  show ?thesis
    unfolding test run_Plain [OF pl(1)] new_step [OF ge(1)]
    using cmp_run by (simp add: pos_def exec_op_def typed_operand_def)
qed

text \<open>The test and the jump together, in a state that agrees with the one before the split.\<close>

lemma free_run:
  fixes ext :: "'s external"
  assumes set: "free_setting inc n xs bb pre CI rest ys sb fb" and sites: "\<forall>i \<in> set fs. i < n"
  defines "S \<equiv> free_split xs bb pre CI rest ys n sb fb" and "st' \<equiv> guarded_step ext [] fs"
  assumes ag: "agree S n env env'"
    and z: "z = operand cv env (hd (iops CI))" and e2: "e2 = env'(n := z, n + 1 := if on_heap z then 1 else 0)"
  shows "agree S n env e2"
    "\<not> on_heap z \<Longrightarrow> run st' cv inc' (new_blocks S) (g + 1) bb (si_test S) env' s = run st' cv inc' (new_blocks S) g sb rest e2 s"
    "on_heap z \<Longrightarrow> run st' cv inc' (new_blocks S) (g + 2) bb (si_test S) env' s =
       (case ext (OpCall ''free'') TVoid [(val_ty (hd (iops CI)), z)] s of
          Inl er \<Rightarrow> Failed er | Inr (x, s') \<Rightarrow> run st' cv inc' (new_blocks S) g sb rest (e2(n + 3 := x)) s')"
proof -
  let ?v = "hd (iops CI)"
  have ok: "site_ok cv n S" unfolding S_def by (rule free_site_ok [OF set])
  have "function_ok inc n (old_blocks S)" using set by (simp add: free_setting_def free_old S_def)
  then have c: "iid CI < n" using site_in_old [of S] by (simp add: function_ok_def inst_ok_def S_def free_split_def)
  show ag2: "agree S n env e2" unfolding e2 using c by (intro agree_fresh ag) (auto simp: S_def free_split_def)
  have "operand_ok n (all_insts (old_blocks S)) ?v" using free_operand_ok [OF set] by (simp add: S_def free_old)
  then have operand_v: "operand cv e ?v = z" if "agree S n env e" for e
    using agree_operand(1) [OF ok that] by (simp add: z S_def free_split_def)
  have t: "si_test S = test_pointer n ?v fb sb" by (simp add: S_def free_split_def)
  have test: "run st' cv inc' (new_blocks S) f bb (si_test S) env' s =
      enter_block st' cv inc' (new_blocks S) f bb (if on_heap z then fb else sb) e2 s" for f
    unfolding t st'_def free_test [OF sites] operand_v [OF ag] e2 ..
  note jumps = free_jumps [OF set sites, folded S_def, where ext = ext, folded st'_def]
  show "\<not> on_heap z \<Longrightarrow> run st' cv inc' (new_blocks S) (g + 1) bb (si_test S) env' s = run st' cv inc' (new_blocks S) g sb rest e2 s"
    by (simp add: test jumps(1))
  show "on_heap z \<Longrightarrow> run st' cv inc' (new_blocks S) (g + 2) bb (si_test S) env' s =
       (case ext (OpCall ''free'') TVoid [(val_ty ?v, z)] s of
          Inl er \<Rightarrow> Failed er | Inr (x, s') \<Rightarrow> run st' cv inc' (new_blocks S) g sb rest (e2(n + 3 := x)) s')"
    using operand_v [OF ag2] by (simp add: test jumps(2) typed_operand_def)
qed

lemma free_simulated:
  assumes set: "free_setting inc n xs bb pre CI rest ys sb fb" and sites: "\<forall>i \<in> set fs. i < n"
  shows "site_simulated (guarded_step ext [] (iid CI # fs)) (guarded_step ext [] fs) cv inc' n (free_split xs bb pre CI rest ys n sb fb)"
proof -
  let ?v = "hd (iops CI)" and ?st' = "guarded_step ext [] fs"
  define S where "S = free_split xs bb pre CI rest ys n sb fb"
  have sel: "si_inst S = CI" "si_name S = bb" "si_split S = sb" "si_rest S = rest" "si_map S = (\<lambda>I. I)" "si_dead S = {iid CI}" "si_ren S = (\<lambda>i. i)"
    by (simp_all add: S_def free_split_def)
  have "iops CI = [?v]" using set by (cases "iops CI") (auto simp: free_setting_def free_call_def)
  then have single: "map h (iops CI) = [h ?v]" for h :: "val_ir \<Rightarrow> ty \<times> u64" by (metis list.simps(8,9))
  have "site_simulated (guarded_step ext [] (iid CI # fs)) ?st' cv inc' n S"
    unfolding site_simulated_def sel map_ident
  proof (intro allI impI)
    fix env env' s
    assume ag: "agree S n env env'"
    define z where "z = operand cv env ?v"
    define e2 where "e2 = env'(n := z, n + 1 := if on_heap z then 1 else 0)"
    note run = free_run [OF set sites, folded S_def, OF ag z_def e2_def]
    have keep: "agree S n (env(iid CI := x)) e2" "agree S n (env(iid CI := x)) (e2(n + 3 := y))" for x y
      using run(1) by (auto simp: agree_def sel)
    have old: "guarded_step ext [] (iid CI # fs) CI (map (typed_operand cv env) (iops CI)) s =
        (if on_heap z then ext (OpCall ''free'') TVoid [(val_ty ?v, z)] s else Inr (0, s))"
      unfolding single by (simp add: guarded_step_def typed_operand_def z_def free_if_heap_def on_heap_def)
    show "case guarded_step ext [] (iid CI # fs) CI (map (typed_operand cv env) (iops CI)) s of
        Inl e \<Rightarrow> \<forall>f. \<exists>g \<ge> f. run ?st' cv inc' (new_blocks S) g bb (si_test S) env' s = Failed e
      | Inr (x, s2) \<Rightarrow> \<exists>env2 k. agree S n (env(iid CI := x)) env2 \<and>
          (\<forall>g. run ?st' cv inc' (new_blocks S) (g + k) bb (si_test S) env' s = run ?st' cv inc' (new_blocks S) g sb rest env2 s2)"
    proof (cases "on_heap z")
      case False
      then have "\<forall>g. run ?st' cv inc' (new_blocks S) (g + 1) bb (si_test S) env' s = run ?st' cv inc' (new_blocks S) g sb rest e2 s"
        using run(2) [where ext = ext] by blast
      then show ?thesis using keep(1) [of 0] unfolding old if_not_P [OF False] sum.case prod.case by blast
    next
      case True
      note run3 = run(3) [OF True, where ext = ext]
      show ?thesis
      proof (cases "ext (OpCall ''free'') TVoid [(val_ty ?v, z)] s")
        case (Inl er)
        have "\<exists>g \<ge> f. run ?st' cv inc' (new_blocks S) g bb (si_test S) env' s = Failed er" for f
          using run3 [of inc' f s] Inl by (intro exI [of _ "f + 2"]) simp
        then show ?thesis unfolding old using True Inl by simp
      next
        case (Inr q)
        obtain x s2 where q: "q = (x, s2)" by (cases q)
        have "run ?st' cv inc' (new_blocks S) (g + 2) bb (si_test S) env' s = run ?st' cv inc' (new_blocks S) g sb rest (e2(n + 3 := x)) s2" for g
          using run3 [of inc' g s] Inr q by simp
        then show ?thesis using keep(2) unfolding old if_P [OF True] Inr q sum.case prod.case by blast
      qed
    qed
  qed
  then show ?thesis by (simp only: S_def)
qed

end
