(* ===== verification/Memory_Use_Theorems.thy ===== *)
theory Memory_Use_Theorems
  imports Memory_Use_Free
begin

text \<open>
  The whole pass of \<open>MemUseOptimization.cpp\<close>: site after site, the rewritten \<open>main\<close> runs
  like the old one.
\<close>

definition fresh_names :: "(string list \<Rightarrow> string \<Rightarrow> string) \<Rightarrow> bool" where
  "fresh_names uniq \<longleftrightarrow> (\<forall>ns w. uniq ns w \<notin> set ns)"

lemma guarded_step_none: "guarded_step ext [] [] = exec_inst ext"
  by (intro ext) (simp add: guarded_step_def exec_inst_def)

definition sites_ok :: "nat list \<Rightarrow> nat list \<Rightarrow> rewriting \<Rightarrow> bool" where
  "sites_ok ms fs s \<longleftrightarrow> function_ok (rw_incoming s) (rw_number s) (rw_blocks s) \<and> entry_ok (rw_blocks s) \<and> distinct (ms @ fs) \<and>
     (\<forall>c \<in> set ms. \<exists>I \<in> set (all_insts (rw_blocks s)). iid I = c \<and> malloc_call I) \<and>
     (\<forall>c \<in> set fs. \<exists>I \<in> set (all_insts (rw_blocks s)). iid I = c \<and> free_call I)"

text \<open>The new function does with some more fuel what the old one does.\<close>

definition runs_like :: "'s stepper \<Rightarrow> rewriting \<Rightarrow> 's stepper \<Rightarrow> rewriting \<Rightarrow> (val_ir \<Rightarrow> u64) \<Rightarrow> bool" where
  "runs_like st' s' st s cv \<longleftrightarrow>
     (\<forall>f x. \<exists>g \<ge> f. run_main st' cv (rw_incoming s') (rw_blocks s') g x = run_main st cv (rw_incoming s) (rw_blocks s) f x)"

lemma runs_like_trans: "\<lbrakk> runs_like a s b t cv; runs_like b t c u cv \<rbrakk> \<Longrightarrow> runs_like a s c u cv"
  unfolding runs_like_def by (metis order_trans)

subsection \<open>Finding the place\<close>

lemma site_place:
  assumes "I \<in> set (all_insts bbs)" "distinct (map iid (all_insts bbs))"
  obtains xs bb pre rest ys where "bbs = xs @ (bb, pre @ I # rest) # ys" "\<forall>b \<in> set xs. \<not> has_inst (iid I) b"
    "before_inst (iid I) (pre @ I # rest) = pre" "from_inst (iid I) (pre @ I # rest) = I # rest" "has_inst (iid I) (bb, pre @ I # rest)"
proof -
  obtain p where p: "p \<in> set bbs" "I \<in> set (snd p)" using assms(1) by (auto simp: all_insts_def)
  obtain xs ys where b: "bbs = xs @ p # ys" using p(1) by (meson split_list)
  obtain pre rest where i: "snd p = pre @ I # rest" using p(2) by (meson split_list)
  have d: "iid I \<notin> iid ` set (all_insts xs)" "iid I \<notin> iid ` set pre" using assms(2) by (auto simp: b i)
  then have "\<forall>b \<in> set xs. \<not> has_inst (iid I) b" by (force simp: has_inst_def all_insts_def)
  moreover have "\<forall>J \<in> set pre. iid J \<noteq> iid I" using d(2) by (metis image_eqI)
  then have "before_inst (iid I) (pre @ I # rest) = pre" "from_inst (iid I) (pre @ I # rest) = I # rest"
    by (simp_all add: before_inst_def from_inst_def takeWhile_append2 dropWhile_append2)
  moreover have "bbs = xs @ (fst p, pre @ I # rest) # ys" using b i by (cases p) simp
  moreover have "has_inst (iid I) (fst p, pre @ I # rest)" by (simp add: has_inst_def)
  ultimately show thesis using that [of xs "fst p" pre rest ys] by blast
qed

lemma new_names_3:
  assumes "fresh_names uniq"
  obtains a b c where "new_names uniq [x, y, z] ns = [a, b, c]" "{a, b, c} \<inter> set ns = {}" "distinct [a, b, c]"
proof -
  let ?a = "uniq ns x" let ?b = "uniq (ns @ [?a]) y" let ?c = "uniq (ns @ [?a, ?b]) z"
  have "?a \<notin> set ns" "?b \<notin> set (ns @ [?a])" "?c \<notin> set (ns @ [?a, ?b])" using assms by (simp_all only: fresh_names_def not_False_eq_True)
  then show thesis using that [of ?a ?b ?c] by (auto simp: new_names_def)
qed

lemma new_names_2:
  assumes "fresh_names uniq"
  obtains a b where "new_names uniq [x, y] ns = [a, b]" "{a, b} \<inter> set ns = {}" "a \<noteq> b"
proof -
  let ?a = "uniq ns x" let ?b = "uniq (ns @ [?a]) y"
  have "?a \<notin> set ns" "?b \<notin> set (ns @ [?a])" using assms by (simp_all only: fresh_names_def not_False_eq_True)
  then show thesis using that [of ?a ?b] by (auto simp: new_names_def)
qed

subsection \<open>One site\<close>

lemma kept_inst:
  assumes "I \<in> set (all_insts (old_blocks S))" "I \<noteq> si_inst S"
  shows "si_map S I \<in> set (all_insts (new_blocks S))"
  using assms unfolding all_new_insts all_old_insts by auto

lemma kept_call:
  assumes "site_ok cv n S"
  shows "malloc_call I \<Longrightarrow> malloc_call (si_map S I)" "free_call I \<Longrightarrow> free_call (si_map S I)"
  using site_okD(1) [OF assms] by (simp_all add: malloc_call_def free_call_def)

lemma kept_sites:
  assumes S: "site_ok cv n S" and c: "iid (si_inst S) \<notin> set cs"
    and call: "\<forall>c \<in> set cs. \<exists>I \<in> set (all_insts (old_blocks S)). iid I = c \<and> P I" and P: "\<And>I. P I \<Longrightarrow> P (si_map S I)"
  shows "\<forall>c \<in> set cs. \<exists>I \<in> set (all_insts (new_blocks S)). iid I = c \<and> P I"
proof
  fix d assume d: "d \<in> set cs"
  then obtain I where I: "I \<in> set (all_insts (old_blocks S))" "iid I = d" "P I" using call by blast
  then have "I \<noteq> si_inst S" using c d by auto
  then have "si_map S I \<in> set (all_insts (new_blocks S))" by (rule kept_inst [OF I(1)])
  then show "\<exists>I \<in> set (all_insts (new_blocks S)). iid I = d \<and> P I" using I P site_okD(1) [OF S] by metis
qed

lemma sites_below: "sites_ok ms fs s \<Longrightarrow> \<forall>i \<in> set ms \<union> set fs. i < rw_number s"
  by (auto simp: sites_ok_def function_ok_def inst_ok_def)

lemma malloc_site_step:
  assumes uniq: "fresh_names uniq" and s: "sites_ok (c # ms) fs s"
  shows "sites_ok ms fs (malloc_site uniq c s)"
    and "runs_like (guarded_step ext ms fs) (malloc_site uniq c s) (guarded_step ext (c # ms) fs) s cv"
proof -
  let ?n = "rw_number s" and ?inc = "rw_incoming s"
  have fn: "function_ok ?inc ?n (rw_blocks s)" and entry: "entry_ok (rw_blocks s)" and dc: "c \<notin> set ms" "c \<notin> set fs" "distinct (ms @ fs)"
    using s by (auto simp: sites_ok_def)
  obtain CI where CI: "CI \<in> set (all_insts (rw_blocks s))" "iid CI = c" "malloc_call CI" using s by (auto simp: sites_ok_def)
  have di: "distinct (map iid (all_insts (rw_blocks s)))" using fn by (simp add: function_ok_def)
  obtain xs bb pre rest ys where place: "rw_blocks s = xs @ (bb, pre @ CI # rest) # ys" "\<forall>b \<in> set xs. \<not> has_inst c b"
    "before_inst c (pre @ CI # rest) = pre" "from_inst c (pre @ CI # rest) = CI # rest" "has_inst c (bb, pre @ CI # rest)"
    by (rule site_place [OF CI(1) di, unfolded CI(2)])
  obtain sb ab mb where nn: "new_names uniq [''div.'' @ bb, ''alloca.'' @ bb, ''malloc.'' @ bb] (map fst (rw_blocks s)) = [sb, ab, mb]"
    "{sb, ab, mb} \<inter> set (map fst (rw_blocks s)) = {}" "distinct [sb, ab, mb]" by (rule new_names_3 [OF uniq])
  define S where "S = malloc_split xs bb pre CI rest ys ?n sb ab mb"
  let ?inc' = "malloc_incoming ?inc ?n bb sb ab mb"
  have old: "old_blocks S = rw_blocks s" by (simp add: S_def malloc_old place)
  have set: "malloc_setting ?inc ?n xs bb pre CI rest ys sb ab mb"
  proof -
    have "{sb, ab, mb} \<inter> fst ` set (rw_blocks s) = {}" using nn(2) by simp
    then show ?thesis using fn nn(3) CI(3) unfolding malloc_setting_def place(1) by blast
  qed
  have result: "malloc_site uniq c s = \<lparr> rw_blocks = new_blocks S, rw_incoming = ?inc', rw_number = ?n + 9 \<rparr>"
    unfolding malloc_site_def using nn(1) replace_block_split [OF place(2,5)]
    by (simp add: place(1,3,4) new_blocks_def S_def malloc_split_def malloc_incoming_def CI(2) Let_def)
  have ok: "site_ok cv ?n S" for cv unfolding S_def by (rule malloc_site_ok [OF set])
  have added: "added_ok ?inc' ?n (?n + 9) S" unfolding S_def by (rule malloc_added_ok [OF set]) (simp add: malloc_incoming_def)
  have vok: "value_ok S ?n" unfolding S_def by (rule malloc_value_ok [OF set])
  have same: "same_elsewhere (guarded_step ext (c # ms) fs) (guarded_step ext ms fs) ?inc ?inc' S" for ext :: "'s external"
    unfolding S_def CI(2) [symmetric] by (rule malloc_same_elsewhere [OF set])
  have below: "\<forall>i \<in> set ms \<union> set fs. i < ?n" using sites_below [OF s] by simp
  have sim: "site_simulated (guarded_step ext (c # ms) fs) (guarded_step ext ms fs) cv ?inc' ?n S"
    unfolding S_def CI(2) [symmetric] by (rule malloc_simulated [OF set below])
  have inst: "si_inst S = CI" by (simp add: S_def malloc_split_def Let_def)
  have fn': "function_ok ?inc' (?n + 9) (new_blocks S)"
    using new_function_ok [OF fn [folded old] ok added vok] same [of "undefined"] unfolding same_elsewhere_def by blast
  have "\<forall>c \<in> set ms. \<exists>I \<in> set (all_insts (old_blocks S)). iid I = c \<and> malloc_call I"
    "\<forall>c \<in> set fs. \<exists>I \<in> set (all_insts (old_blocks S)). iid I = c \<and> free_call I" using s by (simp_all add: sites_ok_def old)
  note kept = kept_sites [OF ok _ this(1) kept_call(1) [OF ok]] kept_sites [OF ok _ this(2) kept_call(2) [OF ok]]
  show "sites_ok ms fs (malloc_site uniq c s)"
    using fn' new_entry_ok [OF ok added] entry dc kept unfolding result sites_ok_def by (simp add: old inst CI(2))
  show "runs_like (guarded_step ext ms fs) (malloc_site uniq c s) (guarded_step ext (c # ms) fs) s cv"
    using split_run_main [OF fn [folded old] ok same sim] entry unfolding runs_like_def result by (simp add: old)
qed

lemma free_site_step:
  assumes uniq: "fresh_names uniq" and s: "sites_ok [] (c # fs) s"
  shows "sites_ok [] fs (free_site uniq c s)"
    and "runs_like (guarded_step ext [] fs) (free_site uniq c s) (guarded_step ext [] (c # fs)) s cv"
proof -
  let ?n = "rw_number s" and ?inc = "rw_incoming s"
  have fn: "function_ok ?inc ?n (rw_blocks s)" and entry: "entry_ok (rw_blocks s)" and dc: "c \<notin> set fs" "distinct fs"
    using s by (auto simp: sites_ok_def)
  obtain CI where CI: "CI \<in> set (all_insts (rw_blocks s))" "iid CI = c" "free_call CI" using s by (auto simp: sites_ok_def)
  have di: "distinct (map iid (all_insts (rw_blocks s)))" using fn by (simp add: function_ok_def)
  obtain xs bb pre rest ys where place: "rw_blocks s = xs @ (bb, pre @ CI # rest) # ys" "\<forall>b \<in> set xs. \<not> has_inst c b"
    "before_inst c (pre @ CI # rest) = pre" "from_inst c (pre @ CI # rest) = CI # rest" "has_inst c (bb, pre @ CI # rest)"
    by (rule site_place [OF CI(1) di, unfolded CI(2)])
  obtain sb fb where nn: "new_names uniq [''div.'' @ bb, ''free.'' @ bb] (map fst (rw_blocks s)) = [sb, fb]"
    "{sb, fb} \<inter> set (map fst (rw_blocks s)) = {}" "sb \<noteq> fb" by (rule new_names_2 [OF uniq])
  define S where "S = free_split xs bb pre CI rest ys ?n sb fb"
  let ?inc' = "rename_incoming bb sb ?inc"
  have old: "old_blocks S = rw_blocks s" by (simp add: S_def free_old place)
  have set: "free_setting ?inc ?n xs bb pre CI rest ys sb fb"
  proof -
    have "{sb, fb} \<inter> fst ` set (rw_blocks s) = {}" using nn(2) by simp
    then show ?thesis using fn nn(3) CI(3) unfolding free_setting_def place(1) by blast
  qed
  have result: "free_site uniq c s = \<lparr> rw_blocks = new_blocks S, rw_incoming = ?inc', rw_number = ?n + 5 \<rparr>"
    unfolding free_site_def using nn(1) replace_block_split [OF place(2,5)]
    by (simp add: place(1,3,4) new_blocks_def S_def free_split_def Let_def)
  have ok: "site_ok cv ?n S" for cv unfolding S_def by (rule free_site_ok [OF set])
  have added: "added_ok ?inc' ?n (?n + 5) S" unfolding S_def by (rule free_added_ok [OF set])
  have vok: "value_ok S ?n" unfolding S_def by (rule free_value_ok [OF set])
  have same: "same_elsewhere (guarded_step ext [] (c # fs)) (guarded_step ext [] fs) ?inc ?inc' S" for ext :: "'s external"
    unfolding S_def CI(2) [symmetric] by (rule free_same_elsewhere [OF set])
  have below: "\<forall>i \<in> set fs. i < ?n" using sites_below [OF s] by simp
  have sim: "site_simulated (guarded_step ext [] (c # fs)) (guarded_step ext [] fs) cv ?inc' ?n S"
    unfolding S_def CI(2) [symmetric] by (rule free_simulated [OF set below])
  have inst: "si_inst S = CI" by (simp add: S_def free_split_def)
  have fn': "function_ok ?inc' (?n + 5) (new_blocks S)"
    using new_function_ok [OF fn [folded old] ok added vok] same [of "undefined"] unfolding same_elsewhere_def by blast
  have "\<forall>c \<in> set fs. \<exists>I \<in> set (all_insts (old_blocks S)). iid I = c \<and> free_call I" using s by (simp add: sites_ok_def old)
  note kept = kept_sites [OF ok _ this kept_call(2) [OF ok]]
  show "sites_ok [] fs (free_site uniq c s)"
    using fn' new_entry_ok [OF ok added] entry dc kept unfolding result sites_ok_def by (simp add: old inst CI(2))
  show "runs_like (guarded_step ext [] fs) (free_site uniq c s) (guarded_step ext [] (c # fs)) s cv"
    using split_run_main [OF fn [folded old] ok same sim] entry unfolding runs_like_def result by (simp add: old)
qed

subsection \<open>All sites\<close>

lemma runs_like_refl: "runs_like st s st s cv"
  by (auto simp: runs_like_def)

lemma rewrite_main_runs_like:
  assumes uniq: "fresh_names uniq" and s: "sites_ok ms fs s"
  shows "runs_like (exec_inst ext) (rewrite_main uniq ms fs s) (guarded_step ext ms fs) s cv"
proof -
  have frees: "runs_like (exec_inst ext) (fold (free_site uniq) fs s) (guarded_step ext [] fs) s cv" if "sites_ok [] fs s" for fs s
    using that
  proof (induction fs arbitrary: s)
    case (Cons c fs)
    show ?case
      using runs_like_trans [OF Cons.IH [OF free_site_step(1) [OF uniq Cons.prems]] free_site_step(2) [OF uniq Cons.prems]] by simp
  qed (simp add: guarded_step_none runs_like_refl)
  show ?thesis
    using s
  proof (induction ms arbitrary: s)
    case Nil
    then show ?case using frees by (simp add: rewrite_main_def)
  next
    case (Cons c ms)
    show ?case
      using runs_like_trans [OF Cons.IH [OF malloc_site_step(1) [OF uniq Cons.prems]] malloc_site_step(2) [OF uniq Cons.prems]]
      by (simp add: rewrite_main_def)
  qed
qed

subsection \<open>The candidates\<close>

lemma calls_of_sub: "c \<in> set (calls_of f Is) \<longleftrightarrow> (\<exists>I \<in> set Is. iid I = c \<and> iop I = OpCall f)"
  by (auto simp: calls_of_def isCallInstOfThis_def)

lemma calls_of_distinct: "distinct (map iid Is) \<Longrightarrow> distinct (calls_of f Is)"
  by (simp add: calls_of_def distinct_map inj_on_def)

lemma candidates_main_calls:
  assumes "candidates_main in_loop bbs = Some (ms, fs)" "distinct (map iid (all_insts bbs))"
  shows "(\<forall>c \<in> set ms. \<exists>I \<in> set (all_insts bbs). iid I = c \<and> iop I = OpCall ''malloc'') \<and>
    (\<forall>c \<in> set fs. \<exists>I \<in> set (all_insts bbs). iid I = c \<and> iop I = OpCall ''free'') \<and> distinct ms \<and> distinct fs"
  using assms
proof (induction bbs arbitrary: ms fs)
  case (Cons bb bbs)
  show ?case
  proof (cases "in_loop (fst bb)")
    case True
    then have "candidates_main in_loop bbs = Some (ms, fs)" using Cons.prems(1) by (simp split: if_splits)
    then show ?thesis using Cons.IH Cons.prems(2) by auto
  next
    case False
    then obtain ms' fs' where rest: "candidates_main in_loop bbs = Some (ms', fs')"
      and eq: "ms = calls_of ''malloc'' (snd bb) @ ms'" "fs = calls_of ''free'' (snd bb) @ fs'"
      using Cons.prems(1) by (auto split: option.splits)
    have d: "distinct (map iid (snd bb))" "iid ` set (snd bb) \<inter> iid ` set (all_insts bbs) = {}" using Cons.prems(2) by simp_all
    note IH = Cons.IH [OF rest] 
    have IH': "(\<forall>c \<in> set ms'. \<exists>I \<in> set (all_insts bbs). iid I = c \<and> iop I = OpCall ''malloc'') \<and>
        (\<forall>c \<in> set fs'. \<exists>I \<in> set (all_insts bbs). iid I = c \<and> iop I = OpCall ''free'') \<and> distinct ms' \<and> distinct fs'"
      using IH Cons.prems(2) by simp
    have "set ms' \<subseteq> iid ` set (all_insts bbs)" using IH' by (metis image_eqI subsetI)
    moreover have "set fs' \<subseteq> iid ` set (all_insts bbs)" using IH' by (metis image_eqI subsetI)
    moreover have "set (calls_of f (snd bb)) \<subseteq> iid ` set (snd bb)" for f by (auto simp: calls_of_def)
    ultimately have "set (calls_of ''malloc'' (snd bb)) \<inter> set ms' = {}" "set (calls_of ''free'' (snd bb)) \<inter> set fs' = {}"
      using d(2) by blast+
    then show ?thesis using IH' calls_of_distinct [OF d(1)] unfolding eq by (auto simp: calls_of_sub)
  qed
qed simp

lemma candidates_no_main:
  "\<lbrakk> ''main'' \<notin> set (map fn_ir_name M); candidates in_loop M = Some r \<rbrakk> \<Longrightarrow> r = ([], [])"
  by (induction M arbitrary: r) (auto split: if_splits option.splits)

lemma candidates_of_main:
  assumes "distinct (map fn_ir_name M)" "F \<in> set M" "fn_ir_name F = ''main''" "candidates in_loop M = Some (ms, fs)"
  shows "candidates_main in_loop (fn_ir_blocks F) = Some (ms, fs)"
  using assms
proof (induction M arbitrary: ms fs)
  case (Cons G M)
  show ?case
  proof (cases "fn_ir_name G = ''main''")
    case True
    then have "G = F" using Cons.prems by (auto simp: image_iff)
    moreover have "''main'' \<notin> set (map fn_ir_name M)" using Cons.prems(1) True by simp
    ultimately show ?thesis
      using Cons.prems(4) candidates_no_main [of M in_loop] True by (auto split: option.splits)
  next
    case False
    then have "F \<in> set M" using Cons.prems by auto
    then show ?thesis using Cons False by (auto split: option.splits if_splits)
  qed
qed simp

lemma candidates_declaration: "f \<noteq> ''main'' \<Longrightarrow> candidates in_loop (declare_if_missing f ts M) = candidates in_loop M"
proof -
  assume "f \<noteq> ''main''"
  then have "candidates in_loop (M @ [function_declaration f ts]) = candidates in_loop M"
    by (induction M) (auto simp: function_declaration_def split: option.splits)
  then show ?thesis by (simp add: declare_if_missing_def)
qed

lemma declare_if_missing_props:
  "distinct (map fn_ir_name M) \<Longrightarrow> distinct (map fn_ir_name (declare_if_missing f ts M))" "set M \<subseteq> set (declare_if_missing f ts M)"
  by (auto simp: declare_if_missing_def function_declaration_def)

text \<open>The calls the pass rewrites.\<close>

definition rewritten_sites :: "(string \<Rightarrow> bool) \<Rightarrow> ir_function list \<Rightarrow> nat list \<times> nat list" where
  "rewritten_sites in_loop M =
     (case candidates in_loop M of None \<Rightarrow> ([], []) | Some (ms, fs) \<Rightarrow> if ms = [] then ([], []) else (ms, fs))"

text \<open>What LLVM's verifier guarantees, and that the allocation functions have their usual types.\<close>

definition main_ok :: "(nat \<Rightarrow> string list) \<Rightarrow> nat \<Rightarrow> ir_function \<Rightarrow> bool" where
  "main_ok inc n F \<longleftrightarrow> function_ok inc n (fn_ir_blocks F) \<and> entry_ok (fn_ir_blocks F) \<and>
     (\<forall>I \<in> set (all_insts (fn_ir_blocks F)). (iop I = OpCall ''malloc'' \<longrightarrow> malloc_call I) \<and> (iop I = OpCall ''free'' \<longrightarrow> free_call I))"

lemma candidates_sites_ok:
  assumes "main_ok inc n F" "candidates_main in_loop (fn_ir_blocks F) = Some (ms, fs)"
  shows "sites_ok ms fs \<lparr> rw_blocks = fn_ir_blocks F, rw_incoming = inc, rw_number = n \<rparr>"
proof -
  let ?I = "all_insts (fn_ir_blocks F)"
  have d: "distinct (map iid ?I)" using assms(1) by (simp add: main_ok_def function_ok_def)
  have c: "\<forall>c \<in> set ms. \<exists>I \<in> set ?I. iid I = c \<and> iop I = OpCall ''malloc''" "\<forall>c \<in> set fs. \<exists>I \<in> set ?I. iid I = c \<and> iop I = OpCall ''free''"
    "distinct ms" "distinct fs" using candidates_main_calls [OF assms(2) d] by blast+
  have "set ms \<inter> set fs = {}"
  proof (rule ccontr)
    assume "set ms \<inter> set fs \<noteq> {}"
    then obtain i where "i \<in> set ms" "i \<in> set fs" by blast
    obtain I where I: "I \<in> set ?I" "iid I = i" "iop I = OpCall ''malloc''" using c(1) \<open>i \<in> set ms\<close> by blast
    obtain J where J: "J \<in> set ?I" "iid J = i" "iop J = OpCall ''free''" using c(2) \<open>i \<in> set fs\<close> by blast
    have "inj_on iid (set ?I)" using d by (simp only: distinct_map)
    then have "I = J" using I(1,2) J(1,2) by (simp add: inj_on_def)
    then show False using I(3) J(3) by simp
  qed
  moreover have "\<forall>c \<in> set ms. \<exists>I \<in> set ?I. iid I = c \<and> malloc_call I" "\<forall>c \<in> set fs. \<exists>I \<in> set ?I. iid I = c \<and> free_call I"
    using c(1,2) assms(1) unfolding main_ok_def by fast+
  ultimately show ?thesis using assms(1) c(3,4) by (simp add: sites_ok_def main_ok_def)
qed

lemma MemUseOptimization_main:
  assumes pass: "MemUseOptimization uniq in_loop inc n M = Inr (M', inc', n')"
    and M: "distinct (map fn_ir_name M)" "F \<in> set M" "fn_ir_name F = ''main''"
    and sites: "rewritten_sites in_loop M = (ms, fs)" and ok: "main_ok inc n F"
  obtains F' where "F' \<in> set M'" "fn_ir_name F' = ''main''" "fn_ir_blocks F' = rw_blocks
      (rewrite_main uniq ms fs \<lparr> rw_blocks = fn_ir_blocks F, rw_incoming = inc, rw_number = n \<rparr>)"
    "inc' = rw_incoming (rewrite_main uniq ms fs \<lparr> rw_blocks = fn_ir_blocks F, rw_incoming = inc, rw_number = n \<rparr>)"
    "sites_ok ms fs \<lparr> rw_blocks = fn_ir_blocks F, rw_incoming = inc, rw_number = n \<rparr>"
    "\<forall>G \<in> set M. fn_ir_name G \<noteq> ''main'' \<longrightarrow> G \<in> set M'"
proof -
  note result = that
  define s0 where "s0 = \<lparr> rw_blocks = fn_ir_blocks F, rw_incoming = inc, rw_number = n \<rparr>"
  define M1 where "M1 = declare_if_missing GetSPFnName [] (declare_if_missing AllocaBytesFnName [TInt 64, TInt 64] M)"
  have M1: "set M \<subseteq> set M1" "distinct (map fn_ir_name M1)" "F \<in> set M1"
    using declare_if_missing_props M(1,2) unfolding M1_def by blast+
  have cand: "candidates in_loop M1 = candidates in_loop M"
    unfolding M1_def by (simp add: candidates_declaration GetSPFnName_def AllocaBytesFnName_def)
  have "''main'' \<in> set (map fn_ir_name M)" using M(2,3) by force
  note pass' = pass [unfolded MemUseOptimization_def Let_def, folded M1_def] and main = this
  have unchanged: thesis if "M' = M1" "inc' = inc" "ms = []" "fs = []"
  proof -
    have "sites_ok [] [] s0" using ok by (simp add: sites_ok_def main_ok_def s0_def)
    moreover have "\<forall>G \<in> set M. fn_ir_name G \<noteq> ''main'' \<longrightarrow> G \<in> set M'" using that(1) M1(1) by blast
    ultimately show thesis
      using that M1(3) M(3) by (intro result [of F]) (simp_all add: rewrite_main_def s0_def)
  qed
  show thesis
  proof (cases "candidates in_loop M")
    case None
    then show thesis using pass' main cand sites unchanged by (simp add: rewritten_sites_def)
  next
    case (Some r)
    obtain ms' fs' where r: "r = (ms', fs')" by (cases r)
    show thesis
    proof (cases "ms' = []")
      case True
      then show thesis using pass' main cand sites unchanged Some r by (simp add: rewritten_sites_def)
    next
      case False
      then have same: "ms' = ms" "fs' = fs" using sites Some r by (simp_all add: rewritten_sites_def)
      have find: "find (\<lambda>F. fn_ir_name F = ''main'') M1 = Some F"
      proof -
        obtain G where G: "find (\<lambda>F. fn_ir_name F = ''main'') M1 = Some G"
          using M1(3) M(3) by (cases "find (\<lambda>F. fn_ir_name F = ''main'') M1") (auto simp: find_None_iff)
        then have "G \<in> set M1" "fn_ir_name G = ''main''" by (auto simp: find_Some_iff)
        then have "G = F" using M1(2,3) M(3) by (metis distinct_map inj_onD)
        then show ?thesis using G by simp
      qed
      let ?s = "rewrite_main uniq ms fs s0"
      have M': "M' = map (\<lambda>G. if fn_ir_name G = ''main'' then G\<lparr>fn_ir_blocks := rw_blocks ?s\<rparr> else G) M1" "inc' = rw_incoming ?s"
        using pass' main cand Some r False find unfolding same s0_def by simp_all
      have "candidates_main in_loop (fn_ir_blocks F) = Some (ms, fs)"
        using candidates_of_main [OF M(1,2,3)] Some r same by simp
      then have "sites_ok ms fs s0" unfolding s0_def by (rule candidates_sites_ok [OF ok])
      moreover have "F\<lparr>fn_ir_blocks := rw_blocks ?s\<rparr> \<in> set M'" using M1(3) M(3) unfolding M' by force
      moreover have "\<forall>G \<in> set M. fn_ir_name G \<noteq> ''main'' \<longrightarrow> G \<in> set M'" using M1(1) unfolding M' by force
      ultimately show thesis
        using result [of "F\<lparr>fn_ir_blocks := rw_blocks ?s\<rparr>"] M'(2) M(3) unfolding s0_def by simp
    qed
  qed
qed

text \<open>
  C21. The pass keeps what \<open>main\<close> does, given an allocator that decides at run time: with enough
  more fuel the new \<open>main\<close> has every outcome the old one has when each rewritten \<open>malloc\<close>
  takes the stack while the stack pointer less the size is at least 5120, and each rewritten
  \<open>free\<close> ignores addresses below 10240. Conversely a run of the new \<open>main\<close> that ends, ends as
  the old one does. The other functions stay as they are.
\<close>

theorem memory_use_keeps_main:
  assumes pass: "MemUseOptimization uniq in_loop inc n M = Inr (M', inc', n')" and uniq: "fresh_names uniq"
    and M: "distinct (map fn_ir_name M)" "F \<in> set M" "fn_ir_name F = ''main''" and ok: "main_ok inc n F"
    and sites: "rewritten_sites in_loop M = (ms, fs)"
  shows "(\<exists>F' \<in> set M'. fn_ir_name F' = ''main'' \<and>
      (\<forall>f s. \<exists>g \<ge> f. run_main (exec_inst ext) cv inc' (fn_ir_blocks F') g s = run_main (guarded_step ext ms fs) cv inc (fn_ir_blocks F) f s) \<and>
      (\<forall>f s. run_main (exec_inst ext) cv inc' (fn_ir_blocks F') f s \<noteq> OutOfFuel \<longrightarrow>
         run_main (exec_inst ext) cv inc' (fn_ir_blocks F') f s = run_main (guarded_step ext ms fs) cv inc (fn_ir_blocks F) f s)) \<and>
    (\<forall>G \<in> set M. fn_ir_name G \<noteq> ''main'' \<longrightarrow> G \<in> set M')"
proof -
  define s0 where "s0 = \<lparr> rw_blocks = fn_ir_blocks F, rw_incoming = inc, rw_number = n \<rparr>"
  obtain F' where F': "F' \<in> set M'" "fn_ir_name F' = ''main''" "fn_ir_blocks F' = rw_blocks (rewrite_main uniq ms fs s0)"
    "inc' = rw_incoming (rewrite_main uniq ms fs s0)" "sites_ok ms fs s0" and others: "\<forall>G \<in> set M. fn_ir_name G \<noteq> ''main'' \<longrightarrow> G \<in> set M'"
    unfolding s0_def by (rule MemUseOptimization_main [OF pass M sites ok])
  let ?new = "run_main (exec_inst ext) cv inc' (fn_ir_blocks F')" and ?old = "run_main (guarded_step ext ms fs) cv inc (fn_ir_blocks F)"
  have runs: "\<forall>f s. \<exists>g \<ge> f. ?new g s = ?old f s"
    using rewrite_main_runs_like [OF uniq F'(5), of ext cv] unfolding runs_like_def F'(3,4) by (simp add: s0_def)
  moreover have "\<forall>f s. ?new f s \<noteq> OutOfFuel \<longrightarrow> ?new f s = ?old f s"
    using runs run_main_more_fuel by metis
  ultimately show ?thesis using F'(1,2) others by blast
qed

text \<open>
  An instance: an allocation outside of the loops, its use and its release. The name a block gets
  is longer than all names in use.
\<close>

definition longer_name :: "string list \<Rightarrow> string \<Rightarrow> string" where
  "longer_name ns w = w @ replicate (Suc (sum_list (map length ns))) CHR ''x''"

lemma longer_name_fresh: "fresh_names longer_name"
  unfolding fresh_names_def
proof (intro allI notI)
  fix ns w assume "longer_name ns w \<in> set ns"
  then have "length (longer_name ns w) \<le> sum_list (map length ns)" by (simp add: member_le_sum_list)
  then show False by (simp add: longer_name_def)
qed

definition sample_malloc :: inst where "sample_malloc = Inst 1 (OpCall ''malloc'') ''p'' (TPtr (TInt 8)) [VInt 64 16]"
definition sample_main :: ir_function where
  "sample_main = \<lparr> fn_ir_name = ''main'', fn_ir_args = [], fn_ir_blocks =
     [(''entry'', [sample_malloc, Inst 2 OpStore [] TVoid [VInt 8 5, VInst sample_malloc],
        Inst 3 (OpCall ''free'') [] TVoid [VInst sample_malloc], Inst 4 OpRet [] TVoid []])] \<rparr>"

lemma sample_main_ok: "main_ok (\<lambda>_. []) 10 sample_main"
  by (simp add: main_ok_def sample_main_def sample_malloc_def function_ok_def inst_ok_def block_ok_def operand_ok_def entry_ok_def
      is_phi_def is_term_def targets_of_def malloc_call_def free_call_def)

lemma sample_sites: "rewritten_sites (\<lambda>_. False) [sample_main] = ([1], [3])"
  by (simp add: rewritten_sites_def sample_main_def sample_malloc_def calls_of_def isCallInstOfThis_def)

theorem memory_use_keeps_main_witness:
  "\<exists>M' inc' n' F'. MemUseOptimization longer_name (\<lambda>_. False) (\<lambda>_. []) 10 [sample_main] = Inr (M', inc', n') \<and> F' \<in> set M' \<and>
     (\<exists>g \<ge> 0. run_main (exec_inst (\<lambda>k t vs s. Inr (10240, s + 1))) (\<lambda>_. 0) inc' (fn_ir_blocks F') g (0 :: nat) = Returned [] 4)"
proof -
  obtain M' inc' n' where pass: "MemUseOptimization longer_name (\<lambda>_. False) (\<lambda>_. []) 10 [sample_main] = Inr (M', inc', n')"
    by (cases "MemUseOptimization longer_name (\<lambda>_. False) (\<lambda>_. []) 10 [sample_main]")
      (auto simp: MemUseOptimization_def sample_main_def Let_def split: option.splits if_splits)
  have M: "distinct (map fn_ir_name [sample_main])" "sample_main \<in> set [sample_main]" "fn_ir_name sample_main = ''main''"
    by (simp_all add: sample_main_def)
  have "run_main (guarded_step (\<lambda>k t vs s. Inr (10240, s + 1)) [1] [3]) (\<lambda>_. 0) (\<lambda>_. []) (fn_ir_blocks sample_main) 0 (0 :: nat) = Returned [] 4"
    by (simp add: run_main_def sample_main_def sample_malloc_def run.simps control_of_def guarded_step_def stack_or_heap_def
        free_if_heap_def exec_op_def typed_operand_def STACK_DANGEROUS_REGION_def STACK_BOUNDARY_def)
  then show ?thesis
    using memory_use_keeps_main [OF pass longer_name_fresh M sample_main_ok sample_sites, of "\<lambda>k t vs s. Inr (10240, s + 1)" "\<lambda>_. 0"] pass
    by metis
qed

text \<open>
  The test reads the difference as a signed number: a request for nearly \<open>2 ^ 64\<close> bytes, which
  the heap refuses, wraps around and is put on the stack.
\<close>

lemma huge_request_on_stack:
  "stack_or_heap (\<lambda>k t vs s. Inr (if k = OpCall GetSPFnName then 10240 else 0, s @ [k])) (TPtr (TInt 8)) [(TInt 64, - 16)] [] =
     Inr (0, [OpCall GetSPFnName, OpCall AllocaBytesFnName])"
  by (simp add: stack_or_heap_def STACK_DANGEROUS_REGION_def GetSPFnName_def AllocaBytesFnName_def)

end
