(* ===== verification/Backend_Run.thy ===== *)
theory Backend_Run
  imports Backend_Passes Emitter Reset_Pointer
begin

text \<open>
  \<open>Backend::run\<close> (\<open>src/src/core/Backend.cpp\<close>): the passes of the back end in their order,
  from a module to the lines of the assembly file, with \<open>InstNamer\<close> and what the earlier
  passes compute for \<open>DepromoteRegisters\<close>.

  Parameters are the names LLVM makes unique, \<open>verifyModule\<close>, the opcode of a constant
  expression, the blocks the values of a phi node come from, the constant folding of
  \<open>IRBuilder\<close> and the heap functions of the standard library.
\<close>

subsection \<open>InstNamer\<close>

text \<open>
  Arguments and blocks have names here, since a name is what they are known by. An operand shows
  the instruction it refers to, with its name.
\<close>

fun name_map :: "(string list \<Rightarrow> string \<Rightarrow> string) \<Rightarrow> string list \<Rightarrow> inst list \<Rightarrow> (nat \<times> string) list" where
  "name_map uniq names [] = []"
| "name_map uniq names (I # Is) =
     (if iname I = [] \<and> ity I \<noteq> TVoid
      then (let nm = uniq names ''tmp'' in (iid I, nm) # name_map uniq (names @ [nm]) Is)
      else name_map uniq names Is)"

fun rename_value :: "(nat \<Rightarrow> string option) \<Rightarrow> val_ir \<Rightarrow> val_ir" where
  "rename_value m (VInst (Inst i k nm t vs)) =
     VInst (Inst i k (case m i of Some s \<Rightarrow> s | None \<Rightarrow> nm) t (map (rename_value m) vs))"
| "rename_value m v = v"

definition rename_inst :: "(nat \<Rightarrow> string option) \<Rightarrow> inst \<Rightarrow> inst" where
  "rename_inst m I =
     Inst (iid I) (iop I) (case m (iid I) of Some s \<Rightarrow> s | None \<Rightarrow> iname I) (ity I) (map (rename_value m) (iops I))"

definition InstNamer :: "(string list \<Rightarrow> string \<Rightarrow> string) \<Rightarrow> ir_function \<Rightarrow> ir_function" where
  "InstNamer uniq F =
     (let insts = concat (map snd (fn_ir_blocks F));
          names = map fst (fn_ir_args F) @ map fst (fn_ir_blocks F) @ map iname insts;
          m = map_of (name_map uniq names insts)
      in F\<lparr>fn_ir_blocks := map (\<lambda>(bb, Is). (bb, map (rename_inst m) Is)) (fn_ir_blocks F)\<rparr>)"

subsection \<open>The passes over a module\<close>

fun on_functions :: "(ir_function \<Rightarrow> ir_function) \<Rightarrow> global_object list \<Rightarrow> global_object list" where
  "on_functions f [] = []"
| "on_functions f (Global g t # gs) = Global g t # on_functions f gs"
| "on_functions f (Func F t # gs) = Func (f F) t # on_functions f gs"

fun convert_blocks :: "(const_op \<Rightarrow> opcode) \<Rightarrow> (nat \<Rightarrow> string) \<Rightarrow> nat \<Rightarrow> ir_block list \<Rightarrow> ir_block list \<times> nat" where
  "convert_blocks opc nm n [] = ([], n)"
| "convert_blocks opc nm n ((bb, Is) # bbs) =
     (case convert_insts opc nm n Is of
        (Js, m) \<Rightarrow> (case convert_blocks opc nm m bbs of (bbs', k) \<Rightarrow> ((bb, Js) # bbs', k)))"

fun convert_module :: "(const_op \<Rightarrow> opcode) \<Rightarrow> (nat \<Rightarrow> string) \<Rightarrow> nat \<Rightarrow> global_object list \<Rightarrow> global_object list \<times> nat" where
  "convert_module opc nm n [] = ([], n)"
| "convert_module opc nm n (Global g t # gs) = (case convert_module opc nm n gs of (gs', m) \<Rightarrow> (Global g t # gs', m))"
| "convert_module opc nm n (Func F t # gs) =
     (case convert_blocks opc nm n (fn_ir_blocks F) of
        (bbs, m) \<Rightarrow> (case convert_module opc nm m gs of (gs', k) \<Rightarrow> (Func (F\<lparr>fn_ir_blocks := bbs\<rparr>) t # gs', k)))"

text \<open>The constructor of \<open>AllocaBytesHandler\<close> declares three functions.\<close>

definition alloca_declarations :: "global_object list" where
  "alloca_declarations = map (\<lambda>(f, ts). Func \<lparr> fn_ir_name = f, fn_ir_args = map (Pair []) ts, fn_ir_blocks = [] \<rparr> TVoid)
     [(SetRefName, []), (SpillRefName, []), (FreeBytesName, [TInt 64])]"

fun alloca_module :: "nat \<Rightarrow> global_object list \<Rightarrow> (global_object list \<times> nat) checked" where
  "alloca_module n [] = Inr ([], n)"
| "alloca_module n (Global g t # gs) = rbind (alloca_module n gs) (\<lambda>(gs', m). Inr (Global g t # gs', m))"
| "alloca_module n (Func F t # gs) =
     rbind (alloca_function n F) (\<lambda>(F', m). rbind (alloca_module m gs) (\<lambda>(gs', k). Inr (Func F' t # gs', k)))"

text \<open>What \<open>DepromoteRegisters\<close> reads of a function: the block of each instruction, \<open>FinalUses\<close>, the phi nodes.\<close>

definition parents_of :: "ir_function \<Rightarrow> (nat \<times> block_id) list" where
  "parents_of F = concat (map (\<lambda>(bb, Is). map (\<lambda>I. (iid I, (fn_ir_name F, bb))) Is) (fn_ir_blocks F))"

definition phis_of :: "(inst \<Rightarrow> string list) \<Rightarrow> ir_function \<Rightarrow> string \<Rightarrow> (inst \<times> (string \<Rightarrow> val_ir)) list" where
  "phis_of incoming F bb =
     (case map_of (fn_ir_blocks F) bb of
        None \<Rightarrow> []
      | Some Is \<Rightarrow> map (\<lambda>I. (I, \<lambda>b. case map_of (zip (incoming I) (iops I)) b of Some v \<Rightarrow> v | None \<Rightarrow> VUndef (ity I)))
                    (filter (\<lambda>I. iop I = OpPhi) Is))"

definition function_context :: "(inst \<Rightarrow> string list) \<Rightarrow> nat heap_ops \<Rightarrow> (opcode \<Rightarrow> ty \<Rightarrow> val_ir list \<Rightarrow> val_ir option) \<Rightarrow>
    ir_function \<Rightarrow> fn_context" where
  "function_context incoming heap fold_const F =
     (let uses = final_uses incoming F in
      \<lparr> cx_parent = map_of (parents_of F),
        cx_final = (\<lambda>(f, bb). if f = fn_ir_name F then snd ` Set.filter (\<lambda>p. fst p = bb) uses else {}),
        cx_args = Map.empty, cx_globals = Map.empty, cx_phis = phis_of incoming F, cx_functions = [],
        cx_heap = heap, cx_fold = fold_const \<rparr>)"

subsection \<open>Backend::run\<close>

record backend_library =
  bl_uniq :: "string list \<Rightarrow> string \<Rightarrow> string"
  bl_verify :: "ir_function list \<Rightarrow> bool"
  bl_opcode :: "const_op \<Rightarrow> opcode"
  bl_name :: "nat \<Rightarrow> string"
  bl_incoming :: "inst \<Rightarrow> string list"
  bl_heap :: "nat heap_ops"
  bl_fold :: "opcode \<Rightarrow> ty \<Rightarrow> val_ir list \<Rightarrow> val_ir option"

text \<open>The module between \<open>DepromoteRegisters\<close> and the emitter; \<open>n\<close> is the next free number.\<close>

definition depromoted :: "backend_library \<Rightarrow> nat \<Rightarrow> global_object list \<Rightarrow> ir_function list checked" where
  "depromoted lib n gs =
     (case convert_module (bl_opcode lib) (bl_name lib) n (on_functions (InstNamer (bl_uniq lib)) gs) of
        (gs1, n1) \<Rightarrow>
          rbind (alloca_module n1 (gs1 @ alloca_declarations)) (\<lambda>(gs2, n2).
          rbind (depromote_module (function_context (bl_incoming lib) (bl_heap lib) (bl_fold lib)) gs2) (\<lambda>Fs.
            Inr (map eliminate_garbage Fs))))"

definition next_number :: "ir_function list \<Rightarrow> nat" where
  "next_number Fs = Suc (fold max (map iid (concat (map snd (concat (map fn_ir_blocks Fs))))) 0)"

definition backend_run :: "backend_library \<Rightarrow> nat \<Rightarrow> global_object list \<Rightarrow> string list checked" where
  "backend_run lib n gs =
     (if \<not> bl_verify lib (functions_of gs) then Inl ''verifyModule''
      else rbind (depromoted lib n gs) (\<lambda>Fs.
        if \<not> bl_verify lib Fs then Inl ''BUG: DepromoteRegisters created an ill-formed module!''
        else emitter_run (ResetPointer (next_number Fs) Fs)))"

end
