(* ===== verification/Backend_Run_Theorems.thy ===== *)
theory Backend_Run_Theorems
  imports Backend_Run Emitter_Theorems Register_Allocator_Props
begin

text \<open>
  The back end as a whole: each pass keeps the functions with their arguments and blocks, so that
  the assembly program has those of the source module.
\<close>

definition shape :: "ir_function \<Rightarrow> string \<times> nat \<times> string list" where
  "shape F = (fn_ir_name F, length (fn_ir_args F), map fst (fn_ir_blocks F))"

definition labelled :: "string \<times> nat \<times> string list \<Rightarrow> string \<times> nat \<times> string list" where
  "labelled = (\<lambda>(f, n, bbs). (f, n, map block_label bbs))"

definition shapes :: "global_object list \<Rightarrow> (string \<times> nat \<times> string list) list" where
  "shapes gs = map shape (functions_of gs)"

subsection \<open>The passes keep the shapes\<close>

lemma map_fst_blocks: "map fst (map (\<lambda>(bb, Is). (bb, g Is)) bbs) = map fst bbs"
  by (induction bbs) auto

lemma functions_of_append: "functions_of (gs @ gs') = functions_of gs @ functions_of gs'"
  by (induction gs rule: functions_of.induct) auto

lemma shape_InstNamer: "shape (InstNamer uniq F) = shape F"
  unfolding shape_def InstNamer_def Let_def by (simp add: map_fst_blocks del: map_map)

lemma shapes_on_functions: "(\<And>F. shape (f F) = shape F) \<Longrightarrow> shapes (on_functions f gs) = shapes gs"
  by (induction f gs rule: on_functions.induct) (simp_all add: shapes_def)

lemma convert_blocks_names: "convert_blocks opc nm n bbs = (bbs', m) \<Longrightarrow> map fst bbs' = map fst bbs"
  by (induction opc nm n bbs arbitrary: bbs' m rule: convert_blocks.induct) (auto split: prod.splits)

lemma shapes_convert: "convert_module opc nm n gs = (gs', m) \<Longrightarrow> shapes gs' = shapes gs"
  by (induction opc nm n gs arbitrary: gs' m rule: convert_module.induct)
    (auto simp: shapes_def shape_def convert_blocks_names split: prod.splits)

lemma alloca_block_name: "alloca_block bb s = Inr (bb', s') \<Longrightarrow> fst bb' = fst bb"
  by (auto simp: alloca_block_def rbind_def split: sum.splits prod.splits)

lemma alloca_blocks_names: "alloca_blocks bbs s = Inr (bbs', s') \<Longrightarrow> map fst bbs' = map fst bbs"
proof (induction bbs arbitrary: s bbs' s')
  case (Cons bb bbs)
  obtain b s1 bs s2 where "alloca_block bb s = Inr (b, s1)" "alloca_blocks bbs s1 = Inr (bs, s2)" "bbs' = b # bs"
    using Cons.prems by (auto simp: rbind_def split: sum.splits)
  then show ?case using alloca_block_name Cons.IH by simp
qed simp

lemma shape_alloca:
  assumes "alloca_function n F = Inr (F', m)" shows "shape F' = shape F"
proof -
  from assms obtain bbs s where "alloca_blocks (fn_ir_blocks F)
      \<lparr> ab_found = False, ab_free = True, ab_sizes = [], ab_set_ref = [], ab_number = n \<rparr> = Inr (bbs, s)"
    and F': "F' = F\<lparr>fn_ir_blocks := (case bbs of [] \<Rightarrow> [] | bb # rest \<Rightarrow> (fst bb, ab_set_ref s @ snd bb) # rest)\<rparr>"
    by (auto simp: alloca_function_def result_iff)
  from alloca_blocks_names [OF this(1)] show ?thesis by (cases bbs) (simp_all add: F' shape_def)
qed

lemma shapes_alloca: "alloca_module n gs = Inr (gs', m) \<Longrightarrow> shapes gs' = shapes gs"
  by (induction n gs arbitrary: gs' m rule: alloca_module.induct)
    (auto simp: shapes_def result_iff shape_alloca)

lemma bindm_result:
  assumes "bindm m f s = Inr r" "\<And>x s'. f x s' = Inr r \<Longrightarrow> P" shows P
  using assms by (auto simp: bindm_def rbind_def split: sum.splits)

lemma dp_block_name: "dp_visit_block cx f entry heap insts bb s = Inr (bb', s') \<Longrightarrow> fst bb' = block_label (fst bb)"
  unfolding dp_visit_block_def by (elim bindm_result) (simp add: ret_def, auto)

lemma dp_blocks_names: "dp_visit_blocks cx f entry heap insts bbs s = Inr (bbs', s') \<Longrightarrow> map fst bbs' = map (block_label \<circ> fst) bbs"
proof (induction bbs arbitrary: entry s bbs' s')
  case (Cons bb bbs)
  obtain b s1 bs s2 where "dp_visit_block cx f entry heap insts bb s = Inr (b, s1)"
    "dp_visit_blocks cx f False heap insts bbs s1 = Inr (bs, s2)" "bbs' = b # bs"
    using Cons.prems by (auto simp: bindm_def ret_def rbind_def split: sum.splits)
  then show ?case using dp_block_name Cons.IH by simp
qed (simp add: ret_def)

lemma shape_dp_function:
  assumes "dp_visit_function cx heap F s = Inr (F', s')"
  shows "shape F' = labelled (shape F)"
proof -
  obtain cx' insts s1 bbs s2 where "dp_visit_blocks cx' (fn_ir_name F) True heap insts (fn_ir_blocks F) s1 = Inr (bbs, s2)"
    and F': "F' = F\<lparr>fn_ir_args := target_args (fn_ir_args F), fn_ir_blocks := bbs\<rparr>"
    using assms by (auto simp: dp_visit_function_def Let_def bindm_def ret_def rbind_def split: sum.splits)
  from dp_blocks_names [OF this(1)] show ?thesis by (simp add: F' shape_def labelled_def target_args_def enumerate_eq_zip comp_def)
qed

lemma shape_dp_functions: "dp_visit_functions cxs heap Fs s = Inr (Fs', s') \<Longrightarrow> map shape Fs' = map (labelled \<circ> shape) Fs"
proof (induction Fs arbitrary: s Fs' s')
  case (Cons F Fs)
  obtain G s1 Gs s2 where "dp_visit_function (cxs F) heap F s = Inr (G, s1)" "dp_visit_functions cxs heap Fs s1 = Inr (Gs, s2)" "Fs' = G # Gs"
    using Cons.prems by (auto simp: bindm_def ret_def rbind_def split: sum.splits)
  then show ?case using shape_dp_function Cons.IH by simp
qed (simp add: ret_def)

lemma visit_globals_declarations: "visit_globals gs s = Inr (Fs, s') \<Longrightarrow> \<forall>F \<in> set Fs. fn_ir_blocks F = []"
  by (induction gs s arbitrary: Fs s' rule: visit_globals.induct) (fastforce simp: result_iff check_that_def split: if_splits)+

lemma shapes_depromote_module:
  assumes "depromote_module cxs gs = Inr Fs"
  obtains ds where "map shape Fs = map labelled (shapes gs) @ map shape ds" "\<forall>F \<in> set ds. fn_ir_blocks F = []"
proof -
  obtain Gs g where v: "visit_module gs = Inr (Gs, g)" using assms by (auto simp: depromote_module_def rbind_def split: sum.splits)
  have G: "\<forall>F \<in> set Gs. fn_ir_blocks F = []"
  proof -
    obtain Ks where Ks: "visit_globals gs gv_init = Inr (Ks, g)" "Gs = Ks \<or> Gs = Ks @ [malloc_declaration]"
      using v by (auto simp: visit_module_def rbind_def split: sum.splits if_splits)
    from visit_globals_declarations [OF Ks(1)] Ks(2) show ?thesis by (auto simp: malloc_declaration_def)
  qed
  obtain cxs' heap Hs s es where run: "dp_visit_functions cxs' heap (functions_of gs) empty_state = Inr (Hs, s)"
    and Fs: "Fs = Hs @ drop (length Hs) Gs @ es" and es: "\<forall>F \<in> set es. fn_ir_blocks F = []"
    using assms v by (auto simp: depromote_module_def set_global_declaration_def Let_def rbind_def split: sum.splits)
  show thesis
  proof (rule that [of "drop (length Hs) Gs @ es"])
    show "map shape Fs = map labelled (shapes gs) @ map shape (drop (length Hs) Gs @ es)"
      using shape_dp_functions [OF run] by (simp add: Fs shapes_def)
    show "\<forall>F \<in> set (drop (length Hs) Gs @ es). fn_ir_blocks F = []" using G es by (auto dest: in_set_dropD)
  qed
qed

lemma shape_garbage: "shape (eliminate_garbage F) = shape F"
  unfolding shape_def eliminate_garbage_def Let_def by (simp add: map_fst_blocks del: map_map)

lemma reset_blocks_names: "map fst (snd (reset_blocks n bbs)) = map fst bbs"
  by (induction n bbs rule: reset_blocks.induct) (auto simp: Let_def split: prod.splits)

lemma shape_reset: "map shape (snd (reset_functions n Fs)) = map shape Fs"
proof (induction Fs arbitrary: n)
  case (Cons F Fs)
  show ?case using Cons [of "fst (reset_blocks n (fn_ir_blocks F))"] reset_blocks_names [of n "fn_ir_blocks F"]
    by (simp add: Let_def shape_def case_prod_unfold)
qed simp

text \<open>What a shape says of a function of the target.\<close>

definition shape_defined :: "string \<times> nat \<times> string list \<Rightarrow> bool" where
  "shape_defined = (\<lambda>(f, n, bbs). bbs \<noteq> [] \<and> f \<noteq> GetSPName)"

lemma defined_shape: "defined F = shape_defined (shape F)"
  by (simp add: defined_def shape_defined_def shape_def is_declaration_def)

lemma backend_shapes:
  assumes "depromoted lib n gs = Inr Fs"
  shows "set (filter shape_defined (map shape (ResetPointer m Fs))) = set (filter shape_defined (map labelled (shapes gs)))"
proof -
  obtain gs1 n1 gs2 n2 Gs where c: "convert_module (bl_opcode lib) (bl_name lib) n (on_functions (InstNamer (bl_uniq lib)) gs) = (gs1, n1)"
    and a: "alloca_module n1 (gs1 @ alloca_declarations) = Inr (gs2, n2)"
    and d: "depromote_module (function_context (bl_incoming lib) (bl_heap lib) (bl_fold lib)) gs2 = Inr Gs"
    and Fs: "Fs = map eliminate_garbage Gs"
    using assms by (auto simp: depromoted_def rbind_def split: prod.splits sum.splits)
  have gs2: "shapes gs2 = shapes gs @ shapes alloca_declarations"
    using shapes_alloca [OF a] shapes_convert [OF c] shapes_on_functions [OF shape_InstNamer]
    by (simp add: shapes_def functions_of_append)
  have none: "filter shape_defined (map labelled (shapes alloca_declarations)) = []"
    by (simp add: alloca_declarations_def shapes_def shape_def labelled_def shape_defined_def)
  obtain ds where ds: "map shape Gs = map labelled (shapes gs2) @ map shape ds" "\<forall>F \<in> set ds. fn_ir_blocks F = []"
    by (rule shapes_depromote_module [OF d])
  have "filter shape_defined (map shape ds) = []" using ds(2) by (auto simp: filter_empty_conv shape_defined_def shape_def)
  moreover have "map shape Fs = map shape Gs" by (simp add: Fs shape_garbage)
  ultimately have "filter shape_defined (map shape Fs) = filter shape_defined (map labelled (shapes gs))"
    using none unfolding ds(1) gs2 by simp
  moreover have "filter shape_defined (map shape (ResetPointer m Fs)) = filter shape_defined (map shape Fs)"
    unfolding ResetPointer_def shape_reset by (simp add: shape_def shape_defined_def)
  ultimately show ?thesis by simp
qed

subsection \<open>A sample\<close>

definition sample_library :: backend_library where
  "sample_library =
     \<lparr> bl_uniq = (\<lambda>ns w. w @ nat_to_string (length ns)), bl_verify = (\<lambda>_. True),
       bl_opcode = (\<lambda>c. case c of CIntToPtr \<Rightarrow> OpIntToPtr | CBitCast \<Rightarrow> OpBitCast | COther \<Rightarrow> OpOther),
       bl_name = (\<lambda>n. ''from_constexpr'' @ nat_to_string n), bl_incoming = (\<lambda>_. []), bl_heap = sorted_heap_ops,
       bl_fold = (\<lambda>_ _ _. None) \<rparr>"

definition sample_sum :: inst where
  "sample_sum = Inst 1 (OpBin Add) ''b'' (TInt 64) [VInt 64 1, VInt 64 5]"

definition sample_sum_source :: "global_object list" where
  "sample_sum_source =
     [Func \<lparr> fn_ir_name = ''main'', fn_ir_args = [],
             fn_ir_blocks = [(''entry'', [sample_sum, Inst 2 OpRet [] TVoid [VInst sample_sum]])] \<rparr> (TInt 64)]"

definition sample_sum_target :: "ir_function list" where
  "sample_sum_target =
     (let r = Inst 1 (OpBin Add) ''__r1__'' (TInt 64) [VInt 64 1, VInt 64 5]
      in \<lparr> fn_ir_name = ''main'', fn_ir_args = [],
           fn_ir_blocks = [(''.entry'', [Inst 0 (OpAlloca (TInt 64)) ''b_slot_garbage'' (TPtr (TInt 64)) [], r,
                                        Inst 2 OpRet [] TVoid [VInst r]])] \<rparr> #
         map (\<lambda>(f, xs). \<lparr> fn_ir_name = f, fn_ir_args = map (\<lambda>x. (x, TInt 64)) xs, fn_ir_blocks = [] \<rparr>)
           [(SetRefName, []), (SpillRefName, []), (FreeBytesName, [''__arg1__'']), (''malloc'', [[]])])"

lemma sample_depromoted: "depromoted sample_library 10 sample_sum_source = Inr sample_sum_target"
  by code_simp

definition sample_sum_final :: "ir_function list" where
  "sample_sum_final =
     sample_sum_target @ map (\<lambda>f. \<lparr> fn_ir_name = f, fn_ir_args = [], fn_ir_blocks = [] \<rparr>) [''__reset_stack__'', ''__reset_heap__'']"

lemma sample_reset: "ResetPointer (next_number sample_sum_target) sample_sum_target = sample_sum_final"
  by code_simp

lemma sample_text:
  "emitter_run sample_sum_final =
     Inr [[], ''; Function main'', ''start main 0:'', ''  .entry:'', ''    r1 = add 1 5 64'', ''    ret r1'', ''end main'']"
  by code_simp

lemma sample_sum_final_ok: "module_ok sample_sum_final"
proof -
  have "''entry'' \<in> lang tName"
    unfolding tName_def lang_plus_Chr by (auto simp: name_char_def char_between_def)
  then have "''.'' @ ''entry'' @ [] \<in> lang tBBName"
    unfolding tBBName_def by (intro lang_seq_intros) simp_all
  then have "bb_name ''.entry''" by (simp add: bb_name_def regex_match_iff)
  moreover have "fn_name ''main''" by (rule names_in_lang)
  ultimately show ?thesis
    by (simp add: module_ok_def sample_sum_final_def sample_sum_target_def Let_def width_ok_def valid_int_bitwidth_def function_ok_def defined_def is_declaration_def
      GetSPName_def inst_ok_def ir_terminator_def blocks_bytes_def inst_bytes_def slot_bytes_def garbage_def ends_with_def)
qed



end
