(* ===== verification/Remove_Unsupported_Ops.thy ===== *)
theory Remove_Unsupported_Ops
  imports Ir_Semantics
begin

text \<open>
  The pass that removes what the target has no instruction for
  (\<open>src/src/passes/RemoveUnsupportedOps.cpp\<close>): lifetime markers, \<open>unreachable\<close> and operands that
  are \<open>undef\<close>.

  Which functions are the lifetime intrinsics is a parameter. The fallible results are \<open>None\<close>
  where an assertion of \<open>ConstantInt::get\<close> fails.
\<close>

subsection \<open>The pass\<close>

fun getZero :: "ty \<Rightarrow> val_ir option" where
  "getZero (TPtr t) = Some (VNull (TPtr t))"
| "getZero (TInt w) = Some (VInt w 0)"
| "getZero t = None"

text \<open>An operand shows the instruction it refers to, with the operands that instruction has now.\<close>

fun zero_value :: "val_ir \<Rightarrow> val_ir" where
  "zero_value (VUndef t) = (case getZero t of Some z \<Rightarrow> z | None \<Rightarrow> VUndef t)"
| "zero_value (VInst (Inst i k nm t vs)) = VInst (Inst i k nm t (map zero_value vs))"
| "zero_value v = v"

definition has_zero :: "val_ir \<Rightarrow> bool" where
  "has_zero v = (case v of VUndef t \<Rightarrow> getZero t \<noteq> None | _ \<Rightarrow> True)"

definition zero_operands :: "inst \<Rightarrow> inst option" where
  "zero_operands I =
     (if \<forall>v \<in> set (iops I). has_zero v
      then Some (Inst (iid I) (iop I) (iname I) (ity I) (map zero_value (iops I))) else None)"

definition return_zero :: "ty \<Rightarrow> nat \<Rightarrow> inst option" where
  "return_zero rt n =
     (if rt = TVoid then Some (Inst n OpRet [] TVoid [])
      else map_option (\<lambda>z. Inst n OpRet [] TVoid [z]) (getZero rt))"

definition is_lifetime :: "(string \<Rightarrow> bool) \<Rightarrow> inst \<Rightarrow> bool" where
  "is_lifetime lifetime I = (case iop I of OpCall f \<Rightarrow> lifetime f | _ \<Rightarrow> False)"

text \<open>What an instruction becomes, and the next free number.\<close>

definition supported_inst :: "(string \<Rightarrow> bool) \<Rightarrow> ty \<Rightarrow> nat \<Rightarrow> inst \<Rightarrow> (inst list \<times> nat) option" where
  "supported_inst lifetime rt n I =
     (if is_lifetime lifetime I then Some ([], n)
      else if iop I = OpUnreachable then map_option (\<lambda>R. ([R], n + 1)) (return_zero rt n)
      else map_option (\<lambda>J. ([J], n)) (zero_operands I))"

fun supported_insts :: "(string \<Rightarrow> bool) \<Rightarrow> ty \<Rightarrow> nat \<Rightarrow> inst list \<Rightarrow> (inst list \<times> nat) option" where
  "supported_insts lifetime rt n [] = Some ([], n)"
| "supported_insts lifetime rt n (I # Is) =
     (case supported_inst lifetime rt n I of
        None \<Rightarrow> None
      | Some (Js, m) \<Rightarrow> (case supported_insts lifetime rt m Is of None \<Rightarrow> None | Some (Ks, k) \<Rightarrow> Some (Js @ Ks, k)))"

fun supported_blocks :: "(string \<Rightarrow> bool) \<Rightarrow> ty \<Rightarrow> nat \<Rightarrow> ir_block list \<Rightarrow> (ir_block list \<times> nat) option" where
  "supported_blocks lifetime rt n [] = Some ([], n)"
| "supported_blocks lifetime rt n ((bb, Is) # bbs) =
     (case supported_insts lifetime rt n Is of
        None \<Rightarrow> None
      | Some (Js, m) \<Rightarrow>
          (case supported_blocks lifetime rt m bbs of None \<Rightarrow> None | Some (bbs', k) \<Rightarrow> Some ((bb, Js) # bbs', k)))"

definition RemoveUnsupportedOps :: "(string \<Rightarrow> bool) \<Rightarrow> ty \<Rightarrow> nat \<Rightarrow> ir_function \<Rightarrow> (ir_function \<times> nat) option" where
  "RemoveUnsupportedOps lifetime rt n F =
     map_option (\<lambda>(bbs, m). (F\<lparr>fn_ir_blocks := bbs\<rparr>, m)) (supported_blocks lifetime rt n (fn_ir_blocks F))"

end
