(* ===== verification/Remove_Unsupported_Theorems.thy ===== *)
theory Remove_Unsupported_Theorems
  imports Remove_Unsupported_Ops
begin

text \<open>
  What \<open>RemoveUnsupportedOps\<close> keeps: every run of a function that does not get stuck, with
  lifetime markers that do nothing and each \<open>undef\<close> read as zero.
\<close>

subsection \<open>Operands\<close>

lemma getZero_ty: "getZero t = Some z \<Longrightarrow> val_ty z = t"
  by (cases t) auto

definition undef_is_zero :: "(val_ir \<Rightarrow> u64) \<Rightarrow> bool" where
  "undef_is_zero cv \<longleftrightarrow> (\<forall>t. cv (VNull t) = 0 \<and> cv (VUndef t) = 0)"

lemma zero_value_ty [simp]: "val_ty (zero_value v) = val_ty v"
  by (cases v rule: zero_value.cases) (auto simp: getZero_ty split: option.splits)

lemma zero_value_operand [simp]: "undef_is_zero cv \<Longrightarrow> operand cv env (zero_value v) = operand cv env v"
proof (cases v)
  case (VUndef t)
  assume "undef_is_zero cv"
  then show ?thesis using VUndef by (cases t) (simp_all add: undef_is_zero_def)
next
  case (VInst I)
  then show ?thesis by (cases I) simp
qed simp_all

text \<open>The values of the markers are not used.\<close>

definition marker_ids :: "(string \<Rightarrow> bool) \<Rightarrow> ir_block list \<Rightarrow> nat set" where
  "marker_ids lifetime bbs = iid ` {I. is_lifetime lifetime I \<and> (\<exists>bb \<in> set bbs. I \<in> set (snd bb))}"

definition unused :: "nat set \<Rightarrow> inst list \<Rightarrow> bool" where
  "unused D Is \<longleftrightarrow> (\<forall>I \<in> set Is. (\<forall>v \<in> set (iops I). case v of VInst J \<Rightarrow> iid J \<notin> D | _ \<Rightarrow> True))"

definition agree_but :: "nat set \<Rightarrow> (nat \<Rightarrow> u64) \<Rightarrow> (nat \<Rightarrow> u64) \<Rightarrow> bool" where
  "agree_but D env env' \<longleftrightarrow> (\<forall>i. i \<notin> D \<longrightarrow> env' i = env i)"

lemma agree_but_operand:
  assumes "agree_but D env env'" "case v of VInst J \<Rightarrow> iid J \<notin> D | _ \<Rightarrow> True"
  shows "operand cv env' v = operand cv env v"
  using assms by (cases v) (simp_all add: agree_but_def)

lemma zero_operands_same:
  assumes "zero_operands I = Some J" "undef_is_zero cv" "agree_but D env env'" "unused D [I]"
  shows "iid J = iid I" "iop J = iop I" "ity J = ity I"
    "map (operand cv env') (iops J) = map (operand cv env) (iops I)"
    "map (typed_operand cv env') (iops J) = map (typed_operand cv env) (iops I)"
proof -
  have J: "J = Inst (iid I) (iop I) (iname I) (ity I) (map zero_value (iops I))"
    using assms(1) by (simp add: zero_operands_def split: if_splits)
  then show "iid J = iid I" "iop J = iop I" "ity J = ity I" by simp_all
  have "operand cv env' v = operand cv env v" if "v \<in> set (iops I)" for v
    using that assms(3,4) by (intro agree_but_operand) (auto simp: unused_def)
  then show "map (operand cv env') (iops J) = map (operand cv env) (iops I)"
    "map (typed_operand cv env') (iops J) = map (typed_operand cv env) (iops I)"
    using assms(2) by (simp_all add: J typed_operand_def)
qed

subsection \<open>Blocks\<close>

definition phis_first :: "inst list \<Rightarrow> bool" where
  "phis_first Is \<longleftrightarrow> (\<forall>I \<in> set (dropWhile is_phi Is). \<not> is_phi I)"

lemma supported_Cons:
  assumes "supported_insts lifetime rt n (I # Is) = Some (Js, m)"
  obtains js k ks where "supported_inst lifetime rt n I = Some (js, k)" "supported_insts lifetime rt k Is = Some (ks, m)" "Js = js @ ks"
  using assms by (auto split: option.splits)

lemma supported_no_phi:
  "\<lbrakk> supported_insts lifetime rt n Is = Some (Js, m); \<forall>I \<in> set Is. \<not> is_phi I \<rbrakk> \<Longrightarrow> \<forall>J \<in> set Js. \<not> is_phi J"
  by (induction Is arbitrary: n Js m)
    (fastforce simp: supported_inst_def zero_operands_def return_zero_def is_phi_def split: option.splits if_splits)+

lemma supported_phis:
  assumes "supported_insts lifetime rt n Is = Some (Js, m)" "phis_first Is" "undef_is_zero cv" "agree_but D env env'" "unused D Is"
  obtains "phi_env cv inc b env (takeWhile is_phi Is) = None" "phi_env cv inc b env' (takeWhile is_phi Js) = None"
  | e e' k where "phi_env cv inc b env (takeWhile is_phi Is) = Some e" "phi_env cv inc b env' (takeWhile is_phi Js) = Some e'"
      "agree_but D e e'" "supported_insts lifetime rt k (dropWhile is_phi Is) = Some (dropWhile is_phi Js, m)"
proof -
  have "case phi_env cv inc b env (takeWhile is_phi Is) of
      None \<Rightarrow> phi_env cv inc b env' (takeWhile is_phi Js) = None
    | Some e \<Rightarrow> \<exists>e' k. phi_env cv inc b env' (takeWhile is_phi Js) = Some e' \<and> agree_but D e e' \<and>
        supported_insts lifetime rt k (dropWhile is_phi Is) = Some (dropWhile is_phi Js, m)"
    using assms(1,2,5)
  proof (induction Is arbitrary: n Js)
    case Nil
    then show ?case using assms(4) by auto
  next
    case (Cons I Is)
    show ?case
    proof (cases "is_phi I")
      case True
      have nk: "\<not> is_lifetime lifetime I" "iop I \<noteq> OpUnreachable" using True by (simp_all add: is_phi_def is_lifetime_def)
      obtain J ks where J: "zero_operands I = Some J" "supported_insts lifetime rt n Is = Some (ks, m)" "Js = J # ks"
        using Cons.prems(1) nk by (auto simp: supported_inst_def split: option.splits)
      have I: "unused D [I]" "unused D Is" "phis_first Is" using Cons.prems(2,3) True by (auto simp: unused_def phis_first_def)
      note same = zero_operands_same [OF J(1) assms(3,4) I(1)]
      have "is_phi J" using same(2) True by (simp add: is_phi_def)
      have ops: "map_option (operand cv env') (map_of (zip bs (iops J)) b) = map_option (operand cv env) (map_of (zip bs (iops I)) b)" for bs
      proof -
        have "map_of (zip bs (map f xs)) b = map_option f (map_of (zip bs xs) b)" for f :: "val_ir \<Rightarrow> u64" and xs
          by (induction bs arbitrary: xs) (auto simp: zip_Cons1 split: list.splits)
        from this [of "operand cv env'" "iops J"] this [of "operand cv env" "iops I"] show ?thesis unfolding same(4) by simp
      qed
      from Cons.IH [OF J(2) I(3,2)] ops [of "inc (iid I)"] show ?thesis
        using True \<open>is_phi J\<close> same(1)
        by (auto simp: J(3) agree_but_def split: option.splits)
    next
      case False
      then have none: "\<forall>I' \<in> set (I # Is). \<not> is_phi I'" using Cons.prems(2) by (simp add: phis_first_def)
      then have "\<forall>J \<in> set Js. \<not> is_phi J" using supported_no_phi Cons.prems(1) by blast
      then have "takeWhile is_phi Js = []" "dropWhile is_phi Js = Js" by (cases Js; simp)+
      then show ?thesis using False Cons.prems(1) assms(4) by auto
    qed
  qed
  then show thesis using that by (fastforce split: option.splits)
qed

lemma supported_block_of:
  assumes "supported_blocks lifetime rt n bbs = Some (bbs', m)"
  shows "case map_of bbs t of
      None \<Rightarrow> map_of bbs' t = None
    | Some Is \<Rightarrow> \<exists>Js k l. map_of bbs' t = Some Js \<and> supported_insts lifetime rt k Is = Some (Js, l)"
  using assms
proof (induction lifetime rt n bbs arbitrary: bbs' m rule: supported_blocks.induct)
  case (2 lifetime rt n bb Is bbs)
  obtain Js k bs where h: "supported_insts lifetime rt n Is = Some (Js, k)" "supported_blocks lifetime rt k bbs = Some (bs, m)"
    "bbs' = (bb, Js) # bs" using "2.prems" by (auto split: option.splits)
  show ?case using "2.IH" [OF h(1) refl h(2)] h(1) by (auto simp: h(3) split: option.splits)
qed simp

subsection \<open>Runs\<close>

text \<open>Lifetime markers only tell the optimiser something.\<close>

definition markers_do_nothing :: "(string \<Rightarrow> bool) \<Rightarrow> 's external \<Rightarrow> bool" where
  "markers_do_nothing lifetime ext \<longleftrightarrow> (\<forall>f t vs s. lifetime f \<longrightarrow> (\<exists>x. ext (OpCall f) t vs s = Inr (x, s)))"

text \<open>A stepper that tells instructions apart by their number, opcode and type, and skips the markers.\<close>

definition skips_markers :: "(string \<Rightarrow> bool) \<Rightarrow> ir_block list \<Rightarrow> 's stepper \<Rightarrow> bool" where
  "skips_markers lifetime bbs st \<longleftrightarrow>
     (\<forall>I J. iid I = iid J \<longrightarrow> iop I = iop J \<longrightarrow> ity I = ity J \<longrightarrow> st I = st J) \<and>
     (\<forall>bb \<in> set bbs. \<forall>I \<in> set (snd bb). is_lifetime lifetime I \<longrightarrow> (\<forall>vs s. \<exists>x. st I vs s = Inr (x, s)))"

lemma exec_inst_skips: "markers_do_nothing lifetime ext \<Longrightarrow> skips_markers lifetime bbs (exec_inst ext)"
  by (auto simp: skips_markers_def markers_do_nothing_def exec_inst_def exec_op_def is_lifetime_def fun_eq_iff split: opcode.splits)

definition source_ok :: "(string \<Rightarrow> bool) \<Rightarrow> ir_block list \<Rightarrow> bool" where
  "source_ok lifetime bbs \<longleftrightarrow> (\<forall>bb \<in> set bbs. phis_first (snd bb) \<and> unused (marker_ids lifetime bbs) (snd bb))"

definition skipped :: "(string \<Rightarrow> bool) \<Rightarrow> 's stepper \<Rightarrow> nat set \<Rightarrow> inst list \<Rightarrow> bool" where
  "skipped lifetime st D Is \<longleftrightarrow>
     (\<forall>I \<in> set Is. is_lifetime lifetime I \<longrightarrow> iid I \<in> D \<and> (\<forall>vs s. \<exists>x. st I vs s = Inr (x, s)))"

lemma skipped_sub: "\<lbrakk> skipped lifetime st D Is; set Js \<subseteq> set Is \<rbrakk> \<Longrightarrow> skipped lifetime st D Js"
  unfolding skipped_def by blast

lemma unused_sub: "\<lbrakk> unused D Is; set Js \<subseteq> set Is \<rbrakk> \<Longrightarrow> unused D Js"
  unfolding unused_def by blast

lemma supported_run_block:
  assumes D: "skipped lifetime st D Is" "unused D Is"
    and cv: "undef_is_zero cv" and st: "\<forall>I J. iid I = iid J \<longrightarrow> iop I = iop J \<longrightarrow> ity I = ity J \<longrightarrow> st I = st J"
    and enter: "\<And>t e e' s. agree_but D e e' \<Longrightarrow> enter_block st cv inc bbs f b t e s \<noteq> Stuck \<Longrightarrow>
      enter_block st cv inc bbs' f b t e' s = enter_block st cv inc bbs f b t e s"
    and "supported_insts lifetime rt n Is = Some (Js, m)" "agree_but D env env'" "run st cv inc bbs f b Is env s \<noteq> Stuck"
  shows "run st cv inc bbs' f b Js env' s = run st cv inc bbs f b Is env s"
  using D assms(6-8)
proof (induction Is arbitrary: n Js env env' s)
  case (Cons I Is)
  obtain js k ks where sup: "supported_inst lifetime rt n I = Some (js, k)" "supported_insts lifetime rt k Is = Some (ks, m)" "Js = js @ ks"
    by (rule supported_Cons [OF Cons.prems(3)])
  have D: "skipped lifetime st D Is" "unused D Is" "unused D [I]"
    using Cons.prems(1,2) by (auto intro: skipped_sub unused_sub)
  note IH = Cons.IH [OF D(1,2) sup(2)]
  show ?case
  proof (cases "is_lifetime lifetime I")
    case True
    then obtain g where g: "iop I = OpCall g" "lifetime g" by (auto simp: is_lifetime_def split: opcode.splits)
    have p: "control_of (iop I) (map (operand cv env) (iops I)) = Plain" by (simp add: g control_of_def)
    obtain x where x: "st I (map (typed_operand cv env) (iops I)) s = Inr (x, s)"
      using Cons.prems(1) True unfolding skipped_def by (meson list.set_intros(1))
    have r: "run st cv inc bbs f b (I # Is) env s = run st cv inc bbs f b Is (env(iid I := x)) s"
      by (simp add: run_Plain [OF p] x)
    have "agree_but D (env(iid I := x)) env'" using Cons.prems(1,4) True by (simp add: agree_but_def skipped_def)
    from IH [OF this] Cons.prems(5) show ?thesis unfolding r using sup True by (simp add: supported_inst_def fun_upd_def)
  next
    case marker: False
    show ?thesis
    proof (cases "iop I = OpUnreachable")
      case True
      then show ?thesis using Cons.prems(5) by (simp add: run.simps control_of_def split: list.splits)
    next
      case False
      then obtain J where J: "zero_operands I = Some J" "Js = J # ks"
        using sup marker by (auto simp: supported_inst_def)
      note same = zero_operands_same [OF J(1) cv Cons.prems(4) D(3)]
      have c: "control_of (iop J) (map (operand cv env') (iops J)) = control_of (iop I) (map (operand cv env) (iops I))"
        by (simp only: same)
      show ?thesis
      proof (cases "control_of (iop I) (map (operand cv env) (iops I))")
        case Plain
        have eq: "st J (map (typed_operand cv env') (iops J)) s = st I (map (typed_operand cv env) (iops I)) s"
          using st same by metis
        show ?thesis
        proof (cases "st I (map (typed_operand cv env) (iops I)) s")
          case (Inr r)
          obtain x s' where "r = (x, s')" by (cases r)
          then show ?thesis
            using IH [of "env(iid I := x)" "env'(iid I := x)" s'] Cons.prems(4,5) Inr
            by (simp add: J(2) run_Plain [OF Plain] run_Plain [OF Plain [folded c]] eq same(1) agree_but_def fun_upd_def)
        qed (simp add: J(2) run_Plain [OF Plain] run_Plain [OF Plain [folded c]] eq)
      next
        case (Jump t)
        then show ?thesis using enter [OF Cons.prems(4)] Cons.prems(5)
          by (simp add: J(2) run_Jump [OF Jump] run_Jump [OF Jump [folded c]])
      next
        case Finish
        then show ?thesis using Finish [folded c] same(4) by (simp add: J(2) run.simps)
      next
        case Blocked
        then show ?thesis using Cons.prems(5) by (simp add: run.simps)
      qed
    qed
  qed
qed simp

lemma marker_in_ids: "\<lbrakk> bb \<in> set bbs; I \<in> set (snd bb); is_lifetime lifetime I \<rbrakk> \<Longrightarrow> iid I \<in> marker_ids lifetime bbs"
  unfolding marker_ids_def by blast

lemma marker_skipped:
  "\<lbrakk> skips_markers lifetime bbs st; bb \<in> set bbs; I \<in> set (snd bb); is_lifetime lifetime I \<rbrakk> \<Longrightarrow> \<forall>vs s. \<exists>x. st I vs s = Inr (x, s)"
  unfolding skips_markers_def by blast

lemma alike: "skips_markers lifetime bbs st \<Longrightarrow> \<forall>I J. iid I = iid J \<longrightarrow> iop I = iop J \<longrightarrow> ity I = ity J \<longrightarrow> st I = st J"
  unfolding skips_markers_def by blast

lemma markers_in:
  assumes "skips_markers lifetime bbs st" "bb \<in> set bbs"
  shows "skipped lifetime st (marker_ids lifetime bbs) (snd bb)"
  unfolding skipped_def using marker_in_ids [OF assms(2)] marker_skipped [OF assms] by blast

lemma supported_enter:
  assumes bbs: "supported_blocks lifetime rt n bbs = Some (bbs', m)" and ok: "source_ok lifetime bbs"
    and cv: "undef_is_zero cv" and st: "skips_markers lifetime bbs st"
    and "agree_but (marker_ids lifetime bbs) env env'" "enter_block st cv inc bbs f b t env s \<noteq> Stuck"
  shows "enter_block st cv inc bbs' f b t env' s = enter_block st cv inc bbs f b t env s"
  using assms(5,6)
proof (induction f arbitrary: b t env env' s)
  case (Suc g)
  let ?D = "marker_ids lifetime bbs"
  obtain Is e where I: "map_of bbs t = Some Is" "phi_env cv inc b env (takeWhile is_phi Is) = Some e"
    using Suc.prems(2) by (auto simp: enter_block_def split: option.splits)
  obtain Js k l where J: "map_of bbs' t = Some Js" "supported_insts lifetime rt k Is = Some (Js, l)"
    using supported_block_of [OF bbs, of t] I(1) by auto
  have t: "(t, Is) \<in> set bbs" using I(1) by (rule map_of_SomeD)
  then have ph: "phis_first Is" "unused ?D Is" using ok by (auto simp: source_ok_def)
  obtain e' k' where E: "phi_env cv inc b env' (takeWhile is_phi Js) = Some e'" "agree_but ?D e e'"
      "supported_insts lifetime rt k' (dropWhile is_phi Is) = Some (dropWhile is_phi Js, l)"
    by (rule supported_phis [OF J(2) ph(1) cv Suc.prems(1) ph(2), of inc b]) (use I(2) in auto)
  have sub: "set (dropWhile is_phi Is) \<subseteq> set Is" by (auto dest: set_dropWhileD)
  note D = skipped_sub [OF markers_in [OF st t, unfolded snd_conv] sub] unused_sub [OF ph(2) sub]
  have "run st cv inc bbs g t (dropWhile is_phi Is) e s \<noteq> Stuck"
    using Suc.prems(2) I by (simp add: enter_block_def)
  from supported_run_block [OF D cv alike [OF st] Suc.IH E(3,2) this]
  show ?case using I J(1) E(1) by (simp add: enter_block_def)
qed (simp add: enter_block_def)

text \<open>Nothing of what the target lacks is left.\<close>

definition supported :: "(string \<Rightarrow> bool) \<Rightarrow> inst \<Rightarrow> bool" where
  "supported lifetime I \<longleftrightarrow> \<not> is_lifetime lifetime I \<and> iop I \<noteq> OpUnreachable \<and> (\<forall>v \<in> set (iops I). case v of VUndef t \<Rightarrow> False | _ \<Rightarrow> True)"

lemma getZero_no_undef: "getZero t \<noteq> Some (VUndef u)"
  by (cases t) auto

lemma zero_value_no_undef: "has_zero v \<Longrightarrow> case zero_value v of VUndef t \<Rightarrow> False | _ \<Rightarrow> True"
  by (cases v rule: zero_value.cases) (auto simp: has_zero_def getZero_no_undef split: option.splits val_ir.splits)

lemma zero_operands_supported:
  assumes "zero_operands I = Some J" "\<not> is_lifetime lifetime I" "iop I \<noteq> OpUnreachable" shows "supported lifetime J"
proof -
  have J: "J = Inst (iid I) (iop I) (iname I) (ity I) (map zero_value (iops I))" and z: "\<forall>v \<in> set (iops I). has_zero v"
    using assms(1) by (simp_all add: zero_operands_def split: if_splits)
  have "is_lifetime lifetime J = is_lifetime lifetime I" by (simp add: J is_lifetime_def)
  then show ?thesis using assms(2,3) z zero_value_no_undef by (simp add: supported_def J)
qed

lemma return_zero_supported: "return_zero rt n = Some J \<Longrightarrow> supported lifetime J"
  by (cases rt) (auto simp: return_zero_def supported_def is_lifetime_def)

lemma supported_inst_supported:
  assumes "supported_inst lifetime rt n I = Some (js, k)" shows "\<forall>J \<in> set js. supported lifetime J"
  using assms zero_operands_supported return_zero_supported
  by (auto simp: supported_inst_def split: if_splits)

lemma supported_insts_supported:
  "supported_insts lifetime rt n Is = Some (Js, m) \<Longrightarrow> \<forall>J \<in> set Js. supported lifetime J"
proof (induction Is arbitrary: n Js)
  case (Cons I Is)
  obtain js k ks where sup: "supported_inst lifetime rt n I = Some (js, k)" "supported_insts lifetime rt k Is = Some (ks, m)" "Js = js @ ks"
    by (rule supported_Cons [OF Cons.prems])
  have "\<forall>J \<in> set js. supported lifetime J"
    by (rule supported_inst_supported [OF sup(1)])
  then show ?case using Cons.IH [OF sup(2)] sup(3) by auto
qed simp

lemma supported_blocks_supported:
  "supported_blocks lifetime rt n bbs = Some (bbs', m) \<Longrightarrow> \<forall>bb \<in> set bbs'. \<forall>J \<in> set (snd bb). supported lifetime J"
proof (induction lifetime rt n bbs arbitrary: bbs' m rule: supported_blocks.induct)
  case (2 lifetime rt n bb Is bbs)
  obtain Js k bs where h: "supported_insts lifetime rt n Is = Some (Js, k)" "supported_blocks lifetime rt k bbs = Some (bs, m)"
    "bbs' = (bb, Js) # bs" using "2.prems" by (auto split: option.splits)
  show ?case using "2.IH" [OF h(1) refl h(2)] supported_insts_supported [OF h(1)] by (simp add: h(3))
qed simp

lemma supported_run_main:
  assumes b: "supported_blocks lifetime rt n bbs = Some (bbs', m)" and ok: "source_ok lifetime bbs"
    and cv: "undef_is_zero cv" and st: "skips_markers lifetime bbs st" and old: "run_main st cv inc bbs f s \<noteq> Stuck"
  shows "run_main st cv inc bbs' f s = run_main st cv inc bbs f s"
proof (cases bbs)
  case (Cons p rest)
  obtain t Is where p: "p = (t, Is)" by (cases p)
  obtain Js k l rest' where J: "supported_insts lifetime rt n Is = Some (Js, k)" "bbs' = (t, Js) # rest'"
    using b by (auto simp: Cons p split: option.splits)
  have t: "(t, Is) \<in> set bbs" by (simp add: Cons p)
  have un: "unused (marker_ids lifetime bbs) Is" using ok t by (auto simp: source_ok_def)
  note D = markers_in [OF st t, unfolded snd_conv] un
  have "agree_but (marker_ids lifetime bbs) (\<lambda>_. 0) (\<lambda>_. 0)" by (simp add: agree_but_def)
  from supported_run_block [OF D cv alike [OF st] supported_enter [OF b ok cv st] J(1) this, of inc f t s] old
  show ?thesis by (simp add: run_main_def Cons p J(2))
qed (use old in \<open>simp add: run_main_def\<close>)

subsection \<open>The pass succeeds\<close>

definition types_ok :: "ty \<Rightarrow> ir_block list \<Rightarrow> bool" where
  "types_ok rt bbs \<longleftrightarrow> (rt = TVoid \<or> getZero rt \<noteq> None) \<and> (\<forall>bb \<in> set bbs. \<forall>I \<in> set (snd bb). \<forall>v \<in> set (iops I). has_zero v)"

lemma supported_insts_total:
  assumes "rt = TVoid \<or> getZero rt \<noteq> None" "\<forall>I \<in> set Is. \<forall>v \<in> set (iops I). has_zero v"
  shows "\<exists>Js m. supported_insts lifetime rt n Is = Some (Js, m)"
  using assms(2)
proof (induction Is arbitrary: n)
  case (Cons I Is)
  have "supported_inst lifetime rt n I \<noteq> None"
    using assms(1) Cons.prems by (auto simp: supported_inst_def zero_operands_def return_zero_def)
  then obtain js k where "supported_inst lifetime rt n I = Some (js, k)" by fastforce
  moreover obtain ks m where "supported_insts lifetime rt k Is = Some (ks, m)" using Cons.IH [of k] Cons.prems by auto
  ultimately show ?case by simp
qed simp

lemma supported_blocks_total: "types_ok rt bbs \<Longrightarrow> \<exists>bbs' m. supported_blocks lifetime rt n bbs = Some (bbs', m)"
proof (induction bbs arbitrary: n)
  case (Cons p bbs)
  obtain bb Is where p: "p = (bb, Is)" by (cases p)
  have t: "rt = TVoid \<or> getZero rt \<noteq> None" "\<forall>I \<in> set Is. \<forall>v \<in> set (iops I). has_zero v" "types_ok rt bbs"
    using Cons.prems by (auto simp: types_ok_def p)
  obtain Js k where "supported_insts lifetime rt n Is = Some (Js, k)" using supported_insts_total [OF t(1,2)] by blast
  moreover obtain bs m where "supported_blocks lifetime rt k bbs = Some (bs, m)" using Cons.IH [OF t(3)] by blast
  ultimately show ?case by (simp add: p)
qed simp

lemma supported_blocks_names: "supported_blocks lifetime rt n bbs = Some (bbs', m) \<Longrightarrow> map fst bbs' = map fst bbs"
  by (induction lifetime rt n bbs arbitrary: bbs' m rule: supported_blocks.induct) (auto split: option.splits)

text \<open>
  C22. The removal of what the target lacks is a refinement. The pass succeeds on every function
  whose types have a zero, leaves no lifetime marker, no \<open>unreachable\<close> and no operand that is
  \<open>undef\<close>, and every run of the old function that does not reach undefined behaviour is one of
  the new function, with the same result and state, where the markers do nothing and each
  \<open>undef\<close> takes the value zero.
\<close>

theorem remove_unsupported_keeps_runs:
  assumes "types_ok rt (fn_ir_blocks F)" "source_ok lifetime (fn_ir_blocks F)" "undef_is_zero cv" "markers_do_nothing lifetime ext"
  shows "\<exists>F' m. RemoveUnsupportedOps lifetime rt n F = Some (F', m) \<and>
    (\<forall>bb \<in> set (fn_ir_blocks F'). \<forall>J \<in> set (snd bb). supported lifetime J) \<and>
    (\<forall>f s. run_main (exec_inst ext) cv inc (fn_ir_blocks F) f s \<noteq> Stuck \<longrightarrow>
       run_main (exec_inst ext) cv inc (fn_ir_blocks F') f s = run_main (exec_inst ext) cv inc (fn_ir_blocks F) f s)"
proof -
  obtain bbs m where b: "supported_blocks lifetime rt n (fn_ir_blocks F) = Some (bbs, m)"
    using supported_blocks_total [OF assms(1)] by blast
  show ?thesis
    using b supported_blocks_supported [OF b] supported_run_main [OF b assms(2,3) exec_inst_skips [OF assms(4)]]
    by (simp add: RemoveUnsupportedOps_def)
qed

text \<open>An instance: a sum with an undefined value between two markers, and a branch that is not taken.\<close>

definition marked_function :: ir_function where
  "marked_function =
     (let x = Inst 2 (OpBin Add) ''x'' (TInt 64) [VInt 64 7, VUndef (TInt 64)]
      in \<lparr> fn_ir_name = ''f'', fn_ir_args = [], fn_ir_blocks =
        [(''entry'', [Inst 1 (OpCall ''llvm.lifetime.start.p0i8'') [] TVoid [VInt 64 8], x, Inst 3 (OpBr [''a'', ''b'']) [] TVoid [VInst x]]),
         (''a'', [Inst 4 (OpCall ''llvm.lifetime.end.p0i8'') [] TVoid [VInt 64 8], Inst 5 OpRet [] TVoid [VInst x]]),
         (''b'', [Inst 6 OpUnreachable [] TVoid []])] \<rparr>)"

theorem remove_unsupported_keeps_runs_witness:
  "\<exists>F' m. RemoveUnsupportedOps (\<lambda>f. take 14 f = ''llvm.lifetime.'') (TInt 64) 10 marked_function = Some (F', m) \<and>
     run_main (exec_inst (\<lambda>k t vs s. Inr (0, s))) (\<lambda>_. 0) (\<lambda>_. []) (fn_ir_blocks F') 1 (5 :: nat) = Returned [7] 5"
proof -
  let ?l = "\<lambda>f. take 14 f = ''llvm.lifetime.''"
  have "types_ok (TInt 64) (fn_ir_blocks marked_function)"
    by (simp add: types_ok_def marked_function_def has_zero_def Let_def)
  moreover have "source_ok ?l (fn_ir_blocks marked_function)"
    by (auto simp: source_ok_def marked_function_def Let_def phis_first_def is_phi_def unused_def marker_ids_def is_lifetime_def)
  moreover have "undef_is_zero (\<lambda>_. 0)" by (simp add: undef_is_zero_def)
  moreover have "markers_do_nothing ?l (\<lambda>k t vs s. Inr (0, s))" by (simp add: markers_do_nothing_def)
  moreover have "run_main (exec_inst (\<lambda>k t vs s. Inr (0, s))) (\<lambda>_. 0) (\<lambda>_. []) (fn_ir_blocks marked_function) 1 (5 :: nat) = Returned [7] 5"
    by code_simp
  ultimately show ?thesis
    using remove_unsupported_keeps_runs [of "TInt 64" marked_function ?l "\<lambda>_. 0" "\<lambda>k t vs s. Inr (0, s)" 10 "\<lambda>_. []"]
    by (metis ir_outcome.distinct(3))
qed

end
