(* ===== verification/Middle_End.thy ===== *)
theory Middle_End
  imports Remove_Unsupported_Theorems Memory_Use_Theorems
begin

text \<open>
  Two passes in the order of the driver (\<open>src/src/core/main.cpp\<close>): \<open>RemoveUnsupportedOps\<close> on every
  function, then \<open>MemUseOptimization\<close> on the module. What the first one leaves is what the second
  one asks for, so that their refinements compose.
\<close>

subsection \<open>The passes\<close>

text \<open>A function comes with its return type. The adaptor of LLVM runs a function pass on every function.\<close>

fun remove_module :: "(string \<Rightarrow> bool) \<Rightarrow> nat \<Rightarrow> (ir_function \<times> ty) list \<Rightarrow> (ir_function list \<times> nat) option" where
  "remove_module lifetime n [] = Some ([], n)"
| "remove_module lifetime n ((F, rt) # Fs) =
     (case RemoveUnsupportedOps lifetime rt n F of
        None \<Rightarrow> None
      | Some (G, m) \<Rightarrow> (case remove_module lifetime m Fs of None \<Rightarrow> None | Some (Gs, k) \<Rightarrow> Some (G # Gs, k)))"

definition middle_end :: "(string \<Rightarrow> bool) \<Rightarrow> (string list \<Rightarrow> string \<Rightarrow> string) \<Rightarrow> (string \<Rightarrow> bool) \<Rightarrow> (nat \<Rightarrow> string list) \<Rightarrow> nat \<Rightarrow>
    (ir_function \<times> ty) list \<Rightarrow> string + ir_function list \<times> (nat \<Rightarrow> string list) \<times> nat" where
  "middle_end lifetime uniq in_loop incoming n M =
     (case remove_module lifetime n M of
        None \<Rightarrow> Inl ''ConstantInt::get''
      | Some (M1, m) \<Rightarrow> MemUseOptimization uniq in_loop incoming m M1)"

subsection \<open>What the first pass leaves\<close>

lemma supported_insts_append:
  "supported_insts lifetime rt n (Is @ Js) =
     (case supported_insts lifetime rt n Is of
        None \<Rightarrow> None
      | Some (Ks, m) \<Rightarrow> (case supported_insts lifetime rt m Js of None \<Rightarrow> None | Some (Ls, k) \<Rightarrow> Some (Ks @ Ls, k)))"
  by (induction Is arbitrary: n) (auto split: option.splits)

lemma supported_all_insts:
  "supported_blocks lifetime rt n bbs = Some (bbs', m) \<Longrightarrow> supported_insts lifetime rt n (all_insts bbs) = Some (all_insts bbs', m)"
proof (induction lifetime rt n bbs arbitrary: bbs' m rule: supported_blocks.induct)
  case (2 lifetime rt n bb Is bbs)
  obtain Js k bs where h: "supported_insts lifetime rt n Is = Some (Js, k)" "supported_blocks lifetime rt k bbs = Some (bs, m)"
    "bbs' = (bb, Js) # bs" using "2.prems" by (auto split: option.splits)
  show ?case using "2.IH" [OF h(1) refl h(2)] h(1) by (simp add: h(3) all_insts_def supported_insts_append)
qed (simp add: all_insts_def)

text \<open>An instruction of the new function is an old one with new operands or a return of zero.\<close>

definition kept_from :: "(string \<Rightarrow> bool) \<Rightarrow> inst list \<Rightarrow> inst \<Rightarrow> bool" where
  "kept_from lifetime Is J \<longleftrightarrow> (\<exists>I \<in> set Is. \<not> is_lifetime lifetime I \<and> zero_operands I = Some J)"

lemma zero_operands_Some:
  assumes "zero_operands I = Some J"
  shows "iid J = iid I" "iop J = iop I" "ity J = ity I" "iops J = map zero_value (iops I)"
  using assms by (auto simp: zero_operands_def split: if_splits)

lemma return_zero_Some:
  assumes "return_zero rt n = Some R"
  shows "iid R = n" "iop R = OpRet" "ity R = TVoid" "\<forall>J. VInst J \<notin> set (iops R)"
  using assms by (cases rt; auto simp: return_zero_def split: if_splits)+

lemma supported_inst_cases:
  assumes "supported_inst lifetime rt n I = Some (js, m)"
  obtains "is_lifetime lifetime I" "js = []" "m = n"
  | R where "iop I = OpUnreachable" "return_zero rt n = Some R" "js = [R]" "m = n + 1"
  | J where "\<not> is_lifetime lifetime I" "iop I \<noteq> OpUnreachable" "zero_operands I = Some J" "js = [J]" "m = n"
proof (cases "is_lifetime lifetime I")
  case True
  then show thesis using assms by (intro that(1)) (simp_all add: supported_inst_def)
next
  case False
  show thesis
  proof (cases "iop I = OpUnreachable")
    case True
    then obtain R where "return_zero rt n = Some R" "js = [R]" "m = n + 1" using assms False by (auto simp: supported_inst_def)
    then show thesis using True by (intro that(2))
  next
    case other: False
    then obtain J where "zero_operands I = Some J" "js = [J]" "m = n" using assms False by (auto simp: supported_inst_def)
    then show thesis using other False by (intro that(3))
  qed
qed

lemma supported_ids:
  assumes "supported_insts lifetime rt n Is = Some (Js, m)" "distinct (map iid Is)" "\<forall>I \<in> set Is. iid I < n0" "n0 \<le> n"
  shows "n \<le> m \<and> distinct (map iid Js) \<and>
    (\<forall>J \<in> set Js. kept_from lifetime Is J \<or> n \<le> iid J \<and> iid J < m \<and> return_zero rt (iid J) = Some J)"
  using assms
proof (induction Is arbitrary: n Js)
  case (Cons I Is)
  obtain js k ks where sup: "supported_inst lifetime rt n I = Some (js, k)" "supported_insts lifetime rt k Is = Some (ks, m)" "Js = js @ ks"
    by (rule supported_Cons [OF Cons.prems(1)])
  have k: "n \<le> k" using sup(1) by (auto elim: supported_inst_cases)
  have IH: "k \<le> m" "distinct (map iid ks)"
      "\<forall>J \<in> set ks. kept_from lifetime Is J \<or> k \<le> iid J \<and> iid J < m \<and> return_zero rt (iid J) = Some J"
    using Cons.IH [OF sup(2)] Cons.prems(2-4) k by auto
  have kept: "kept_from lifetime (I # Is) J" if "kept_from lifetime Is J" for J using that by (auto simp: kept_from_def)
  have ks: "iid J \<in> iid ` set Is \<or> k \<le> iid J" if "J \<in> set ks" for J
    using IH(3) that by (auto simp: kept_from_def dest: zero_operands_Some(1))
  show ?case
  proof (cases rule: supported_inst_cases [OF sup(1)])
    case 1
    then show ?thesis using IH sup(3) kept by auto
  next
    case (2 R)
    have "iid R \<notin> iid ` set ks"
    proof
      assume "iid R \<in> iid ` set ks"
      then obtain J where J: "J \<in> set ks" "iid J = n" using return_zero_Some(1) [OF 2(2)] by auto
      from ks [OF this(1)] show False using J(2) 2(4) Cons.prems(3,4) by auto
    qed
    then show ?thesis using IH sup(3) kept 2 return_zero_Some(1) [OF 2(2)] by auto
  next
    case (3 J)
    have "iid J \<notin> iid ` set ks"
    proof
      assume "iid J \<in> iid ` set ks"
      then obtain K where K: "K \<in> set ks" "iid K = iid I" using zero_operands_Some(1) [OF 3(3)] by auto
      from ks [OF this(1)] show False using K(2) Cons.prems(2-4) k by auto
    qed
    moreover have "kept_from lifetime (I # Is) J" using 3 by (auto simp: kept_from_def)
    ultimately show ?thesis using IH sup(3) kept 3 by auto
  qed
qed simp

lemma supported_terms:
  assumes "supported_insts lifetime rt n Is = Some (Js, m)" "\<forall>I \<in> set (butlast Is). \<not> is_term (iop I)"
  shows "\<forall>J \<in> set (butlast Js). \<not> is_term (iop J)"
  using assms
proof (induction Is arbitrary: n Js)
  case (Cons I Is)
  obtain js k ks where sup: "supported_inst lifetime rt n I = Some (js, k)" "supported_insts lifetime rt k Is = Some (ks, m)" "Js = js @ ks"
    by (rule supported_Cons [OF Cons.prems(1)])
  show ?case
  proof (cases "Is = []")
    case True
    then have "ks = []" using sup(2) by simp
    then show ?thesis using sup(1,3) by (auto elim: supported_inst_cases)
  next
    case False
    then have I: "\<not> is_term (iop I)" "\<forall>I \<in> set (butlast Is). \<not> is_term (iop I)" using Cons.prems(2) by auto
    have "\<forall>J \<in> set js. \<not> is_term (iop J)"
      using I(1) by (cases rule: supported_inst_cases [OF sup(1)]) (auto simp: is_term_def dest: zero_operands_Some(2))
    moreover have "set (butlast (js @ ks)) \<subseteq> set js \<union> set (butlast ks)" by (auto simp: butlast_append dest: in_set_butlastD)
    ultimately show ?thesis using Cons.IH [OF sup(2) I(2)] sup(3) by blast
  qed
qed simp

lemma supported_phis_first:
  assumes "supported_insts lifetime rt n Is = Some (Js, m)" "phis_first Is"
  shows "phis_first Js"
proof -
  have "\<forall>J \<in> set (dropWhile is_phi Js). \<not> is_phi J"
    using assms
  proof (induction Is arbitrary: n Js)
    case (Cons I Is)
    show ?case
    proof (cases "is_phi I")
      case True
      obtain js k ks where sup: "supported_inst lifetime rt n I = Some (js, k)" "supported_insts lifetime rt k Is = Some (ks, m)" "Js = js @ ks"
        by (rule supported_Cons [OF Cons.prems(1)])
      have js: "\<forall>J \<in> set js. is_phi J"
        using True by (cases rule: supported_inst_cases [OF sup(1)]) (auto simp: is_phi_def is_lifetime_def dest: zero_operands_Some(2))
      have "phis_first Is" using Cons.prems(2) True by (simp add: phis_first_def)
      then have "\<forall>J \<in> set (dropWhile is_phi ks). \<not> is_phi J" by (rule Cons.IH [OF sup(2)])
      moreover have "dropWhile is_phi Js = dropWhile is_phi ks" unfolding sup(3) using js by (intro dropWhile_append2) blast
      ultimately show ?thesis by (simp only:)
    next
      case False
      then have "\<forall>I' \<in> set (I # Is). \<not> is_phi I'" using Cons.prems(2) by (simp add: phis_first_def)
      from supported_no_phi [OF Cons.prems(1) this] show ?thesis by (auto dest: set_dropWhileD)
    qed
  qed simp
  then show ?thesis by (simp add: phis_first_def)
qed

lemma zero_value_inst: "VInst K = zero_value v \<Longrightarrow> \<exists>J. v = VInst J \<and> iid J = iid K \<and> ity J = ity K"
proof (cases v)
  case (VUndef t)
  assume "VInst K = zero_value v"
  then show ?thesis using VUndef by (cases t) auto
next
  case (VInst J)
  assume "VInst K = zero_value v"
  then show ?thesis using VInst by (cases J) auto
qed simp_all

lemma supported_function_ok:
  assumes b: "supported_blocks lifetime rt n bbs = Some (bbs', m)" and ok: "function_ok inc n0 bbs" "n0 \<le> n"
  shows "function_ok inc m bbs'" "n \<le> m"
    "\<forall>J \<in> set (all_insts bbs'). kept_from lifetime (all_insts bbs) J \<or> n \<le> iid J \<and> iid J < m \<and> return_zero rt (iid J) = Some J"
proof -
  note f = ok(1) [unfolded function_ok_def]
  have low: "\<forall>I \<in> set (all_insts bbs). iid I < n0" using f by (simp add: inst_ok_def)
  have ids: "n \<le> m" "distinct (map iid (all_insts bbs'))"
    and from_old: "\<forall>J \<in> set (all_insts bbs'). kept_from lifetime (all_insts bbs) J \<or> n \<le> iid J \<and> iid J < m \<and> return_zero rt (iid J) = Some J"
    using supported_ids [OF supported_all_insts [OF b] _ low ok(2)] f by blast+
  show "n \<le> m" "\<forall>J \<in> set (all_insts bbs'). kept_from lifetime (all_insts bbs) J \<or> n \<le> iid J \<and> iid J < m \<and> return_zero rt (iid J) = Some J"
    by (rule ids(1), rule from_old)
  have names: "map fst bbs' = map fst bbs" by (rule supported_blocks_names [OF b])
  then have nset: "fst ` set bbs' = fst ` set bbs" by (metis list.set_map)
  have types: "\<exists>I \<in> set (all_insts bbs). iid I = iid J \<and> ity I = ity J" if "J \<in> set (all_insts bbs')" "iid J < n" for J
  proof -
    have "kept_from lifetime (all_insts bbs) J" using from_old that by (meson not_le)
    then obtain I where "I \<in> set (all_insts bbs)" "zero_operands I = Some J" by (auto simp: kept_from_def)
    then show ?thesis using zero_operands_Some(1,3) by metis
  qed
  have inst: "inst_ok inc m bbs' J" if J: "J \<in> set (all_insts bbs')" for J
  proof (cases "kept_from lifetime (all_insts bbs) J")
    case True
    then obtain I where I: "I \<in> set (all_insts bbs)" "zero_operands I = Some J" by (auto simp: kept_from_def)
    note z = zero_operands_Some [OF I(2)]
    have i: "inst_ok inc n0 bbs I" using f I(1) by blast
    have "operand_ok m (all_insts bbs') (zero_value v)" if v: "v \<in> set (iops I)" for v
    proof (cases "zero_value v")
      case (VInst K)
      then obtain L where L: "v = VInst L" "iid L = iid K" "ity L = ity K" using zero_value_inst by metis
      have "iid K < n0" "\<forall>I \<in> set (all_insts bbs). iid I = iid K \<longrightarrow> ity I = ity K \<and> ity I \<noteq> TVoid"
        using i v L by (auto simp: inst_ok_def operand_ok_def)
      then show ?thesis using VInst types ids(1) ok(2) by (fastforce simp: operand_ok_def)
    qed (simp_all add: operand_ok_def)
    then show ?thesis using i z ids(1) ok(2) nset by (auto simp: inst_ok_def is_phi_def)
  next
    case False
    then have R: "iid J < m" "return_zero rt (iid J) = Some J" using from_old J by blast+
    note r = return_zero_Some [OF R(2)]
    have "operand_ok m (all_insts bbs') v" if "v \<in> set (iops J)" for v
      using r(4) that by (cases v) (auto simp: operand_ok_def)
    then show ?thesis using R(1) r(2) by (simp add: inst_ok_def targets_of_def is_phi_def)
  qed
  have "block_ok Js" if "(t, Js) \<in> set bbs'" for t Js
  proof -
    have "map_of bbs' t = Some Js" using that f unfolding names [symmetric] by (metis map_of_is_SomeI)
    then obtain Is k l where I: "map_of bbs t = Some Is" "supported_insts lifetime rt k Is = Some (Js, l)"
      using supported_block_of [OF b, of t] by (auto split: option.splits)
    have "\<forall>bb \<in> set bbs. block_ok (snd bb)" using f by blast
    then have "block_ok Is" using map_of_SomeD [OF I(1)] by (metis snd_conv)
    then have Is: "phis_first Is" "\<forall>I \<in> set (butlast Is). \<not> is_term (iop I)" by (simp_all add: block_ok_def phis_first_def)
    show ?thesis using supported_terms [OF I(2) Is(2)] supported_phis_first [OF I(2) Is(1)]
      unfolding block_ok_def phis_first_def by blast
  qed
  then have "\<forall>bb \<in> set bbs'. block_ok (snd bb)" by (metis prod.collapse)
  moreover have "distinct (map fst bbs')" using f by (simp only: names)
  ultimately show "function_ok inc m bbs'" unfolding function_ok_def using ids(2) inst by blast
qed

lemma function_ok_mono:
  assumes "function_ok inc n bbs" "n \<le> m" shows "function_ok inc m bbs"
proof -
  note f = assms(1) [unfolded function_ok_def]
  have "inst_ok inc m bbs I" if "I \<in> set (all_insts bbs)" for I
  proof -
    have i: "inst_ok inc n bbs I" using f that by blast
    then have "operand_ok m (all_insts bbs) v" if "v \<in> set (iops I)" for v
      using that assms(2) by (cases v) (auto simp: inst_ok_def operand_ok_def)
    then show ?thesis using i assms(2) by (simp add: inst_ok_def)
  qed
  then show ?thesis using f unfolding function_ok_def by blast
qed

subsection \<open>What the second pass asks for\<close>

definition markers_void :: "(string \<Rightarrow> bool) \<Rightarrow> ir_block list \<Rightarrow> bool" where
  "markers_void lifetime bbs \<longleftrightarrow> (\<forall>I \<in> set (all_insts bbs). is_lifetime lifetime I \<longrightarrow> ity I = TVoid)"

lemma function_source_ok:
  assumes f: "function_ok inc n bbs" and void: "markers_void lifetime bbs"
  shows "source_ok lifetime bbs"
  unfolding source_ok_def
proof (intro ballI conjI)
  fix bb assume bb: "bb \<in> set bbs"
  then show "phis_first (snd bb)" using f by (simp add: function_ok_def block_ok_def phis_first_def)
  show "unused (marker_ids lifetime bbs) (snd bb)" unfolding unused_def
  proof (intro ballI)
    fix I v assume I: "I \<in> set (snd bb)" "v \<in> set (iops I)"
    then have "I \<in> set (all_insts bbs)" using bb by (auto simp: all_insts_def)
    then have o: "operand_ok n (all_insts bbs) v" using f I(2) by (simp add: function_ok_def inst_ok_def)
    show "case v of VInst J \<Rightarrow> iid J \<notin> marker_ids lifetime bbs | _ \<Rightarrow> True"
    proof (cases v)
      case (VInst J)
      have "iid J \<notin> marker_ids lifetime bbs"
      proof
        assume "iid J \<in> marker_ids lifetime bbs"
        then obtain K where K: "is_lifetime lifetime K" "K \<in> set (all_insts bbs)" "iid K = iid J"
          unfolding marker_ids_def all_insts_def by fastforce
        then have "ity K = TVoid" using void by (simp add: markers_void_def)
        moreover have "ity K \<noteq> TVoid" using o K(2,3) VInst unfolding operand_ok_def by auto
        ultimately show False by simp
      qed
      then show ?thesis using VInst by simp
    qed simp_all
  qed
qed

lemma supported_main_ok:
  assumes r: "RemoveUnsupportedOps lifetime rt n F = Some (G, m)" and ok: "main_ok inc n0 F" "n0 \<le> n" "m \<le> k"
  shows "main_ok inc k G"
proof -
  obtain bbs where b: "supported_blocks lifetime rt n (fn_ir_blocks F) = Some (bbs, m)" and G: "G = F\<lparr>fn_ir_blocks := bbs\<rparr>"
    using r by (auto simp: RemoveUnsupportedOps_def)
  have f: "function_ok inc n0 (fn_ir_blocks F)" using ok(1) by (simp add: main_ok_def)
  note s = supported_function_ok [OF b f ok(2)]
  have "entry_ok bbs"
  proof (cases "fn_ir_blocks F")
    case Nil
    then show ?thesis using b by (simp add: entry_ok_def)
  next
    case (Cons p rest)
    obtain t Is where p: "p = (t, Is)" by (cases p)
    obtain Js l rest' where J: "supported_insts lifetime rt n Is = Some (Js, l)" "bbs = (t, Js) # rest'"
      using b by (auto simp: Cons p split: option.splits)
    have "\<forall>I \<in> set Is. \<not> is_phi I" using ok(1) by (simp add: main_ok_def entry_ok_def Cons p)
    from supported_no_phi [OF J(1) this] show ?thesis by (simp add: J(2) entry_ok_def)
  qed
  moreover have "(iop J = OpCall ''malloc'' \<longrightarrow> malloc_call J) \<and> (iop J = OpCall ''free'' \<longrightarrow> free_call J)" if J: "J \<in> set (all_insts bbs)" for J
  proof (cases "kept_from lifetime (all_insts (fn_ir_blocks F)) J")
    case True
    then obtain I where I: "I \<in> set (all_insts (fn_ir_blocks F))" "zero_operands I = Some J" by (auto simp: kept_from_def)
    then have "(iop I = OpCall ''malloc'' \<longrightarrow> malloc_call I) \<and> (iop I = OpCall ''free'' \<longrightarrow> free_call I)"
      using ok(1) unfolding main_ok_def by blast
    then show ?thesis using zero_operands_Some [OF I(2)] by (simp add: malloc_call_def free_call_def)
  next
    case False
    then have "return_zero rt (iid J) = Some J" using s(3) J by blast
    from return_zero_Some(2) [OF this] show ?thesis by simp
  qed
  ultimately show ?thesis using function_ok_mono [OF s(1) ok(3)] by (simp add: main_ok_def G)
qed

lemma supported_counts: "supported_insts lifetime rt n Is = Some (Js, m) \<Longrightarrow> n \<le> m"
proof (induction Is arbitrary: n Js)
  case (Cons I Is)
  obtain js k ks where sup: "supported_inst lifetime rt n I = Some (js, k)" "supported_insts lifetime rt k Is = Some (ks, m)"
    by (rule supported_Cons [OF Cons.prems])
  have "n \<le> k" using sup(1) by (auto elim: supported_inst_cases)
  then show ?case using Cons.IH [OF sup(2)] by simp
qed simp

lemma RemoveUnsupportedOps_counts: "RemoveUnsupportedOps lifetime rt n F = Some (G, m) \<Longrightarrow> n \<le> m \<and> fn_ir_name G = fn_ir_name F"
  by (auto simp: RemoveUnsupportedOps_def dest!: supported_all_insts supported_counts)

lemma remove_module_names: "remove_module lifetime n M = Some (M1, m) \<Longrightarrow> map fn_ir_name M1 = map (fn_ir_name \<circ> fst) M \<and> n \<le> m"
proof (induction lifetime n M arbitrary: M1 m rule: remove_module.induct)
  case (2 lifetime n F rt Fs)
  obtain G k Gs where h: "RemoveUnsupportedOps lifetime rt n F = Some (G, k)" "remove_module lifetime k Fs = Some (Gs, m)" "M1 = G # Gs"
    using "2.prems" by (auto split: option.splits)
  show ?case using "2.IH" [OF h(1) refl h(2)] RemoveUnsupportedOps_counts [OF h(1)] h(3) by simp
qed simp

lemma remove_module_function:
  assumes "remove_module lifetime n M = Some (M1, m)" "(F, rt) \<in> set M"
  shows "\<exists>G \<in> set M1. \<exists>k l. RemoveUnsupportedOps lifetime rt k F = Some (G, l) \<and> n \<le> k \<and> l \<le> m"
  using assms
proof (induction lifetime n M arbitrary: M1 m rule: remove_module.induct)
  case (2 lifetime n F' rt' Fs)
  obtain G k Gs where h: "RemoveUnsupportedOps lifetime rt' n F' = Some (G, k)" "remove_module lifetime k Fs = Some (Gs, m)" "M1 = G # Gs"
    using "2.prems"(1) by (auto split: option.splits)
  have c: "n \<le> k" "k \<le> m" using RemoveUnsupportedOps_counts [OF h(1)] remove_module_names [OF h(2)] by simp_all
  show ?case
  proof (cases "(F, rt) = (F', rt')")
    case True
    then show ?thesis using h(1,3) c(2) by auto
  next
    case False
    then have "(F, rt) \<in> set Fs" using "2.prems"(2) by auto
    from "2.IH" [OF h(1) refl h(2) this] show ?thesis using c(1) h(3) by fastforce
  qed
qed simp

text \<open>Calls of the new function are calls of the old one, and none of them is a marker.\<close>

lemma call_kept:
  assumes r: "RemoveUnsupportedOps lifetime rt n F = Some (G, m)" and ok: "function_ok inc n0 (fn_ir_blocks F)" "n0 \<le> n"
    and J: "J \<in> set (all_insts (fn_ir_blocks G))" "iop J = OpCall f"
  shows "(\<exists>I \<in> set (all_insts (fn_ir_blocks F)). iid I = iid J \<and> iop I = OpCall f) \<and>
    (\<forall>K \<in> set (all_insts (fn_ir_blocks F)). is_lifetime lifetime K \<longrightarrow> iid K \<noteq> iid J)"
proof -
  obtain bbs where b: "supported_blocks lifetime rt n (fn_ir_blocks F) = Some (bbs, m)" and G: "G = F\<lparr>fn_ir_blocks := bbs\<rparr>"
    using r by (auto simp: RemoveUnsupportedOps_def)
  have "kept_from lifetime (all_insts (fn_ir_blocks F)) J \<or> return_zero rt (iid J) = Some J"
    using supported_function_ok(3) [OF b ok] J(1) G by auto
  then have "kept_from lifetime (all_insts (fn_ir_blocks F)) J" using J(2) return_zero_Some(2) by fastforce
  then obtain I where I: "I \<in> set (all_insts (fn_ir_blocks F))" "\<not> is_lifetime lifetime I" "zero_operands I = Some J"
    by (auto simp: kept_from_def)
  have "inj_on iid (set (all_insts (fn_ir_blocks F)))" using ok(1) by (simp add: function_ok_def distinct_map)
  then have "K = I" if "K \<in> set (all_insts (fn_ir_blocks F))" "iid K = iid J" for K
    using that I(1) zero_operands_Some(1) [OF I(3)] by (auto dest: inj_onD)
  then show ?thesis using I zero_operands_Some(1,2) [OF I(3)] J(2) by auto
qed

lemma guarded_skips:
  assumes ext: "markers_do_nothing lifetime ext"
    and apart: "\<forall>K \<in> set (all_insts bbs). is_lifetime lifetime K \<longrightarrow> iid K \<notin> set ms \<union> set fs"
  shows "skips_markers lifetime bbs (guarded_step ext ms fs)"
proof -
  have "guarded_step ext ms fs I = guarded_step ext ms fs J" if "iid I = iid J" "iop I = iop J" "ity I = ity J" for I J
    using that by (simp add: guarded_step_def fun_eq_iff)
  moreover have "\<exists>x. guarded_step ext ms fs I vs s = Inr (x, s)" if bb: "bb \<in> set bbs" "I \<in> set (snd bb)" "is_lifetime lifetime I" for bb I vs s
  proof -
    have "I \<in> set (all_insts bbs)" using bb by (auto simp: all_insts_def)
    then have no: "iid I \<notin> set ms" "iid I \<notin> set fs" using apart bb(3) by auto
    obtain f where f: "iop I = OpCall f" "lifetime f" using bb(3) by (auto simp: is_lifetime_def split: opcode.splits)
    then show ?thesis using ext no by (auto simp: guarded_step_def exec_op_def markers_do_nothing_def)
  qed
  ultimately show ?thesis unfolding skips_markers_def by blast
qed

text \<open>The second pass finds the same calls as in the old module.\<close>

lemma calls_of_supported:
  assumes "supported_insts lifetime rt n Is = Some (Js, m)" "\<not> lifetime f"
  shows "calls_of f Js = calls_of f Is"
  using assms(1)
proof (induction Is arbitrary: n Js)
  case (Cons I Is)
  obtain js k ks where sup: "supported_inst lifetime rt n I = Some (js, k)" "supported_insts lifetime rt k Is = Some (ks, m)" "Js = js @ ks"
    by (rule supported_Cons [OF Cons.prems])
  have "calls_of f js = calls_of f [I]"
  proof (cases rule: supported_inst_cases [OF sup(1)])
    case 1
    then show ?thesis using assms(2) by (auto simp: calls_of_def isCallInstOfThis_def is_lifetime_def)
  next
    case (2 R)
    then show ?thesis using return_zero_Some(2) [OF 2(2)] by (simp add: calls_of_def isCallInstOfThis_def)
  next
    case (3 J)
    then show ?thesis using zero_operands_Some(1,2) [OF 3(3)] by (simp add: calls_of_def isCallInstOfThis_def)
  qed
  moreover have "calls_of f (js @ ks) = calls_of f js @ calls_of f ks" "calls_of f (I # Is) = calls_of f [I] @ calls_of f Is"
    by (simp_all add: calls_of_def)
  ultimately show ?case using Cons.IH [OF sup(2)] sup(3) by simp
qed simp

lemma candidates_main_supported:
  assumes "supported_blocks lifetime rt n bbs = Some (bbs', m)" "\<not> lifetime ''malloc''" "\<not> lifetime ''free''"
  shows "candidates_main in_loop bbs' = candidates_main in_loop bbs \<and> map (calls_of ''free'' \<circ> snd) bbs' = map (calls_of ''free'' \<circ> snd) bbs"
  using assms
proof (induction lifetime rt n bbs arbitrary: bbs' m rule: supported_blocks.induct)
  case (2 lifetime rt n bb Is bbs)
  obtain Js k bs where h: "supported_insts lifetime rt n Is = Some (Js, k)" "supported_blocks lifetime rt k bbs = Some (bs, m)"
    "bbs' = (bb, Js) # bs" using "2.prems"(1) by (auto split: option.splits)
  show ?case
    using "2.IH" [OF h(1) refl h(2) "2.prems"(2,3)] calls_of_supported [OF h(1) "2.prems"(2)] calls_of_supported [OF h(1) "2.prems"(3)]
    by (simp add: h(3) split: option.splits)
qed simp

lemma candidates_removed:
  assumes "remove_module lifetime n M = Some (M1, m)" "\<not> lifetime ''malloc''" "\<not> lifetime ''free''"
  shows "candidates in_loop M1 = candidates in_loop (map fst M)"
  using assms
proof (induction lifetime n M arbitrary: M1 m rule: remove_module.induct)
  case (2 lifetime n F rt Fs)
  obtain G k Gs where h: "RemoveUnsupportedOps lifetime rt n F = Some (G, k)" "remove_module lifetime k Fs = Some (Gs, m)" "M1 = G # Gs"
    using "2.prems"(1) by (auto split: option.splits)
  obtain bbs where b: "supported_blocks lifetime rt n (fn_ir_blocks F) = Some (bbs, k)" and G: "G = F\<lparr>fn_ir_blocks := bbs\<rparr>"
    using h(1) by (auto simp: RemoveUnsupportedOps_def)
  note c = candidates_main_supported [OF b "2.prems"(2,3), of in_loop]
  have "(\<exists>bb \<in> set xs. calls_of ''free'' (snd bb) \<noteq> []) \<longleftrightarrow> (\<exists>y \<in> set (map (calls_of ''free'' \<circ> snd) xs). y \<noteq> [])" for xs :: "ir_block list" by simp
  then have "(\<exists>bb \<in> set bbs. calls_of ''free'' (snd bb) \<noteq> []) \<longleftrightarrow> (\<exists>bb \<in> set (fn_ir_blocks F). calls_of ''free'' (snd bb) \<noteq> [])"
    using c by (simp only:)
  moreover have "candidates in_loop Gs = candidates in_loop (map fst Fs)" by (rule "2.IH" [OF h(1) refl h(2) "2.prems"(2,3)])
  moreover have "fn_ir_name G = fn_ir_name F" "fn_ir_blocks G = bbs" by (simp_all add: G)
  ultimately show ?case using c by (simp only: h(3) list.map fst_conv candidates.simps)
qed simp


text \<open>An instance: an allocation between two markers, in which an undefined byte is stored.\<close>

definition marked_main :: ir_function where
  "marked_main = \<lparr> fn_ir_name = ''main'', fn_ir_args = [], fn_ir_blocks =
     [(''entry'', [Inst 5 (OpCall ''llvm.lifetime.start.p0i8'') [] TVoid [], sample_malloc,
        Inst 2 OpStore [] TVoid [VUndef (TInt 8), VInst sample_malloc], Inst 3 (OpCall ''free'') [] TVoid [VInst sample_malloc],
        Inst 6 (OpCall ''llvm.lifetime.end.p0i8'') [] TVoid [], Inst 4 OpRet [] TVoid []])] \<rparr>"

definition lifetime_name :: "string \<Rightarrow> bool" where "lifetime_name f = (take 14 f = ''llvm.lifetime.'')"

definition counting_ext :: "nat external" where
  "counting_ext k t vs s = (case k of OpCall f \<Rightarrow> if lifetime_name f then Inr (0, s) else Inr (10240, s + 1) | _ \<Rightarrow> Inr (10240, s + 1))"


end
