(* ===== verification/Driver.thy ===== *)
theory Driver
  imports Depromote_Module
begin

text \<open>
  The driver of the compiler (\<open>src/src/core/main.cpp\<close>): the names of the passes that
  \<open>-except\<close> leaves out, and the passes in the order they run; and the check of the module
  before the passes of the repository (\<open>src/src/passes/CheckConstExpr.cpp\<close>).

  The lengths of command line arguments fit into an \<open>int\<close>.
\<close>

subsection \<open>The list of excepted passes\<close>

text \<open>\<open>std::string::substr\<close>; a negative length becomes a large \<open>size_t\<close> and takes the rest.\<close>

definition substr :: "string \<Rightarrow> nat \<Rightarrow> int \<Rightarrow> string" where
  "substr s pos len = (if len < 0 then drop pos s else take (nat len) (drop pos s))"

fun split_from :: "string \<Rightarrow> nat list \<Rightarrow> nat \<Rightarrow> string list" where
  "split_from s [] prv = [substr s prv (int (length s) - int prv)]"
| "split_from s (i # is) prv =
     (if s ! i = CHR '',''
      then substr s prv (int i - int prv - 1) # split_from s is (i + 1)
      else split_from s is prv)"

definition split :: "string \<Rightarrow> string list" where
  "split s = split_from s [0..<length s - 1] 0"

definition excepted :: "bool \<Rightarrow> string \<Rightarrow> string list \<Rightarrow> bool" where
  "excepted no_pass c xs = (no_pass \<or> c \<in> set xs)"

subsection \<open>The passes\<close>

datatype pass = BuiltinOpt string | FunctionPass string | ModulePass string

definition loop_passes :: "pass list" where
  "loop_passes = map BuiltinOpt
     [''-loop-deletion -lcssa -loop-distribute'',
      ''-loop-unswitch -loop-data-prefetch -loop-idiom -loop-load-elim -loop-predication -loop-versioning -loop-simplifycfg'',
      ''-loop-unroll -unroll-runtime -unroll-count=8 -unroll-remainder -unroll-threshold=100 -loop-rotate -loop-interchange'',
      ''-instcombine -loop-instsimplify -instcombine'']"

definition unless_excepted :: "bool \<Rightarrow> string list \<Rightarrow> string \<Rightarrow> pass list \<Rightarrow> pass list" where
  "unless_excepted no_pass xs c ps = (if excepted no_pass c xs then [] else ps)"

definition pipeline :: "bool \<Rightarrow> string \<Rightarrow> pass list" where
  "pipeline no_pass arg =
     (let xs = split arg; unless = unless_excepted no_pass xs in
      [BuiltinOpt ''-gvn -gvn-hoist -gvn-sink -simplifycfg -tailcallelim -inline''] @
      unless ''LoopOptimization'' loop_passes @
      [FunctionPass ''SROA'', FunctionPass ''ADCEPass''] @
      unless ''InstCombinePass'' [FunctionPass ''InstCombinePass''] @
      [FunctionPass ''RemoveUnsupportedOps''] @
      unless ''CheckConstExpr'' [ModulePass ''CheckConstExpr''] @
      unless ''MemUseOptimization'' [ModulePass ''MemUseOptimization''] @
      unless ''ReorderMemAccess'' [ModulePass ''ReorderMemAccess''] @
      unless ''WeirdArithmetic'' [ModulePass ''WeirdArithmetic''] @
      [ModulePass ''Backend''])"

definition output_file :: "string \<Rightarrow> string" where
  "output_file s = (if s = [] then ''a.s'' else s)"

subsection \<open>CheckConstExpr\<close>

text \<open>
  \<open>M.globals()\<close> are the global variables; the branch of the loop for functions is never taken.
  Which variables have an initializer is a parameter.
\<close>

fun CheckConstExpr :: "(string \<Rightarrow> bool) \<Rightarrow> global_object list \<Rightarrow> unit checked" where
  "CheckConstExpr has_initializer [] = Inr ()"
| "CheckConstExpr has_initializer (Func F t # gs) = CheckConstExpr has_initializer gs"
| "CheckConstExpr has_initializer (Global g t # gs) =
     (if has_initializer g then Inl ''ERROR: Global variables should not have initializers!''
      else CheckConstExpr has_initializer gs)"

subsection \<open>What split returns\<close>

fun join :: "string list \<Rightarrow> string" where
  "join [] = []"
| "join [n] = n"
| "join (n # ns) = n @ CHR '','' # join ns"

definition names_ok :: "string list \<Rightarrow> bool" where
  "names_ok ns \<longleftrightarrow> ns \<noteq> [] \<and> (\<forall>n \<in> set ns. n \<noteq> [] \<and> CHR '','' \<notin> set n)"

lemma split_from_skip:
  "\<lbrakk> \<forall>k \<in> set is. s ! k \<noteq> CHR '','' \<rbrakk> \<Longrightarrow> split_from s (is @ js) prv = split_from s js prv"
  by (induction "is") auto

lemma join_nonempty: "names_ok ns \<Longrightarrow> join ns \<noteq> []"
  by (cases ns rule: join.cases) (auto simp: names_ok_def)

lemma split_from_join:
  assumes "names_ok ns"
  shows "split_from (pre @ join ns) [length pre..<length (pre @ join ns) - 1] (length pre) = map butlast (butlast ns) @ [last ns]"
  using assms
proof (induction ns arbitrary: pre rule: join.induct)
  case (2 n)
  have "\<forall>k \<in> set [length pre..<length (pre @ n) - 1]. (pre @ n) ! k \<noteq> CHR '',''"
    using 2 by (auto simp: names_ok_def nth_append in_set_conv_nth)
  from split_from_skip [OF this, of "[]"] show ?case by (simp add: substr_def)
next
  case (3 n m ns)
  let ?rest = "join (m # ns)" and ?p = "length pre"
  let ?s = "pre @ n @ CHR '','' # ?rest" and ?q = "length pre + length n"
  have ok: "names_ok (m # ns)" "n \<noteq> []" "CHR '','' \<notin> set n" using 3(2) by (simp_all add: names_ok_def)
  have long: "?q < length ?s - 1" using join_nonempty [OF ok(1)] by (cases ?rest) simp_all
  have "[?p..<?q + (length ?s - 1 - ?q)] = [?p..<?q] @ [?q..<?q + (length ?s - 1 - ?q)]" by (rule upt_add_eq_append) simp
  moreover have "?q + (length ?s - 1 - ?q) = length ?s - 1" using long by simp
  ultimately have "[?p..<length ?s - 1] = [?p..<?q] @ ?q # [Suc ?q..<length ?s - 1]"
    using long by (simp only: upt_conv_Cons)
  moreover have "\<forall>k \<in> set [?p..<?q]. ?s ! k \<noteq> CHR '',''"
    using ok(3) by (auto simp: nth_append in_set_conv_nth)
  moreover have len: "nat (int (length n) - 1) = length n - Suc 0" by arith
  ultimately have "split_from ?s [?p..<length ?s - 1] ?p = split_from ?s (?q # [Suc ?q..<length ?s - 1]) ?p"
    by (simp only: split_from_skip)
  also have "\<dots> = butlast n # split_from ?s [Suc ?q..<length ?s - 1] (Suc ?q)"
    using ok(2) len by (simp add: nth_append substr_def butlast_conv_take)
  also have "split_from ?s [Suc ?q..<length ?s - 1] (Suc ?q) = map butlast (butlast (m # ns)) @ [last (m # ns)]"
    using "3.IH" [OF ok(1), of "pre @ n @ [CHR '','']"] by simp
  finally show ?case by simp
qed (simp add: names_ok_def)

lemma split_join: "names_ok ns \<Longrightarrow> split (join ns) = map butlast (butlast ns) @ [last ns]"
  using split_from_join [of ns "[]"] by (simp add: split_def)

subsection \<open>The passes left out\<close>

definition pass_names :: "string list" where
  "pass_names = [''LoopOptimization'', ''InstCombinePass'', ''CheckConstExpr'', ''MemUseOptimization'', ''ReorderMemAccess'', ''WeirdArithmetic'']"

definition passes_named :: "string \<Rightarrow> pass list" where
  "passes_named n =
     (if n = ''LoopOptimization'' then loop_passes
      else if n = ''InstCombinePass'' then [FunctionPass n] else [ModulePass n])"

lemma pass_names_ok: "\<lbrakk> ns \<noteq> []; set ns \<subseteq> set pass_names \<rbrakk> \<Longrightarrow> names_ok ns"
  by (auto simp: names_ok_def pass_names_def)

lemma butlast_no_pass: "n \<in> set pass_names \<Longrightarrow> butlast n \<notin> set pass_names"
  by (auto simp: pass_names_def)

lemma excepted_join:
  assumes "ns \<noteq> []" "set ns \<subseteq> set pass_names" "c \<in> set pass_names"
  shows "excepted False c (split (join ns)) \<longleftrightarrow> c = last ns"
proof -
  have "c \<notin> butlast ` set (butlast ns)" using butlast_no_pass assms(2,3) by (auto dest: in_set_butlastD)
  then show ?thesis by (simp add: excepted_def split_join [OF pass_names_ok [OF assms(1,2)]])
qed

definition pipeline_but :: "string \<Rightarrow> pass list" where
  "pipeline_but n =
     (let unless = (\<lambda>c ps. if c = n then [] else ps) in
      [BuiltinOpt ''-gvn -gvn-hoist -gvn-sink -simplifycfg -tailcallelim -inline''] @
      unless ''LoopOptimization'' loop_passes @
      [FunctionPass ''SROA'', FunctionPass ''ADCEPass''] @
      unless ''InstCombinePass'' [FunctionPass ''InstCombinePass''] @
      [FunctionPass ''RemoveUnsupportedOps''] @
      unless ''CheckConstExpr'' [ModulePass ''CheckConstExpr''] @
      unless ''MemUseOptimization'' [ModulePass ''MemUseOptimization''] @
      unless ''ReorderMemAccess'' [ModulePass ''ReorderMemAccess''] @
      unless ''WeirdArithmetic'' [ModulePass ''WeirdArithmetic''] @
      [ModulePass ''Backend''])"

lemma pipeline_but:
  assumes "n \<in> set pass_names"
  shows "pipeline_but n = filter (\<lambda>p. p \<notin> set (passes_named n)) (pipeline False [])"
proof -
  have "list_all (\<lambda>n. pipeline_but n = filter (\<lambda>p. p \<notin> set (passes_named n)) (pipeline False [])) pass_names" by code_simp
  then show ?thesis using assms by (simp only: list_all_iff)
qed



end
