(* ===== verification/Spec2Isabelle.thy ===== *)
theory Spec2Isabelle
  imports Memory_Theorems Interpreter Weird_Arithmetic Register_Allocator_Props Reorder_Theorems Emitter_Theorems
    Depromote_Faults Depromote_Casts Depromote_Globals Register_Names Pack_Types
    Memory_Use_Theorems Backend_Run_Theorems Middle_End Driver
begin

text \<open>
  A verification development for the assembly interpreter and the compiler of the repository.
\<close>

end
